(* ===== verification/Prelude.thy ===== *)
theory Prelude
  imports Main "HOL-Library.Word"
begin

text \<open>
  Shared vocabulary of the development: the machine integer types of the Rust code, the
  byte-addressed memory that raw pointers walk over, little- and big-endian integer codecs,
  and the generic lemmas on them that the component theories use through \<open>mem_simps\<close>.
  The program is built in release mode, so machine arithmetic wraps; it is modelled on words.
\<close>

unbundle bit_operations_syntax

type_synonym u8 = "8 word"
type_synonym u16 = "16 word"
type_synonym u32 = "32 word"
type_synonym u64 = "64 word"
type_synonym i16 = "16 word"
type_synonym i32 = "32 word"

named_theorems mem_simps "reads and writes of the raw memory"

section \<open>Raw memory\<close>

type_synonym mem = "nat \<Rightarrow> u8"

definition rd :: "mem \<Rightarrow> nat \<Rightarrow> nat \<Rightarrow> u8 list" where
  "rd m a n = map m [a ..< a + n]"

fun wr :: "nat \<Rightarrow> u8 list \<Rightarrow> mem \<Rightarrow> mem" where
  "wr a [] m = m"
| "wr a (b # bs) m = wr (Suc a) bs (m(a := b))"

lemma length_rd [simp]: "length (rd m a n) = n"
  by (simp add: rd_def)

lemma rd_0 [simp]: "rd m a 0 = []"
  by (simp add: rd_def)

lemma rd_1: "rd m a (Suc 0) = [m a]"
  by (simp add: rd_def)

lemma nth_rd [simp]: "i < n \<Longrightarrow> rd m a n ! i = m (a + i)"
  by (simp add: rd_def)

lemma wr_apply [mem_simps]:
  "wr a bs m x = (if a \<le> x \<and> x < a + length bs then bs ! (x - a) else m x)"
proof (induction a bs m rule: wr.induct)
  case (1 a m)
  show ?case by auto
next
  case (2 a b bs m)
  show ?case
    by (simp only: wr.simps 2) (auto simp: nth_Cons' Suc_diff_Suc)
qed

lemma rd_add: "rd m a (n + k) = rd m a n @ rd m (a + n) k"
  by (rule nth_equalityI) (auto simp: nth_append)

lemma rd_Suc: "rd m a (Suc n) = rd m a n @ [m (a + n)]"
  using rd_add [of m a n "Suc 0"] by (simp add: rd_1)

lemma rd_cong: "(\<And>i. i < n \<Longrightarrow> m (a + i) = m' (a + i)) \<Longrightarrow> rd m a n = rd m' a n"
  by (rule nth_equalityI) auto

lemma rd_wr_same [mem_simps]: "rd (wr a bs m) a (length bs) = bs"
  by (rule nth_equalityI) (auto simp: mem_simps)

lemma rd_wr_disjoint [mem_simps]:
  "a + n \<le> b \<or> b + length bs \<le> a \<Longrightarrow> rd (wr b bs m) a n = rd m a n"
  by (rule rd_cong) (auto simp: mem_simps)

lemma rd_wr_after [mem_simps]:
  "rd (wr (a + n) bs m) a (n + length bs) = rd m a n @ bs"
  by (simp add: rd_add mem_simps)

lemma wr_single: "wr a [b] m = m(a := b)"
  by simp

lemma rd_upd_after: "rd (m(a + n := b)) a (Suc n) = rd m a n @ [b]"
  using rd_wr_after [of a n "[b]" m] by simp

section \<open>Integer codecs\<close>

definition le16 :: "u16 \<Rightarrow> u8 list" where
  "le16 v = [ucast v, ucast (drop_bit 8 v)]"

definition be16 :: "u16 \<Rightarrow> u8 list" where
  "be16 v = [ucast (drop_bit 8 v), ucast v]"

definition le32 :: "u32 \<Rightarrow> u8 list" where
  "le32 v = [ucast v, ucast (drop_bit 8 v), ucast (drop_bit 16 v), ucast (drop_bit 24 v)]"

definition be32 :: "u32 \<Rightarrow> u8 list" where
  "be32 v = [ucast (drop_bit 24 v), ucast (drop_bit 16 v), ucast (drop_bit 8 v), ucast v]"

definition rd16_le :: "mem \<Rightarrow> nat \<Rightarrow> u16" where
  "rd16_le m a = ucast (m a) OR push_bit 8 (ucast (m (a + 1)))"

definition rd32_le :: "mem \<Rightarrow> nat \<Rightarrow> u32" where
  "rd32_le m a = ucast (m a) OR push_bit 8 (ucast (m (a + 1)))
     OR push_bit 16 (ucast (m (a + 2))) OR push_bit 24 (ucast (m (a + 3)))"

lemma length_codecs [simp]:
  "length (le16 v) = 2" "length (be16 v) = 2" "length (le32 w) = 4" "length (be32 w) = 4"
  by (simp_all add: le16_def be16_def le32_def be32_def)

lemma rd16_le_wr [mem_simps]: "rd16_le (wr a (le16 v) m) a = v"
proof (rule bit_word_eqI)
  fix n
  assume "n < LENGTH(16)"
  then show "bit (rd16_le (wr a (le16 v) m) a) n = bit v n"
    by (cases "n < 8") (auto simp: rd16_le_def le16_def bit_simps)
qed

lemma rd32_le_wr [mem_simps]: "rd32_le (wr a (le32 v) m) a = v"
proof (rule bit_word_eqI)
  fix n
  assume n: "n < LENGTH(32)"
  show "bit (rd32_le (wr a (le32 v) m) a) n = bit v n"
    using n
    by (cases "n < 8"; cases "n < 16"; cases "n < 24")
       (auto simp: rd32_le_def le32_def bit_simps)
qed

section \<open>Booleans as machine integers\<close>

definition u16_of_bool :: "bool \<Rightarrow> u16" where
  "u16_of_bool b = (if b then 1 else 0)"

definition u8_of_bool :: "bool \<Rightarrow> u8" where
  "u8_of_bool b = (if b then 1 else 0)"

section \<open>Word arithmetic without wrap-around\<close>

lemma unat_less_exp: "unat (w :: 'a::len word) < 2 ^ LENGTH('a)"
  by (rule unsigned_less)

lemma unat_add_no_wrap:
  fixes a b :: "'a::len word"
  assumes "unat a + unat b < 2 ^ LENGTH('a)"
  shows "unat (a + b) = unat a + unat b"
  using assms by (simp add: unat_word_ariths)

lemma unat_mult_no_wrap:
  fixes a b :: "'a::len word"
  assumes "unat a * unat b < 2 ^ LENGTH('a)"
  shows "unat (a * b) = unat a * unat b"
  using assms by (simp add: unat_word_ariths)

lemma unat_sub_le:
  fixes a b :: "'a::len word"
  assumes "unat b \<le> unat a"
  shows "unat (a - b) = unat a - unat b"
  using assms by (simp add: unat_sub word_le_nat_alt)

lemma unat_and_mask: "unat (w AND mask n :: 'a::len word) = unat w mod 2 ^ n"
  by (metis take_bit_eq_mask take_bit_eq_mod unsigned_take_bit_eq)

lemma unat_drop_bit: "unat (drop_bit n w :: 'a::len word) = unat w div 2 ^ n"
  by (metis drop_bit_eq_div unat_drop_bit_eq)

lemma unat_ucast_up:
  "LENGTH('a) \<le> LENGTH('b) \<Longrightarrow> unat (ucast (a :: 'a::len word) :: 'b::len word) = unat a"
  by (simp add: unsigned_ucast_eq take_bit_nat_eq_self_iff)
     (meson less_le_trans one_le_numeral power_increasing unat_less_exp)

lemma unat_of_nat_small:
  "n < 2 ^ LENGTH('a) \<Longrightarrow> unat (of_nat n :: 'a::len word) = n"
  by (simp add: unat_of_nat take_bit_nat_eq_self)

end
