(* ===== verification/Ranged.thy ===== *)
theory Ranged
  imports Prelude
begin

text \<open>
  \<^verbatim>\<open>vars/ranged.rs\<close>: indices confined to a range \<open>NB..=NE\<close>. The const generics are explicit
  arguments \<open>nb ne\<close>; an \<open>assert!\<close> that fails panics, which is \<open>None\<close>.
\<close>

record iranged =
  ri :: u32

record iranged_iter =
  it_i :: iranged
  it_e :: iranged
  it_b :: bool

definition ranged_init :: "u32 \<Rightarrow> u32 \<Rightarrow> u32 \<Rightarrow> iranged option" where
  "ranged_init nb ne i = (if nb \<le> i \<and> i \<le> ne then Some \<lparr>ri = i\<rparr> else None)"

definition ranged_set :: "u32 \<Rightarrow> u32 \<Rightarrow> u32 \<Rightarrow> iranged \<Rightarrow> iranged option" where
  "ranged_set nb ne i r = (if nb \<le> i \<and> i \<le> ne then Some (r\<lparr>ri := i\<rparr>) else None)"

definition set_atomic :: "u32 \<Rightarrow> u32 \<Rightarrow> iranged \<Rightarrow> u32 \<Rightarrow> iranged option" where
  "set_atomic nb ne r i = (if nb \<le> i \<and> i \<le> ne then Some (r\<lparr>ri := i\<rparr>) else None)"

definition ranged_beg :: "u32 \<Rightarrow> iranged" where
  "ranged_beg nb = \<lparr>ri = nb\<rparr>"

definition ranged_end :: "u32 \<Rightarrow> iranged" where
  "ranged_end ne = \<lparr>ri = ne\<rparr>"

definition next_wrapped_n :: "u32 \<Rightarrow> iranged \<Rightarrow> iranged \<Rightarrow> iranged" where
  "next_wrapped_n nb e r = (if r = e then ranged_beg nb else r\<lparr>ri := ri r + 1\<rparr>)"

definition prev_wrapped_n :: "u32 \<Rightarrow> iranged \<Rightarrow> iranged \<Rightarrow> iranged" where
  "prev_wrapped_n nb e r = (if r = ranged_beg nb then e else r\<lparr>ri := ri r - 1\<rparr>)"

definition next_wrapped :: "u32 \<Rightarrow> u32 \<Rightarrow> iranged \<Rightarrow> iranged" where
  "next_wrapped nb ne r = next_wrapped_n nb (ranged_end ne) r"

definition prev_wrapped :: "u32 \<Rightarrow> u32 \<Rightarrow> iranged \<Rightarrow> iranged" where
  "prev_wrapped nb ne r = prev_wrapped_n nb (ranged_end ne) r"

definition up_to :: "u32 \<Rightarrow> iranged \<Rightarrow> iranged_iter" where
  "up_to nb n = \<lparr>it_i = ranged_beg nb, it_e = n, it_b = False\<rparr>"

definition all_ranged :: "u32 \<Rightarrow> u32 \<Rightarrow> iranged_iter" where
  "all_ranged nb ne = up_to nb (ranged_end ne)"

definition iter_next :: "u32 \<Rightarrow> iranged_iter \<Rightarrow> iranged option \<times> iranged_iter" where
  "iter_next nb it =
     (if it_b it then (None, it)
      else let r = it_i it
           in if it_i it = it_e it then (Some r, it\<lparr>it_b := True\<rparr>)
              else (Some r, it\<lparr>it_i := next_wrapped_n nb (it_e it) (it_i it)\<rparr>))"

text \<open>
  Array accesses through an index are unchecked in the source (\<open>get_unchecked\<close>); \<open>None\<close> is
  the access outside the array, which is undefined behaviour there.
\<close>

definition index_into :: "iranged \<Rightarrow> 'a list \<Rightarrow> 'a option" where
  "index_into r t = (if unat (ri r) < length t then Some (t ! unat (ri r)) else None)"

definition ranged_array_get :: "'a list \<Rightarrow> iranged \<Rightarrow> 'a option" where
  "ranged_array_get a i = (if unat (ri i) < length a then Some (a ! unat (ri i)) else None)"

definition ranged_array_get_mut :: "'a list \<Rightarrow> iranged \<Rightarrow> 'a \<Rightarrow> 'a list option" where
  "ranged_array_get_mut a i v = (if unat (ri i) < length a then Some (a[unat (ri i) := v]) else None)"

lemma unat_diff_decr:
  fixes e i :: "'a::len word"
  assumes "e \<noteq> i"
  shows "unat (e - (i + 1)) < unat (e - i)"
proof -
  have "e - i \<noteq> 0" using assms by simp
  then have "unat (e - i - 1) < unat (e - i)"
    by (metis diff_less unat_eq_zero unat_minus_one less_one neq0_conv)
  then show ?thesis by (simp add: algebra_simps)
qed

text \<open>A \<open>for\<close> loop over the iterator: the list of the indices it visits.\<close>

function iter_collect :: "u32 \<Rightarrow> iranged_iter \<Rightarrow> iranged list" where
  "iter_collect nb it =
     (case fst (iter_next nb it) of
        None \<Rightarrow> []
      | Some r \<Rightarrow> r # iter_collect nb (snd (iter_next nb it)))"
  by pat_completeness auto

termination
  by (relation "measure (\<lambda>(nb, it). if it_b it then 0 else Suc (unat (ri (it_e it) - ri (it_i it))))")
     (auto simp: iter_next_def next_wrapped_n_def Let_def split: if_splits intro!: unat_diff_decr)

declare iter_collect.simps [simp del]

definition in_range :: "u32 \<Rightarrow> u32 \<Rightarrow> iranged \<Rightarrow> bool" where
  "in_range nb ne r \<longleftrightarrow> nb \<le> ri r \<and> ri r \<le> ne"

lemma word_less_unat:
  fixes i e :: "'a::len word"
  shows "i \<le> e \<Longrightarrow> i \<noteq> e \<Longrightarrow> unat i < unat e"
  by (meson order_le_less word_less_nat_alt)

lemma unat_succ_le:
  fixes i e :: u32
  assumes "i \<le> e" "i \<noteq> e"
  shows "unat (i + 1) = Suc (unat i)" and "i + 1 \<le> e"
proof -
  have lt: "unat i < unat e" using assms by (rule word_less_unat)
  then have "unat i + unat (1::u32) < 2 ^ LENGTH(32)"
    using unat_less_exp [of e] by simp
  then show s: "unat (i + 1) = Suc (unat i)" by (simp add: unat_add_no_wrap)
  show "i + 1 \<le> e" using lt s by (simp add: word_le_nat_alt)
qed

lemma unat_pred_ge:
  fixes i nb :: u32
  assumes "nb \<le> i" "i \<noteq> nb"
  shows "unat (i - 1) = unat i - 1" and "nb \<le> i - 1" and "unat nb < unat i"
proof -
  show lt: "unat nb < unat i" using assms by (auto intro: word_less_unat)
  then show s: "unat (i - 1) = unat i - 1" by (simp add: unat_sub_le)
  show "nb \<le> i - 1" using lt s by (simp add: word_le_nat_alt)
qed

lemma ranged_init_in_range: "ranged_init nb ne i = Some r \<Longrightarrow> in_range nb ne r"
  by (auto simp: ranged_init_def in_range_def split: if_splits)

lemma ranged_set_in_range: "ranged_set nb ne i r = Some r' \<Longrightarrow> in_range nb ne r'"
  by (auto simp: ranged_set_def in_range_def split: if_splits)

lemma iranged_eq_iff: "(r :: iranged) = s \<longleftrightarrow> ri r = ri s"
  by (cases r; cases s) simp

lemma ri_next_wrapped:
  "ri (next_wrapped nb ne r) = (if ri r = ne then nb else ri r + 1)"
  by (simp add: next_wrapped_def next_wrapped_n_def ranged_end_def ranged_beg_def iranged_eq_iff)

lemma ri_prev_wrapped:
  "ri (prev_wrapped nb ne r) = (if ri r = nb then ne else ri r - 1)"
  by (simp add: prev_wrapped_def prev_wrapped_n_def ranged_end_def ranged_beg_def iranged_eq_iff)

lemma next_wrapped_in_range:
  assumes "nb \<le> ne" "in_range nb ne r"
  shows "in_range nb ne (next_wrapped nb ne r)"
proof (cases "ri r = ne")
  case False
  with assms(2) have le: "ri r \<le> ne" and ge: "nb \<le> ri r" by (auto simp: in_range_def)
  note s = unat_succ_le [OF le False]
  from s ge have "nb \<le> ri r + 1" by (simp add: word_le_nat_alt)
  with s False show ?thesis by (simp add: in_range_def ri_next_wrapped)
qed (use assms in \<open>simp add: in_range_def ri_next_wrapped\<close>)

lemma prev_wrapped_in_range:
  assumes "nb \<le> ne" "in_range nb ne r"
  shows "in_range nb ne (prev_wrapped nb ne r)"
proof (cases "ri r = nb")
  case False
  with assms(2) have le: "ri r \<le> ne" and ge: "nb \<le> ri r" by (auto simp: in_range_def)
  note s = unat_pred_ge [OF ge False]
  from s le have "ri r - 1 \<le> ne" by (simp add: word_le_nat_alt)
  with s False show ?thesis by (simp add: in_range_def ri_prev_wrapped)
qed (use assms in \<open>simp add: in_range_def ri_prev_wrapped\<close>)

lemma prev_next_wrapped:
  assumes "nb \<le> ne" "in_range nb ne r"
  shows "prev_wrapped nb ne (next_wrapped nb ne r) = r"
proof (cases "ri r = ne")
  case False
  with assms(2) have le: "ri r \<le> ne" and ge: "nb \<le> ri r" by (auto simp: in_range_def)
  from unat_succ_le(1) [OF le False] ge have "ri r + 1 \<noteq> nb" by (auto simp: word_le_nat_alt)
  with False show ?thesis by (simp add: iranged_eq_iff ri_next_wrapped ri_prev_wrapped)
qed (simp add: iranged_eq_iff ri_next_wrapped ri_prev_wrapped)

section \<open>The iterator visits the range in order\<close>

lemma iter_collect_from:
  assumes "it_i it = \<lparr>ri = i\<rparr>" "it_e it = \<lparr>ri = e\<rparr>" "\<not> it_b it" "i \<le> e"
  shows "map (\<lambda>r. unat (ri r)) (iter_collect nb it) = [unat i ..< Suc (unat e)]"
  using assms
proof (induction "unat e - unat i" arbitrary: i it)
  case 0
  then have "i = e" by (auto simp: word_le_nat_alt word_unat_eq_iff)
  with 0 show ?case
    by (subst iter_collect.simps) (simp add: iter_next_def iter_collect.simps)
next
  case (Suc n)
  then have ne: "i \<noteq> e" by auto
  note s = unat_succ_le [OF \<open>i \<le> e\<close> ne]
  have lt: "unat i < unat e" using Suc by auto
  let ?it = "it\<lparr>it_i := \<lparr>ri = i + 1\<rparr>\<rparr>"
  have "map (\<lambda>r. unat (ri r)) (iter_collect nb ?it) = [unat (i + 1) ..< Suc (unat e)]"
    using Suc.prems Suc.hyps(2) s by (intro Suc.hyps(1)) auto
  moreover have "iter_next nb it = (Some \<lparr>ri = i\<rparr>, ?it)"
    using Suc.prems ne by (simp add: iter_next_def next_wrapped_n_def)
  ultimately show ?case
    using s lt by (subst iter_collect.simps) (simp add: upt_conv_Cons)
qed

section \<open>Cyclic indices\<close>

text \<open>
  What the users of an index rely on: \<open>nxt\<close> steps round a cycle of \<open>n\<close> positions and
  \<open>prv\<close> undoes it.
\<close>

locale cyclic_index =
  fixes nxt prv :: "'i \<Rightarrow> 'i"
    and ok :: "'i \<Rightarrow> bool"
    and pos :: "'i \<Rightarrow> nat"
    and n :: nat
  assumes nxt_ok: "ok i \<Longrightarrow> ok (nxt i)"
    and prv_nxt: "ok i \<Longrightarrow> prv (nxt i) = i"
    and pos_less: "ok i \<Longrightarrow> pos i < n"
    and pos_inj: "ok i \<Longrightarrow> ok j \<Longrightarrow> pos i = pos j \<Longrightarrow> i = j"
    and pos_nxt: "ok i \<Longrightarrow> pos (nxt i) = Suc (pos i) mod n"
begin

lemma pow_ok: "ok i \<Longrightarrow> ok ((nxt ^^ k) i)"
  by (induction k) (auto simp: nxt_ok)

lemma pos_pow: "ok i \<Longrightarrow> pos ((nxt ^^ k) i) = (pos i + k) mod n"
  by (induction k) (simp_all add: pos_less pos_nxt pow_ok mod_Suc_eq)

lemma full_turn: "ok i \<Longrightarrow> (nxt ^^ n) i = i"
  by (rule pos_inj) (auto simp: pow_ok pos_pow pos_less)

lemma back_again: "ok i \<Longrightarrow> (prv ^^ k) ((nxt ^^ k) i) = i"
proof (induction k arbitrary: i)
  case (Suc k)
  have "(prv ^^ Suc k) ((nxt ^^ Suc k) i) = (prv ^^ k) (prv (nxt ((nxt ^^ k) i)))"
    by (simp add: funpow_swap1)
  with Suc show ?case by (simp add: prv_nxt pow_ok)
qed simp

lemma visits_all:
  assumes "ok i" "ok j"
  shows "\<exists>k < n. (nxt ^^ k) i = j"
proof -
  let ?k = "(n - pos i + pos j) mod n"
  have n: "0 < n" using pos_less [OF assms(1)] by simp
  have "pos ((nxt ^^ ?k) i) = (pos i + (n - pos i + pos j)) mod n"
    using assms(1) by (simp add: pos_pow mod_add_right_eq)
  also have "\<dots> = pos j"
    using pos_less [OF assms(1)] pos_less [OF assms(2)] by simp
  finally have "(nxt ^^ ?k) i = j"
    using assms by (intro pos_inj) (auto simp: pow_ok)
  with n show ?thesis by (intro exI [of _ ?k]) simp
qed

end

lemma ranged_cyclic:
  assumes "nb \<le> ne"
  shows "cyclic_index (next_wrapped nb ne) (prev_wrapped nb ne) (in_range nb ne)
           (\<lambda>r. unat (ri r) - unat nb) (Suc (unat ne - unat nb))"
proof
  fix i j
  assume i: "in_range nb ne i"
  show "in_range nb ne (next_wrapped nb ne i)" using assms i by (rule next_wrapped_in_range)
  show "prev_wrapped nb ne (next_wrapped nb ne i) = i" using assms i by (rule prev_next_wrapped)
  show "unat (ri i) - unat nb < Suc (unat ne - unat nb)"
    using i by (auto simp: in_range_def word_le_nat_alt)
  show "unat (ri (next_wrapped nb ne i)) - unat nb
      = Suc (unat (ri i) - unat nb) mod Suc (unat ne - unat nb)"
  proof (cases "ri i = ne")
    case True
    then show ?thesis by (simp add: ri_next_wrapped)
  next
    case False
    with i have le: "ri i \<le> ne" and ge: "unat nb \<le> unat (ri i)"
      by (auto simp: in_range_def word_le_nat_alt)
    from unat_succ_le [OF le False] word_less_unat [OF le False] ge False
    show ?thesis by (simp add: ri_next_wrapped Suc_diff_le)
  qed
  assume "in_range nb ne j" "unat (ri i) - unat nb = unat (ri j) - unat nb"
  with i show "i = j"
    by (auto simp: in_range_def word_le_nat_alt iranged_eq_iff word_unat_eq_iff)
qed

text \<open>The work index (\<open>WORK_COUNT = 2\<close>), the thread index (three cores) and the image index.\<close>

definition work_count :: u32 where "work_count = 2"
definition core_count_min :: u32 where "core_count_min = 1"
definition core_count_max :: u32 where "core_count_max = 3"
definition screen_count :: u32 where "screen_count = 2"
definition img_work_count :: u32 where "img_work_count = 2"

interpretation work_index: cyclic_index "next_wrapped 0 (work_count - 1)"
    "prev_wrapped 0 (work_count - 1)" "in_range 0 (work_count - 1)"
    "\<lambda>r. unat (ri r) - unat (0::u32)" "Suc (unat (work_count - 1) - unat (0::u32))"
  by (rule ranged_cyclic) simp

interpretation thread_index: cyclic_index "next_wrapped 0 (core_count_max - 1)"
    "prev_wrapped 0 (core_count_max - 1)" "in_range 0 (core_count_max - 1)"
    "\<lambda>r. unat (ri r) - unat (0::u32)" "Suc (unat (core_count_max - 1) - unat (0::u32))"
  by (rule ranged_cyclic) simp

text \<open>C1: a loop over \<open>up_to n\<close> visits every index from the lower bound to \<open>n\<close>, once each
  and in order, for every range whose lower bound does not exceed \<open>n\<close>.\<close>
theorem up_to_visits_range:
  assumes "nb \<le> ri n"
  shows "map (\<lambda>r. unat (ri r)) (iter_collect nb (up_to nb n)) = [unat nb ..< Suc (unat (ri n))]"
  using assms by (cases n) (intro iter_collect_from; simp add: up_to_def ranged_beg_def)

theorem up_to_visits_range_witness:
  "map (\<lambda>r. unat (ri r)) (iter_collect 0 (up_to 0 \<lparr>ri = 2\<rparr>)) = [0, 1, 2]"
  using up_to_visits_range [of 0 "\<lparr>ri = 2\<rparr>"] by (simp add: upt_rec)

text \<open>C2: \<open>next_wrapped\<close> on the work index is a round robin: from any index in range it comes
  back after exactly \<open>WORK_COUNT\<close> steps, it meets every other index on the way, and
  \<open>prev_wrapped\<close> retraces any number of steps.\<close>
theorem work_index_round_robin:
  assumes "in_range 0 (work_count - 1) w" and "in_range 0 (work_count - 1) v"
  shows "(next_wrapped 0 (work_count - 1) ^^ unat work_count) w = w
       \<and> (\<exists>k < unat work_count. (next_wrapped 0 (work_count - 1) ^^ k) w = v)
       \<and> (prev_wrapped 0 (work_count - 1) ^^ m) ((next_wrapped 0 (work_count - 1) ^^ m) w) = w"
proof -
  have n: "Suc (unat (work_count - 1) - unat (0::u32)) = unat work_count"
    by (simp add: work_count_def)
  show ?thesis
    using work_index.full_turn [OF assms(1)] work_index.visits_all [OF assms]
      work_index.back_again [OF assms(1), of m]
    unfolding n by blast
qed

theorem work_index_round_robin_witness:
  "(next_wrapped 0 (work_count - 1) ^^ unat work_count) \<lparr>ri = 1\<rparr> = \<lparr>ri = 1\<rparr>"
  using work_index_round_robin [of "\<lparr>ri = 1\<rparr>" "\<lparr>ri = 0\<rparr>"]
  by (simp add: in_range_def work_count_def)

end
