(* ===== verification/Mempool.thy ===== *)
theory Mempool
  imports Prelude
begin

text \<open>
  \<^verbatim>\<open>nwm_misc/mempool.c\<close>: the fixed-size block pool behind the packet buffers. The free list is
  threaded through the first word of the freed blocks, so it lives in the raw memory; a null
  pointer is \<open>0\<close>. \<open>size_t\<close> and pointers are four bytes wide.
\<close>

record mp_pool =
  mp_bs :: nat
  mp_ul_bc :: nat
  mp_b :: nat
  mp_ul_b :: nat
  mp_bc :: nat
  mp_m :: nat

definition mp_init :: "nat \<Rightarrow> nat \<Rightarrow> nat \<Rightarrow> mp_pool option" where
  "mp_init bs bc m =
     (if bs < 4 then None
      else if bs mod 4 \<noteq> 0 then None
      else Some \<lparr>mp_bs = bs, mp_ul_bc = bc, mp_b = 0, mp_ul_b = m, mp_bc = bc, mp_m = m\<rparr>)"

definition mp_malloc :: "mem \<Rightarrow> mp_pool \<Rightarrow> nat \<times> mp_pool" where
  "mp_malloc m p =
     (if 0 < mp_ul_bc p
      then (mp_ul_b p, p\<lparr>mp_ul_bc := mp_ul_bc p - 1, mp_ul_b := mp_ul_b p + mp_bs p\<rparr>)
      else if mp_b p \<noteq> 0
      then (mp_b p, p\<lparr>mp_b := unat (rd32_le m (mp_b p))\<rparr>)
      else (0, p))"

definition mp_free :: "mem \<Rightarrow> mp_pool \<Rightarrow> nat \<Rightarrow> mem \<times> mp_pool" where
  "mp_free m p b = (wr b (le32 (of_nat (mp_b p))) m, p\<lparr>mp_b := b\<rparr>)"

section \<open>The pool invariant\<close>

fun chain :: "mem \<Rightarrow> nat \<Rightarrow> nat list \<Rightarrow> bool" where
  "chain m p [] \<longleftrightarrow> p = 0"
| "chain m p (x # xs) \<longleftrightarrow> p = x \<and> 0 < x \<and> chain m (unat (rd32_le m x)) xs"

definition block :: "mp_pool \<Rightarrow> nat \<Rightarrow> nat" where
  "block p k = mp_m p + k * mp_bs p"

definition pool_inv :: "mem \<Rightarrow> mp_pool \<Rightarrow> nat list \<Rightarrow> nat set \<Rightarrow> bool" where
  "pool_inv m p fl held \<longleftrightarrow>
     4 \<le> mp_bs p \<and> 0 < mp_m p \<and> block p (mp_bc p) \<le> 2 ^ 32 \<and> mp_ul_bc p \<le> mp_bc p
   \<and> mp_ul_b p = block p (mp_bc p - mp_ul_bc p)
   \<and> chain m (mp_b p) fl \<and> distinct fl \<and> set fl \<inter> held = {}
   \<and> set fl \<union> held = block p ` {..< mp_bc p - mp_ul_bc p}"

lemma rd32_le_cong:
  assumes "\<And>i. i < 4 \<Longrightarrow> m (a + i) = m' (a + i)"
  shows "rd32_le m a = rd32_le m' a"
  using assms [of 0] assms [of 1] assms [of 2] assms [of 3] by (simp add: rd32_le_def)

lemma chain_cong:
  assumes "\<And>x i. x \<in> set fl \<Longrightarrow> i < 4 \<Longrightarrow> m (x + i) = m' (x + i)" "chain m b fl"
  shows "chain m' b fl"
  using assms
proof (induction fl arbitrary: b)
  case (Cons x xs)
  have "rd32_le m x = rd32_le m' x" by (rule rd32_le_cong) (simp add: Cons.prems)
  with Cons show ?case by simp
qed simp

lemma block_update [simp]:
  "block (p\<lparr>mp_ul_bc := a\<rparr>) = block p"
  "block (p\<lparr>mp_ul_b := a\<rparr>) = block p"
  "block (p\<lparr>mp_b := a\<rparr>) = block p"
  by (rule ext, simp add: block_def)+

lemma block_less: "0 < mp_bs p \<Longrightarrow> block p i = block p j \<longleftrightarrow> i = j"
  by (simp add: block_def)

lemma block_disjoint:
  assumes "4 \<le> mp_bs p" "i \<noteq> j" "k < 4"
  shows "block p i + k < block p j \<or> block p j + mp_bs p \<le> block p i + k"
proof (cases "i < j")
  case True
  then have "Suc i * mp_bs p \<le> j * mp_bs p" by (intro mult_le_mono1) simp
  with assms show ?thesis by (simp add: block_def)
next
  case False
  with assms have "Suc j * mp_bs p \<le> i * mp_bs p" by (intro mult_le_mono1) simp
  then show ?thesis by (simp add: block_def)
qed

lemma block_bound:
  assumes "pool_inv m p fl held" "k < mp_bc p"
  shows "block p k + 4 \<le> 2 ^ 32" "0 < block p k"
proof -
  have "Suc k * mp_bs p \<le> mp_bc p * mp_bs p" using assms(2) by (intro mult_le_mono1) simp
  then have "block p k + mp_bs p \<le> block p (mp_bc p)" by (simp add: block_def)
  with assms(1) show "block p k + 4 \<le> 2 ^ 32" by (simp add: pool_inv_def)
  show "0 < block p k" using assms(1) by (simp add: pool_inv_def block_def)
qed

lemma pool_inv_init:
  assumes "mp_init bs bc a = Some p" "0 < a" "a + bc * bs \<le> 2 ^ 32"
  shows "pool_inv m p [] {}"
  using assms by (auto simp: mp_init_def pool_inv_def block_def split: if_splits)

lemma pool_inv_other_writes:
  assumes "pool_inv m p fl held" "\<And>x i. x \<in> set fl \<Longrightarrow> i < 4 \<Longrightarrow> m (x + i) = m' (x + i)"
  shows "pool_inv m' p fl held"
  using assms chain_cong [of fl m m'] by (simp add: pool_inv_def)

lemma malloc_unlinked:
  assumes inv: "pool_inv m p fl held" and ul: "0 < mp_ul_bc p"
  shows "pool_inv m (snd (mp_malloc m p)) fl (insert (fst (mp_malloc m p)) held)
       \<and> fst (mp_malloc m p) \<notin> held \<and> fst (mp_malloc m p) \<noteq> 0"
proof -
  let ?k = "mp_bc p - mp_ul_bc p"
  let ?q = "p\<lparr>mp_ul_bc := mp_ul_bc p - 1, mp_ul_b := mp_ul_b p + mp_bs p\<rparr>"
  have q: "mp_malloc m p = (block p ?k, ?q)"
    using inv ul by (simp add: mp_malloc_def pool_inv_def)
  have k: "mp_bc p - (mp_ul_bc p - 1) = Suc ?k" "?k < mp_bc p"
    using inv ul by (auto simp: pool_inv_def)
  have bs: "0 < mp_bs p" using inv by (simp add: pool_inv_def)
  have new: "block p ?k \<notin> set fl \<union> held"
  proof
    assume "block p ?k \<in> set fl \<union> held"
    moreover have "set fl \<union> held = block p ` {..< ?k}" using inv by (simp add: pool_inv_def)
    ultimately show False using bs by (auto simp: block_less)
  qed
  have un: "set fl \<union> insert (block p ?k) held = block p ` {..< Suc ?k}"
    using inv by (simp add: pool_inv_def lessThan_Suc)
  have "block p ?k + mp_bs p = block p (Suc ?k)" by (simp add: block_def)
  moreover from new have "block p ?k \<notin> set fl" by simp
  moreover have "mp_ul_bc p - 1 \<le> mp_bc p" using inv unfolding pool_inv_def by linarith
  ultimately have "pool_inv m ?q fl (insert (block p ?k) held)"
    using inv un k by (simp only: pool_inv_def) simp
  then show ?thesis using new block_bound [OF inv k(2)] by (simp add: q)
qed

lemma malloc_linked:
  assumes inv: "pool_inv m p (x # fl) held" and ul: "mp_ul_bc p = 0"
  shows "pool_inv m (snd (mp_malloc m p)) fl (insert x held)
       \<and> fst (mp_malloc m p) = x \<and> x \<notin> held \<and> x \<noteq> 0"
  using inv ul by (auto simp: mp_malloc_def pool_inv_def)

lemma malloc_empty:
  assumes inv: "pool_inv m p [] held" and ul: "mp_ul_bc p = 0"
  shows "mp_malloc m p = (0, p)" "card held = mp_bc p"
proof -
  show "mp_malloc m p = (0, p)" using inv ul by (simp add: mp_malloc_def pool_inv_def)
  have "held = block p ` {..< mp_bc p}" "0 < mp_bs p" using inv ul by (auto simp: pool_inv_def)
  then show "card held = mp_bc p" by (simp add: card_image inj_on_def block_less)
qed

lemma free_inv:
  assumes inv: "pool_inv m p fl held" and x: "x \<in> held"
  shows "pool_inv (fst (mp_free m p x)) (snd (mp_free m p x)) (x # fl) (held - {x})"
proof -
  have bs: "4 \<le> mp_bs p" using inv by (simp add: pool_inv_def)
  from inv x have "x \<in> block p ` {..< mp_bc p - mp_ul_bc p}" by (auto simp: pool_inv_def)
  then obtain k where k: "k < mp_bc p - mp_ul_bc p" "x = block p k" by auto
  then have xb: "0 < x" "x + 4 \<le> 2 ^ 32" using block_bound [OF inv, of k] by auto
  have nb: "mp_b p < 2 ^ 32"
  proof (cases fl)
    case Nil
    then show ?thesis using inv by (simp add: pool_inv_def)
  next
    case (Cons y ys)
    then have "mp_b p \<in> block p ` {..< mp_bc p - mp_ul_bc p}"
      using inv by (auto simp: pool_inv_def)
    then obtain j where "j < mp_bc p - mp_ul_bc p" "mp_b p = block p j" by blast
    moreover from this have "j < mp_bc p" by simp
    ultimately show ?thesis using block_bound(1) [OF inv, of j] by simp
  qed
  let ?m = "wr x (le32 (of_nat (mp_b p))) m"
  have "m (y + i) = ?m (y + i)" if y: "y \<in> set fl" and i: "i < 4" for y i
  proof -
    from inv y have "y \<in> block p ` {..< mp_bc p - mp_ul_bc p}" by (auto simp: pool_inv_def)
    then obtain j where j: "y = block p j" by auto
    from inv x y have "y \<noteq> x" by (auto simp: pool_inv_def)
    with j k have "j \<noteq> k" by auto
    from block_disjoint [OF bs this i] j k bs show ?thesis by (auto simp: mem_simps)
  qed
  then have "chain ?m (mp_b p) fl"
    using inv chain_cong [of fl m ?m "mp_b p"] by (simp add: pool_inv_def)
  moreover have "unat (rd32_le ?m x) = mp_b p"
    using nb by (simp add: mem_simps unat_of_nat_small)
  moreover have "set fl \<union> held = insert x (set fl \<union> (held - {x}))" using x by auto
  ultimately show ?thesis
    using inv x xb by (auto simp: mp_free_def pool_inv_def)
qed

section \<open>The contract of a buffer pool\<close>

text \<open>
  What the packet code relies on: a pool never hands out a buffer that is still held, and it
  fails only when every buffer is held.
\<close>

fun allocs :: "('s \<Rightarrow> nat \<times> 's) \<Rightarrow> nat \<Rightarrow> 's \<Rightarrow> nat list \<times> 's" where
  "allocs alloc 0 s = ([], s)"
| "allocs alloc (Suc n) s =
     (let (b, s1) = alloc s; (bs, s2) = allocs alloc n s1 in (b # bs, s2))"

locale buffer_pool =
  fixes alloc :: "'s \<Rightarrow> nat \<times> 's"
    and free :: "nat \<Rightarrow> 's \<Rightarrow> 's"
    and inv :: "'s \<Rightarrow> nat set \<Rightarrow> bool"
    and cap :: "'s \<Rightarrow> nat"
  assumes alloc_ok: "inv s held \<Longrightarrow> fst (alloc s) \<noteq> 0 \<Longrightarrow>
      inv (snd (alloc s)) (insert (fst (alloc s)) held) \<and> fst (alloc s) \<notin> held"
    and alloc_fail: "inv s held \<Longrightarrow> fst (alloc s) = 0 \<Longrightarrow> snd (alloc s) = s \<and> card held = cap s"
    and free_ok: "inv s held \<Longrightarrow> b \<in> held \<Longrightarrow> inv (free b s) (held - {b})"
    and cap_alloc: "cap (snd (alloc s)) = cap s"
    and held_finite: "inv s held \<Longrightarrow> finite held"
    and held_le: "inv s held \<Longrightarrow> card held \<le> cap s"
begin

lemma allocs_distinct:
  assumes "inv s held" "card held + n \<le> cap s"
  shows "distinct (fst (allocs alloc n s)) \<and> set (fst (allocs alloc n s)) \<inter> (insert 0 held) = {}
       \<and> length (fst (allocs alloc n s)) = n
       \<and> inv (snd (allocs alloc n s)) (held \<union> set (fst (allocs alloc n s)))"
  using assms
proof (induction n arbitrary: s held)
  case (Suc n)
  obtain b s1 where a: "alloc s = (b, s1)" by (cases "alloc s")
  have nz: "b \<noteq> 0" using alloc_fail [OF Suc.prems(1)] a Suc.prems(2) by auto
  with alloc_ok [OF Suc.prems(1)] a have i: "inv s1 (insert b held)" and new: "b \<notin> held" by auto
  have "card (insert b held) + n \<le> cap s1"
    using Suc.prems new held_finite [OF Suc.prems(1)] cap_alloc [of s] a by simp
  from Suc.IH [OF i this] show ?case
    using a nz new by (auto simp: Let_def split: prod.splits)
qed simp

lemma cap_allocs: "cap (snd (allocs alloc n s)) = cap s"
  by (induction n arbitrary: s)
     (auto simp: Let_def split: prod.splits, metis cap_alloc snd_conv)

lemma full_fails:
  assumes "inv s held" "card held = cap s"
  shows "fst (alloc s) = 0"
proof (rule ccontr)
  assume nz: "fst (alloc s) \<noteq> 0"
  from alloc_ok [OF assms(1) nz] held_finite [OF assms(1)] assms(2)
  have "card (insert (fst (alloc s)) held) = Suc (cap s)" by simp
  with held_le [OF conjunct1 [OF alloc_ok [OF assms(1) nz]]] cap_alloc show False by simp
qed

lemma allocs_all:
  assumes "inv s {}"
  shows "distinct (fst (allocs alloc (cap s) s)) \<and> 0 \<notin> set (fst (allocs alloc (cap s) s))
       \<and> fst (alloc (snd (allocs alloc (cap s) s))) = 0"
proof -
  let ?r = "allocs alloc (cap s) s"
  have a: "distinct (fst ?r)" "set (fst ?r) \<inter> {0} = {}" "length (fst ?r) = cap s"
    "inv (snd ?r) (set (fst ?r))"
    using allocs_distinct [OF assms, of "cap s"] by auto
  then have "card (set (fst ?r)) = cap (snd ?r)" by (simp add: distinct_card cap_allocs)
  with a full_fails [OF a(4)] show ?thesis by auto
qed

lemma free_then_alloc:
  assumes "inv s held" "b \<in> held" "cap (free b s) = cap s"
  shows "fst (alloc (free b s)) \<noteq> 0"
proof
  assume "fst (alloc (free b s)) = 0"
  from alloc_fail [OF free_ok [OF assms(1,2)] this] assms(3)
  have "card (held - {b}) = cap s" by simp
  moreover have "card (held - {b}) < card held"
    using held_finite [OF assms(1)] assms(2) by (intro card_Diff1_less)
  ultimately show False using held_le [OF assms(1)] by simp
qed

end

definition mp_alloc_st :: "mem \<times> mp_pool \<Rightarrow> nat \<times> mem \<times> mp_pool" where
  "mp_alloc_st s = (let (b, p) = mp_malloc (fst s) (snd s) in (b, fst s, p))"

definition mp_free_st :: "nat \<Rightarrow> mem \<times> mp_pool \<Rightarrow> mem \<times> mp_pool" where
  "mp_free_st b s = mp_free (fst s) (snd s) b"

definition pool_ok :: "mem \<times> mp_pool \<Rightarrow> nat set \<Rightarrow> bool" where
  "pool_ok s held \<longleftrightarrow> (\<exists>fl. pool_inv (fst s) (snd s) fl held)"

lemma pool_alloc_step:
  assumes "pool_ok s held"
  shows "fst (mp_alloc_st s) \<noteq> 0 \<and> pool_ok (snd (mp_alloc_st s)) (insert (fst (mp_alloc_st s)) held)
           \<and> fst (mp_alloc_st s) \<notin> held
       \<or> mp_alloc_st s = (0, s) \<and> card held = mp_bc (snd s)"
proof -
  obtain m p where s: "s = (m, p)" by (cases s)
  obtain fl where inv: "pool_inv m p fl held" using assms by (auto simp: pool_ok_def s)
  show ?thesis
  proof (cases "0 < mp_ul_bc p")
    case True
    from malloc_unlinked [OF inv this] show ?thesis
      by (auto simp: s mp_alloc_st_def pool_ok_def split: prod.splits)
  next
    case ul: False
    show ?thesis
    proof (cases fl)
      case Nil
      with malloc_empty [of m p held] inv ul show ?thesis by (simp add: s mp_alloc_st_def)
    next
      case (Cons x xs)
      with malloc_linked [of m p x xs held] inv ul show ?thesis
        by (auto simp: s mp_alloc_st_def pool_ok_def split: prod.splits)
    qed
  qed
qed

lemma mp_bc_alloc: "mp_bc (snd (snd (mp_alloc_st s))) = mp_bc (snd s)"
  by (auto simp: mp_alloc_st_def mp_malloc_def Let_def split: prod.splits if_splits)

lemma pool_held:
  assumes "pool_ok s held"
  obtains k where "held \<subseteq> block (snd s) ` {..< k}" "k \<le> mp_bc (snd s)"
proof -
  let ?k = "mp_bc (snd s) - mp_ul_bc (snd s)"
  obtain fl where "set fl \<union> held = block (snd s) ` {..< ?k}"
    using assms unfolding pool_ok_def pool_inv_def by blast
  then show thesis by (intro that [of ?k]) auto
qed

lemma pool_held_finite: "pool_ok s held \<Longrightarrow> finite held"
  by (erule pool_held) (auto intro: finite_subset)

lemma pool_held_le:
  assumes "pool_ok s held"
  shows "card held \<le> mp_bc (snd s)"
proof -
  obtain k where k: "held \<subseteq> block (snd s) ` {..< k}" "k \<le> mp_bc (snd s)"
    using assms by (rule pool_held)
  have "card held \<le> card (block (snd s) ` {..< k})" using k(1) by (intro card_mono) auto
  also have "\<dots> \<le> k" using card_image_le [of "{..< k}" "block (snd s)"] by simp
  finally show ?thesis using k(2) by simp
qed

interpretation send_pool: buffer_pool mp_alloc_st mp_free_st pool_ok "\<lambda>s. mp_bc (snd s)"
proof
  fix s held b
  assume i: "pool_ok s held"
  show "fst (mp_alloc_st s) \<noteq> 0 \<Longrightarrow>
      pool_ok (snd (mp_alloc_st s)) (insert (fst (mp_alloc_st s)) held) \<and> fst (mp_alloc_st s) \<notin> held"
    using pool_alloc_step [OF i] by auto
  show "fst (mp_alloc_st s) = 0 \<Longrightarrow> snd (mp_alloc_st s) = s \<and> card held = mp_bc (snd s)"
    using pool_alloc_step [OF i] by auto
  show "b \<in> held \<Longrightarrow> pool_ok (mp_free_st b s) (held - {b})"
    using i free_inv by (fastforce simp: pool_ok_def mp_free_st_def)
  show "finite held" using i by (rule pool_held_finite)
  show "card held \<le> mp_bc (snd s)" using i by (rule pool_held_le)
qed (rule mp_bc_alloc)

text \<open>C0: a freshly initialised pool of \<open>bc\<close> blocks hands out \<open>bc\<close> different non-null buffers, and
  the next request fails with a null pointer.\<close>
theorem mempool_capacity:
  assumes "mp_init bs bc a = Some p" "0 < a" "a + bc * bs \<le> 2 ^ 32"
  shows "distinct (fst (allocs mp_alloc_st bc (m, p)))
       \<and> 0 \<notin> set (fst (allocs mp_alloc_st bc (m, p)))
       \<and> fst (mp_alloc_st (snd (allocs mp_alloc_st bc (m, p)))) = 0"
proof -
  have "pool_ok (m, p) {}" using pool_inv_init [OF assms] by (auto simp: pool_ok_def)
  moreover have "mp_bc p = bc" using assms(1) by (auto simp: mp_init_def split: if_splits)
  ultimately show ?thesis using send_pool.allocs_all [of "(m, p)"] by simp
qed

theorem mempool_capacity_witness:
  "fst (mp_alloc_st (snd (allocs mp_alloc_st 3 (\<lambda>_. 0, \<lparr>mp_bs = 1512, mp_ul_bc = 3, mp_b = 0,
     mp_ul_b = 4096, mp_bc = 3, mp_m = 4096\<rparr>)))) = 0"
  using mempool_capacity [of 1512 3 4096 _ "\<lambda>_. 0"] by (simp add: mp_init_def)

end
