(* ===== verification/Nwm_World.thy ===== *)
theory Nwm_World
  imports Ranged Mempool
begin

text \<open>
  The shared state of the network side (\<^verbatim>\<open>entries/thread_nwm/vars.rs\<close>, \<^verbatim>\<open>utils.rs\<close>,
  \<^verbatim>\<open>entries/work_thread/vars.rs\<close>): the raw memory, the packet buffer pool, the per-thread send
  buffers, the frame size counters and the waits on kernel objects. What the kernel and the C side
  answer (\<open>svcWaitSynchronization\<close>, \<open>rp_syn_rel1\<close>) is a script, one result per call; a call past
  the end of a script is a timeout during which another thread raises the reset flag, so that every
  wait loop ends.
\<close>

definition RES_TIMEOUT :: i32 where "RES_TIMEOUT = 0x09401BFE"
definition NWM_HDR_SIZE :: nat where "NWM_HDR_SIZE = 50"
definition DATA_HDR_SIZE :: nat where "DATA_HDR_SIZE = 4"
definition PACKET_SIZE :: nat where "PACKET_SIZE = 1448"
definition ARQ_OVERHEAD_SIZE :: nat where "ARQ_OVERHEAD_SIZE = 2"
definition ARQ_DATA_HDR_SIZE :: nat where "ARQ_DATA_HDR_SIZE = 2"
definition ARQ_RP_DATA_SIZE :: nat where "ARQ_RP_DATA_SIZE = PACKET_SIZE - ARQ_OVERHEAD_SIZE - ARQ_DATA_HDR_SIZE"
definition RP_DATA_SIZE :: nat where "RP_DATA_SIZE = PACKET_SIZE - DATA_HDR_SIZE"
definition RP_LOSSLESS_HDR_SIZE :: nat where "RP_LOSSLESS_HDR_SIZE = 2"
definition RP_LOSSLESS_DATA_SIZE :: nat where "RP_LOSSLESS_DATA_SIZE = RP_DATA_SIZE - RP_LOSSLESS_HDR_SIZE"
definition PID_NBITS :: nat where "PID_NBITS = 12"
definition CID_NBITS :: nat where "CID_NBITS = 1"
definition RP_KCP_HDR_W_NBITS :: nat where "RP_KCP_HDR_W_NBITS = 1"

lemmas nwm_consts = RES_TIMEOUT_def NWM_HDR_SIZE_def DATA_HDR_SIZE_def PACKET_SIZE_def
  ARQ_OVERHEAD_SIZE_def ARQ_DATA_HDR_SIZE_def ARQ_RP_DATA_SIZE_def RP_DATA_SIZE_def
  RP_LOSSLESS_HDR_SIZE_def RP_LOSSLESS_DATA_SIZE_def PID_NBITS_def CID_NBITS_def
  RP_KCP_HDR_W_NBITS_def

section \<open>State\<close>

record data_info =
  send_pos :: nat
  pos :: nat
  flag :: u32

record nwm_thread_info =
  ni_buf :: nat
  buf_packet_last :: nat
  ni_info :: data_info

text \<open>A packet handed to the reliable stream: its address, the size word in front of it and its
  bytes at that moment (the consumer owns the buffer from then on).\<close>

record released =
  rel_ptr :: nat
  rel_size :: u32
  rel_bytes :: "u8 list"

record nwm_world =
  w_mem :: mem
  w_waits :: "i32 list"
  w_rels :: "i32 list"
  w_reset :: bool
  w_pool :: mp_pool
  w_ninfo :: "nat \<Rightarrow> nat \<Rightarrow> nwm_thread_info"
  w_relq :: "released list"
  w_terms :: "nat \<Rightarrow> nat \<Rightarrow> nat"
  w_fsize :: "nat \<Rightarrow> u32"
  w_dqsize :: "nat \<Rightarrow> bool \<Rightarrow> u32"
  w_pds :: nat

section \<open>Waiting\<close>

definition wait_syn_ns :: "nwm_world \<Rightarrow> bool option \<times> nwm_world" where
  "wait_syn_ns W =
     (case w_waits W of
        [] \<Rightarrow> (Some False, W\<lparr>w_reset := True\<rparr>)
      | res # rs \<Rightarrow>
          let W = W\<lparr>w_waits := rs\<rparr>
          in if res \<noteq> 0
             then if res \<noteq> RES_TIMEOUT then (None, W\<lparr>w_reset := True\<rparr>) else (Some False, W)
             else (Some True, W))"

lemma wait_syn_ns_decr:
  assumes "\<not> w_reset W" "wait_syn_ns W = (Some False, W')"
  shows "length (w_waits W') + (if w_reset W' then 0 else 1) < length (w_waits W) + 1"
  using assms by (auto simp: wait_syn_ns_def Let_def split: list.splits if_splits)

function wait_syn :: "nwm_world \<Rightarrow> bool \<times> nwm_world" where
  "wait_syn W =
     (if w_reset W then (False, W)
      else case wait_syn_ns W of
             (None, W') \<Rightarrow> (False, W')
           | (Some True, W') \<Rightarrow> (True, W')
           | (Some False, W') \<Rightarrow> wait_syn W')"
  by pat_completeness auto
termination
  by (relation "measure (\<lambda>W. length (w_waits W) + (if w_reset W then 0 else 1))")
     (use wait_syn_ns_decr in \<open>auto\<close>)

declare wait_syn.simps [simp del]

text \<open>Waits touch the script and the reset flag only.\<close>

definition same_but_env :: "nwm_world \<Rightarrow> nwm_world \<Rightarrow> bool" where
  "same_but_env W W' \<longleftrightarrow>
     W' = W\<lparr>w_waits := w_waits W', w_rels := w_rels W', w_reset := w_reset W'\<rparr>"

lemma same_but_env_refl [simp]: "same_but_env W W"
  by (simp add: same_but_env_def)

lemma same_but_env_trans: "same_but_env W W' \<Longrightarrow> same_but_env W' W'' \<Longrightarrow> same_but_env W W''"
  unfolding same_but_env_def by (cases W; cases W'; cases W'') simp

lemma wait_syn_ns_env: "same_but_env W (snd (wait_syn_ns W))"
  by (cases W) (auto simp: wait_syn_ns_def same_but_env_def Let_def split: list.splits)

lemma wait_syn_env: "same_but_env W (snd (wait_syn W))"
proof (induction W rule: wait_syn.induct)
  case (1 W)
  show ?case
  proof (cases "w_reset W")
    case True
    then show ?thesis by (subst wait_syn.simps) simp
  next
    case False
    obtain r W' where r: "wait_syn_ns W = (r, W')" by (cases "wait_syn_ns W")
    have e: "same_but_env W W'" using wait_syn_ns_env [of W] r by simp
    show ?thesis
    proof (cases "r = Some False")
      case True
      with False r 1 [OF False] have "same_but_env W' (snd (wait_syn W'))" by auto
      with e False r True show ?thesis
        by (subst wait_syn.simps) (auto intro: same_but_env_trans)
    next
      case nf: False
      with e False r show ?thesis
        by (subst wait_syn.simps) (auto split: option.splits bool.splits)
    qed
  qed
qed

text \<open>Handing a packet over: the loop round \<open>rp_syn_rel1\<close>. A raised reset flag ends the loop
  without the packet being queued, and the caller goes on.\<close>

definition packet_at :: "mem \<Rightarrow> nat \<Rightarrow> released" where
  "packet_at m p =
     (let size = rd32_le m (p - 4)
      in \<lparr>rel_ptr = p, rel_size = size, rel_bytes = rd m p (unat (size AND 0x1FFFFFFF))\<rparr>)"

fun syn_rel_loop :: "i32 list \<Rightarrow> nat \<Rightarrow> nwm_world \<Rightarrow> bool \<times> nwm_world" where
  "syn_rel_loop [] p W = (True, W\<lparr>w_rels := [], w_reset := True\<rparr>)"
| "syn_rel_loop (res # rs) p W =
     (if res = 0
      then (True, W\<lparr>w_rels := rs, w_relq := w_relq W @ [packet_at (w_mem W) p]\<rparr>)
      else if res \<noteq> RES_TIMEOUT then (False, W\<lparr>w_rels := rs, w_reset := True\<rparr>)
      else syn_rel_loop rs p W)"

definition syn_rel :: "nat \<Rightarrow> nwm_world \<Rightarrow> bool \<times> nwm_world" where
  "syn_rel p W = (if w_reset W then (True, W) else syn_rel_loop (w_rels W) p W)"

text \<open>Success with the reset flag still down means that the packet was queued.\<close>

definition with_released :: "released \<Rightarrow> nwm_world \<Rightarrow> nwm_world \<Rightarrow> bool" where
  "with_released q W W' \<longleftrightarrow> same_but_env (W\<lparr>w_relq := w_relq W @ [q]\<rparr>) W'"

lemma syn_rel_loop_ok:
  "syn_rel_loop rs p W = (True, W') \<Longrightarrow> \<not> w_reset W' \<Longrightarrow> with_released (packet_at (w_mem W) p) W W'"
proof (induction rs p W arbitrary: W' rule: syn_rel_loop.induct)
  case (2 res rs p W)
  then show ?case
    by (cases W) (auto simp: with_released_def same_but_env_def split: if_splits)
qed auto

lemma syn_rel_ok:
  "syn_rel p W = (True, W') \<Longrightarrow> \<not> w_reset W' \<Longrightarrow> with_released (packet_at (w_mem W) p) W W'"
  by (auto simp: syn_rel_def syn_rel_loop_ok split: if_splits)

lemma same_but_envD:
  assumes "same_but_env W W'"
  shows "w_mem W' = w_mem W" "w_relq W' = w_relq W" "w_ninfo W' = w_ninfo W" "w_pds W' = w_pds W"
    "w_terms W' = w_terms W" "w_pool W' = w_pool W"
  using assms unfolding same_but_env_def
  by (metis nwm_world.select_convs nwm_world.surjective nwm_world.update_convs)+

lemma syn_rel_loop_frame:
  "syn_rel_loop rs p W = (r, W') \<Longrightarrow>
     w_ninfo W' = w_ninfo W \<and> w_pds W' = w_pds W \<and> w_mem W' = w_mem W \<and> w_terms W' = w_terms W"
  by (induction rs p W rule: syn_rel_loop.induct) (auto split: if_splits)

lemma syn_rel_frame:
  "syn_rel p W = (r, W') \<Longrightarrow>
     w_ninfo W' = w_ninfo W \<and> w_pds W' = w_pds W \<and> w_mem W' = w_mem W \<and> w_terms W' = w_terms W"
  by (auto simp: syn_rel_def dest: syn_rel_loop_frame split: if_splits)

section \<open>Packet buffers\<close>

definition rp_term_data_buf_malloc :: "nwm_world \<Rightarrow> nat option \<times> nwm_world" where
  "rp_term_data_buf_malloc W =
     (case wait_syn W of
        (False, W) \<Rightarrow> (None, W)
      | (True, W) \<Rightarrow>
          (let (d, p) = mp_malloc (w_mem W) (w_pool W); W = W\<lparr>w_pool := p\<rparr>
           in if d = 0 then (None, W\<lparr>w_reset := True\<rparr>) else (Some d, W)))"

definition rp_term_data_buf_free_base :: "nat \<Rightarrow> nwm_world \<Rightarrow> bool \<times> nwm_world" where
  "rp_term_data_buf_free_base d W =
     (case wait_syn W of
        (False, W) \<Rightarrow> (False, W)
      | (True, W) \<Rightarrow>
          (let (m, p) = mp_free (w_mem W) (w_pool W) d in (True, W\<lparr>w_mem := m, w_pool := p\<rparr>)))"

definition rp_data_buf_malloc :: "nwm_world \<Rightarrow> nat option \<times> nwm_world" where
  "rp_data_buf_malloc W =
     (case wait_syn W of
        (False, W) \<Rightarrow> (None, W)
      | (True, W) \<Rightarrow> rp_term_data_buf_malloc W)"

lemma wait_syn_ok: "wait_syn W = (True, W') \<Longrightarrow> \<not> w_reset W"
  by (subst (asm) wait_syn.simps) (auto split: if_splits)

text \<open>What a successful allocation leaves alone.\<close>

definition same_but_pool :: "nwm_world \<Rightarrow> nwm_world \<Rightarrow> bool" where
  "same_but_pool W W' \<longleftrightarrow> (\<exists>W1. same_but_env W W1 \<and> W' = W1\<lparr>w_pool := w_pool W'\<rparr>)"

lemma same_but_poolD:
  assumes "same_but_pool W W'"
  shows "w_mem W' = w_mem W" "w_relq W' = w_relq W" "w_ninfo W' = w_ninfo W" "w_pds W' = w_pds W"
    "w_terms W' = w_terms W" "w_fsize W' = w_fsize W" "w_dqsize W' = w_dqsize W"
  using assms unfolding same_but_pool_def same_but_env_def
  by (metis nwm_world.select_convs nwm_world.surjective nwm_world.update_convs)+

lemma same_but_poolI: "same_but_env W W1 \<Longrightarrow> same_but_pool W (W1\<lparr>w_pool := p, w_reset := r\<rparr>)"
  unfolding same_but_pool_def
  by (rule exI [of _ "W1\<lparr>w_reset := r\<rparr>"]) (cases W; cases W1; simp add: same_but_env_def)

lemma same_but_poolI': "same_but_env W W1 \<Longrightarrow> same_but_pool W (W1\<lparr>w_pool := p\<rparr>)"
  using same_but_poolI [where W = W and ?W1.0 = W1 and r = "w_reset W1"] by simp

lemma same_but_env_pool: "same_but_env W W' \<Longrightarrow> same_but_pool W W'"
  using same_but_poolI' [of W W' "w_pool W'"] by simp

lemma env_pool_trans: "same_but_env W W1 \<Longrightarrow> same_but_pool W1 W' \<Longrightarrow> same_but_pool W W'"
  unfolding same_but_pool_def using same_but_env_trans by blast

lemma rp_term_data_buf_malloc_frame:
  "same_but_pool W (snd (rp_term_data_buf_malloc W))"
  using wait_syn_env [of W]
  by (auto simp: rp_term_data_buf_malloc_def Let_def intro: same_but_poolI same_but_poolI'
      same_but_env_pool split: prod.splits bool.splits)

lemma rp_data_buf_malloc_frame:
  "same_but_pool W (snd (rp_data_buf_malloc W))"
proof (cases "fst (wait_syn W)")
  case True
  then obtain W1 where w: "wait_syn W = (True, W1)" by (cases "wait_syn W") auto
  then have "same_but_env W W1" using wait_syn_env [of W] by simp
  then show ?thesis
    using w rp_term_data_buf_malloc_frame [of W1]
    by (auto simp: rp_data_buf_malloc_def intro: env_pool_trans)
next
  case False
  then show ?thesis using wait_syn_env [of W]
    by (cases "wait_syn W") (auto simp: rp_data_buf_malloc_def intro: same_but_env_pool)
qed

text \<open>The reset flag is never lowered, and every failure leaves it raised.\<close>

definition reset_rule :: "nwm_world \<Rightarrow> bool \<Rightarrow> nwm_world \<Rightarrow> bool" where
  "reset_rule W r W' \<longleftrightarrow> (w_reset W \<longrightarrow> w_reset W') \<and> (\<not> r \<longrightarrow> w_reset W')"

lemma wait_syn_reset: "reset_rule W (fst (wait_syn W)) (snd (wait_syn W))"
proof (induction W rule: wait_syn.induct)
  case (1 W)
  have ns: "(w_reset W \<longrightarrow> w_reset (snd (wait_syn_ns W)))
      \<and> (fst (wait_syn_ns W) = None \<longrightarrow> w_reset (snd (wait_syn_ns W)))"
    by (auto simp: wait_syn_ns_def Let_def split: list.splits)
  show ?case
  proof (cases "w_reset W \<or> fst (wait_syn_ns W) \<noteq> Some False")
    case True
    with ns show ?thesis
      by (subst (1 2) wait_syn.simps)
         (auto simp: reset_rule_def split: prod.splits option.splits bool.splits)
  next
    case False
    then obtain W' where w: "wait_syn_ns W = (Some False, W')" by (cases "wait_syn_ns W") auto
    with False have "wait_syn W = wait_syn W'" by (subst wait_syn.simps) simp
    with 1 False w show ?thesis by (auto simp: reset_rule_def)
  qed
qed

lemma wait_syn_resetD: "wait_syn W = (r, W') \<Longrightarrow> reset_rule W r W'"
  using wait_syn_reset [of W] by simp

lemma syn_rel_loop_reset: "\<not> w_reset W \<Longrightarrow> syn_rel_loop rs p W = (r, W') \<Longrightarrow> reset_rule W r W'"
  by (induction rs p W rule: syn_rel_loop.induct) (auto simp: reset_rule_def split: if_splits)

lemma syn_rel_reset: "syn_rel p W = (r, W') \<Longrightarrow> reset_rule W r W'"
  by (auto simp: syn_rel_def intro: syn_rel_loop_reset split: if_splits)
     (auto simp: reset_rule_def)

lemma rp_term_data_buf_malloc_reset:
  "rp_term_data_buf_malloc W = (r, W') \<Longrightarrow> reset_rule W (r \<noteq> None) W'"
  by (auto simp: rp_term_data_buf_malloc_def reset_rule_def Let_def dest!: wait_syn_resetD
      split: prod.splits bool.splits if_splits)

lemma rp_data_buf_malloc_reset:
  "rp_data_buf_malloc W = (r, W') \<Longrightarrow> reset_rule W (r \<noteq> None) W'"
  by (auto simp: rp_data_buf_malloc_def reset_rule_def Let_def
      dest!: wait_syn_resetD rp_term_data_buf_malloc_reset
      split: prod.splits bool.splits if_splits)

lemma rp_term_data_buf_malloc_ok:
  assumes "rp_term_data_buf_malloc W = (Some b, W')"
  shows "same_but_pool W W'" "\<not> w_reset W" "b \<noteq> 0"
  using assms rp_term_data_buf_malloc_frame [of W]
  by (auto simp: rp_term_data_buf_malloc_def Let_def dest: wait_syn_ok
      split: prod.splits bool.splits if_splits)

lemma rp_data_buf_malloc_ok:
  assumes "rp_data_buf_malloc W = (Some b, W')"
  shows "same_but_pool W W'" "\<not> w_reset W" "b \<noteq> 0"
  using assms rp_data_buf_malloc_frame [of W]
  by (auto simp: rp_data_buf_malloc_def dest: wait_syn_ok rp_term_data_buf_malloc_ok(3)
      split: prod.splits bool.splits)

definition rp_data_buf_free :: "nat \<Rightarrow> nwm_world \<Rightarrow> bool \<times> nwm_world" where
  "rp_data_buf_free d W = rp_term_data_buf_free_base d W"

definition rp_term_data_buf_free :: "nat \<Rightarrow> nwm_world \<Rightarrow> bool \<times> nwm_world" where
  "rp_term_data_buf_free d W = rp_term_data_buf_free_base (d - (NWM_HDR_SIZE + ARQ_OVERHEAD_SIZE)) W"

definition rp_seg_data_buf_free :: "nat \<Rightarrow> nwm_world \<Rightarrow> bool \<times> nwm_world" where
  "rp_seg_data_buf_free d W = rp_data_buf_free (d - (NWM_HDR_SIZE + ARQ_OVERHEAD_SIZE)) W"

definition rp_data_buf_data :: "nat \<Rightarrow> nat" where
  "rp_data_buf_data d = d + (NWM_HDR_SIZE + ARQ_OVERHEAD_SIZE + ARQ_DATA_HDR_SIZE)"

section \<open>Packet sizes\<close>

definition get_packet_data_size_const :: "bool \<Rightarrow> nat" where
  "get_packet_data_size_const rel_stream = (if rel_stream then ARQ_RP_DATA_SIZE else RP_DATA_SIZE)"

definition get_lossless_packet_data_size_const :: "bool \<Rightarrow> nat" where
  "get_lossless_packet_data_size_const rel_stream =
     (if rel_stream then ARQ_RP_DATA_SIZE else RP_LOSSLESS_DATA_SIZE)"

definition set_packet_data_size :: "bool \<Rightarrow> bool \<Rightarrow> nwm_world \<Rightarrow> nwm_world" where
  "set_packet_data_size lossless kcp W = W\<lparr>w_pds :=
     if lossless then get_lossless_packet_data_size_const kcp else get_packet_data_size_const kcp\<rparr>"

section \<open>Frame sizes\<close>

definition JPEG_COMP_COUNT_SIZE_NBITS :: nat where "JPEG_COMP_COUNT_SIZE_NBITS = 19"
definition JPEG_COMP_COUNT_BLKN_NBITS :: nat where "JPEG_COMP_COUNT_BLKN_NBITS = 13"

definition dq_next :: "u32 \<Rightarrow> u32 \<Rightarrow> u16 \<Rightarrow> u32" where
  "dq_next cur sz blkn =
     (let prev_size = cur AND (push_bit JPEG_COMP_COUNT_SIZE_NBITS 1 - 1);
          prev_blkn = drop_bit JPEG_COMP_COUNT_SIZE_NBITS cur
                        AND (push_bit JPEG_COMP_COUNT_BLKN_NBITS 1 - 1);
          next_size = prev_size + sz;
          next_blkn = prev_blkn + ucast blkn
      in (next_size AND (push_bit JPEG_COMP_COUNT_SIZE_NBITS 1 - 1))
         OR push_bit JPEG_COMP_COUNT_SIZE_NBITS
              (next_blkn AND (push_bit JPEG_COMP_COUNT_BLKN_NBITS 1 - 1)))"

text \<open>The compare-exchange loop: \<open>seen\<close> lists the values the failing exchanges read back.\<close>

fun rp_dq_update_size :: "u32 list \<Rightarrow> u32 \<Rightarrow> u32 \<Rightarrow> u16 \<Rightarrow> u32" where
  "rp_dq_update_size [] cur sz blkn = dq_next cur sz blkn"
| "rp_dq_update_size (temp # seen) cur sz blkn = rp_dq_update_size seen temp sz blkn"

definition rp_update_size :: "nat \<Rightarrow> u32 \<Rightarrow> nwm_world \<Rightarrow> nwm_world" where
  "rp_update_size w sz W = W\<lparr>w_fsize := (w_fsize W)(w := w_fsize W w + sz)\<rparr>"

definition rp_get_size :: "nat \<Rightarrow> nwm_world \<Rightarrow> u32" where
  "rp_get_size w W = w_fsize W w"

definition rp_clear_size :: "nat \<Rightarrow> nwm_world \<Rightarrow> nwm_world" where
  "rp_clear_size w W = W\<lparr>w_fsize := (w_fsize W)(w := 0)\<rparr>"

definition set_term_dst :: "nat \<Rightarrow> nat \<Rightarrow> nat \<Rightarrow> nwm_world \<Rightarrow> bool \<times> nwm_world" where
  "set_term_dst d w t W =
     (if w_terms W w t = 0
      then (True, W\<lparr>w_terms := (w_terms W)(w := (w_terms W w)(t := d))\<rparr>)
      else (False, W))"

end
