(* ===== verification/Worker_Dst.thy ===== *)
theory Worker_Dst
  imports Nwm_World
begin

text \<open>
  \<^verbatim>\<open>encoder/worker_dst.rs\<close> and \<open>rp_send_buffer\<close> of \<^verbatim>\<open>entries/thread_nwm/vars.rs\<close>: the byte sink an
  encoding thread writes its part of a frame to, cut into packets. With the reliable stream off the
  packets lie one after the other in the send buffer of the thread, from which the network thread
  sends; with it on every full packet is handed over with a two-byte header and a new buffer is
  taken from the pool, and the last, shorter one is left for \<open>send_term_dsts\<close>.
  The \<open>user\<close> union is a datatype; reading the member that was not written is undefined in the source
  and its selectors are unspecified there.
\<close>

record arq_rp_hdr =
  hdr_w :: iranged
  hdr_t :: iranged

datatype worker_dst_user =
    Ninfo (ninfo_w: nat) (ninfo_t: nat)
  | Kcp_hdr (kcp_hdr: arq_rp_hdr)

record worker_dst =
  wd_blkn :: u16
  wd_s :: iranged
  wd_w :: iranged
  wd_dst :: nat
  wd_free :: u16
  wd_user :: worker_dst_user
  wd_rel_stream :: bool
  wd_delta_prog :: bool
  wd_even_odd :: bool

definition arq_hdr_word :: "arq_rp_hdr \<Rightarrow> u16" where
  "arq_hdr_word h =
     push_bit (PID_NBITS + CID_NBITS) (ucast (ri (hdr_w h)))
     OR push_bit (PID_NBITS + CID_NBITS + RP_KCP_HDR_W_NBITS) (ucast (ri (hdr_t h)))"

definition write_hdr :: "arq_rp_hdr \<Rightarrow> nat \<Rightarrow> mem \<Rightarrow> mem" where
  "write_hdr h d m = wr d (le16 (arq_hdr_word h)) m"

section \<open>Sending a packet\<close>

definition TERM_FLAG :: u32 where "TERM_FLAG = 0x10"

definition rp_send_buffer ::
  "worker_dst \<Rightarrow> bool \<Rightarrow> bool \<Rightarrow> nwm_world \<Rightarrow> bool \<times> worker_dst \<times> nwm_world" where
  "rp_send_buffer d term rel_stream W =
     (let pds = w_pds W;
          size = (if term then pds - unat (wd_free d) else pds)
      in if \<not> rel_stream then
           let w = ninfo_w (wd_user d); t = ninfo_t (wd_user d);
               ni = w_ninfo W w t; di = ni_info ni;
               pos_next = pos di + size;
               di = di\<lparr>pos := pos di + size\<rparr>;
               di = (if term then di\<lparr>flag := TERM_FLAG\<rparr> else di);
               pos_next = (if \<not> term \<and> buf_packet_last ni < pos_next then buf_packet_last ni
                           else pos_next);
               W = W\<lparr>w_ninfo := (w_ninfo W)(w := (w_ninfo W w)(t := ni\<lparr>ni_info := di\<rparr>))\<rparr>
           in (True, d\<lparr>wd_dst := pos_next, wd_free := of_nat pds\<rparr>, W)
         else
           let hdr = kcp_hdr (wd_user d);
               p = (if term then wd_dst d - (pds - unat (wd_free d)) else wd_dst d - pds);
               size = (of_nat size :: u32);
               p' = (if term then p else p - ARQ_DATA_HDR_SIZE);
               size = (if term then size else size + of_nat ARQ_DATA_HDR_SIZE);
               W = (if term then W else W\<lparr>w_mem := write_hdr hdr p' (w_mem W)\<rparr>);
               W = W\<lparr>w_mem := wr (p' - 4) (le32 size) (w_mem W)\<rparr>
           in if term then
                let (r, W) = set_term_dst p' (unat (ri (hdr_w hdr))) (unat (ri (hdr_t hdr))) W
                in (r, d, W)
              else case syn_rel p' W of
                     (False, W) \<Rightarrow> (False, d, W)
                   | (True, W) \<Rightarrow>
                       (case rp_data_buf_malloc W of
                          (None, W) \<Rightarrow> (False, d, W)
                        | (Some b, W) \<Rightarrow>
                            (True, d\<lparr>wd_dst := rp_data_buf_data b, wd_free := of_nat pds\<rparr>, W)))"

section \<open>The sink\<close>

definition dq_update_size :: "u32 \<Rightarrow> worker_dst \<Rightarrow> nwm_world \<Rightarrow> nwm_world" where
  "dq_update_size sz d W =
     (if wd_delta_prog d then
        let s = unat (ri (wd_s d)); eo = wd_even_odd d in
        W\<lparr>w_dqsize := (w_dqsize W)(s := (w_dqsize W s)(eo :=
             rp_dq_update_size [] (w_dqsize W s eo) sz (wd_blkn d)))\<rparr>
      else rp_update_size (unat (ri (wd_w d))) sz W)"

definition flush :: "worker_dst \<Rightarrow> nwm_world \<Rightarrow> bool \<times> worker_dst \<times> nwm_world" where
  "flush d W =
     (let W = dq_update_size (of_nat (w_pds W)) d W; d = d\<lparr>wd_blkn := 0\<rparr>
      in rp_send_buffer d False (wd_rel_stream d) W)"

definition term_dst :: "worker_dst \<Rightarrow> nwm_world \<Rightarrow> bool \<times> worker_dst \<times> nwm_world" where
  "term_dst d W =
     (let W = dq_update_size (of_nat (w_pds W) - ucast (wd_free d)) d W; d = d\<lparr>wd_blkn := 0\<rparr>
      in rp_send_buffer d True (wd_rel_stream d) W)"

definition write_byte :: "u8 \<Rightarrow> worker_dst \<Rightarrow> nwm_world \<Rightarrow> bool \<times> worker_dst \<times> nwm_world" where
  "write_byte byte d W =
     (case if wd_free d = 0 then flush d W else (True, d, W) of
        (False, d, W) \<Rightarrow> (False, d, W)
      | (True, d, W) \<Rightarrow>
          (True, d\<lparr>wd_free := wd_free d - 1, wd_dst := wd_dst d + 1\<rparr>,
           W\<lparr>w_mem := (w_mem W)(wd_dst d := byte)\<rparr>))"

definition copy_tail ::
  "u8 list \<Rightarrow> u16 \<Rightarrow> worker_dst \<Rightarrow> nwm_world \<Rightarrow> bool \<times> worker_dst \<times> nwm_world" where
  "copy_tail src len d W =
     (True, d\<lparr>wd_free := wd_free d - len, wd_dst := wd_dst d + unat len\<rparr>,
      W\<lparr>w_mem := wr (wd_dst d) (take (unat len) src) (w_mem W)\<rparr>)"

definition write_bytes ::
  "u8 list \<Rightarrow> worker_dst \<Rightarrow> nwm_world \<Rightarrow> bool \<times> worker_dst \<times> nwm_world" where
  "write_bytes bytes d W =
     (let len = (of_nat (length bytes) :: u16) in
      if 0 < wd_free d then
        if wd_free d < len then
          let n = unat (wd_free d);
              W = W\<lparr>w_mem := wr (wd_dst d) (take n bytes) (w_mem W)\<rparr>;
              len = len - wd_free d;
              d = d\<lparr>wd_free := 0, wd_dst := wd_dst d + n\<rparr>
          in case flush d W of
               (False, d, W) \<Rightarrow> (False, d, W)
             | (True, d, W) \<Rightarrow> copy_tail (drop n bytes) len d W
        else copy_tail bytes len d W
      else case flush d W of
             (False, d, W) \<Rightarrow> (False, d, W)
           | (True, d, W) \<Rightarrow> copy_tail bytes len d W)"

definition advance_to :: "nat \<Rightarrow> worker_dst \<Rightarrow> worker_dst" where
  "advance_to p d = d\<lparr>wd_free := wd_free d - of_nat (p - wd_dst d), wd_dst := p\<rparr>"

section \<open>The bytes a sink has taken\<close>

definition wd_base :: "worker_dst \<Rightarrow> nwm_world \<Rightarrow> nat" where
  "wd_base d W = wd_dst d - (w_pds W - unat (wd_free d))"

definition rel_payload :: "arq_rp_hdr \<Rightarrow> released list \<Rightarrow> u8 list" where
  "rel_payload h q =
     concat (map (drop 2 \<circ> rel_bytes) (filter (\<lambda>p. take 2 (rel_bytes p) = le16 (arq_hdr_word h)) q))"

definition wd_out :: "worker_dst \<Rightarrow> nwm_world \<Rightarrow> u8 list" where
  "wd_out d W =
     (case wd_user d of
        Kcp_hdr h \<Rightarrow> rel_payload h (w_relq W) @ rd (w_mem W) (wd_base d W) (wd_dst d - wd_base d W)
      | Ninfo w t \<Rightarrow> rd (w_mem W) (ni_buf (w_ninfo W w t)) (wd_dst d - ni_buf (w_ninfo W w t)))"

text \<open>The send buffer of a thread has not overflowed.\<close>

definition wd_room :: "worker_dst \<Rightarrow> nwm_world \<Rightarrow> bool" where
  "wd_room d W \<longleftrightarrow>
     (case wd_user d of
        Kcp_hdr h \<Rightarrow> True
      | Ninfo w t \<Rightarrow> pos (ni_info (w_ninfo W w t)) \<le> buf_packet_last (w_ninfo W w t))"

definition wd_inv :: "worker_dst \<Rightarrow> nwm_world \<Rightarrow> bool" where
  "wd_inv d W \<longleftrightarrow>
     0 < w_pds W \<and> w_pds W < 2 ^ 15 \<and> unat (wd_free d) \<le> w_pds W
   \<and> (case wd_user d of
        Kcp_hdr h \<Rightarrow> wd_rel_stream d \<and> 6 + w_pds W \<le> wd_dst d + unat (wd_free d)
      | Ninfo w t \<Rightarrow> \<not> wd_rel_stream d
          \<and> (let ni = w_ninfo W w t in wd_room d W \<longrightarrow>
               ni_buf ni \<le> pos (ni_info ni)
             \<and> wd_dst d + unat (wd_free d) = pos (ni_info ni) + w_pds W))"


lemma dq_update_size_simps [simp]:
  "w_mem (dq_update_size n d W) = w_mem W"
  "w_relq (dq_update_size n d W) = w_relq W"
  "w_ninfo (dq_update_size n d W) = w_ninfo W"
  "w_pds (dq_update_size n d W) = w_pds W"
  "w_terms (dq_update_size n d W) = w_terms W"
  "w_reset (dq_update_size n d W) = w_reset W"
  by (simp_all add: dq_update_size_def rp_update_size_def Let_def)

lemma with_releasedD:
  assumes "with_released q W W'"
  shows "w_mem W' = w_mem W" "w_relq W' = w_relq W @ [q]" "w_ninfo W' = w_ninfo W"
    "w_pds W' = w_pds W" "w_terms W' = w_terms W"
  using assms unfolding with_released_def same_but_env_def
  by (metis nwm_world.select_convs nwm_world.surjective nwm_world.update_convs)+

lemma unat_of_pds: "n < 2 ^ 15 \<Longrightarrow> unat (of_nat n :: u16) = n"
  by (rule unat_of_nat_small) simp

lemma packet_at_sent:
  assumes "n < 2 ^ 15" "6 \<le> b"
  shows "packet_at (wr (b - 2 - 4) (le32 (of_nat n + of_nat ARQ_DATA_HDR_SIZE)) (write_hdr h (b - 2) m)) (b - 2)
       = \<lparr>rel_ptr = b - 2, rel_size = of_nat n + 2,
          rel_bytes = le16 (arq_hdr_word h) @ rd m b n\<rparr>"
proof -
  let ?sz = "of_nat n + of_nat ARQ_DATA_HDR_SIZE :: u32"
  let ?M1 = "write_hdr h (b - 2) m"
  let ?M = "wr (b - 2 - 4) (le32 ?sz) ?M1"
  have sz: "?sz = of_nat (n + 2)" by (simp add: ARQ_DATA_HDR_SIZE_def)
  have "unat ?sz = n + 2" using assms(1) by (simp only: sz, intro unat_of_nat_small) simp
  moreover have "(0x1FFFFFFF :: u32) = mask 29" by (simp add: mask_eq_exp_minus_1)
  ultimately have len: "unat (?sz AND 0x1FFFFFFF) = 2 + n"
    using assms(1) by (simp only: unat_and_mask) simp
  have hl: "b - 2 + length (le16 (arq_hdr_word h)) = b" using assms(2) by simp
  have "rd ?M (b - 2) (2 + n) = rd ?M1 (b - 2) (2 + n)"
    using assms(2) by (intro rd_wr_disjoint) simp
  also have "\<dots> = rd ?M1 (b - 2) 2 @ rd ?M1 (b - 2 + 2) n" by (rule rd_add)
  also have "b - 2 + 2 = b" using assms(2) by simp
  also have "rd ?M1 (b - 2) 2 = le16 (arq_hdr_word h)"
    using rd_wr_same [of "b - 2" "le16 (arq_hdr_word h)" m] by (simp add: write_hdr_def)
  also have "rd ?M1 b n = rd m b n"
    unfolding write_hdr_def using hl by (intro rd_wr_disjoint disjI2) (simp only: hl order_refl)
  finally show ?thesis
    by (simp only: packet_at_def Let_def rd32_le_wr len) (simp add: ARQ_DATA_HDR_SIZE_def)
qed

lemma rel_payload_snoc:
  "rel_payload h (q @ [\<lparr>rel_ptr = p, rel_size = sz, rel_bytes = le16 (arq_hdr_word h) @ bs\<rparr>])
     = rel_payload h q @ bs"
  by (simp add: rel_payload_def)

text \<open>Only full packets of the sink's own header join the queue while it is being written.\<close>

definition full_packet :: "arq_rp_hdr \<Rightarrow> nat \<Rightarrow> released \<Rightarrow> bool" where
  "full_packet h n q \<longleftrightarrow>
     rel_size q = of_nat (n + 2) \<and> length (rel_bytes q) = n + 2
   \<and> take 2 (rel_bytes q) = le16 (arq_hdr_word h)"

definition queue_grows :: "worker_dst \<Rightarrow> nwm_world \<Rightarrow> nwm_world \<Rightarrow> bool" where
  "queue_grows d W W' \<longleftrightarrow>
     (case wd_user d of
        Ninfo w t \<Rightarrow> w_relq W' = w_relq W
      | Kcp_hdr h \<Rightarrow> (\<exists>qs. w_relq W' = w_relq W @ qs \<and> (\<forall>q \<in> set qs. full_packet h (w_pds W) q)))"

lemma queue_grows_refl [simp]: "w_relq W' = w_relq W \<Longrightarrow> queue_grows d W W'"
  by (simp add: queue_grows_def split: worker_dst_user.splits)

lemma queue_grows_trans:
  "queue_grows d W W1 \<Longrightarrow> queue_grows d' W1 W2 \<Longrightarrow> w_pds W1 = w_pds W \<Longrightarrow> wd_user d' = wd_user d
     \<Longrightarrow> queue_grows d W W2"
  by (cases "wd_user d") (fastforce simp: queue_grows_def)+

lemma send_rel_ok:
  assumes s: "rp_send_buffer d False True W = (True, d', W')"
    and u: "wd_user d = Kcp_hdr h" and f: "wd_free d = 0"
    and P: "0 < w_pds W" "w_pds W < 2 ^ 15" "6 + w_pds W \<le> wd_dst d"
  shows "\<exists>b. d' = d\<lparr>wd_dst := b, wd_free := of_nat (w_pds W)\<rparr> \<and> 6 \<le> b \<and> w_pds W' = w_pds W
       \<and> w_ninfo W' = w_ninfo W \<and> w_terms W' = w_terms W \<and> queue_grows d W W'
       \<and> rel_payload h (w_relq W') = rel_payload h (w_relq W) @ rd (w_mem W) (wd_dst d - w_pds W) (w_pds W)"
proof -
  let ?b = "wd_dst d - w_pds W"
  let ?m = "wr (?b - 2 - 4) (le32 (of_nat (w_pds W) + of_nat ARQ_DATA_HDR_SIZE)) (write_hdr h (?b - 2) (w_mem W))"
  let ?W = "W\<lparr>w_mem := ?m\<rparr>"
  have eq: "rp_send_buffer d False True W =
      (case syn_rel (?b - 2) ?W of
         (False, V) \<Rightarrow> (False, d, V)
       | (True, V) \<Rightarrow>
           (case rp_data_buf_malloc V of
              (None, V) \<Rightarrow> (False, d, V)
            | (Some b, V) \<Rightarrow> (True, d\<lparr>wd_dst := rp_data_buf_data b, wd_free := of_nat (w_pds W)\<rparr>, V)))"
    by (simp add: rp_send_buffer_def u f Let_def ARQ_DATA_HDR_SIZE_def add.commute)
  obtain W1 where r: "syn_rel (?b - 2) ?W = (True, W1)"
    using s by (auto simp: eq split: prod.splits bool.splits)
  with s obtain b where m: "rp_data_buf_malloc W1 = (Some b, W')"
    and d': "d' = d\<lparr>wd_dst := rp_data_buf_data b, wd_free := of_nat (w_pds W)\<rparr>"
    by (auto simp: eq split: prod.splits option.splits)
  note ok = rp_data_buf_malloc_ok [OF m]
  have q: "with_released (packet_at ?m (?b - 2)) ?W W1"
    using syn_rel_ok [OF r ok(2)] by simp
  have "6 \<le> ?b" using P by simp
  note pk = packet_at_sent [OF P(2) this, of h "w_mem W"]
  have rq: "w_relq W' = w_relq W @ [packet_at ?m (?b - 2)]"
    using with_releasedD(2) [OF q] same_but_poolD(2) [OF ok(1)] by simp
  have "full_packet h (w_pds W) (packet_at ?m (?b - 2))"
    by (simp only: pk full_packet_def) simp
  with rq have "queue_grows d W W'" by (simp add: queue_grows_def u)
  moreover from rq have "rel_payload h (w_relq W') = rel_payload h (w_relq W) @ rd (w_mem W) ?b (w_pds W)"
    by (simp only: pk rel_payload_snoc)
  ultimately show ?thesis
    using with_releasedD(3-5) [OF q] same_but_poolD(3-5) [OF ok(1)] d'
    by (intro exI [of _ "rp_data_buf_data b"]) (simp add: rp_data_buf_data_def nwm_consts)
qed

lemma flush_ok:
  assumes s: "flush d W = (True, d', W')" and i: "wd_inv d W" and f: "wd_free d = 0"
  shows "wd_inv d' W' \<and> wd_free d' = of_nat (w_pds W) \<and> w_pds W' = w_pds W
       \<and> wd_user d' = wd_user d \<and> queue_grows d W W'
       \<and> (wd_room d' W' \<longrightarrow> wd_room d W \<and> wd_out d' W' = wd_out d W)"
proof (cases "wd_user d")
  case (Ninfo w t)
  from s i f Ninfo show ?thesis
    by (auto simp: flush_def rp_send_buffer_def Let_def wd_inv_def wd_room_def wd_out_def
        unat_of_pds split: if_splits)
next
  case (Kcp_hdr h)
  let ?d = "d\<lparr>wd_blkn := 0\<rparr>"
  let ?W = "dq_update_size (of_nat (w_pds W)) d W"
  have "rp_send_buffer ?d False True ?W = (True, d', W')"
    using s i Kcp_hdr by (simp add: flush_def wd_inv_def Let_def)
  from send_rel_ok [OF this, of h] i f Kcp_hdr obtain b where
    b: "d' = ?d\<lparr>wd_dst := b, wd_free := of_nat (w_pds W)\<rparr>" "6 \<le> b" "w_pds W' = w_pds W"
      "queue_grows d W W'"
      "rel_payload h (w_relq W') = rel_payload h (w_relq W) @ rd (w_mem W) (wd_dst d - w_pds W) (w_pds W)"
    by (auto simp: wd_inv_def queue_grows_def)
  with i f Kcp_hdr show ?thesis
    by (auto simp: wd_inv_def wd_room_def wd_out_def wd_base_def unat_of_pds)
qed


section \<open>Writing\<close>

text \<open>Storing bytes at the cursor, without crossing the end of the packet.\<close>

definition stored :: "u8 list \<Rightarrow> worker_dst \<times> nwm_world \<Rightarrow> worker_dst \<times> nwm_world \<Rightarrow> bool" where
  "stored bs s s' \<longleftrightarrow>
     (case (s, s') of ((d, W), (d', W')) \<Rightarrow>
        wd_inv d' W' \<and> w_pds W' = w_pds W \<and> wd_user d' = wd_user d \<and> queue_grows d W W'
      \<and> (wd_room d' W' \<longrightarrow> wd_room d W \<and> wd_out d' W' = wd_out d W @ bs))"

lemma stored_trans:
  "stored as s s' \<Longrightarrow> stored bs s' s'' \<Longrightarrow> stored (as @ bs) s s''"
  by (auto simp: stored_def split: prod.splits intro: queue_grows_trans)

lemma copy_stored:
  assumes i: "wd_inv d W" and len: "length bs \<le> unat (wd_free d)"
  shows "stored bs (d, W)
     (d\<lparr>wd_free := wd_free d - of_nat (length bs), wd_dst := wd_dst d + length bs\<rparr>,
      W\<lparr>w_mem := wr (wd_dst d) bs (w_mem W)\<rparr>)"
proof -
  have lw: "unat (of_nat (length bs) :: u16) = length bs"
    using len unat_less_exp [of "wd_free d"] by (intro unat_of_nat_small) simp
  have fr: "unat (wd_free d - of_nat (length bs)) = unat (wd_free d) - length bs"
    using len lw by (simp add: unat_sub_le)
  show ?thesis
  proof (cases "wd_user d")
    case (Ninfo w t)
    let ?b = "ni_buf (w_ninfo W w t)"
    have "wd_room d W \<Longrightarrow> ?b \<le> wd_dst d" using i Ninfo by (auto simp: wd_inv_def Let_def)
    then have "wd_room d W \<Longrightarrow> rd (wr (wd_dst d) bs (w_mem W)) ?b (wd_dst d + length bs - ?b)
        = rd (w_mem W) ?b (wd_dst d - ?b) @ bs"
      using rd_wr_after [of ?b "wd_dst d - ?b" bs "w_mem W"] by simp
    with i len fr Ninfo show ?thesis
      by (auto simp: stored_def wd_inv_def wd_room_def wd_out_def Let_def)
  next
    case (Kcp_hdr h)
    let ?b = "wd_dst d - (w_pds W - unat (wd_free d))"
    have b: "?b \<le> wd_dst d" by simp
    have nb: "wd_dst d + length bs - (w_pds W - (unat (wd_free d) - length bs)) = ?b"
      using i len Kcp_hdr by (auto simp: wd_inv_def)
    have "rd (wr (wd_dst d) bs (w_mem W)) ?b (wd_dst d + length bs - ?b)
        = rd (w_mem W) ?b (wd_dst d - ?b) @ bs"
      using rd_wr_after [of ?b "wd_dst d - ?b" bs "w_mem W"] b by (simp del: diff_diff_cancel)
    with i len fr Kcp_hdr nb show ?thesis
      by (auto simp: stored_def wd_inv_def wd_room_def wd_out_def wd_base_def)
  qed
qed

lemma flush_stored:
  assumes "flush d W = (True, d', W')" "wd_inv d W" "wd_free d = 0"
  shows "stored [] (d, W) (d', W')" "unat (wd_free d') = w_pds W"
proof -
  note f = flush_ok [OF assms]
  show "stored [] (d, W) (d', W')" using f by (simp add: stored_def)
  show "unat (wd_free d') = w_pds W" using f assms(2) by (simp add: wd_inv_def unat_of_pds)
qed

lemma copy_tail_stored:
  assumes "copy_tail bs len d W = (True, d', W')" "wd_inv d W" "length bs \<le> unat (wd_free d)"
    and "unat len = length bs"
  shows "stored bs (d, W) (d', W')"
proof -
  have "len = of_nat (length bs)" using assms(4) by (simp flip: assms(4))
  with assms copy_stored [OF assms(2,3)] show ?thesis by (auto simp: copy_tail_def)
qed

lemma write_byte_stored:
  assumes s: "write_byte b d W = (True, d', W')" and i: "wd_inv d W"
  shows "stored [b] (d, W) (d', W')"
proof -
  have step: "stored [b] (e, V) (e\<lparr>wd_free := wd_free e - 1, wd_dst := wd_dst e + 1\<rparr>,
      V\<lparr>w_mem := (w_mem V)(wd_dst e := b)\<rparr>)"
    if "wd_inv e V" "0 < unat (wd_free e)" for e V
    using copy_stored [of e V "[b]"] that by simp
  show ?thesis
  proof (cases "wd_free d = 0")
    case True
    then obtain e V where f: "flush d W = (True, e, V)" using s
      by (auto simp: write_byte_def split: prod.splits bool.splits)
    note fs = flush_stored [OF f i True]
    have "wd_inv e V" using fs(1) by (simp add: stored_def)
    moreover have "0 < unat (wd_free e)" using fs(2) i by (simp add: wd_inv_def)
    ultimately have "stored [b] (e, V) (d', W')" using step [of e V] s f True
      by (simp add: write_byte_def)
    with fs(1) show ?thesis using stored_trans by fastforce
  next
    case False
    then show ?thesis using step [OF i] s by (auto simp: write_byte_def unat_gt_0)
  qed
qed


section \<open>Failures\<close>

text \<open>A write fails only when the threads are being reset, and neither the reset flag nor an
  overflow of the send buffer ever goes away.\<close>

definition wd_rule ::
  "worker_dst \<Rightarrow> nwm_world \<Rightarrow> bool \<times> worker_dst \<times> nwm_world \<Rightarrow> bool" where
  "wd_rule d W res \<longleftrightarrow>
     (case res of (r, d', W') \<Rightarrow>
        reset_rule W r W' \<and> wd_user d' = wd_user d \<and> wd_rel_stream d' = wd_rel_stream d
      \<and> w_pds W' = w_pds W \<and> (wd_room d' W' \<longrightarrow> wd_room d W))"

lemma rp_data_buf_malloc_frameD:
  "rp_data_buf_malloc W = (r, W') \<Longrightarrow> w_ninfo W' = w_ninfo W \<and> w_pds W' = w_pds W"
  using rp_data_buf_malloc_frame [of W] same_but_poolD by auto

lemma rel_tail_rule:
  assumes "w_ninfo V = w_ninfo W" "w_pds V = w_pds W" "w_reset V = w_reset W"
  shows "wd_rule d W
     (case syn_rel p V of
        (False, W) \<Rightarrow> (False, d, W)
      | (True, W) \<Rightarrow>
          (case rp_data_buf_malloc W of
             (None, W) \<Rightarrow> (False, d, W)
           | (Some b, W) \<Rightarrow> (True, d\<lparr>wd_dst := f b, wd_free := n\<rparr>, W)))"
proof -
  obtain r V1 where s: "syn_rel p V = (r, V1)" by (cases "syn_rel p V")
  obtain rm V2 where m: "rp_data_buf_malloc V1 = (rm, V2)" by (cases "rp_data_buf_malloc V1")
  note f = syn_rel_frame [OF s] rp_data_buf_malloc_frameD [OF m]
    syn_rel_reset [OF s] rp_data_buf_malloc_reset [OF m]
  show ?thesis
    using f assms s m
    by (cases r; cases rm) (auto simp: wd_rule_def reset_rule_def wd_room_def split: worker_dst_user.splits)
qed

lemma send_mono:
  assumes "wd_rel_stream d = (\<exists>h. wd_user d = Kcp_hdr h)"
  shows "wd_rule d W (rp_send_buffer d False (wd_rel_stream d) W)"
proof (cases "wd_user d")
  case (Ninfo w t)
  with assms show ?thesis
    by (auto simp: rp_send_buffer_def wd_rule_def reset_rule_def wd_room_def Let_def)
next
  case (Kcp_hdr h)
  with assms have r: "wd_rel_stream d" by simp
  show ?thesis
    unfolding rp_send_buffer_def Let_def using r
    by (simp only: simp_thms if_True if_False) (rule rel_tail_rule; simp)
qed


definition wd_kind :: "worker_dst \<Rightarrow> bool" where
  "wd_kind d \<longleftrightarrow> wd_rel_stream d = (\<exists>h. wd_user d = Kcp_hdr h)"

lemma wd_inv_kind: "wd_inv d W \<Longrightarrow> wd_kind d"
  by (auto simp: wd_inv_def wd_kind_def Let_def split: worker_dst_user.splits)

lemma wd_rule_pre:
  assumes "wd_rule d W res" "wd_user d = wd_user d0" "wd_rel_stream d = wd_rel_stream d0"
    "w_reset W = w_reset W0" "w_ninfo W = w_ninfo W0" "w_pds W = w_pds W0"
  shows "wd_rule d0 W0 res"
proof -
  have "wd_room d W = wd_room d0 W0"
    using assms by (simp add: wd_room_def split: worker_dst_user.splits)
  with assms show ?thesis by (simp add: wd_rule_def reset_rule_def)
qed

lemma flush_rule: "wd_kind d \<Longrightarrow> wd_rule d W (flush d W)"
  unfolding flush_def Let_def
  by (rule wd_rule_pre [OF send_mono]) (simp_all add: wd_kind_def)

lemma wd_rule_then:
  assumes "wd_rule d W res"
    and "\<And>e V. res = (True, e, V) \<Longrightarrow> wd_rule e V (k e V)"
  shows "wd_rule d W (case res of (False, d, W) \<Rightarrow> (False, d, W) | (True, d, W) \<Rightarrow> k d W)"
  using assms by (cases res) (fastforce simp: wd_rule_def reset_rule_def split: bool.splits)

lemma wd_rule_here:
  assumes "wd_user d' = wd_user d" "wd_rel_stream d' = wd_rel_stream d"
  shows "wd_rule d W (True, d', W\<lparr>w_mem := m\<rparr>)" "wd_rule d W (True, d', W)"
  using assms
  by (simp_all add: wd_rule_def reset_rule_def wd_room_def split: worker_dst_user.splits)

lemma copy_tail_rule: "wd_rule d W (copy_tail bs len d W)"
  by (simp add: copy_tail_def wd_rule_here)

lemma write_byte_rule: "wd_kind d \<Longrightarrow> wd_rule d W (write_byte b d W)"
  unfolding write_byte_def
  by (rule wd_rule_then) (auto intro: flush_rule wd_rule_here)

lemma write_bytes_rule:
  assumes "wd_kind d"
  shows "wd_rule d W (write_bytes bs d W)"
proof -
  have 1: "wd_rule d W
      (case flush e V of (False, d, W) \<Rightarrow> (False, d, W) | (True, d, W) \<Rightarrow> copy_tail cs len d W)"
    if "wd_user e = wd_user d" "wd_rel_stream e = wd_rel_stream d"
      "w_reset V = w_reset W" "w_ninfo V = w_ninfo W" "w_pds V = w_pds W" for cs len e V
  proof -
    have "wd_kind e" using assms that by (simp add: wd_kind_def)
    then have "wd_rule e V
      (case flush e V of (False, d, W) \<Rightarrow> (False, d, W) | (True, d, W) \<Rightarrow> copy_tail cs len d W)"
      by (intro wd_rule_then flush_rule copy_tail_rule)
    then show ?thesis by (rule wd_rule_pre) (simp_all add: that)
  qed
  show ?thesis
    unfolding write_bytes_def Let_def by (simp add: 1 copy_tail_rule)
qed

lemma write_bytes_stored:
  assumes s: "write_bytes bs d W = (True, d', W')" and i: "wd_inv d W" and n: "length bs \<le> w_pds W"
  shows "stored bs (d, W) (d', W')"
proof -
  have lb: "unat (of_nat (length bs) :: u16) = length bs"
    using n i by (intro unat_of_pds) (simp add: wd_inv_def)
  let ?n = "unat (wd_free d)"
  let ?e = "d\<lparr>wd_free := 0, wd_dst := wd_dst d + ?n\<rparr>"
  let ?V = "W\<lparr>w_mem := wr (wd_dst d) (take ?n bs) (w_mem W)\<rparr>"
  have tail: "stored cs (e, V) (d', W')"
    if f: "flush e V = (True, e', V')" and t: "copy_tail cs len e' V' = (True, d', W')"
      and inv: "wd_inv e V" "wd_free e = 0" and l: "length cs \<le> w_pds V" "unat len = length cs"
    for cs len e V e' V'
  proof -
    note fs = flush_stored [OF f inv]
    have i': "wd_inv e' V'" "w_pds V' = w_pds V" using fs(1) by (simp_all add: stored_def)
    have "stored cs (e', V') (d', W')"
      by (rule copy_tail_stored [OF t i'(1)]) (use l fs(2) in simp_all)
    with fs(1) show ?thesis using stored_trans by fastforce
  qed
  consider "wd_free d = 0" | "0 < wd_free d" "?n < length bs" | "0 < wd_free d" "length bs \<le> ?n"
    by (cases "wd_free d = 0"; cases "?n < length bs") (auto simp: word_neq_0_conv)
  then show ?thesis
  proof cases
    case 1
    then obtain e V where "flush d W = (True, e, V)" "copy_tail bs (of_nat (length bs)) e V = (True, d', W')"
      using s by (auto simp: write_bytes_def Let_def split: prod.splits bool.splits)
    from tail [OF this i 1 n lb] show ?thesis .
  next
    case 2
    have h: "stored (take ?n bs) (d, W) (?e, ?V)"
      using copy_stored [OF i, of "take ?n bs"] 2 by simp
    have lt: "wd_free d < of_nat (length bs)" using 2 lb by (simp add: word_less_nat_alt)
    have ln: "unat (of_nat (length bs) - wd_free d) = length (drop ?n bs)"
      using 2 lb by (simp add: unat_sub_le)
    obtain e V where f: "flush ?e ?V = (True, e, V)"
      "copy_tail (drop ?n bs) (of_nat (length bs) - wd_free d) e V = (True, d', W')"
      using s 2 lt by (auto simp: write_bytes_def Let_def split: prod.splits bool.splits)
    have "stored (drop ?n bs) (?e, ?V) (d', W')"
      by (rule tail [OF f _ _ _ ln]) (use h n in \<open>simp_all add: stored_def\<close>)
    with h show ?thesis using stored_trans by fastforce
  next
    case 3
    then have "\<not> wd_free d < of_nat (length bs)" using lb by (simp add: word_less_nat_alt)
    with 3 s have "copy_tail bs (of_nat (length bs)) d W = (True, d', W')"
      by (simp add: write_bytes_def Let_def)
    from copy_tail_stored [OF this i] 3 lb show ?thesis by simp
  qed
qed

section \<open>The contract of a byte sink\<close>

text \<open>
  What the encoders rely on: a sink that is still live after a write was live before it, the write
  succeeded, and the bytes were appended to what the sink had taken. The encoders drop the boolean
  results of their writes; by this contract nothing is lost that way while the sink stays live.
\<close>

locale byte_sink =
  fixes put :: "u8 list \<Rightarrow> 's \<Rightarrow> bool \<times> 's"
    and ok live :: "'s \<Rightarrow> bool"
    and out :: "'s \<Rightarrow> u8 list"
    and cap :: "'s \<Rightarrow> nat"
    and kind :: "'s \<Rightarrow> bool"
    and grows :: "'s \<Rightarrow> 's \<Rightarrow> bool"
  assumes put_kind: "kind s \<Longrightarrow> kind (snd (put bs s)) \<and> cap (snd (put bs s)) = cap s"
    and put_live: "kind s \<Longrightarrow> live (snd (put bs s)) \<Longrightarrow> live s"
    and put_ok: "ok s \<Longrightarrow> kind s \<Longrightarrow> length bs \<le> cap s \<Longrightarrow> live (snd (put bs s)) \<Longrightarrow>
      fst (put bs s) \<and> ok (snd (put bs s)) \<and> out (snd (put bs s)) = out s @ bs
      \<and> grows s (snd (put bs s))"
    and grows_refl: "grows s s"
    and grows_trans: "grows s s' \<Longrightarrow> grows s' s'' \<Longrightarrow> grows s s''"
begin

definition puts :: "u8 list list \<Rightarrow> 's \<Rightarrow> 's" where
  "puts bss s = foldl (\<lambda>s bs. snd (put bs s)) s bss"

lemma puts_simps [simp]:
  "puts [] s = s"
  "puts (bs # bss) s = puts bss (snd (put bs s))"
  by (simp_all add: puts_def)

lemma puts_kind: "kind s \<Longrightarrow> kind (puts bss s) \<and> cap (puts bss s) = cap s"
  by (induction bss arbitrary: s) (auto simp: put_kind)

lemma puts_live: "kind s \<Longrightarrow> live (puts bss s) \<Longrightarrow> live s"
  by (induction bss arbitrary: s) (simp_all, metis put_kind put_live)

lemma puts_ok:
  assumes "ok s" "kind s" "\<forall>bs \<in> set bss. length bs \<le> cap s" "live (puts bss s)"
  shows "ok (puts bss s) \<and> out (puts bss s) = out s @ concat bss \<and> grows s (puts bss s)"
  using assms
proof (induction bss arbitrary: s)
  case (Cons bs bss)
  let ?s = "snd (put bs s)"
  have k: "kind ?s" "cap ?s = cap s" using put_kind [OF Cons.prems(2)] by auto
  have "live ?s" using Cons.prems(4) puts_live [OF k(1)] by simp
  with Cons.prems put_ok [of s bs] have o: "ok ?s" "out ?s = out s @ bs" "grows s ?s" by auto
  with Cons k show ?case using grows_trans [OF o(3)] by simp
qed (simp add: grows_refl)

end

definition sink_put :: "u8 list \<Rightarrow> worker_dst \<times> nwm_world \<Rightarrow> bool \<times> worker_dst \<times> nwm_world" where
  "sink_put bs s = write_bytes bs (fst s) (snd s)"

definition sink_put1 :: "u8 \<Rightarrow> worker_dst \<times> nwm_world \<Rightarrow> bool \<times> worker_dst \<times> nwm_world" where
  "sink_put1 b s = write_byte b (fst s) (snd s)"

definition wd_live :: "worker_dst \<times> nwm_world \<Rightarrow> bool" where
  "wd_live s \<longleftrightarrow> \<not> w_reset (snd s) \<and> wd_room (fst s) (snd s)"

definition wd_grows :: "worker_dst \<times> nwm_world \<Rightarrow> worker_dst \<times> nwm_world \<Rightarrow> bool" where
  "wd_grows s s' \<longleftrightarrow> w_pds (snd s') = w_pds (snd s) \<and> wd_user (fst s') = wd_user (fst s)
     \<and> queue_grows (fst s) (snd s) (snd s')"

lemma wd_rule_sink:
  assumes "wd_kind d" "wd_rule d W (r, d', W')"
  shows "wd_kind d'" "w_pds W' = w_pds W" "wd_live (d', W') \<Longrightarrow> wd_live (d, W)" "wd_live (d', W') \<Longrightarrow> r"
  using assms by (auto simp: wd_rule_def wd_kind_def wd_live_def reset_rule_def)

interpretation dst_sink: byte_sink sink_put "\<lambda>s. wd_inv (fst s) (snd s)" wd_live
    "\<lambda>s. wd_out (fst s) (snd s)" "\<lambda>s. w_pds (snd s)" "\<lambda>s. wd_kind (fst s)" wd_grows
proof
  fix s :: "worker_dst \<times> nwm_world" and bs :: "u8 list"
  obtain r d' W' where p: "sink_put bs s = (r, d', W')" by (cases "sink_put bs s")
  assume k: "wd_kind (fst s)"
  have rule: "wd_rule (fst s) (snd s) (r, d', W')"
    using write_bytes_rule [OF k, of "snd s" bs] p by (simp add: sink_put_def)
  note w = wd_rule_sink [OF k rule]
  show "wd_kind (fst (snd (sink_put bs s))) \<and> w_pds (snd (snd (sink_put bs s))) = w_pds (snd s)"
    using w p by simp
  show "wd_live (snd (sink_put bs s)) \<Longrightarrow> wd_live s" using w p by (cases s) simp
  assume i: "wd_inv (fst s) (snd s)" and n: "length bs \<le> w_pds (snd s)"
    and l: "wd_live (snd (sink_put bs s))"
  have r: "r" using w(4) l p by simp
  have "stored bs (fst s, snd s) (d', W')"
    by (rule write_bytes_stored) (use r p i n in \<open>simp_all add: sink_put_def\<close>)
  then show "fst (sink_put bs s) \<and> wd_inv (fst (snd (sink_put bs s))) (snd (snd (sink_put bs s)))
      \<and> wd_out (fst (snd (sink_put bs s))) (snd (snd (sink_put bs s))) = wd_out (fst s) (snd s) @ bs
      \<and> wd_grows s (snd (sink_put bs s))"
    using r p l by (cases s) (simp add: stored_def wd_live_def wd_grows_def)
qed (auto simp: wd_grows_def intro: queue_grows_trans)

section \<open>A whole frame part\<close>

definition write_chunks :: "u8 list list \<Rightarrow> worker_dst \<times> nwm_world \<Rightarrow> worker_dst \<times> nwm_world" where
  "write_chunks bss s = foldl (\<lambda>s bs. snd (sink_put bs s)) s bss"

lemma write_chunks_ok:
  assumes "wd_inv d W" "\<forall>bs \<in> set bss. length bs \<le> w_pds W"
    and "write_chunks bss (d, W) = (d', W')" "wd_live (d', W')"
  shows "wd_inv d' W' \<and> wd_out d' W' = wd_out d W @ concat bss \<and> w_pds W' = w_pds W
       \<and> wd_user d' = wd_user d \<and> queue_grows d W W'"
  using dst_sink.puts_ok [of "(d, W)" bss] assms wd_inv_kind [OF assms(1)]
  by (simp add: dst_sink.puts_def write_chunks_def wd_grows_def)

lemma write_chunks_user:
  "wd_kind (fst s) \<Longrightarrow> wd_user (fst (write_chunks bss s)) = wd_user (fst s)"
proof (induction bss arbitrary: s)
  case (Cons bs bss)
  obtain r d' W' where p: "sink_put bs s = (r, d', W')" by (cases "sink_put bs s")
  have "wd_rule (fst s) (snd s) (r, d', W')"
    using write_bytes_rule [OF Cons.prems, of "snd s" bs] p by (simp add: sink_put_def)
  with wd_rule_sink(1) [OF Cons.prems this] Cons.IH [of "(d', W')"] p show ?case
    by (simp add: write_chunks_def wd_rule_def)
qed (simp add: write_chunks_def)

text \<open>The bytes of the part that \<open>term\<close> leaves for \<open>send_term_dsts\<close>.\<close>

definition term_bytes :: "nat \<Rightarrow> nwm_world \<Rightarrow> u8 list" where
  "term_bytes p W = rd (w_mem W) p (unat (rd32_le (w_mem W) (p - 4)))"

lemma term_rel_ok:
  assumes s: "term_dst d W = (True, d', W')" and i: "wd_inv d W" and u: "wd_user d = Kcp_hdr h"
  shows "w_terms W' (unat (ri (hdr_w h))) (unat (ri (hdr_t h))) = wd_base d W
       \<and> term_bytes (wd_base d W) W' = rd (w_mem W) (wd_base d W) (wd_dst d - wd_base d W)
       \<and> w_relq W' = w_relq W"
proof -
  let ?n = "w_pds W - unat (wd_free d)"
  let ?b = "wd_base d W"
  have n: "wd_dst d - ?b = ?n" "4 \<le> ?b" "?n < 2 ^ 32" "wd_rel_stream d"
    using i u by (auto simp: wd_inv_def wd_base_def)
  let ?m = "wr (?b - 4) (le32 (of_nat ?n)) (w_mem W)"
  have W': "w_mem W' = ?m" "w_terms W' (unat (ri (hdr_w h))) (unat (ri (hdr_t h))) = ?b"
    "w_relq W' = w_relq W"
    using s u n(4)
    by (auto simp: term_dst_def rp_send_buffer_def set_term_dst_def Let_def wd_base_def
        split: if_splits)
  have "unat (rd32_le ?m (?b - 4)) = ?n" using n(3)
    by (subst rd32_le_wr, intro unat_of_nat_small) simp
  moreover have "rd ?m ?b ?n = rd (w_mem W) ?b ?n"
    using n(2) by (intro rd_wr_disjoint disjI2) simp
  ultimately show ?thesis using W' n(1) by (simp add: term_bytes_def)
qed

text \<open>C2: with the reliable stream on, whatever an encoding thread writes to its sink, in whatever
  chunks of at most a packet, reaches the receiver's side unchanged: if the threads were not reset
  meanwhile, the payloads of the packets queued under the thread's header, followed by the bytes
  left for the termination packet, are exactly the bytes written, and every queued packet is full.\<close>
theorem reliable_part_transport:
  assumes "wd_inv d W" and "wd_user d = Kcp_hdr h" and "wd_dst d = wd_base d W"
    and "\<forall>bs \<in> set bss. length bs \<le> w_pds W"
    and "write_chunks bss (d, W) = (d', W')" and "\<not> w_reset W'"
    and "term_dst d' W' = (True, d'', W'')"
  shows "rel_payload h (w_relq W'')
           @ term_bytes (w_terms W'' (unat (ri (hdr_w h))) (unat (ri (hdr_t h)))) W''
         = rel_payload h (w_relq W) @ concat bss
       \<and> (\<exists>qs. w_relq W'' = w_relq W @ qs \<and> (\<forall>q \<in> set qs. full_packet h (w_pds W) q))"
proof -
  have "wd_user d' = Kcp_hdr h"
    using write_chunks_user [of "(d, W)" bss] wd_inv_kind [OF assms(1)] assms(2,5) by simp
  then have "wd_live (d', W')" using assms(6) by (simp add: wd_live_def wd_room_def)
  from write_chunks_ok [OF assms(1,4,5) this] assms(2)
  have w: "wd_inv d' W'" "wd_out d' W' = wd_out d W @ concat bss" "wd_user d' = Kcp_hdr h"
    "queue_grows d W W'" by auto
  note t = term_rel_ok [OF assms(7) w(1,3)]
  have "wd_out d W = rel_payload h (w_relq W)" using assms(2,3) by (simp add: wd_out_def)
  moreover have "wd_out d' W' = rel_payload h (w_relq W') @ term_bytes (wd_base d' W') W''"
    using w(3) t by (simp add: wd_out_def)
  ultimately show ?thesis using w t assms(2) by (auto simp: queue_grows_def)
qed

lemma term_nrel_ok:
  assumes s: "term_dst d W = (True, d', W')" and i: "wd_inv d W" and u: "wd_user d = Ninfo w t"
    and r: "wd_room d W"
  shows "pos (ni_info (w_ninfo W' w t)) = wd_dst d \<and> flag (ni_info (w_ninfo W' w t)) = TERM_FLAG
       \<and> w_mem W' = w_mem W \<and> ni_buf (w_ninfo W' w t) = ni_buf (w_ninfo W w t)
       \<and> ni_buf (w_ninfo W w t) \<le> wd_dst d"
  using assms by (auto simp: term_dst_def rp_send_buffer_def wd_inv_def Let_def)

text \<open>C0: with the reliable stream off, the bytes written lie in the send buffer of the thread in
  order and without a gap: after \<open>term\<close> the region from the start of the buffer to the published
  position holds what was there plus exactly the bytes written, and the end flag is set, provided
  the buffer did not overflow.\<close>
theorem unreliable_part_transport:
  assumes "wd_inv d W" and "wd_user d = Ninfo w t"
    and "\<forall>bs \<in> set bss. length bs \<le> w_pds W"
    and "write_chunks bss (d, W) = (d', W')" and "wd_live (d', W')"
    and "term_dst d' W' = (True, d'', W'')"
  shows "let ni = w_ninfo W'' w t in
           rd (w_mem W'') (ni_buf ni) (pos (ni_info ni) - ni_buf ni) = wd_out d W @ concat bss
         \<and> flag (ni_info ni) = TERM_FLAG"
proof -
  from write_chunks_ok [OF assms(1,3,4,5)] assms(2)
  have w: "wd_inv d' W'" "wd_out d' W' = wd_out d W @ concat bss" "wd_user d' = Ninfo w t" by auto
  have "wd_room d' W'" using assms(5) by (simp add: wd_live_def)
  from term_nrel_ok [OF assms(6) w(1,3) this] w(2,3) show ?thesis
    by (simp add: wd_out_def Let_def)
qed


section \<open>Example runs\<close>

definition ex_hdr :: arq_rp_hdr where
  "ex_hdr = \<lparr>hdr_w = \<lparr>ri = 1\<rparr>, hdr_t = \<lparr>ri = 2\<rparr>\<rparr>"

definition ex_dst :: "bool \<Rightarrow> worker_dst" where
  "ex_dst rel = \<lparr>wd_blkn = 0, wd_s = \<lparr>ri = 0\<rparr>, wd_w = \<lparr>ri = 1\<rparr>, wd_dst = 100, wd_free = 3,
     wd_user = (if rel then Kcp_hdr ex_hdr else Ninfo 1 2), wd_rel_stream = rel,
     wd_delta_prog = False, wd_even_odd = False\<rparr>"

definition ex_world :: nwm_world where
  "ex_world = \<lparr>w_mem = (\<lambda>_. 0), w_waits = [0, 0, RES_TIMEOUT, 0, 0], w_rels = [RES_TIMEOUT, 0, 0],
     w_reset = False,
     w_pool = \<lparr>mp_bs = 64, mp_ul_bc = 4, mp_b = 0, mp_ul_b = 1000, mp_bc = 4, mp_m = 1000\<rparr>,
     w_ninfo = (\<lambda>_ _. \<lparr>ni_buf = 100, buf_packet_last = 109,
                        ni_info = \<lparr>send_pos = 100, pos = 100, flag = 0\<rparr>\<rparr>),
     w_relq = [], w_terms = (\<lambda>_ _. 0), w_fsize = (\<lambda>_. 0), w_dqsize = (\<lambda>_ _. 0), w_pds = 3\<rparr>"

definition ex_run :: "bool \<Rightarrow> worker_dst \<times> nwm_world" where
  "ex_run rel = write_chunks [[1, 2], [3, 4, 5], [6, 7]] (ex_dst rel, ex_world)"

definition ex_term :: "bool \<Rightarrow> bool \<times> worker_dst \<times> nwm_world" where
  "ex_term rel = term_dst (fst (ex_run rel)) (snd (ex_run rel))"

lemma ex_run_rel: "\<not> w_reset (snd (ex_run True))" "fst (ex_term True)"
  by code_simp+

lemma ex_run_nrel: "wd_live (ex_run False)" "fst (ex_term False)"
  by code_simp+

lemma ex_start:
  "wd_inv (ex_dst b) ex_world" "wd_user (ex_dst True) = Kcp_hdr ex_hdr"
  "wd_user (ex_dst False) = Ninfo 1 2" "wd_dst (ex_dst b) = wd_base (ex_dst b) ex_world"
  "w_pds ex_world = 3" "rel_payload h (w_relq ex_world) = []"
  "unat (ri (hdr_w ex_hdr)) = 1" "unat (ri (hdr_t ex_hdr)) = 2" "wd_out (ex_dst b) ex_world = []"
  by (simp_all add: ex_dst_def ex_world_def wd_inv_def wd_base_def rel_payload_def ex_hdr_def
      wd_room_def wd_out_def)

lemma ex_steps:
  "write_chunks [[1, 2], [3, 4, 5], [6, 7]] (ex_dst rel, ex_world) = (fst (ex_run rel), snd (ex_run rel))"
  "fst (ex_term rel) \<Longrightarrow>
     term_dst (fst (ex_run rel)) (snd (ex_run rel)) = (True, fst (snd (ex_term rel)), snd (snd (ex_term rel)))"
  by (simp_all add: ex_run_def ex_term_def prod_eq_iff)

theorem reliable_part_transport_witness:
  "rel_payload ex_hdr (w_relq (snd (snd (ex_term True))))
     @ term_bytes (w_terms (snd (snd (ex_term True))) 1 2) (snd (snd (ex_term True)))
   = [1, 2, 3, 4, 5, 6, 7]"
  using reliable_part_transport [OF ex_start(1) ex_start(2) ex_start(4) _ ex_steps(1) ex_run_rel(1)
      ex_steps(2) [OF ex_run_rel(2)]]
  by (simp add: ex_start)

theorem unreliable_part_transport_witness:
  "rd (w_mem (snd (snd (ex_term False)))) 100 7 = [1, 2, 3, 4, 5, 6, 7]"
proof -
  have "ni_buf (w_ninfo (snd (snd (ex_term False))) 1 2) = 100"
    "pos (ni_info (w_ninfo (snd (snd (ex_term False))) 1 2)) = 107" by code_simp+
  then show ?thesis
    using unreliable_part_transport [OF ex_start(1) ex_start(3) _ ex_steps(1) _
        ex_steps(2) [OF ex_run_nrel(2)]] ex_run_nrel(1)
    by (simp add: ex_start Let_def)
qed

end
