(* ===== verification/Frame_Size.thy ===== *)
theory Frame_Size
  imports Nwm_World "HOL-Library.Multiset"
begin

text \<open>
  The compressed-size counters (\<open>rp_dq_update_size\<close> in \<^verbatim>\<open>entries/thread_nwm/vars.rs\<close>): a byte count
  of 19 bits and a block count of 13 bits packed in one atomic word, which the encoding threads
  update with a compare-exchange loop. The abstract counter is the pair of the two fields.
\<close>

definition comp_fields :: "u32 \<Rightarrow> nat \<times> nat" where
  "comp_fields c = (unat c mod 2 ^ 19, unat c div 2 ^ 19)"

lemma mask_19: "push_bit JPEG_COMP_COUNT_SIZE_NBITS 1 - 1 = (mask 19 :: u32)"
  by (simp add: JPEG_COMP_COUNT_SIZE_NBITS_def mask_eq_exp_minus_1)

lemma mask_13: "push_bit JPEG_COMP_COUNT_BLKN_NBITS 1 - 1 = (mask 13 :: u32)"
  by (simp add: JPEG_COMP_COUNT_BLKN_NBITS_def mask_eq_exp_minus_1)

lemma unat_or_disjoint:
  fixes a b :: u32
  assumes "unat a < 2 ^ 19" "unat b < 2 ^ 13"
  shows "unat (a OR push_bit 19 b) = unat a + 2 ^ 19 * unat b"
proof -
  have "unat (push_bit 19 b) = 2 ^ 19 * unat b"
    using assms(2) by (simp add: push_bit_eq_mult unat_mult_no_wrap mult.commute)
  moreover have "a AND push_bit 19 b = 0"
  proof (rule bit_word_eqI)
    fix n
    have "take_bit 19 a = a" using assms(1)
      by (simp add: word_unat_eq_iff unsigned_take_bit_eq take_bit_nat_eq_self_iff)
    then have "bit a n \<Longrightarrow> n < 19" by (metis bit_take_bit_iff)
    then show "bit (a AND push_bit 19 b) n = bit (0::u32) n" by (auto simp: bit_simps)
  qed
  moreover have "a OR push_bit 19 b = a + push_bit 19 b"
    using \<open>a AND push_bit 19 b = 0\<close> by (simp add: disjunctive_add_eq_or)
  ultimately show ?thesis using assms by (simp add: unat_add_no_wrap)
qed

lemma comp_fields_dq_next:
  "comp_fields (dq_next cur sz b) =
     ((fst (comp_fields cur) + unat sz) mod 2 ^ 19, (snd (comp_fields cur) + unat b) mod 2 ^ 13)"
proof -
  define p where "p = cur AND mask 19"
  define q where "q = drop_bit 19 cur AND mask 13"
  have p: "unat p = unat cur mod 2 ^ 19" by (simp add: p_def unat_and_mask)
  have q: "unat q = unat cur div 2 ^ 19"
  proof -
    have "unat cur div 2 ^ 19 < 2 ^ 13" using unat_less_exp [of cur] by (simp add: less_mult_imp_div_less)
    then show ?thesis by (simp add: q_def unat_and_mask unat_drop_bit)
  qed
  have sz: "unat ((p + sz) AND mask 19) = (unat p + unat sz) mod 2 ^ 19"
    by (simp add: unat_and_mask unat_word_ariths mod_mod_cancel)
  have bl: "unat ((q + ucast b) AND mask 13) = (unat q + unat b) mod 2 ^ 13"
    by (simp add: unat_and_mask unat_word_ariths mod_mod_cancel unat_ucast_up)
  have "dq_next cur sz b = ((p + sz) AND mask 19) OR push_bit 19 ((q + ucast b) AND mask 13)"
    unfolding dq_next_def Let_def mask_19 mask_13 p_def q_def
    by (simp only: JPEG_COMP_COUNT_SIZE_NBITS_def)
  moreover have "unat (((p + sz) AND mask 19) OR push_bit 19 ((q + ucast b) AND mask 13)) =
      unat ((p + sz) AND mask 19) + 2 ^ 19 * unat ((q + ucast b) AND mask 13)"
    by (rule unat_or_disjoint) (simp_all only: sz bl, simp_all)
  ultimately have "unat (dq_next cur sz b) =
      (unat p + unat sz) mod 2 ^ 19 + 2 ^ 19 * ((unat q + unat b) mod 2 ^ 13)"
    by (simp only: sz bl)
  then show ?thesis by (simp add: comp_fields_def p q mod_add_left_eq)
qed

lemma comp_fields_fold:
  "comp_fields (foldl (\<lambda>c (sz, b). dq_next c sz b) cur us) =
     ((fst (comp_fields cur) + (\<Sum>u\<leftarrow>us. unat (fst u))) mod 2 ^ 19,
      (snd (comp_fields cur) + (\<Sum>u\<leftarrow>us. unat (snd u))) mod 2 ^ 13)"
proof (induction us arbitrary: cur)
  case Nil
  have "unat cur div 2 ^ 19 < 2 ^ 13" using unat_less_exp [of cur] by (simp add: less_mult_imp_div_less)
  then show ?case by (simp add: comp_fields_def)
next
  case (Cons u us)
  then show ?case
    by (cases u) (simp add: comp_fields_dq_next mod_add_left_eq add.assoc)
qed

section \<open>Concurrent updates\<close>

text \<open>
  The threads of the system: each has a list of updates to make. A step loads the cell, succeeds
  in the exchange, or fails it (the weak exchange may fail at any time) and reads the cell back.
  \<open>done_log\<close> records the completed updates.
\<close>

record dq_sys =
  cell :: u32
  todo :: "nat \<Rightarrow> (u32 \<times> u16) list"
  loaded :: "nat \<Rightarrow> u32 option"
  done_log :: "(u32 \<times> u16) list"

inductive dq_step :: "dq_sys \<Rightarrow> dq_sys \<Rightarrow> bool" where
  load: "todo s t \<noteq> [] \<Longrightarrow> loaded s t = None \<Longrightarrow>
    dq_step s (s\<lparr>loaded := (loaded s)(t := Some (cell s))\<rparr>)"
| cas_ok: "todo s t = (sz, b) # us \<Longrightarrow> loaded s t = Some cur \<Longrightarrow> cell s = cur \<Longrightarrow>
    dq_step s (s\<lparr>cell := dq_next cur sz b, loaded := (loaded s)(t := None),
                 todo := (todo s)(t := us), done_log := done_log s @ [(sz, b)]\<rparr>)"
| cas_fail: "todo s t \<noteq> [] \<Longrightarrow> loaded s t = Some cur \<Longrightarrow>
    dq_step s (s\<lparr>loaded := (loaded s)(t := Some (cell s))\<rparr>)"

definition dq_start :: "u32 \<Rightarrow> (nat \<Rightarrow> (u32 \<times> u16) list) \<Rightarrow> dq_sys" where
  "dq_start c ups = \<lparr>cell = c, todo = ups, loaded = (\<lambda>_. None), done_log = []\<rparr>"

definition all_updates :: "nat \<Rightarrow> dq_sys \<Rightarrow> (u32 \<times> u16) multiset" where
  "all_updates n s = mset (done_log s) + (\<Sum>t<n. mset (todo s t))"

lemma dq_step_cell:
  assumes "dq_step s s'" "cell s = foldl (\<lambda>c (sz, b). dq_next c sz b) c (done_log s)"
  shows "cell s' = foldl (\<lambda>c (sz, b). dq_next c sz b) c (done_log s')"
  using assms by (induction rule: dq_step.induct) auto

lemma dq_step_updates:
  assumes "dq_step s s'" "\<And>t. n \<le> t \<Longrightarrow> todo s t = []"
  shows "all_updates n s' = all_updates n s \<and> (\<forall>t\<ge>n. todo s' t = [])"
  using assms
proof (induction rule: dq_step.induct)
  case (cas_ok s t sz b us cur)
  have t: "t < n" using cas_ok.prems [of t] cas_ok.hyps by (cases "t < n") auto
  have r: "(\<Sum>i<n. mset (todo s i)) = mset (todo s t) + (\<Sum>i\<in>{..<n} - {t}. mset (todo s i))"
    using t by (intro sum.remove) auto
  have l: "(\<Sum>i<n. mset (((todo s)(t := us)) i)) = mset us + (\<Sum>i\<in>{..<n} - {t}. mset (todo s i))"
  proof -
    have "(\<Sum>i\<in>{..<n} - {t}. mset (((todo s)(t := us)) i)) = (\<Sum>i\<in>{..<n} - {t}. mset (todo s i))"
      by (rule sum.cong) auto
    then show ?thesis
      using t sum.remove [of "{..<n}" t "\<lambda>i. mset (((todo s)(t := us)) i)"]
      by (simp del: fun_upd_apply) simp
  qed
  show ?case
    using cas_ok t by (simp add: all_updates_def r l del: fun_upd_apply) auto
qed (auto simp: all_updates_def)

lemma dq_reach:
  assumes "dq_step\<^sup>*\<^sup>* (dq_start c ups) s" "\<And>t. n \<le> t \<Longrightarrow> ups t = []"
  shows "cell s = foldl (\<lambda>c (sz, b). dq_next c sz b) c (done_log s)
       \<and> all_updates n s = all_updates n (dq_start c ups) \<and> (\<forall>t\<ge>n. todo s t = [])"
  using assms(1)
proof (induction rule: rtranclp_induct)
  case base
  then show ?case using assms(2) by (simp add: dq_start_def)
next
  case (step s s')
  then show ?case using dq_step_cell [of s s'] dq_step_updates [of s s' n] by auto
qed

lemma sum_list_mset_nat: "(\<Sum>u\<leftarrow>us. f u) = (\<Sum>u\<in>#mset us. (f u :: nat))"
  by (metis mset_map sum_mset_sum_list)

lemma image_mset_lessThan_sum:
  "sum_mset (image_mset f (\<Sum>t<n. M t)) = (\<Sum>t<(n::nat). sum_mset (image_mset f (M t)))"
  by (induction n) auto

text \<open>C24: the two packed counters never disturb each other and no update is lost: when the threads
  have made all their updates, in whatever interleaving and with whatever failed exchanges, the
  19-bit byte counter holds the sum of the byte counts and the 13-bit block counter the sum of the
  block counts, each modulo its width.\<close>
theorem dq_updates_linearizable:
  assumes "dq_step\<^sup>*\<^sup>* (dq_start c ups) s" and "\<And>t. n \<le> t \<Longrightarrow> ups t = []"
    and "\<And>t. todo s t = []"
  shows "comp_fields (cell s) =
     ((fst (comp_fields c) + (\<Sum>t<n. \<Sum>u\<leftarrow>ups t. unat (fst u))) mod 2 ^ 19,
      (snd (comp_fields c) + (\<Sum>t<n. \<Sum>u\<leftarrow>ups t. unat (snd u))) mod 2 ^ 13)"
proof -
  have a: "mset (done_log s) = (\<Sum>t<n. mset (ups t))"
    using dq_reach [OF assms(1,2)] assms(3) by (simp add: all_updates_def dq_start_def)
  have "(\<Sum>u\<leftarrow>done_log s. f u) = (\<Sum>t<n. \<Sum>u\<leftarrow>ups t. f u)" for f :: "u32 \<times> u16 \<Rightarrow> nat"
    by (simp only: sum_list_mset_nat a) (simp only: image_mset_lessThan_sum)
  then show ?thesis
    using dq_reach [OF assms(1,2)] by (simp add: comp_fields_fold)
qed

theorem dq_updates_linearizable_witness:
  "comp_fields (dq_next 0x80005 7 2) = (12, 3)"
proof -
  define ups :: "nat \<Rightarrow> (u32 \<times> u16) list" where "ups = (\<lambda>_. [])(0 := [(7 :: u32, 2 :: u16)])"
  let ?s0 = "dq_start 0x80005 ups"
  let ?s1 = "?s0\<lparr>loaded := (loaded ?s0)(0 := Some (cell ?s0))\<rparr>"
  let ?s2 = "?s1\<lparr>cell := dq_next 0x80005 7 2, loaded := (loaded ?s1)(0 := None),
                 todo := (todo ?s1)(0 := []), done_log := done_log ?s1 @ [(7, 2)]\<rparr>"
  have "dq_step ?s0 ?s1" by (rule dq_step.load) (simp_all add: dq_start_def ups_def)
  moreover have "dq_step ?s1 ?s2"
    by (rule dq_step.cas_ok) (simp_all add: dq_start_def ups_def)
  ultimately have "dq_step\<^sup>*\<^sup>* ?s0 ?s2" by (meson converse_rtranclp_into_rtranclp rtranclp.rtrancl_refl)
  then have "comp_fields (cell ?s2) =
     ((fst (comp_fields 0x80005) + (\<Sum>t<1. \<Sum>u\<leftarrow>ups t. unat (fst u))) mod 2 ^ 19,
      (snd (comp_fields 0x80005) + (\<Sum>t<1. \<Sum>u\<leftarrow>ups t. unat (snd u))) mod 2 ^ 13)"
    by (rule dq_updates_linearizable) (simp_all add: dq_start_def ups_def)
  then show ?thesis by (simp add: comp_fields_def ups_def)
qed

end
