(* ===== verification/Bit_Encoder.thy ===== *)
theory Bit_Encoder
  imports Worker_Dst
begin

text \<open>
  \<^verbatim>\<open>encoder/worker.rs\<close> (\<open>BitEncoderState\<close>) and \<^verbatim>\<open>encoder/encode/encode_buffer.rs\<close>: Huffman codes are
  packed into 32-bit groups, most significant bit first, and the bytes of full groups go to the
  packet sink, a zero byte after every \<open>0xFF\<close> unless \<open>no_escape\<close>. \<open>EncodeBuffer<N>\<close> gathers a block
  either directly in the packet or, when the packet has fewer than \<open>N\<close> bytes left, in a local array
  (at the address \<open>la\<close> of the model); with \<open>N = 0\<close> it writes byte by byte. \<open>isize\<close> is \<open>int\<close>.
\<close>

record bit_state =
  bs_c :: u32
  bs_free :: int

definition BIT_BUF_SIZE :: int where "BIT_BUF_SIZE = 32"

definition bs_reset :: bit_state where
  "bs_reset = \<lparr>bs_c = 0, bs_free = BIT_BUF_SIZE\<rparr>"

datatype encode_buffer_base = Local nat | Dst

record encode_buffer =
  eb_n :: nat
  eb_buf :: nat
  eb_base :: encode_buffer_base
  eb_state :: bit_state
  eb_dst :: worker_dst
  eb_world :: nwm_world
  eb_no_escape :: bool

definition eb_init ::
  "nat \<Rightarrow> bit_state \<Rightarrow> worker_dst \<Rightarrow> nat \<Rightarrow> bool \<Rightarrow> nwm_world \<Rightarrow> encode_buffer" where
  "eb_init n st d la no_escape W =
     (if n = 0 then
        \<lparr>eb_n = n, eb_buf = 0, eb_base = Dst, eb_state = st, eb_dst = d, eb_world = W,
         eb_no_escape = no_escape\<rparr>
      else if wd_free d < of_nat n then
        \<lparr>eb_n = n, eb_buf = la, eb_base = Local la, eb_state = st, eb_dst = d, eb_world = W,
         eb_no_escape = no_escape\<rparr>
      else
        \<lparr>eb_n = n, eb_buf = wd_dst d, eb_base = Dst, eb_state = st, eb_dst = d, eb_world = W,
         eb_no_escape = no_escape\<rparr>)"

definition eb_store :: "encode_buffer \<Rightarrow> encode_buffer" where
  "eb_store eb =
     (if eb_n eb \<noteq> 0 then
        case eb_base eb of
          Local la \<Rightarrow>
            (let (_, d, W) = write_bytes (rd (w_mem (eb_world eb)) la (eb_buf eb - la))
                               (eb_dst eb) (eb_world eb)
             in eb\<lparr>eb_dst := d, eb_world := W\<rparr>)
        | Dst \<Rightarrow> eb\<lparr>eb_dst := advance_to (eb_buf eb) (eb_dst eb)\<rparr>
      else eb)"

definition eb_write_byte :: "u8 \<Rightarrow> encode_buffer \<Rightarrow> encode_buffer" where
  "eb_write_byte b eb =
     (let (_, d, W) = write_byte b (eb_dst eb) (eb_world eb) in eb\<lparr>eb_dst := d, eb_world := W\<rparr>)"

definition poke :: "nat \<Rightarrow> u8 \<Rightarrow> encode_buffer \<Rightarrow> encode_buffer" where
  "poke p b eb = eb\<lparr>eb_world := (eb_world eb)\<lparr>w_mem := (w_mem (eb_world eb))(p := b)\<rparr>\<rparr>"

definition emit_byte :: "u8 \<Rightarrow> encode_buffer \<Rightarrow> encode_buffer" where
  "emit_byte b eb =
     (if eb_n eb = 0 then
        let eb = eb_write_byte b eb
        in if \<not> eb_no_escape eb \<and> b = 0xFF then eb_write_byte 0 eb else eb
      else if eb_no_escape eb then
        let eb = poke (eb_buf eb) b eb in eb\<lparr>eb_buf := eb_buf eb + 1\<rparr>
      else
        let eb = poke (eb_buf eb) b eb;
            eb = poke (eb_buf eb + 1) 0 eb
        in eb\<lparr>eb_buf := eb_buf eb + (2 - (if b < 0xFF then 1 else 0))\<rparr>)"

definition eb_flush :: "encode_buffer \<Rightarrow> encode_buffer" where
  "eb_flush eb =
     (let c = bs_c (eb_state eb);
          b3 = ucast (drop_bit 24 c); b2 = ucast (drop_bit 16 c); b1 = ucast (drop_bit 8 c);
          b0 = ucast c
      in if \<not> eb_no_escape eb \<and> 0 < (c AND 0x80808080) AND NOT (c + 0x01010101) then
           emit_byte b0 (emit_byte b1 (emit_byte b2 (emit_byte b3 eb)))
         else if eb_n eb = 0 then
           eb_write_byte b0 (eb_write_byte b1 (eb_write_byte b2 (eb_write_byte b3 eb)))
         else
           let p = eb_buf eb; eb = poke (p + 3) b0 (poke (p + 2) b1 (poke (p + 1) b2 (poke p b3 eb)))
           in eb\<lparr>eb_buf := p + 4\<rparr>)"

definition put_and_flush :: "u32 \<Rightarrow> u8 \<Rightarrow> encode_buffer \<Rightarrow> encode_buffer" where
  "put_and_flush code sz eb =
     (let st = eb_state eb;
          c = push_bit (nat (int (unat sz) + bs_free st)) (bs_c st) OR drop_bit (nat (- bs_free st)) code;
          eb = eb_flush (eb\<lparr>eb_state := st\<lparr>bs_c := c\<rparr>\<rparr>)
      in eb\<lparr>eb_state := \<lparr>bs_c = code, bs_free = bs_free (eb_state eb) + BIT_BUF_SIZE\<rparr>\<rparr>)"

definition put_bits :: "u32 \<Rightarrow> u8 \<Rightarrow> encode_buffer \<Rightarrow> encode_buffer" where
  "put_bits code sz eb =
     (let st = (eb_state eb)\<lparr>bs_free := bs_free (eb_state eb) - int (unat sz)\<rparr>;
          eb = eb\<lparr>eb_state := st\<rparr>
      in if bs_free st < 0 then put_and_flush code sz eb
         else eb\<lparr>eb_state := st\<lparr>bs_c := push_bit (unat sz) (bs_c st) OR code\<rparr>\<rparr>)"

definition put_code :: "u32 \<Rightarrow> u8 \<Rightarrow> i32 \<Rightarrow> i32 \<Rightarrow> encode_buffer \<Rightarrow> encode_buffer" where
  "put_code code sz temp nbits eb =
     (let temp = temp AND (push_bit (unat nbits) 1 - 1);
          temp = temp OR push_bit (unat nbits) code;
          nbits = nbits + ucast sz
      in put_bits temp (ucast nbits) eb)"

text \<open>The final flush of the encoder, which fills the last byte with ones.\<close>

fun flush_bytes :: "nat \<Rightarrow> u32 \<Rightarrow> encode_buffer \<Rightarrow> nat \<times> encode_buffer" where
  "flush_bytes n c eb =
     (if 8 \<le> n then flush_bytes (n - 8) c (emit_byte (ucast (drop_bit (n - 8) c)) eb) else (n, eb))"

definition bs_flush :: "bit_state \<Rightarrow> worker_dst \<Rightarrow> nat \<Rightarrow> bool \<Rightarrow> nwm_world \<Rightarrow> worker_dst \<times> nwm_world" where
  "bs_flush st d la no_escape W =
     (let eb = eb_init 16 st d la no_escape W;
          (n, eb) = flush_bytes (nat (BIT_BUF_SIZE - bs_free st)) (bs_c st) eb;
          eb = (if 0 < n
                then emit_byte (ucast (push_bit (8 - n) (bs_c st) OR drop_bit n 0xFF)) eb
                else eb);
          eb = eb_store eb
      in (eb_dst eb, eb_world eb))"

declare flush_bytes.simps [simp del]

section \<open>Escaping\<close>

definition esc1 :: "bool \<Rightarrow> u8 \<Rightarrow> u8 list" where
  "esc1 ne b = (if \<not> ne \<and> b = 0xFF then [0xFF, 0] else [b])"

definition esc :: "bool \<Rightarrow> u8 list \<Rightarrow> u8 list" where
  "esc ne bs = concat (map (esc1 ne) bs)"

fun unesc :: "u8 list \<Rightarrow> u8 list" where
  "unesc (x # y # xs) = (if x = 0xFF \<and> y = 0 then x # unesc xs else x # unesc (y # xs))"
| "unesc xs = xs"

lemma esc_simps [simp]:
  "esc ne [] = []" "esc ne (b # bs) = esc1 ne b @ esc ne bs" "esc ne (as @ bs) = esc ne as @ esc ne bs"
  by (simp_all add: esc_def)

lemma esc_no [simp]: "esc True bs = bs"
  by (induction bs) (simp_all add: esc1_def)

lemma length_esc: "length (esc ne bs) \<le> 2 * length bs"
  by (induction bs) (auto simp: esc1_def)

lemma esc_Cons: "bs \<noteq> [] \<Longrightarrow> \<exists>xs. esc ne bs = hd bs # xs"
  by (cases bs) (auto simp: esc1_def)

lemma unesc_Cons: "x \<noteq> 0xFF \<Longrightarrow> unesc (x # xs) = x # unesc xs"
  by (cases xs) auto

lemma unesc_esc: "unesc (esc False bs) = bs"
  by (induction bs) (auto simp: esc1_def unesc_Cons)


section \<open>The test for a byte that needs escaping\<close>

lemma bit_unat: "bit (w :: 'a::len word) n = odd (unat w div 2 ^ n)"
  by (simp add: bit_unsigned_iff flip: bit_iff_odd)

lemma ff_byte_sum:
  fixes c lo hi i :: nat
  assumes "c = hi * 2 ^ (i + 8) + 255 * 2 ^ i + lo" "lo < 2 ^ i"
    and "k = khi * 2 ^ (i + 8) + 2 ^ i + klo" "klo < 2 ^ i"
  shows "even ((c + k) div 2 ^ (i + 7))"
proof -
  have "c + k = (hi + khi + 1) * 2 ^ (i + 8) + (lo + klo)"
    using assms by (simp add: power_add algebra_simps)
  also have "\<dots> = (lo + klo) + 2 ^ (i + 7) * (2 * (hi + khi + 1))"
    by (simp add: power_add algebra_simps)
  finally have "(c + k) div 2 ^ (i + 7) = (lo + klo) div 2 ^ (i + 7) + 2 * (hi + khi + 1)"
    by (simp only: div_mult_self2 [OF power_not_zero [OF zero_neq_numeral [symmetric]]] add.commute)
  moreover have "lo + klo < 2 ^ (i + 7)" using assms by (simp add: power_add)
  ultimately show ?thesis by simp
qed


lemma byte_split:
  fixes x P :: nat
  assumes "x div P mod 256 = 255"
  shows "x = (x div (P * 256)) * (P * 256) + 255 * P + x mod P"
proof -
  define a b where "a = x div P" and "b = x div (P * 256)"
  have "a = b * 256 + 255"
    using div_mult_mod_eq [of a 256] assms by (simp add: a_def b_def div_mult2_eq)
  then have "a * P = b * (P * 256) + 255 * P" by (simp add: algebra_simps)
  moreover have "x = a * P + x mod P" by (simp add: a_def)
  ultimately show ?thesis by (simp add: b_def)
qed

lemma ff_test_byte:
  assumes i: "i \<in> {0, 8, 16, 24}" and ff: "ucast (drop_bit i c) = (0xFF :: u8)"
  shows "bit ((c AND 0x80808080) AND NOT (c + 0x01010101 :: u32)) (i + 7)"
proof -
  let ?x = "unat c"
  have "unat (ucast (drop_bit i c) :: u8) = ?x div 2 ^ i mod 256"
    by (simp add: unsigned_ucast_eq unat_drop_bit take_bit_eq_mod)
  then have m: "?x div 2 ^ i mod 256 = 255" using ff by simp
  have x: "?x = (?x div 2 ^ (i + 8)) * 2 ^ (i + 8) + 255 * 2 ^ i + ?x mod 2 ^ i"
    using byte_split [OF m] by (simp add: power_add)
  obtain khi klo where k: "(0x01010101 :: nat) = khi * 2 ^ (i + 8) + 2 ^ i + klo" "klo < 2 ^ i"
  proof -
    have "i = 0 \<Longrightarrow> thesis" using that [of "0x10101" 0] by simp
    moreover have "i = 8 \<Longrightarrow> thesis" using that [of "0x101" 1] by simp
    moreover have "i = 16 \<Longrightarrow> thesis" using that [of 1 "0x101"] by simp
    moreover have "i = 24 \<Longrightarrow> thesis" using that [of 0 "0x10101"] by simp
    ultimately show thesis using i by auto
  qed
  have "even ((?x + 0x01010101) div 2 ^ (i + 7))"
    by (rule ff_byte_sum [OF x _ k]) simp
  then have "\<not> bit (?x + 0x01010101) (i + 7)" by (simp add: bit_iff_odd)
  then have nb: "\<not> bit (c + 0x01010101) (i + 7)"
  proof -
    have "unat (c + 0x01010101) = take_bit 32 (?x + 0x01010101)"
      by (simp add: unat_word_ariths take_bit_eq_mod)
    then have "\<not> bit (unat (c + 0x01010101)) (i + 7)"
      using \<open>\<not> bit (?x + 0x01010101) (i + 7)\<close> by (simp add: bit_take_bit_iff)
    then show ?thesis by (simp add: bit_unsigned_iff)
  qed
  have "bit (ucast (drop_bit i c) :: u8) 7" using ff by simp
  then have "bit c (i + 7)" by (simp add: bit_simps)
  with nb i show ?thesis by (auto simp: bit_simps)
qed

lemma ff_test:
  assumes "\<not> 0 < (c AND 0x80808080) AND NOT (c + 0x01010101 :: u32)" "i \<in> {0, 8, 16, 24}"
  shows "ucast (drop_bit i c) \<noteq> (0xFF :: u8)"
  using ff_test_byte [OF assms(2), of c] assms(1) by (auto simp: word_neq_0_conv [symmetric])


section \<open>Bits\<close>

text \<open>The lowest \<open>n\<close> bits of a word, most significant first.\<close>

definition word_bits :: "'a::len word \<Rightarrow> nat \<Rightarrow> bool list" where
  "word_bits w n = map (bit w) (rev [0 ..< n])"

definition byte_bits :: "u8 list \<Rightarrow> bool list" where
  "byte_bits bs = concat (map (\<lambda>b. word_bits b 8) bs)"

lemma length_word_bits [simp]: "length (word_bits w n) = n"
  by (simp add: word_bits_def)

lemma word_bits_0 [simp]: "word_bits w 0 = []"
  by (simp add: word_bits_def)

lemma byte_bits_simps [simp]:
  "byte_bits [] = []" "byte_bits (b # bs) = word_bits b 8 @ byte_bits bs"
  "byte_bits (as @ bs) = byte_bits as @ byte_bits bs"
  by (simp_all add: byte_bits_def)

lemma length_byte_bits [simp]: "length (byte_bits bs) = 8 * length bs"
  by (induction bs) auto

lemma nth_word_bits: "k < n \<Longrightarrow> word_bits w n ! k = bit w (n - 1 - k)"
  by (simp add: word_bits_def rev_nth)

lemma word_bits_eqI:
  assumes "length xs = n" "\<And>k. k < n \<Longrightarrow> xs ! (n - 1 - k) = bit w k"
  shows "xs = word_bits w n"
proof (rule nth_equalityI)
  show "length xs = length (word_bits w n)" using assms by simp
  fix i assume "i < length xs"
  with assms(1) assms(2) [of "n - 1 - i"] show "xs ! i = word_bits w n ! i"
    by (simp add: nth_word_bits)
qed

lemma word_bits_append:
  fixes c code :: u32
  assumes "n + s \<le> 32" "\<And>k. s \<le> k \<Longrightarrow> \<not> bit code k"
  shows "word_bits (push_bit s c OR code) (n + s) = word_bits c n @ word_bits code s"
proof (rule word_bits_eqI [symmetric])
  fix k assume k: "k < n + s"
  show "(word_bits c n @ word_bits code s) ! (n + s - 1 - k) = bit (push_bit s c OR code) k"
    using k assms by (cases "k < s") (auto simp: nth_append nth_word_bits bit_simps)
qed simp

lemma word_bits_split:
  fixes code :: "'a::len word"
  assumes "f \<le> s" "s \<le> LENGTH('a)"
  shows "word_bits code s = word_bits (drop_bit (s - f) code) f @ word_bits code (s - f)"
proof (rule word_bits_eqI [symmetric])
  fix k assume k: "k < s"
  show "(word_bits (drop_bit (s - f) code) f @ word_bits code (s - f)) ! (s - 1 - k) = bit code k"
    using k assms by (cases "k < s - f") (auto simp: nth_append nth_word_bits bit_simps)
qed (use assms in simp)

lemma word_bits_ucast8: "word_bits (ucast (w :: u32) :: u8) 8 = word_bits w 8"
  by (rule word_bits_eqI [symmetric]) (auto simp: nth_word_bits bit_simps)

lemma word_bits_bytes:
  fixes c :: u32
  assumes "8 \<le> n" "n \<le> 32"
  shows "word_bits c n = word_bits (ucast (drop_bit (n - 8) c) :: u8) 8 @ word_bits c (n - 8)"
  using word_bits_split [of 8 n c] assms by (simp add: word_bits_ucast8)

lemma word_bits_32:
  fixes c :: u32
  shows "word_bits c 32 = byte_bits [ucast (drop_bit 24 c), ucast (drop_bit 16 c), ucast (drop_bit 8 c), ucast c]"
  using word_bits_bytes [of 32 c] word_bits_bytes [of 24 c] word_bits_bytes [of 16 c]
  by (simp add: word_bits_ucast8)

section \<open>What an encode buffer has taken\<close>

definition eb_out :: "encode_buffer \<Rightarrow> u8 list" where
  "eb_out eb = wd_out (eb_dst eb) (eb_world eb) @
     (if eb_n eb = 0 then []
      else case eb_base eb of
             Local la \<Rightarrow> rd (w_mem (eb_world eb)) la (eb_buf eb - la)
           | Dst \<Rightarrow> rd (w_mem (eb_world eb)) (wd_dst (eb_dst eb)) (eb_buf eb - wd_dst (eb_dst eb)))"

definition eb_live :: "encode_buffer \<Rightarrow> bool" where
  "eb_live eb \<longleftrightarrow> wd_live (eb_dst eb, eb_world eb)"

text \<open>The region of memory the sink has filled, which a local array must not overlap.\<close>

definition wd_start :: "worker_dst \<Rightarrow> nwm_world \<Rightarrow> nat" where
  "wd_start d W = (case wd_user d of Kcp_hdr h \<Rightarrow> wd_base d W | Ninfo w t \<Rightarrow> ni_buf (w_ninfo W w t))"

lemma wd_out_cong:
  assumes "\<And>a. wd_start d W \<le> a \<Longrightarrow> a < wd_dst d \<Longrightarrow> m a = w_mem W a"
  shows "wd_out d (W\<lparr>w_mem := m\<rparr>) = wd_out d W"
proof (cases "wd_user d")
  case (Ninfo w t)
  have "rd m (ni_buf (w_ninfo W w t)) (wd_dst d - ni_buf (w_ninfo W w t))
      = rd (w_mem W) (ni_buf (w_ninfo W w t)) (wd_dst d - ni_buf (w_ninfo W w t))"
    by (rule rd_cong) (use assms Ninfo in \<open>auto simp: wd_start_def\<close>)
  with Ninfo show ?thesis by (simp add: wd_out_def)
next
  case (Kcp_hdr h)
  have b: "wd_base d (W\<lparr>w_mem := m\<rparr>) = wd_base d W" by (simp add: wd_base_def)
  have "rd m (wd_base d W) (wd_dst d - wd_base d W) = rd (w_mem W) (wd_base d W) (wd_dst d - wd_base d W)"
    by (rule rd_cong) (use assms Kcp_hdr in \<open>auto simp: wd_start_def\<close>)
  with Kcp_hdr b show ?thesis by (simp add: wd_out_def)
qed

text \<open>\<open>eb_ok r eb\<close>: there is room for \<open>r\<close> more bytes, scratch bytes included.\<close>

definition eb_ok :: "nat \<Rightarrow> encode_buffer \<Rightarrow> bool" where
  "eb_ok r eb \<longleftrightarrow>
     wd_inv (eb_dst eb) (eb_world eb)
   \<and> (eb_n eb \<noteq> 0 \<longrightarrow>
        (case eb_base eb of
           Local la \<Rightarrow> la \<le> eb_buf eb \<and> eb_buf eb + r \<le> la + eb_n eb \<and> eb_n eb \<le> w_pds (eb_world eb)
             \<and> (la + eb_n eb \<le> wd_start (eb_dst eb) (eb_world eb) \<or> wd_dst (eb_dst eb) \<le> la)
         | Dst \<Rightarrow> wd_dst (eb_dst eb) \<le> eb_buf eb
             \<and> eb_buf eb + r \<le> wd_dst (eb_dst eb) + unat (wd_free (eb_dst eb))))"

definition eb_kind :: "encode_buffer \<Rightarrow> bool" where
  "eb_kind eb \<longleftrightarrow> wd_kind (eb_dst eb)"

definition eb_same :: "encode_buffer \<Rightarrow> encode_buffer \<Rightarrow> bool" where
  "eb_same eb eb' \<longleftrightarrow> eb_n eb' = eb_n eb \<and> eb_base eb' = eb_base eb
     \<and> eb_no_escape eb' = eb_no_escape eb \<and> w_pds (eb_world eb') = w_pds (eb_world eb)"

text \<open>\<open>emits bs k eb eb'\<close>: the step took at most \<open>k\<close> bytes of room and appended \<open>bs\<close>.\<close>

definition emits :: "u8 list \<Rightarrow> nat \<Rightarrow> encode_buffer \<Rightarrow> encode_buffer \<Rightarrow> bool" where
  "emits bs k eb eb' \<longleftrightarrow>
     (eb_kind eb \<longrightarrow> eb_kind eb' \<and> eb_same eb eb'
       \<and> (eb_live eb' \<longrightarrow> eb_live eb \<and>
            (\<forall>r. eb_ok (r + k) eb \<longrightarrow> eb_ok r eb' \<and> eb_out eb' = eb_out eb @ bs)))"

lemma emits_trans:
  assumes "emits as k eb eb'" "emits bs l eb' eb''"
  shows "emits (as @ bs) (k + l) eb eb''"
  unfolding emits_def
proof (intro impI)
  assume "eb_kind eb"
  with assms(1) have 1: "eb_kind eb'" "eb_same eb eb'"
    "eb_live eb' \<Longrightarrow> eb_live eb" "\<And>r. eb_live eb' \<Longrightarrow> eb_ok (r + k) eb \<Longrightarrow> eb_ok r eb' \<and> eb_out eb' = eb_out eb @ as"
    by (auto simp: emits_def)
  from assms(2) 1(1) have 2: "eb_kind eb''" "eb_same eb' eb''"
    "eb_live eb'' \<Longrightarrow> eb_live eb'" "\<And>r. eb_live eb'' \<Longrightarrow> eb_ok (r + l) eb' \<Longrightarrow> eb_ok r eb'' \<and> eb_out eb'' = eb_out eb' @ bs"
    by (auto simp: emits_def)
  have "eb_ok r eb'' \<and> eb_out eb'' = eb_out eb @ (as @ bs)"
    if l: "eb_live eb''" and o: "eb_ok (r + (k + l)) eb" for r
    using 1(4) [of "r + l"] 2(3,4) l o by (auto simp: ac_simps)
  with 1 2 show "eb_kind eb'' \<and> eb_same eb eb'' \<and> (eb_live eb'' \<longrightarrow> eb_live eb \<and>
      (\<forall>r. eb_ok (r + (k + l)) eb \<longrightarrow> eb_ok r eb'' \<and> eb_out eb'' = eb_out eb @ (as @ bs)))"
    by (auto simp: eb_same_def)
qed


lemma eb_ok_mono: "eb_ok r eb \<Longrightarrow> k \<le> r \<Longrightarrow> eb_ok k eb"
  by (auto simp: eb_ok_def split: encode_buffer_base.splits)

lemma emits_more: "emits bs k eb eb' \<Longrightarrow> k \<le> l \<Longrightarrow> emits bs l eb eb'"
  unfolding emits_def by (meson add_le_mono1 add_left_mono eb_ok_mono)

lemma write_byte_emits:
  assumes "eb_n eb = 0"
  shows "emits [b] 0 eb (eb_write_byte b eb)"
  unfolding emits_def
proof (intro impI)
  assume k: "eb_kind eb"
  obtain r d W where w: "write_byte b (eb_dst eb) (eb_world eb) = (r, d, W)"
    by (cases "write_byte b (eb_dst eb) (eb_world eb)")
  then have e: "eb_write_byte b eb = eb\<lparr>eb_dst := d, eb_world := W\<rparr>" by (simp add: eb_write_byte_def)
  have kd: "wd_kind (eb_dst eb)" using k by (simp add: eb_kind_def)
  have "wd_rule (eb_dst eb) (eb_world eb) (r, d, W)"
    using write_byte_rule [OF kd, of "eb_world eb" b] w by simp
  note r = wd_rule_sink [OF kd this]
  show "eb_kind (eb_write_byte b eb) \<and> eb_same eb (eb_write_byte b eb)
      \<and> (eb_live (eb_write_byte b eb) \<longrightarrow> eb_live eb \<and> (\<forall>r. eb_ok (r + 0) eb \<longrightarrow>
           eb_ok r (eb_write_byte b eb) \<and> eb_out (eb_write_byte b eb) = eb_out eb @ [b]))"
    using r write_byte_stored [of b "eb_dst eb" "eb_world eb" d W] assms w
    by (auto simp: e eb_kind_def eb_same_def eb_live_def eb_ok_def eb_out_def stored_def wd_live_def)
qed

definition eb_app :: "u8 list \<Rightarrow> encode_buffer \<Rightarrow> encode_buffer" where
  "eb_app bs eb = eb\<lparr>eb_world := (eb_world eb)\<lparr>w_mem := wr (eb_buf eb) bs (w_mem (eb_world eb))\<rparr>,
     eb_buf := eb_buf eb + length bs\<rparr>"

lemma wd_inv_mem [simp]: "wd_inv d (W\<lparr>w_mem := m\<rparr>) = wd_inv d W"
  by (simp add: wd_inv_def wd_room_def Let_def split: worker_dst_user.splits)

lemma wd_live_mem [simp]: "wd_live (d, W\<lparr>w_mem := m\<rparr>) = wd_live (d, W)"
  by (simp add: wd_live_def wd_room_def split: worker_dst_user.splits)

lemma wd_start_mem [simp]: "wd_start d (W\<lparr>w_mem := m\<rparr>) = wd_start d W"
  by (simp add: wd_start_def wd_base_def split: worker_dst_user.splits)

text \<open>Writes beyond the cursor do not change what the buffer has taken.\<close>

lemma scratch_write:
  assumes o: "eb_ok r eb" and n: "eb_n eb \<noteq> 0" and l: "length bs \<le> r"
  shows "wd_out (eb_dst eb) ((eb_world eb)\<lparr>w_mem := wr (eb_buf eb) bs (w_mem (eb_world eb))\<rparr>)
       = wd_out (eb_dst eb) (eb_world eb)"
proof (rule wd_out_cong)
  fix a assume "wd_start (eb_dst eb) (eb_world eb) \<le> a" "a < wd_dst (eb_dst eb)"
  with o n l show "wr (eb_buf eb) bs (w_mem (eb_world eb)) a = w_mem (eb_world eb) a"
    by (auto simp: eb_ok_def mem_simps split: encode_buffer_base.splits)
qed

lemma app_emits:
  assumes n: "eb_n eb \<noteq> 0"
  shows "emits bs (length bs) eb (eb_app bs eb)"
proof -
  have "eb_ok r (eb_app bs eb) \<and> eb_out (eb_app bs eb) = eb_out eb @ bs"
    if o: "eb_ok (r + length bs) eb" for r
  proof (cases "eb_base eb")
    case (Local la)
    have "rd (wr (eb_buf eb) bs (w_mem (eb_world eb))) la (eb_buf eb + length bs - la)
        = rd (w_mem (eb_world eb)) la (eb_buf eb - la) @ bs"
      using o n Local rd_wr_after [of la "eb_buf eb - la" bs "w_mem (eb_world eb)"]
      by (simp add: eb_ok_def)
    with o n Local scratch_write [OF o n, of bs] show ?thesis
      by (simp add: eb_ok_def eb_app_def eb_out_def)
  next
    case Dst
    let ?d = "wd_dst (eb_dst eb)"
    have "rd (wr (eb_buf eb) bs (w_mem (eb_world eb))) ?d (eb_buf eb + length bs - ?d)
        = rd (w_mem (eb_world eb)) ?d (eb_buf eb - ?d) @ bs"
      using o n Dst rd_wr_after [of ?d "eb_buf eb - ?d" bs "w_mem (eb_world eb)"]
      by (simp add: eb_ok_def)
    with o n Dst scratch_write [OF o n, of bs] show ?thesis
      by (simp add: eb_ok_def eb_app_def eb_out_def)
  qed
  then show ?thesis
    by (auto simp: emits_def eb_kind_def eb_same_def eb_live_def eb_app_def)
qed

lemma junk_emits:
  assumes n: "eb_n eb \<noteq> 0"
  shows "emits [] 1 eb (poke (eb_buf eb) b eb)"
proof -
  have "eb_ok r (poke (eb_buf eb) b eb) \<and> eb_out (poke (eb_buf eb) b eb) = eb_out eb"
    if o: "eb_ok (r + 1) eb" for r
  proof (cases "eb_base eb")
    case (Local la)
    have "rd ((w_mem (eb_world eb))(eb_buf eb := b)) la (eb_buf eb - la)
        = rd (w_mem (eb_world eb)) la (eb_buf eb - la)"
      by (rule rd_cong) auto
    with o n Local scratch_write [OF o n, of "[b]"] show ?thesis
      by (simp add: eb_ok_def poke_def eb_out_def)
  next
    case Dst
    have "rd ((w_mem (eb_world eb))(eb_buf eb := b)) (wd_dst (eb_dst eb)) (eb_buf eb - wd_dst (eb_dst eb))
        = rd (w_mem (eb_world eb)) (wd_dst (eb_dst eb)) (eb_buf eb - wd_dst (eb_dst eb))"
      by (rule rd_cong) auto
    with o n Dst scratch_write [OF o n, of "[b]"] show ?thesis
      by (simp add: eb_ok_def poke_def eb_out_def)
  qed
  then show ?thesis
    by (auto simp: emits_def eb_kind_def eb_same_def eb_live_def poke_def)
qed

lemma emit_byte_emits: "emits (esc1 (eb_no_escape eb) b) 2 eb (emit_byte b eb)"
proof (cases "eb_n eb = 0")
  case True
  let ?e = "eb_write_byte b eb"
  have e: "eb_n ?e = 0" "eb_no_escape ?e = eb_no_escape eb"
    using True by (auto simp: eb_write_byte_def split: prod.splits)
  note w = write_byte_emits [OF True, of b] write_byte_emits [OF e(1), of 0]
  show ?thesis
    using emits_more [OF w(1), of 2] emits_more [OF emits_trans [OF w], of 2] True e
    by (auto simp: emit_byte_def esc1_def Let_def)
next
  case n: False
  let ?e = "eb_app [b] eb"
  have e: "eb_n ?e \<noteq> 0" using n by (simp add: eb_app_def)
  consider "eb_no_escape eb" | "\<not> eb_no_escape eb" "b = 0xFF" | "\<not> eb_no_escape eb" "b \<noteq> 0xFF" by auto
  then show ?thesis
  proof cases
    case 1
    then have "emit_byte b eb = ?e" using n by (simp add: emit_byte_def poke_def eb_app_def Let_def)
    with emits_more [OF app_emits [OF n, of "[b]"], of 2] 1 show ?thesis by (simp add: esc1_def)
  next
    case 2
    then have "emit_byte b eb = eb_app [0xFF, 0] eb" using n
      by (simp add: emit_byte_def poke_def eb_app_def Let_def)
    with app_emits [OF n, of "[0xFF, 0]"] 2 show ?thesis by (simp add: esc1_def numeral_2_eq_2)
  next
    case 3
    have "b < 0xFF" using 3 unat_less_exp [of b] by (auto simp: word_less_nat_alt word_unat_eq_iff)
    then have "emit_byte b eb = poke (eb_buf ?e) 0 ?e" using n 3
      by (simp add: emit_byte_def poke_def eb_app_def Let_def)
    with emits_trans [OF app_emits [OF n, of "[b]"] junk_emits [OF e, of 0]] 3 show ?thesis
      by (simp add: esc1_def numeral_2_eq_2)
  qed
qed


section \<open>Flushing and putting bits\<close>

lemma eb_state_simps [simp]:
  "eb_state (eb_write_byte b eb) = eb_state eb" "eb_state (poke p b eb) = eb_state eb"
  "eb_state (emit_byte b eb) = eb_state eb"
  "eb_no_escape (eb_write_byte b eb) = eb_no_escape eb" "eb_no_escape (poke p b eb) = eb_no_escape eb"
  "eb_no_escape (emit_byte b eb) = eb_no_escape eb"
  "eb_n (eb_write_byte b eb) = eb_n eb" "eb_n (emit_byte b eb) = eb_n eb"
  by (auto simp: eb_write_byte_def poke_def emit_byte_def Let_def split: prod.splits)

lemma eb_state_flush [simp]:
  "eb_state (eb_flush eb) = eb_state eb" "eb_no_escape (eb_flush eb) = eb_no_escape eb"
  by (auto simp: eb_flush_def Let_def)

definition c_bytes :: "u32 \<Rightarrow> u8 list" where
  "c_bytes c = [ucast (drop_bit 24 c), ucast (drop_bit 16 c), ucast (drop_bit 8 c), ucast c]"

lemma length_c_bytes [simp]: "length (c_bytes c) = 4"
  by (simp add: c_bytes_def)

lemma esc_c_bytes:
  assumes "ne \<or> \<not> 0 < (c AND 0x80808080) AND NOT (c + 0x01010101 :: u32)"
  shows "esc ne (c_bytes c) = c_bytes c"
proof (cases ne)
  case False
  with assms have t: "\<not> 0 < (c AND 0x80808080) AND NOT (c + 0x01010101 :: u32)" by simp
  have "\<forall>b \<in> set (c_bytes c). b \<noteq> 0xFF"
    using ff_test [OF t, of 24] ff_test [OF t, of 16] ff_test [OF t, of 8] ff_test [OF t, of 0]
    by (simp add: c_bytes_def)
  then show ?thesis by (simp add: esc_def esc1_def c_bytes_def)
qed (simp add: esc1_def)

lemma poke_four:
  "(poke (eb_buf eb + 3) b0 (poke (eb_buf eb + 2) b1 (poke (eb_buf eb + 1) b2 (poke (eb_buf eb) b3 eb))))
     \<lparr>eb_buf := eb_buf eb + 4\<rparr> = eb_app [b3, b2, b1, b0] eb"
  by (simp add: poke_def eb_app_def numeral_2_eq_2 numeral_3_eq_3)

lemma flush_emits: "emits (esc (eb_no_escape eb) (c_bytes (bs_c (eb_state eb)))) 8 eb (eb_flush eb)"
proof -
  let ?c = "bs_c (eb_state eb)" and ?ne = "eb_no_escape eb"
  let ?t = "0 < (?c AND 0x80808080) AND NOT (?c + 0x01010101)"
  show ?thesis
  proof (cases "\<not> ?ne \<and> ?t")
    case True
    let ?e3 = "emit_byte (ucast (drop_bit 24 ?c)) eb"
    let ?e2 = "emit_byte (ucast (drop_bit 16 ?c)) ?e3"
    let ?e1 = "emit_byte (ucast (drop_bit 8 ?c)) ?e2"
    have "eb_flush eb = emit_byte (ucast ?c) ?e1" using True by (simp add: eb_flush_def Let_def)
    with emits_trans [OF emit_byte_emits emits_trans [OF emit_byte_emits
        emits_trans [OF emit_byte_emits emit_byte_emits]],
        of eb "ucast (drop_bit 24 ?c)" "ucast (drop_bit 16 ?c)" "ucast (drop_bit 8 ?c)" "ucast ?c"]
    show ?thesis by (simp add: c_bytes_def)
  next
    case False
    then have raw: "esc ?ne (c_bytes ?c) = c_bytes ?c" by (intro esc_c_bytes) auto
    show ?thesis
    proof (cases "eb_n eb = 0")
      case n: True
      let ?e3 = "eb_write_byte (ucast (drop_bit 24 ?c)) eb"
      let ?e2 = "eb_write_byte (ucast (drop_bit 16 ?c)) ?e3"
      let ?e1 = "eb_write_byte (ucast (drop_bit 8 ?c)) ?e2"
      have f: "eb_flush eb = eb_write_byte (ucast ?c) ?e1"
        using False n by (auto simp: eb_flush_def Let_def)
      have "emits ([ucast (drop_bit 24 ?c)] @ [ucast (drop_bit 16 ?c)] @ [ucast (drop_bit 8 ?c)] @ [ucast ?c])
          (0 + (0 + (0 + 0))) eb (eb_write_byte (ucast ?c) ?e1)"
        by (rule emits_trans [OF write_byte_emits], simp add: n)+ (rule write_byte_emits, simp add: n)
      then have "emits (c_bytes ?c) 0 eb (eb_flush eb)" by (simp add: f c_bytes_def)
      then show ?thesis unfolding raw by (rule emits_more) simp
    next
      case n: False
      have "eb_flush eb = eb_app (c_bytes ?c) eb"
        unfolding eb_flush_def Let_def if_not_P [OF False] if_not_P [OF n] c_bytes_def
        by (rule poke_four)
      moreover have "length (c_bytes ?c) \<le> 8" by (simp add: c_bytes_def)
      ultimately show ?thesis
        using emits_more [OF app_emits [OF n, of "c_bytes ?c"]] raw by simp
    qed
  qed
qed


text \<open>The pending bits, and the effect of an operation on the stream of bits.\<close>

definition bs_wf :: "bit_state \<Rightarrow> bool" where
  "bs_wf st \<longleftrightarrow> 0 \<le> bs_free st \<and> bs_free st \<le> 32"

definition pend :: "bit_state \<Rightarrow> bool list" where
  "pend st = word_bits (bs_c st) (nat (32 - bs_free st))"

definition puts_bits :: "bool list \<Rightarrow> u8 list \<Rightarrow> encode_buffer \<Rightarrow> encode_buffer \<Rightarrow> bool" where
  "puts_bits xs bs eb eb' \<longleftrightarrow>
     emits (esc (eb_no_escape eb) bs) (2 * length bs) eb eb'
   \<and> pend (eb_state eb) @ xs = byte_bits bs @ pend (eb_state eb')
   \<and> bs_wf (eb_state eb') \<and> eb_no_escape eb' = eb_no_escape eb \<and> 4 dvd length bs"

lemma eb_state_irrelevant [simp]:
  "eb_kind (eb\<lparr>eb_state := st\<rparr>) = eb_kind eb"
  "eb_live (eb\<lparr>eb_state := st\<rparr>) = eb_live eb"
  "eb_ok r (eb\<lparr>eb_state := st\<rparr>) = eb_ok r eb"
  "eb_out (eb\<lparr>eb_state := st\<rparr>) = eb_out eb"
  "eb_same (eb\<lparr>eb_state := st\<rparr>) eb' = eb_same eb eb'"
  "eb_same eb (eb'\<lparr>eb_state := st\<rparr>) = eb_same eb eb'"
  by (simp_all add: eb_kind_def eb_same_def eb_live_def eb_ok_def eb_out_def
      split: encode_buffer_base.split)

lemma emits_state [simp]:
  "emits bs k (eb\<lparr>eb_state := st\<rparr>) eb' = emits bs k eb eb'"
  "emits bs k eb (eb'\<lparr>eb_state := st\<rparr>) = emits bs k eb eb'"
  by (simp_all add: emits_def)

lemma emits_refl: "emits [] 0 eb eb"
  by (simp add: emits_def eb_same_def)

lemma puts_bits_refl: "bs_wf (eb_state eb) \<Longrightarrow> puts_bits [] [] eb eb"
  by (simp add: puts_bits_def emits_refl)

lemma puts_bits_trans:
  assumes "puts_bits xs as eb eb'" "puts_bits ys bs eb' eb''"
  shows "puts_bits (xs @ ys) (as @ bs) eb eb''"
proof -
  have "emits (esc (eb_no_escape eb) (as @ bs)) (2 * length as + 2 * length bs) eb eb''"
    using assms emits_trans by (fastforce simp: puts_bits_def)
  moreover have "pend (eb_state eb) @ xs @ ys = byte_bits (as @ bs) @ pend (eb_state eb'')"
    using assms by (metis puts_bits_def append.assoc byte_bits_simps(3))
  ultimately show ?thesis using assms by (simp add: puts_bits_def)
qed

lemma c_bytes_bits: "byte_bits (c_bytes c) = word_bits c 32"
  by (simp add: word_bits_32 c_bytes_def)

lemma put_bits_spec:
  assumes wf: "bs_wf (eb_state eb)" and sz: "unat sz \<le> 31"
    and code: "\<And>k. unat sz \<le> k \<Longrightarrow> \<not> bit code k"
  shows "\<exists>bs. puts_bits (word_bits code (unat sz)) bs eb (put_bits code sz eb)"
proof -
  obtain c f where st: "eb_state eb = \<lparr>bs_c = c, bs_free = int f\<rparr>" and f: "f \<le> 32"
    using wf by (cases "eb_state eb") (auto simp: bs_wf_def dest!: zero_le_imp_eq_int)
  obtain s where s: "unat sz = s" by simp
  note sz = sz [unfolded s] and code = code [unfolded s]
  show ?thesis
  proof (cases "f < s")
    case False
    let ?st = "\<lparr>bs_c = push_bit s c OR code, bs_free = int (f - s)\<rparr>"
    have p: "put_bits code sz eb = eb\<lparr>eb_state := ?st\<rparr>"
      using False by (simp add: put_bits_def Let_def of_nat_diff s st)
    have "nat (32 - int (f - s)) = (32 - f) + s" using False f by auto
    then have "pend ?st = pend (eb_state eb) @ word_bits code s"
      using word_bits_append [of "32 - f" s code c] False f code by (simp add: pend_def st nat_diff_distrib)
    then have "puts_bits (word_bits code s) [] eb (put_bits code sz eb)"
      using p f by (simp add: puts_bits_def emits_refl bs_wf_def)
    then show ?thesis unfolding s ..
  next
    case True
    let ?c1 = "push_bit f c OR drop_bit (s - f) code"
    let ?st = "\<lparr>bs_c = ?c1, bs_free = int f - int s\<rparr>"
    let ?st' = "\<lparr>bs_c = code, bs_free = int f - int s + 32\<rparr>"
    let ?e = "eb_flush (eb\<lparr>eb_state := ?st\<rparr>)"
    have p: "put_bits code sz eb = ?e\<lparr>eb_state := ?st'\<rparr>"
      using True by (simp add: put_bits_def put_and_flush_def Let_def BIT_BUF_SIZE_def nat_diff_distrib s st)
    have em: "emits (esc (eb_no_escape eb) (c_bytes ?c1)) 8 eb (put_bits code sz eb)"
      using flush_emits [of "eb\<lparr>eb_state := ?st\<rparr>"] by (simp add: p)
    have "\<not> bit (drop_bit (s - f) code) k" if "f \<le> k" for k
      using that True code [of "s - f + k"] by (simp add: bit_drop_bit_eq)
    then have w: "word_bits ?c1 (32 - f + f) = word_bits c (32 - f) @ word_bits (drop_bit (s - f) code) f"
      using f by (intro word_bits_append) auto
    have pe: "pend (eb_state eb) = word_bits c (32 - f)" "pend ?st' = word_bits code (s - f)"
      using f True by (simp_all add: pend_def st nat_diff_distrib)
    have "pend (eb_state eb) @ word_bits code s = byte_bits (c_bytes ?c1) @ pend ?st'"
      using w f True sz word_bits_split [of f s code] unfolding pe c_bytes_bits by simp
    then have "puts_bits (word_bits code s) (c_bytes ?c1) eb (put_bits code sz eb)"
      using em p f True sz by (simp add: puts_bits_def bs_wf_def)
    then show ?thesis unfolding s ..
  qed
qed


text \<open>A sequence of codes in one session.\<close>

definition puts_code :: "(u32 \<times> u8) list \<Rightarrow> encode_buffer \<Rightarrow> encode_buffer" where
  "puts_code cs eb = foldl (\<lambda>eb (code, sz). put_bits code sz eb) eb cs"

definition code_bits :: "(u32 \<times> u8) list \<Rightarrow> bool list" where
  "code_bits cs = concat (map (\<lambda>(code, sz). word_bits code (unat sz)) cs)"

definition code_ok :: "u32 \<times> u8 \<Rightarrow> bool" where
  "code_ok cs \<longleftrightarrow> unat (snd cs) \<le> 31 \<and> fst cs < 2 ^ unat (snd cs)"

lemma code_ok_bits:
  assumes "code_ok (code, sz)" "unat sz \<le> k"
  shows "\<not> bit code k"
proof -
  have "unat code < 2 ^ unat sz"
  proof -
    have "(2::nat) ^ unat sz < 2 ^ 32"
      using assms(1) by (intro power_strict_increasing) (auto simp: code_ok_def)
    then have "unat (2 ^ unat sz :: u32) = 2 ^ unat sz"
      using unat_of_nat_small [where 'a = 32, of "2 ^ unat sz"] by simp
    then show ?thesis using assms(1) by (simp add: code_ok_def word_less_nat_alt)
  qed
  moreover have "(2::nat) ^ unat sz \<le> 2 ^ k" using assms(2) by simp
  ultimately have "unat code < 2 ^ k" by (rule less_le_trans)
  then show ?thesis by (simp add: bit_unat)
qed

lemma puts_code_spec:
  assumes "bs_wf (eb_state eb)" "\<forall>cs \<in> set cs. code_ok cs"
  shows "\<exists>bs. puts_bits (code_bits cs) bs eb (puts_code cs eb)"
  using assms
proof (induction cs arbitrary: eb)
  case Nil
  then show ?case using puts_bits_refl by (auto simp: puts_code_def code_bits_def)
next
  case (Cons c cs)
  obtain code sz where c: "c = (code, sz)" by (cases c)
  obtain bs where 1: "puts_bits (word_bits code (unat sz)) bs eb (put_bits code sz eb)"
    using put_bits_spec [of eb sz code] Cons.prems c code_ok_bits [of code sz]
    by (auto simp: code_ok_def)
  then have "bs_wf (eb_state (put_bits code sz eb))" by (simp add: puts_bits_def)
  with Cons obtain bs' where "puts_bits (code_bits cs) bs' (put_bits code sz eb) (puts_code cs (put_bits code sz eb))"
    by auto
  from puts_bits_trans [OF 1 this] show ?case
    by (auto simp: c puts_code_def code_bits_def)
qed


section \<open>A whole session\<close>

text \<open>The local array of a session does not overlap the packet being filled.\<close>

definition apart :: "nat \<Rightarrow> nat \<Rightarrow> worker_dst \<Rightarrow> nwm_world \<Rightarrow> bool" where
  "apart la n d W \<longleftrightarrow> la + n \<le> wd_start d W \<or> wd_dst d \<le> la"

lemma eb_init_ok:
  assumes "wd_inv d W" "n \<noteq> 0 \<longrightarrow> n \<le> w_pds W \<and> apart la n d W"
  shows "eb_ok n (eb_init n st d la ne W)" "eb_out (eb_init n st d la ne W) = wd_out d W"
    "eb_kind (eb_init n st d la ne W)" "eb_no_escape (eb_init n st d la ne W) = ne"
    "eb_live (eb_init n st d la ne W) = wd_live (d, W)" "eb_state (eb_init n st d la ne W) = st"
    "eb_n (eb_init n st d la ne W) = n"
proof -
  have "n \<noteq> 0 \<Longrightarrow> \<not> wd_free d < of_nat n \<Longrightarrow> n \<le> unat (wd_free d)"
    using assms by (auto simp: wd_inv_def word_less_nat_alt unat_of_pds)
  with assms show "eb_ok n (eb_init n st d la ne W)"
    by (auto simp: eb_init_def eb_ok_def apart_def)
qed (use wd_inv_kind [OF assms(1)] in
      \<open>auto simp: eb_init_def eb_out_def eb_kind_def eb_live_def\<close>)

lemma advance_copy:
  assumes o: "eb_ok r eb" and n: "eb_n eb \<noteq> 0" and b: "eb_base eb = Dst"
    and live: "wd_room (eb_dst eb) (eb_world eb)"
  shows "wd_inv (advance_to (eb_buf eb) (eb_dst eb)) (eb_world eb)
       \<and> wd_out (advance_to (eb_buf eb) (eb_dst eb)) (eb_world eb) = eb_out eb
       \<and> wd_room (advance_to (eb_buf eb) (eb_dst eb)) (eb_world eb) = wd_room (eb_dst eb) (eb_world eb)"
proof -
  let ?d = "eb_dst eb" and ?W = "eb_world eb"
  let ?bs = "rd (w_mem ?W) (wd_dst ?d) (eb_buf eb - wd_dst ?d)"
  have l: "wd_inv ?d ?W" "length ?bs \<le> unat (wd_free ?d)" "wd_dst ?d \<le> eb_buf eb"
    using o n b by (auto simp: eb_ok_def)
  have m: "?W\<lparr>w_mem := wr (wd_dst ?d) ?bs (w_mem ?W)\<rparr> = ?W"
  proof -
    have "wr (wd_dst ?d) ?bs (w_mem ?W) = w_mem ?W" by (rule ext) (auto simp: mem_simps)
    then show ?thesis by simp
  qed
  have s: "stored ?bs (?d, ?W) (advance_to (eb_buf eb) ?d, ?W)"
    using copy_stored [OF l(1,2)] l(3) m by (simp add: advance_to_def)
  have r: "wd_room (advance_to (eb_buf eb) ?d) ?W = wd_room ?d ?W"
    by (simp add: advance_to_def wd_room_def)
  show ?thesis using s r n b live by (simp add: stored_def eb_out_def)
qed

definition eb_session ::
  "nat \<Rightarrow> nat \<Rightarrow> bool \<Rightarrow> (encode_buffer \<Rightarrow> encode_buffer) \<Rightarrow> bit_state \<Rightarrow> worker_dst \<Rightarrow> nwm_world \<Rightarrow> encode_buffer" where
  "eb_session n la ne work st d W = eb_store (work (eb_init n st d la ne W))"

lemma eb_store_ok:
  assumes o: "eb_ok r eb" and l: "eb_live (eb_store eb)" and k: "eb_kind eb"
  shows "eb_live eb \<and> wd_inv (eb_dst (eb_store eb)) (eb_world (eb_store eb))
       \<and> wd_out (eb_dst (eb_store eb)) (eb_world (eb_store eb)) = eb_out eb"
proof (cases "eb_n eb = 0")
  case True
  then show ?thesis using o l by (simp add: eb_store_def eb_ok_def eb_out_def)
next
  case n: False
  show ?thesis
  proof (cases "eb_base eb")
    case (Local la)
    let ?bs = "rd (w_mem (eb_world eb)) la (eb_buf eb - la)"
    obtain r d W where w: "write_bytes ?bs (eb_dst eb) (eb_world eb) = (r, d, W)"
      by (cases "write_bytes ?bs (eb_dst eb) (eb_world eb)")
    have e: "eb_dst (eb_store eb) = d" "eb_world (eb_store eb) = W"
      using n Local w by (simp_all add: eb_store_def)
    have kd: "wd_kind (eb_dst eb)" using k by (simp add: eb_kind_def)
    have "wd_rule (eb_dst eb) (eb_world eb) (r, d, W)"
      using write_bytes_rule [OF kd, of "eb_world eb" ?bs] w by simp
    note rl = wd_rule_sink [OF kd this]
    have ld: "wd_live (d, W)" using l e by (simp add: eb_live_def)
    have i: "wd_inv (eb_dst eb) (eb_world eb)" and len: "length ?bs \<le> w_pds (eb_world eb)"
      using o n Local by (auto simp: eb_ok_def)
    have "stored ?bs (eb_dst eb, eb_world eb) (d, W)"
      using write_bytes_stored [OF _ i len] w rl(4) [OF ld] by simp
    then show ?thesis using ld rl(3) [OF ld] e n Local
      by (simp add: stored_def wd_live_def eb_live_def eb_out_def)
  next
    case Dst
    have e: "eb_dst (eb_store eb) = advance_to (eb_buf eb) (eb_dst eb)" "eb_world (eb_store eb) = eb_world eb"
      using n Dst by (simp_all add: eb_store_def)
    have "wd_room (eb_dst (eb_store eb)) (eb_world (eb_store eb))" "\<not> w_reset (eb_world eb)"
      using l e by (simp_all add: eb_live_def wd_live_def)
    moreover from this have "wd_room (eb_dst eb) (eb_world eb)"
      by (simp add: e wd_room_def advance_to_def)
    ultimately show ?thesis
      using advance_copy [OF o n Dst] by (simp add: e eb_live_def wd_live_def)
  qed
qed

lemma eb_store_live:
  assumes k: "eb_kind eb" and l: "eb_live (eb_store eb)"
  shows "eb_live eb"
proof (cases "eb_n eb \<noteq> 0 \<and> (\<exists>la. eb_base eb = Local la)")
  case True
  then obtain la where n: "eb_n eb \<noteq> 0" "eb_base eb = Local la" by auto
  let ?bs = "rd (w_mem (eb_world eb)) la (eb_buf eb - la)"
  obtain r d W where w: "write_bytes ?bs (eb_dst eb) (eb_world eb) = (r, d, W)"
    by (cases "write_bytes ?bs (eb_dst eb) (eb_world eb)")
  have kd: "wd_kind (eb_dst eb)" using k by (simp add: eb_kind_def)
  have "wd_rule (eb_dst eb) (eb_world eb) (r, d, W)"
    using write_bytes_rule [OF kd, of "eb_world eb" ?bs] w by simp
  from wd_rule_sink(3) [OF kd this] l n w show ?thesis
    by (simp add: eb_live_def eb_store_def)
next
  case False
  then consider "eb_store eb = eb" | "eb_store eb = eb\<lparr>eb_dst := advance_to (eb_buf eb) (eb_dst eb)\<rparr>"
    by (cases "eb_base eb"; cases "eb_n eb = 0") (auto simp: eb_store_def)
  then show ?thesis
    using l by cases (simp_all add: eb_live_def wd_live_def wd_room_def advance_to_def
        split: worker_dst_user.splits)
qed

lemma eb_session_emits:
  assumes "emits bs k (eb_init n st d la ne W) (work (eb_init n st d la ne W))" "k \<le> n \<or> n = 0"
    and "wd_inv d W" "n \<noteq> 0 \<longrightarrow> n \<le> w_pds W \<and> apart la n d W"
    and "eb_live (eb_session n la ne work st d W)"
  shows "wd_live (d, W)
    \<and> wd_inv (eb_dst (eb_session n la ne work st d W)) (eb_world (eb_session n la ne work st d W))
    \<and> wd_out (eb_dst (eb_session n la ne work st d W)) (eb_world (eb_session n la ne work st d W))
      = wd_out d W @ bs"
proof -
  let ?i = "eb_init n st d la ne W"
  let ?e = "work ?i"
  note i = eb_init_ok [OF assms(3,4), of st ne]
  have e: "eb_kind ?e" "eb_live ?e \<Longrightarrow> wd_live (d, W)"
    "\<And>r. eb_live ?e \<Longrightarrow> eb_ok (r + k) ?i \<Longrightarrow> eb_ok r ?e \<and> eb_out ?e = eb_out ?i @ bs"
    using assms(1) i by (auto simp: emits_def)
  have "eb_ok (0 + k) ?i"
  proof (cases "n = 0")
    case True
    then show ?thesis using i(1,7) by (auto simp: eb_ok_def)
  next
    case False
    then show ?thesis using i(1) assms(2) by (auto intro: eb_ok_mono)
  qed
  have l: "eb_live (eb_store ?e)" using assms(5) by (simp add: eb_session_def)
  have live: "eb_live ?e" using eb_store_live [OF e(1) l] .
  have o: "eb_ok 0 ?e" "eb_out ?e = wd_out d W @ bs"
    using e(3) [OF live \<open>eb_ok (0 + k) ?i\<close>] i(2) by auto
  show ?thesis
    using eb_store_ok [OF o(1) l e(1)] o(2) e(2) [OF live] by (simp add: eb_session_def)
qed


definition enc_session ::
  "nat \<Rightarrow> nat \<Rightarrow> bool \<Rightarrow> (u32 \<times> u8) list \<Rightarrow> bit_state \<times> worker_dst \<times> nwm_world
     \<Rightarrow> bit_state \<times> worker_dst \<times> nwm_world" where
  "enc_session n la ne cs = (\<lambda>(st, d, W).
     let eb = eb_session n la ne (puts_code cs) st d W in (eb_state eb, eb_dst eb, eb_world eb))"

text \<open>What an encoder state has produced: escaped bytes in the sink and pending bits.\<close>

definition encoded :: "bool \<Rightarrow> bit_state \<times> worker_dst \<times> nwm_world \<Rightarrow> bool list
    \<Rightarrow> bit_state \<times> worker_dst \<times> nwm_world \<Rightarrow> bool" where
  "encoded ne s xs s' \<longleftrightarrow> (case (s, s') of ((st, d, W), (st', d', W')) \<Rightarrow>
     wd_live (d, W) \<and> wd_inv d' W' \<and> bs_wf st'
   \<and> (\<exists>bs. wd_out d' W' = wd_out d W @ esc ne bs \<and> pend st @ xs = byte_bits bs @ pend st'))"

lemma length_pend: "bs_wf st \<Longrightarrow> length (pend st) \<le> 32"
  by (auto simp: pend_def bs_wf_def)

lemma encoded_trans:
  assumes "encoded ne s xs s'" "encoded ne s' ys s''"
  shows "encoded ne s (xs @ ys) s''"
proof -
  obtain st d W st' d' W' st'' d'' W'' where
    s: "s = (st, d, W)" "s' = (st', d', W')" "s'' = (st'', d'', W'')"
    by (cases s; cases s'; cases s'') auto
  obtain as where a: "wd_out d' W' = wd_out d W @ esc ne as" "pend st @ xs = byte_bits as @ pend st'"
    using assms(1) by (auto simp: encoded_def s)
  obtain bs where b: "wd_out d'' W'' = wd_out d' W' @ esc ne bs" "pend st' @ ys = byte_bits bs @ pend st''"
    using assms(2) by (auto simp: encoded_def s)
  have "pend st @ xs @ ys = byte_bits (as @ bs) @ pend st''"
    using a(2) b(2) by (metis append.assoc byte_bits_simps(3))
  then have "\<exists>cs. wd_out d'' W'' = wd_out d W @ esc ne cs \<and> pend st @ xs @ ys = byte_bits cs @ pend st''"
    using a(1) b(1) by (intro exI [of _ "as @ bs"]) simp
  then show ?thesis using assms by (simp add: encoded_def s)
qed

lemma enc_session_encoded:
  assumes r: "enc_session n la ne cs (st, d, W) = (st', d', W')" and live: "wd_live (d', W')"
    and wf: "bs_wf st" and ok: "\<forall>c \<in> set cs. code_ok c" and inv: "wd_inv d W"
    and n: "n \<noteq> 0 \<longrightarrow> n \<le> w_pds W \<and> apart la n d W
               \<and> 8 * ((32 + length (code_bits cs)) div 32) \<le> n"
  shows "encoded ne (st, d, W) (code_bits cs) (st', d', W')"
proof -
  let ?i = "eb_init n st d la ne W"
  have n': "n \<noteq> 0 \<longrightarrow> n \<le> w_pds W \<and> apart la n d W" using n by simp
  note i = eb_init_ok [OF inv n', of st ne]
  obtain bs where p: "puts_bits (code_bits cs) bs ?i (puts_code cs ?i)"
    using puts_code_spec [of ?i cs] wf ok i(6) by auto
  have st': "eb_state (puts_code cs ?i) = st'"
    using r by (auto simp: enc_session_def eb_session_def eb_store_def Let_def
        split: if_splits encode_buffer_base.splits prod.splits)
  have pb: "pend st @ code_bits cs = byte_bits bs @ pend st'" "bs_wf st'" "4 dvd length bs"
    using p i st' by (auto simp: puts_bits_def)
  have "2 * length bs \<le> n \<or> n = 0"
  proof (cases "n = 0")
    case False
    obtain q where q: "length bs = 4 * q" using pb(3) by auto
    have "8 * length bs \<le> 32 + length (code_bits cs)"
      using arg_cong [OF pb(1), of length] length_pend [OF wf] by simp
    then have "q \<le> (32 + length (code_bits cs)) div 32" using q by simp
    then have "8 * q \<le> 8 * ((32 + length (code_bits cs)) div 32)" by simp
    with n False q show ?thesis by simp
  qed simp
  moreover have "emits (esc ne bs) (2 * length bs) ?i (puts_code cs ?i)"
    using p i by (simp add: puts_bits_def)
  moreover have "eb_live (eb_session n la ne (puts_code cs) st d W)"
    using r live by (simp add: enc_session_def Let_def eb_live_def)
  ultimately have "wd_live (d, W) \<and> wd_inv d' W' \<and> wd_out d' W' = wd_out d W @ esc ne bs"
    using eb_session_emits [of "esc ne bs" "2 * length bs" n st d la ne W "puts_code cs"] inv n' r
    by (auto simp: enc_session_def Let_def)
  with pb show ?thesis by (auto simp: encoded_def)
qed


section \<open>The final flush\<close>

lemma flush_bytes_emits:
  assumes "n \<le> 32" "flush_bytes n c eb = (m, eb')"
  shows "\<exists>bs. emits (esc (eb_no_escape eb) bs) (2 * length bs) eb eb' \<and> m < 8
       \<and> word_bits c n = byte_bits bs @ word_bits c m \<and> eb_no_escape eb' = eb_no_escape eb"
  using assms
proof (induction n c eb rule: flush_bytes.induct)
  case (1 n c eb)
  show ?case
  proof (cases "8 \<le> n")
    case True
    let ?b = "ucast (drop_bit (n - 8) c) :: u8"
    have "flush_bytes (n - 8) c (emit_byte ?b eb) = (m, eb')"
      using 1(3) True by (subst (asm) flush_bytes.simps) simp
    with 1(1) [OF True] 1(2)
    have "\<exists>bs. emits (esc (eb_no_escape eb) bs) (2 * length bs) (emit_byte ?b eb) eb' \<and> m < 8
        \<and> word_bits c (n - 8) = byte_bits bs @ word_bits c m \<and> eb_no_escape eb' = eb_no_escape eb"
      by simp
    then obtain bs where
      bs: "emits (esc (eb_no_escape eb) bs) (2 * length bs) (emit_byte ?b eb) eb'" "m < 8"
        "word_bits c (n - 8) = byte_bits bs @ word_bits c m" "eb_no_escape eb' = eb_no_escape eb"
      by blast
    have "emits (esc1 (eb_no_escape eb) ?b @ esc (eb_no_escape eb) bs) (2 + 2 * length bs) eb eb'"
      by (rule emits_trans [OF emit_byte_emits bs(1)])
    then have "emits (esc (eb_no_escape eb) (?b # bs)) (2 * length (?b # bs)) eb eb'" by simp
    moreover have "word_bits c n = byte_bits (?b # bs) @ word_bits c m"
      using word_bits_bytes [OF True, of c] 1(2) bs(3) by simp
    ultimately show ?thesis using bs by blast
  next
    case False
    then have "m = n" "eb' = eb" using 1(3) by (subst (asm) flush_bytes.simps, simp)+
    then show ?thesis using False by (intro exI [of _ "[]"]) (simp add: emits_refl)
  qed
qed

lemma last_byte_bits:
  assumes "0 < m" "m < 8"
  shows "word_bits (ucast (push_bit (8 - m) c OR drop_bit m (0xFF :: u32)) :: u8) 8
       = word_bits (c :: u32) m @ replicate (8 - m) True"
proof (rule word_bits_eqI [symmetric])
  have ff: "bit (0xFF :: u32) k = (k < 8)" for k
  proof -
    have "(0xFF :: u32) = mask 8" by (simp add: mask_eq_exp_minus_1)
    then show ?thesis by (simp only: bit_mask_iff) auto
  qed
  define Y where "Y = drop_bit m (0xFF :: u32)"
  have Y: "bit Y j = (m + j < 8)" for j by (simp only: Y_def bit_drop_bit_eq ff comp_def)
  fix k :: nat assume k: "k < 8"
  show "(word_bits c m @ replicate (8 - m) True) ! (8 - 1 - k)
      = bit (ucast (push_bit (8 - m) c OR drop_bit m (0xFF :: u32)) :: u8) k"
    unfolding Y_def [symmetric]
    using assms k by (cases "8 - m \<le> k") (auto simp: nth_append nth_word_bits bit_simps Y ac_simps)
qed (use assms in simp)

text \<open>The final flush writes the pending bits, filled up with ones to a whole byte.\<close>

definition flush_work :: "bit_state \<Rightarrow> encode_buffer \<Rightarrow> encode_buffer" where
  "flush_work st eb =
     (let (n, eb) = flush_bytes (nat (BIT_BUF_SIZE - bs_free st)) (bs_c st) eb
      in if 0 < n then emit_byte (ucast (push_bit (8 - n) (bs_c st) OR drop_bit n 0xFF)) eb else eb)"

lemma flush_work_emits:
  assumes wf: "bs_wf st"
  shows "\<exists>cs k. emits (esc (eb_no_escape eb) cs) (2 * length cs) eb (flush_work st eb)
       \<and> byte_bits cs = pend st @ replicate k True \<and> k < 8"
proof -
  obtain m e where f: "flush_bytes (nat (BIT_BUF_SIZE - bs_free st)) (bs_c st) eb = (m, e)" by fastforce
  have n32: "nat (BIT_BUF_SIZE - bs_free st) \<le> 32" using wf by (auto simp: bs_wf_def BIT_BUF_SIZE_def nat_le_iff)
  obtain bs where bs: "emits (esc (eb_no_escape eb) bs) (2 * length bs) eb e" "m < 8"
    "pend st = byte_bits bs @ word_bits (bs_c st) m" "eb_no_escape e = eb_no_escape eb"
    using flush_bytes_emits [OF n32 f] by (auto simp: pend_def BIT_BUF_SIZE_def)
  have wk: "flush_work st eb = (if 0 < m then emit_byte (ucast (push_bit (8 - m) (bs_c st) OR drop_bit m 0xFF)) e else e)"
    by (simp add: flush_work_def f)
  let ?b = "ucast (push_bit (8 - m) (bs_c st) OR drop_bit m 0xFF) :: u8"
  show ?thesis
  proof (cases "0 < m")
    case True
    have "emits (esc (eb_no_escape eb) bs @ esc1 (eb_no_escape eb) ?b) (2 * length bs + 2) eb (emit_byte ?b e)"
      using emits_trans [OF bs(1) emit_byte_emits] bs(4) by simp
    then have "emits (esc (eb_no_escape eb) (bs @ [?b])) (2 * length (bs @ [?b])) eb (flush_work st eb)"
      using wk True by simp
    moreover have "byte_bits (bs @ [?b]) = pend st @ replicate (8 - m) True"
      using last_byte_bits [OF True bs(2), of "bs_c st"] bs(3) by simp
    ultimately show ?thesis using True by (intro exI [of _ "bs @ [?b]"] exI [of _ "8 - m"]) auto
  next
    case False
    with bs wk show ?thesis by (intro exI [of _ bs] exI [of _ 0]) auto
  qed
qed

lemma bs_flush_session:
  "bs_flush st d la ne W =
     (eb_dst (eb_session 16 la ne (flush_work st) st d W), eb_world (eb_session 16 la ne (flush_work st) st d W))"
  by (simp add: bs_flush_def eb_session_def flush_work_def Let_def split: prod.splits)

lemma bs_flush_back:
  assumes "bs_flush st d la ne W = (d', W')" "wd_live (d', W')" "bs_wf st" "wd_kind d"
  shows "wd_live (d, W)"
proof -
  let ?i = "eb_init 16 st d la ne W"
  have i: "eb_kind ?i" "eb_live ?i = wd_live (d, W)"
    using assms(4) by (auto simp: eb_init_def eb_kind_def eb_live_def)
  obtain cs where e: "emits (esc (eb_no_escape ?i) cs) (2 * length cs) ?i (flush_work st ?i)"
    using flush_work_emits [OF assms(3), of ?i] by auto
  then have k: "eb_kind (flush_work st ?i)" "eb_live (flush_work st ?i) \<Longrightarrow> wd_live (d, W)"
    using i by (auto simp: emits_def)
  have "eb_live (eb_store (flush_work st ?i))"
    using assms(1,2) by (simp add: bs_flush_session eb_session_def eb_live_def)
  then show ?thesis using eb_store_live [OF k(1)] k(2) by simp
qed

lemma bs_flush_spec:
  assumes r: "bs_flush st d la ne W = (d', W')" and live: "wd_live (d', W')" and wf: "bs_wf st"
    and inv: "wd_inv d W" and n: "16 \<le> w_pds W" "apart la 16 d W"
  shows "\<exists>bs k. wd_inv d' W' \<and> wd_out d' W' = wd_out d W @ esc ne bs
       \<and> byte_bits bs = pend st @ replicate k True \<and> k < 8"
proof -
  let ?i = "eb_init 16 st d la ne W" and ?s = "eb_session 16 la ne (flush_work st) st d W"
  have ne: "eb_no_escape ?i = ne" by (simp add: eb_init_def)
  obtain cs k where cs: "emits (esc ne cs) (2 * length cs) ?i (flush_work st ?i)"
    "byte_bits cs = pend st @ replicate k True" "k < 8"
    using flush_work_emits [OF wf, of ?i] ne by auto
  have "2 * length cs \<le> 16"
    using arg_cong [OF cs(2), of length] length_pend [OF wf] cs(3) by simp
  moreover have "eb_live ?s" using r live by (simp add: bs_flush_session eb_live_def)
  ultimately have "wd_inv d' W' \<and> wd_out d' W' = wd_out d W @ esc ne cs"
    using eb_session_emits [of "esc ne cs" "2 * length cs" 16 st d la ne W "flush_work st"] cs(1) inv n r
    by (simp add: bs_flush_session)
  with cs show ?thesis by blast
qed

section \<open>A whole stream\<close>

definition enc_stream ::
  "nat \<Rightarrow> nat \<Rightarrow> bool \<Rightarrow> (u32 \<times> u8) list list \<Rightarrow> bit_state \<times> worker_dst \<times> nwm_world
     \<Rightarrow> bit_state \<times> worker_dst \<times> nwm_world" where
  "enc_stream n la ne css s = foldl (\<lambda>s cs. enc_session n la ne cs s) s css"

fun arrays_apart ::
  "nat \<Rightarrow> nat \<Rightarrow> bool \<Rightarrow> (u32 \<times> u8) list list \<Rightarrow> bit_state \<times> worker_dst \<times> nwm_world \<Rightarrow> bool" where
  "arrays_apart n la ne [] s \<longleftrightarrow> apart la 16 (fst (snd s)) (snd (snd s))"
| "arrays_apart n la ne (cs # css) s \<longleftrightarrow>
     apart la n (fst (snd s)) (snd (snd s)) \<and> arrays_apart n la ne css (enc_session n la ne cs s)"

lemma eb_store_kind:
  assumes "eb_kind eb"
  shows "eb_kind (eb_store eb)" "w_pds (eb_world (eb_store eb)) = w_pds (eb_world eb)"
proof -
  have "eb_kind (eb_store eb) \<and> w_pds (eb_world (eb_store eb)) = w_pds (eb_world eb)"
  proof (cases "eb_n eb \<noteq> 0 \<and> (\<exists>la. eb_base eb = Local la)")
    case True
    then obtain la where n: "eb_n eb \<noteq> 0" "eb_base eb = Local la" by auto
    let ?bs = "rd (w_mem (eb_world eb)) la (eb_buf eb - la)"
    obtain r d W where w: "write_bytes ?bs (eb_dst eb) (eb_world eb) = (r, d, W)"
      by (cases "write_bytes ?bs (eb_dst eb) (eb_world eb)")
    have kd: "wd_kind (eb_dst eb)" using assms by (simp add: eb_kind_def)
    have "wd_rule (eb_dst eb) (eb_world eb) (r, d, W)"
      using write_bytes_rule [OF kd, of "eb_world eb" ?bs] w by simp
    from wd_rule_sink(1,2) [OF kd this] n w show ?thesis by (simp add: eb_kind_def eb_store_def)
  next
    case False
    then show ?thesis using assms
      by (cases "eb_base eb"; cases "eb_n eb = 0")
         (auto simp: eb_store_def eb_kind_def wd_kind_def advance_to_def)
  qed
  then show "eb_kind (eb_store eb)" "w_pds (eb_world (eb_store eb)) = w_pds (eb_world eb)" by auto
qed

lemma enc_session_back:
  assumes r: "enc_session n la ne cs (st, d, W) = (st', d', W')" and k: "wd_kind d"
    and wf: "bs_wf st" and ok: "\<forall>c \<in> set cs. code_ok c"
  shows "wd_kind d' \<and> bs_wf st' \<and> w_pds W' = w_pds W \<and> (wd_live (d', W') \<longrightarrow> wd_live (d, W))"
proof -
  let ?i = "eb_init n st d la ne W"
  have i: "eb_kind ?i" "eb_state ?i = st" "eb_live ?i = wd_live (d, W)" "w_pds (eb_world ?i) = w_pds W"
    using k by (auto simp: eb_init_def eb_kind_def eb_live_def)
  obtain bs where p: "puts_bits (code_bits cs) bs ?i (puts_code cs ?i)"
    using puts_code_spec [of ?i cs] wf ok i(2) by auto
  have st': "eb_state (puts_code cs ?i) = st'"
    using r by (auto simp: enc_session_def eb_session_def eb_store_def Let_def
        split: if_splits encode_buffer_base.splits prod.splits)
  have d': "d' = eb_dst (eb_store (puts_code cs ?i))" "W' = eb_world (eb_store (puts_code cs ?i))"
    using r by (auto simp: enc_session_def eb_session_def Let_def)
  have e: "eb_kind (puts_code cs ?i)" "w_pds (eb_world (puts_code cs ?i)) = w_pds W"
    "eb_live (puts_code cs ?i) \<Longrightarrow> wd_live (d, W)" "bs_wf st'"
    using p i st' by (auto simp: puts_bits_def emits_def eb_same_def)
  show ?thesis
    using eb_store_kind [OF e(1)] eb_store_live [OF e(1)] e d' by (simp add: eb_kind_def eb_live_def)
qed

lemma enc_stream_back:
  assumes "enc_stream n la ne css (st, d, W) = (st', d', W')" "wd_kind d" "bs_wf st"
    and "\<forall>cs \<in> set css. \<forall>c \<in> set cs. code_ok c" "wd_live (d', W')"
  shows "wd_live (d, W)"
  using assms
proof (induction css arbitrary: st d W)
  case (Cons cs css)
  obtain st1 d1 W1 where s1: "enc_session n la ne cs (st, d, W) = (st1, d1, W1)"
    by (cases "enc_session n la ne cs (st, d, W)")
  have b: "wd_kind d1" "bs_wf st1" "wd_live (d1, W1) \<Longrightarrow> wd_live (d, W)"
    using enc_session_back [OF s1 Cons.prems(2,3)] Cons.prems(4) by auto
  with Cons.IH [of st1 d1 W1] Cons.prems s1 show ?case by (simp add: enc_stream_def)
qed (simp add: enc_stream_def)

lemma enc_stream_kind:
  assumes "enc_stream n la ne css (st, d, W) = (st', d', W')" "wd_kind d" "bs_wf st"
    and "\<forall>cs \<in> set css. \<forall>c \<in> set cs. code_ok c"
  shows "wd_kind d' \<and> bs_wf st'"
  using assms
proof (induction css arbitrary: st d W)
  case (Cons cs css)
  obtain st1 d1 W1 where s1: "enc_session n la ne cs (st, d, W) = (st1, d1, W1)"
    by (cases "enc_session n la ne cs (st, d, W)")
  have b: "wd_kind d1" "bs_wf st1"
    using enc_session_back [OF s1 Cons.prems(2,3)] Cons.prems(4) by auto
  with Cons.IH [of st1 d1 W1] Cons.prems s1 show ?case by (simp add: enc_stream_def)
qed (simp add: enc_stream_def)

lemma enc_stream_encoded:
  assumes "enc_stream n la ne css (st, d, W) = (st', d', W')" "wd_live (d', W')"
    and "bs_wf st" "wd_inv d W" "n \<le> w_pds W" "arrays_apart n la ne css (st, d, W)"
    and "\<forall>cs \<in> set css. (\<forall>c \<in> set cs. code_ok c)
           \<and> (n \<noteq> 0 \<longrightarrow> 8 * ((32 + length (code_bits cs)) div 32) \<le> n)"
  shows "encoded ne (st, d, W) (concat (map code_bits css)) (st', d', W')
       \<and> w_pds W' = w_pds W \<and> apart la 16 d' W'"
  using assms
proof (induction css arbitrary: st d W)
  case Nil
  then show ?case
    by (auto simp: enc_stream_def encoded_def intro: exI [of _ "[]"])
next
  case (Cons cs css)
  obtain st1 d1 W1 where s1: "enc_session n la ne cs (st, d, W) = (st1, d1, W1)"
    by (cases "enc_session n la ne cs (st, d, W)")
  have k: "wd_kind d" using Cons.prems(4) by (rule wd_inv_kind)
  have b: "wd_kind d1" "bs_wf st1" "w_pds W1 = w_pds W" "wd_live (d1, W1) \<Longrightarrow> wd_live (d, W)"
    using enc_session_back [OF s1 k Cons.prems(3)] Cons.prems(7) by auto
  have r: "enc_stream n la ne css (st1, d1, W1) = (st', d', W')"
    using Cons.prems(1) s1 by (simp add: enc_stream_def)
  have live1: "wd_live (d1, W1)"
    using enc_stream_back [OF r b(1,2)] Cons.prems(2,7) by simp
  have e1: "encoded ne (st, d, W) (code_bits cs) (st1, d1, W1)"
    using Cons.prems by (intro enc_session_encoded [OF s1 live1]) auto
  then have "wd_inv d1 W1" by (simp add: encoded_def)
  with Cons.IH [OF r Cons.prems(2) b(2)] Cons.prems b(3) s1
  have "encoded ne (st1, d1, W1) (concat (map code_bits css)) (st', d', W')"
    "w_pds W' = w_pds W" "apart la 16 d' W'" by auto
  with encoded_trans [OF e1] show ?case by simp
qed


text \<open>C0: the bit encoder is a lossless, byte-stuffed bit stream. A sequence of blocks of Huffman
  codes, encoded with any buffer size \<open>n\<close> (so through the local array, directly in the packet or
  byte by byte, as the space left in the packet decides) and then flushed, appends to the sink the
  escaping of bytes whose bits are exactly the code bits, most significant first, followed by fewer
  than eight ones; removing the stuffed zeros gives these bytes back.\<close>
theorem bit_stream_roundtrip:
  assumes "wd_inv d W" and "n \<le> w_pds W" and "16 \<le> w_pds W"
    and "\<forall>cs \<in> set css. (\<forall>c \<in> set cs. code_ok c)
           \<and> (n \<noteq> 0 \<longrightarrow> 8 * ((32 + length (code_bits cs)) div 32) \<le> n)"
    and "arrays_apart n la ne css (bs_reset, d, W)"
    and "enc_stream n la ne css (bs_reset, d, W) = (st', d', W')"
    and "bs_flush st' d' la ne W' = (d'', W'')" and "wd_live (d'', W'')"
  shows "\<exists>bs k. wd_out d'' W'' = wd_out d W @ esc ne bs
       \<and> byte_bits bs = concat (map code_bits css) @ replicate k True \<and> k < 8
       \<and> unesc (esc False bs) = bs"
proof -
  have wf: "bs_wf bs_reset" "pend bs_reset = []"
    by (simp_all add: bs_wf_def bs_reset_def pend_def BIT_BUF_SIZE_def)
  have k: "wd_kind d' \<and> bs_wf st'"
    using enc_stream_kind [OF assms(6) wd_inv_kind [OF assms(1)] wf(1)] assms(4) by simp
  have live: "wd_live (d', W')" using bs_flush_back [OF assms(7,8)] k by simp
  from enc_stream_encoded [OF assms(6) live wf(1) assms(1,2,5,4)]
  have e: "encoded ne (bs_reset, d, W) (concat (map code_bits css)) (st', d', W')"
    "w_pds W' = w_pds W" "apart la 16 d' W'" by auto
  then obtain as where as: "wd_inv d' W'" "wd_out d' W' = wd_out d W @ esc ne as"
    "concat (map code_bits css) = byte_bits as @ pend st'"
    using wf(2) by (auto simp: encoded_def)
  obtain bs j where b: "wd_out d'' W'' = wd_out d' W' @ esc ne bs"
    "byte_bits bs = pend st' @ replicate j True" "j < 8"
    using bs_flush_spec [OF assms(7,8) _ as(1)] k e assms(3) by auto
  have "byte_bits (as @ bs) = concat (map code_bits css) @ replicate j True" using as(3) b(2) by simp
  then show ?thesis
    using as b unesc_esc [of "as @ bs"] by (intro exI [of _ "as @ bs"] exI [of _ j]) simp
qed

section \<open>Example run\<close>

definition ex_blocks :: "(u32 \<times> u8) list list" where
  "ex_blocks = [[(0xFF, 8), (5, 3)]]"

definition ex_sink :: "worker_dst \<times> nwm_world" where
  "ex_sink = ((ex_dst False)\<lparr>wd_free := 20\<rparr>,
     ex_world\<lparr>w_pds := 20, w_ninfo := (\<lambda>_ _. \<lparr>ni_buf = 100, buf_packet_last = 180,
        ni_info = \<lparr>send_pos = 100, pos = 100, flag = 0\<rparr>\<rparr>)\<rparr>)"

definition ex_enc :: "bit_state \<times> worker_dst \<times> nwm_world" where
  "ex_enc = enc_stream 16 5000 False ex_blocks (bs_reset, ex_sink)"

definition ex_flushed :: "worker_dst \<times> nwm_world" where
  "ex_flushed = bs_flush (fst ex_enc) (fst (snd ex_enc)) 5000 False (snd (snd ex_enc))"

lemma ex_enc_facts:
  "arrays_apart 16 5000 False ex_blocks (bs_reset, ex_sink)" "wd_live ex_flushed"
  "\<forall>cs \<in> set ex_blocks. (\<forall>c \<in> set cs. code_ok c)
           \<and> ((16::nat) \<noteq> 0 \<longrightarrow> 8 * ((32 + length (code_bits cs)) div 32) \<le> 16)"
  by code_simp+

theorem bit_stream_roundtrip_witness:
  "\<exists>bs k. wd_out (fst ex_flushed) (snd ex_flushed) = esc False bs
     \<and> byte_bits bs = concat (map code_bits ex_blocks) @ replicate k True \<and> k < 8"
proof -
  have "wd_inv (fst ex_sink) (snd ex_sink)" "wd_out (fst ex_sink) (snd ex_sink) = []"
    "w_pds (snd ex_sink) = 20"
    by (simp_all add: ex_sink_def ex_dst_def ex_world_def wd_inv_def wd_room_def wd_out_def)
  with bit_stream_roundtrip [of "fst ex_sink" "snd ex_sink" 16 ex_blocks 5000 False "fst ex_enc"
      "fst (snd ex_enc)" "snd (snd ex_enc)" "fst ex_flushed" "snd ex_flushed"] ex_enc_facts
  show ?thesis by (simp add: ex_enc_def [symmetric] ex_flushed_def [symmetric]) blast
qed

end
