(* ===== verification/Nwm_Output.thy ===== *)
theory Nwm_Output
  imports Nwm_World
begin

text \<open>
  The packet output of \<^verbatim>\<open>entries/thread_nwm/vars.rs\<close>: the Ethernet/IP/UDP header in front of a
  packet (\<open>nwm_output\<close>, \<open>init_udp_packet\<close>, \<open>ip_checksum\<close>), the pacing of the output and the data
  headers. \<open>nwmSendPacket\<close> is a kernel routine; the packets given to it are recorded.
\<close>

section \<open>Sixteen-bit stores\<close>

definition htons :: "u16 \<Rightarrow> u16" where
  "htons v = push_bit 8 v OR drop_bit 8 v"

definition ntohs :: "u16 \<Rightarrow> u16" where
  "ntohs v = push_bit 8 v OR drop_bit 8 v"

definition st16 :: "nat \<Rightarrow> u16 \<Rightarrow> mem \<Rightarrow> mem" where
  "st16 a v m = wr a (le16 v) m"

lemma le16_htons: "le16 (htons v) = be16 v"
proof -
  have "ucast (htons v) = (ucast (drop_bit 8 v) :: u8)"
    by (rule bit_word_eqI) (auto simp: htons_def bit_simps)
  moreover have "ucast (drop_bit 8 (htons v)) = (ucast v :: u8)"
    by (rule bit_word_eqI) (auto simp: htons_def bit_simps)
  ultimately show ?thesis by (simp add: le16_def be16_def)
qed

lemma ntohs_htons [simp]: "ntohs (htons v) = v"
proof (rule bit_word_eqI)
  fix n assume "n < LENGTH(16)"
  then show "bit (ntohs (htons v)) n = bit v n"
    by (cases "n < 8") (auto simp: htons_def ntohs_def bit_simps)
qed

section \<open>Headers\<close>

fun ip_acc :: "mem \<Rightarrow> nat \<Rightarrow> nat \<Rightarrow> u32 \<Rightarrow> u32" where
  "ip_acc m a 0 acc = acc"
| "ip_acc m a (Suc n) acc = ip_acc m (a + 2) n (acc + ucast (ntohs (rd16_le m a)))"

definition ip_checksum :: "nat \<Rightarrow> nat \<Rightarrow> mem \<Rightarrow> u16 \<times> mem" where
  "ip_checksum a len m =
     (let (m, len) = (if len mod 2 \<noteq> 0 then (m(a + len := 0), len + 1) else (m, len));
          acc = ip_acc m a (len div 2) 0;
          acc = (acc AND 0xffff) + drop_bit 16 acc;
          acc = acc + drop_bit 16 acc
      in (htons (ucast (NOT acc)), m))"

definition RP_SRC_PORT :: u16 where "RP_SRC_PORT = 8000"

definition init_udp_packet :: "u32 \<Rightarrow> nat \<Rightarrow> u32 \<Rightarrow> mem \<Rightarrow> u32 \<times> mem" where
  "init_udp_packet dst_port b len m =
     (let len = len + 8;
          m = st16 (b + (0x22 + 8)) (htons RP_SRC_PORT) m;
          m = st16 (b + (0x24 + 8)) (htons (ucast dst_port)) m;
          m = st16 (b + (0x26 + 8)) (htons (ucast len)) m;
          m = st16 (b + (0x28 + 8)) 0 m;
          len = len + 20;
          m = st16 (b + (0x10 + 8)) (htons (ucast len)) m;
          m = st16 (b + (0x12 + 8)) 0xaf01 m;
          m = st16 (b + (0x14 + 8)) 0x0040 m;
          m = st16 (b + (0x16 + 8)) 0x1140 m;
          m = st16 (b + (0x18 + 8)) 0 m;
          (ck, m) = ip_checksum (b + (0xE + 8)) 0x14 m;
          m = st16 (b + (0x18 + 8)) ck m;
          len = len + 22;
          m = st16 (b + 12) (htons (ucast len)) m
      in (len, m))"

section \<open>Output state\<close>

record nwm_net =
  n_w :: nwm_world
  n_hdrs :: "nat \<Rightarrow> u8 list"
  n_lhdrs :: "nat \<Rightarrow> u8 list"
  n_work :: iranged
  n_thread :: iranged
  n_need_syn :: "nat \<Rightarrow> bool"
  n_next_tick :: u32
  n_interval :: u32
  n_sent :: "u8 list list"
  n_hdr :: "u8 list"
  n_port :: u32
  n_cores :: u32
  n_lossless :: bool
  n_ticks :: "u32 list"

definition n_mem :: "nwm_net \<Rightarrow> mem" where
  "n_mem N = w_mem (n_w N)"

definition n_set_mem :: "mem \<Rightarrow> nwm_net \<Rightarrow> nwm_net" where
  "n_set_mem m N = N\<lparr>n_w := (n_w N)\<lparr>w_mem := m\<rparr>\<rparr>"

definition nwm_output :: "nat \<Rightarrow> nat \<Rightarrow> nwm_net \<Rightarrow> nwm_net" where
  "nwm_output b packet_size N =
     (let m = wr b (n_hdr N) (n_mem N);
          (nwm_size, m) = init_udp_packet (n_port N) b (of_nat packet_size) m
      in (n_set_mem m N)\<lparr>n_sent := n_sent N @ [rd m b (unat nwm_size)]\<rparr>)"

definition NWM_PROPORTIONAL_MIN_INTERVAL :: nat where "NWM_PROPORTIONAL_MIN_INTERVAL = 1"
definition NWM_AGGRESSIVE_NEXT_TICK :: nat where "NWM_AGGRESSIVE_NEXT_TICK = 1"

definition rp_output :: "nat \<Rightarrow> nat \<Rightarrow> u32 \<Rightarrow> nwm_net \<Rightarrow> nwm_net" where
  "rp_output packet_buf packet_size tick N =
     (let N = nwm_output (packet_buf - NWM_HDR_SIZE) packet_size N
      in N\<lparr>n_next_tick := tick +
            (if 0 < NWM_PROPORTIONAL_MIN_INTERVAL
             then n_interval N * of_nat packet_size div of_nat PACKET_SIZE
             else n_interval N)\<rparr>)"

definition init_min_send_interval :: "u64 \<Rightarrow> u32 \<Rightarrow> nwm_net \<Rightarrow> nwm_net" where
  "init_min_send_interval sysclock qos N =
     N\<lparr>n_interval := ucast (sysclock * of_nat PACKET_SIZE div ucast qos)\<rparr>"

definition data_hdr_init :: "u8 \<Rightarrow> bool \<Rightarrow> u8 \<Rightarrow> u8 \<Rightarrow> bool \<Rightarrow> bool \<Rightarrow> u8 list" where
  "data_hdr_init frame_id is_top downsample lossless both_eyes width_both =
     [frame_id,
      (if is_top then
         if width_both then u8_of_bool is_top OR push_bit 1 1 OR push_bit 2 (u8_of_bool both_eyes)
         else u8_of_bool is_top
       else u8_of_bool is_top),
      2 OR push_bit 2 downsample OR lossless,
      0]"

definition rp_lossless_huffman_hdr :: "bool \<Rightarrow> u8 \<Rightarrow> u8" where
  "rp_lossless_huffman_hdr is_table tbl = u8_of_bool is_table OR push_bit 1 (tbl AND 0x7)"

definition lossless_data_hdr_init :: "u8 \<Rightarrow> u8 \<Rightarrow> u8 \<Rightarrow> u8 \<Rightarrow> u8 list" where
  "lossless_data_hdr_init tbl chroma_ss color_bias rest_int =
     [rp_lossless_huffman_hdr False tbl OR push_bit 4 (chroma_ss AND 0x3) OR push_bit 6 (color_bias AND 0x3),
      push_bit 2 (rest_int AND 0xf)]"

section \<open>The checksum\<close>

fun be_words :: "u8 list \<Rightarrow> nat list" where
  "be_words (a # b # xs) = (256 * unat a + unat b) # be_words xs"
| "be_words _ = []"

lemma unat_be16: "unat (ntohs (rd16_le m a)) = 256 * unat (m a) + unat (m (a + 1))"
proof -
  have e: "ntohs (rd16_le m a) = push_bit 8 (ucast (m a)) OR ucast (m (a + 1))"
  proof (rule bit_word_eqI)
    fix n assume "n < LENGTH(16)"
    then show "bit (ntohs (rd16_le m a)) n = bit (push_bit 8 (ucast (m a)) OR ucast (m (a + 1)) :: u16) n"
      by (cases "n < 8") (auto simp: ntohs_def rd16_le_def bit_simps dest: bit_imp_le_length)
  qed
  have d: "(push_bit 8 (ucast (m a)) :: u16) AND ucast (m (a + 1)) = 0"
    by (rule bit_word_eqI) (auto simp: bit_simps dest: bit_imp_le_length)
  have 1: "unat (push_bit 8 (ucast (m a)) :: u16) = 256 * unat (m a)"
    using unat_less_exp [of "m a"] by (simp add: push_bit_eq_mult unat_word_ariths unat_ucast_up mult.commute)
  have 2: "unat (ucast (m (a + 1)) :: u16) = unat (m (a + 1))" by (simp add: unat_ucast_up)
  have "ntohs (rd16_le m a) = push_bit 8 (ucast (m a)) + ucast (m (a + 1))"
    using e disjunctive_add_eq_or [OF d] by simp
  then show ?thesis
    using unat_less_exp [of "m a"] unat_less_exp [of "m (a + 1)"]
    by (simp add: unat_word_ariths unat_ucast_up 1)
qed

lemma be_words_rd:
  "be_words (rd m a (2 * n)) = map (\<lambda>i. 256 * unat (m (a + 2 * i)) + unat (m (a + 2 * i + 1))) [0 ..< n]"
proof (induction n arbitrary: a)
  case (Suc n)
  have "rd m a (2 * Suc n) = m a # m (a + 1) # rd m (a + 2) (2 * n)"
    using rd_add [of m a 2 "2 * n"] by (simp add: rd_def upt_rec)
  moreover have "[0 ..< Suc n] = 0 # map Suc [0 ..< n]" by (simp add: map_Suc_upt upt_conv_Cons)
  ultimately show ?case by (simp only: be_words.simps Suc.IH) (simp add: comp_def)
qed simp

lemma ip_acc_sum:
  assumes "unat acc + n * 65535 < 2 ^ 32"
  shows "unat (ip_acc m a n acc) = unat acc + sum_list (be_words (rd m a (2 * n)))"
  using assms
proof (induction n arbitrary: a acc)
  case (Suc n)
  let ?w = "ntohs (rd16_le m a)"
  have w: "unat ?w \<le> 65535" using unat_less_exp [of ?w] by simp
  have u: "unat (acc + ucast ?w) = unat acc + unat ?w"
    using Suc.prems w by (simp add: unat_add_no_wrap unat_ucast_up)
  have "rd m a (2 * Suc n) = m a # m (a + 1) # rd m (a + 2) (2 * n)"
    using rd_add [of m a 2 "2 * n"] by (simp add: rd_def upt_rec)
  moreover have "unat (acc + ucast ?w) + n * 65535 < 2 ^ 32" using Suc.prems w u by simp
  ultimately show ?case using Suc.IH [of "acc + ucast ?w" "a + 2"] u unat_be16 [of m a] by simp
qed simp

text \<open>The one's complement fold of a sum.\<close>

lemma fold_checksum:
  fixes S :: nat
  assumes "S < 2 ^ 31"
  defines "a1 \<equiv> S mod 65536 + S div 65536"
  defines "c \<equiv> 65535 - (a1 + a1 div 65536) mod 65536"
  shows "(S + c) mod 65535 = 0"
proof -
  have h: "S div 65536 \<le> 32767" using assms(1) by simp
  have l: "S mod 65536 \<le> 65535" by simp
  have a1: "a1 \<le> 65535 + 32767" using h l by (simp add: a1_def)
  have S: "S = 65535 * (S div 65536) + a1" using div_mult_mod_eq [of S 65536] by (simp add: a1_def)
  show ?thesis
  proof (cases "a1 < 65536")
    case True
    then have "S + c = 65535 * (S div 65536 + 1)" using S by (simp add: c_def)
    then show ?thesis by simp
  next
    case False
    then have d: "a1 div 65536 = 1" using a1 by simp
    then have "(a1 + a1 div 65536) mod 65536 = a1 - 65535" using False a1 by (simp add: mod_if)
    then have "S + c = 65535 * (S div 65536 + 2)" using S False a1 by (simp add: c_def)
    then show ?thesis by simp
  qed
qed


lemma rd16_le_st16: "rd16_le (st16 a v m) a = v"
  by (simp add: st16_def rd16_le_wr)

lemma st16_apply: "st16 a v m x = (if x = a then ucast v else if x = a + 1 then ucast (drop_bit 8 v) else m x)"
  by (auto simp: st16_def le16_def)

lemma rd_st16: "x + n \<le> a \<or> a + 2 \<le> x \<Longrightarrow> rd (st16 a v m) x n = rd m x n"
  unfolding st16_def by (rule rd_wr_disjoint) simp

definition word_sum :: "mem \<Rightarrow> nat \<Rightarrow> nat \<Rightarrow> nat" where
  "word_sum m a n = (\<Sum>i<n. 256 * unat (m (a + 2 * i)) + unat (m (a + 2 * i + 1)))"

lemma word_sum_be: "sum_list (be_words (rd m a (2 * n))) = word_sum m a n"
  unfolding be_words_rd word_sum_def by (simp add: interv_sum_list_conv_sum_set_nat atLeast0LessThan)

lemma word_sum_set:
  assumes "j < n" "m (a + 2 * j) = 0" "m (a + 2 * j + 1) = 0"
  shows "word_sum (st16 (a + 2 * j) (htons v) m) a n = word_sum m a n + unat v"
proof -
  let ?m = "st16 (a + 2 * j) (htons v) m"
  let ?f = "\<lambda>m i. 256 * unat (m (a + 2 * i)) + unat (m (a + 2 * i + 1) :: u8)"
  have j: "?f ?m j = unat v"
    using unat_be16 [of ?m "a + 2 * j"] by (simp only: rd16_le_st16 ntohs_htons)
  have "(\<Sum>i\<in>{..<n} - {j}. ?f ?m i) = (\<Sum>i\<in>{..<n} - {j}. ?f m i)"
    by (rule sum.cong) (auto simp: st16_apply)
  moreover have "word_sum ?m a n = ?f ?m j + (\<Sum>i\<in>{..<n} - {j}. ?f ?m i)"
    unfolding word_sum_def using assms(1) by (intro sum.remove) auto
  moreover have "word_sum m a n = ?f m j + (\<Sum>i\<in>{..<n} - {j}. ?f m i)"
    unfolding word_sum_def using assms(1) by (intro sum.remove) auto
  ultimately show ?thesis using j assms(2,3) by simp
qed

lemma word_sum_cong: "rd m a (2 * n) = rd m' a (2 * n) \<Longrightarrow> word_sum m a n = word_sum m' a n"
  by (simp flip: word_sum_be)

lemma word_sum_le: "word_sum m a n \<le> n * 65535"
proof (induction n)
  case (Suc n)
  have "unat (m (a + 2 * n)) \<le> 255" "unat (m (a + 2 * n + 1)) \<le> 255"
    using unat_less_exp [of "m (a + 2 * n)"] unat_less_exp [of "m (a + 2 * n + 1)"] by auto
  with Suc show ?case by (simp add: word_sum_def)
qed (simp add: word_sum_def)

lemma unat_not16: "unat (NOT w) = 65535 - unat (w :: u16)"
proof -
  have "NOT w = 65535 - w" by (simp add: not_eq_complement)
  moreover have "unat w \<le> unat (65535 :: u16)" using unat_less_exp [of w] by simp
  ultimately show ?thesis using unat_sub_le [of w "65535 :: u16"] by simp
qed

lemma unat_checksum:
  assumes "unat acc < 2 ^ 31"
  defines "a1 \<equiv> (acc AND 0xffff) + drop_bit 16 acc :: u32"
  shows "unat (ucast (NOT (a1 + drop_bit 16 a1)) :: u16)
       = 65535 - ((unat acc mod 65536 + unat acc div 65536)
                   + (unat acc mod 65536 + unat acc div 65536) div 65536) mod 65536"
proof -
  let ?S = "unat acc"
  have m: "(0xffff :: u32) = mask 16" by (simp add: mask_eq_exp_minus_1)
  have h: "?S div 65536 \<le> 32767" using assms(1) by simp
  have a1: "unat a1 = ?S mod 65536 + ?S div 65536"
    unfolding a1_def m using h by (subst unat_add_no_wrap) (simp_all add: unat_and_mask unat_drop_bit)
  let ?a2 = "a1 + drop_bit 16 a1"
  have a2: "unat ?a2 = unat a1 + unat a1 div 65536"
  proof -
    have "unat a1 \<le> 65535 + 32767" using h a1 by simp
    then show ?thesis by (subst unat_add_no_wrap) (simp_all add: unat_drop_bit)
  qed
  have "(ucast (NOT ?a2) :: u16) = NOT (ucast ?a2)"
    by (rule bit_word_eqI) (auto simp: bit_simps)
  moreover note unat_not16 [of "ucast ?a2"]
  moreover have "unat (ucast ?a2 :: u16) = unat ?a2 mod 65536"
    by (simp add: unsigned_ucast_eq take_bit_eq_mod)
  ultimately show ?thesis using a2 a1 by simp
qed

lemma checksum_verifies:
  assumes z: "m (a + 2 * j) = 0" "m (a + 2 * j + 1) = 0" and j: "j < 10"
    and ck: "ip_checksum a 20 m = (ck, m')"
  shows "m' = m \<and> word_sum (st16 (a + 2 * j) ck m) a 10 mod 65535 = 0"
proof -
  let ?acc = "ip_acc m a 10 0"
  let ?S = "word_sum m a 10"
  have S: "unat ?acc = ?S"
    using ip_acc_sum [of 0 10 m a] word_sum_be [of m a 10] by simp
  have b: "?S < 2 ^ 31" using word_sum_le [of m a 10] by simp
  define a1 where "a1 = (?acc AND 0xffff) + drop_bit 16 ?acc"
  define v where "v = (ucast (NOT (a1 + drop_bit 16 a1)) :: u16)"
  have "ip_checksum a 20 m = (htons v, m)" by (simp add: ip_checksum_def Let_def v_def a1_def)
  then have e: "ck = htons v" "m' = m" using ck by simp_all
  have "unat v = 65535 - ((?S mod 65536 + ?S div 65536) + (?S mod 65536 + ?S div 65536) div 65536) mod 65536"
    unfolding v_def a1_def using unat_checksum [of ?acc] b by (simp only: S)
  then have "(?S + unat v) mod 65535 = 0" using fold_checksum [OF b] by simp
  moreover have "word_sum (st16 (a + 2 * j) ck m) a 10 = ?S + unat v"
    unfolding e(1) by (rule word_sum_set [OF j z])
  ultimately show ?thesis using e by simp
qed


section \<open>The packet that goes out\<close>

definition be_at :: "u8 list \<Rightarrow> nat \<Rightarrow> nat" where
  "be_at p i = 256 * unat (p ! i) + unat (p ! (i + 1))"

lemma be_at_rd:
  "i + 1 < n \<Longrightarrow> be_at (rd m b n) i = unat (ntohs (rd16_le m (b + i)))"
  by (simp add: be_at_def unat_be16)

lemma rd16_le_st16_other:
  "x + 2 \<le> a \<or> a + 2 \<le> x \<Longrightarrow> rd16_le (st16 a v m) x = rd16_le m x"
  by (auto simp: rd16_le_def st16_apply)

definition udp_head :: "u32 \<Rightarrow> nat \<Rightarrow> u32 \<Rightarrow> mem \<Rightarrow> mem" where
  "udp_head dst_port b len m =
     st16 (b + 32) 0 (st16 (b + 30) 0x1140 (st16 (b + 28) 0x0040 (st16 (b + 26) 0xaf01
       (st16 (b + 24) (htons (ucast (len + 8 + 20)))
         (st16 (b + 48) 0 (st16 (b + 46) (htons (ucast (len + 8)))
           (st16 (b + 44) (htons (ucast dst_port)) (st16 (b + 42) (htons RP_SRC_PORT) m))))))))"

lemma init_udp_packet_eq:
  "init_udp_packet dst_port b len m =
     (len + 8 + 20 + 22,
      st16 (b + 12) (htons (ucast (len + 8 + 20 + 22)))
        (st16 (b + 32) (fst (ip_checksum (b + 22) 20 (udp_head dst_port b len m)))
          (udp_head dst_port b len m)))"
proof -
  have "snd (ip_checksum a 20 m) = m" for a and m :: mem by (simp add: ip_checksum_def Let_def)
  then show ?thesis
    by (simp add: init_udp_packet_def udp_head_def Let_def split: prod.splits) (metis snd_conv fst_conv)
qed

lemma udp_fields:
  assumes "init_udp_packet dst_port b len m = (nsz, m')"
  shows "nsz = len + 50" "rd16_le m' (b + 24) = htons (ucast (len + 28))"
    "rd16_le m' (b + 46) = htons (ucast (len + 8))" "rd16_le m' (b + 42) = htons RP_SRC_PORT"
    "rd16_le m' (b + 44) = htons (ucast dst_port)" "word_sum m' (b + 22) 10 mod 65535 = 0"
    "x < b + 12 \<or> b + 50 \<le> x \<Longrightarrow> m' x = m x"
proof -
  let ?h = "udp_head dst_port b len m"
  obtain ck where ck: "ip_checksum (b + 22) 20 ?h = (ck, ?h)" by (simp add: ip_checksum_def Let_def)
  have m': "m' = st16 (b + 12) (htons (ucast (len + 8 + 20 + 22))) (st16 (b + 32) ck ?h)"
    and n: "nsz = len + 8 + 20 + 22"
    using assms unfolding init_udp_packet_eq ck fst_conv by (blast dest: Pair_inject sym)+
  show "nsz = len + 50" using n by simp
  show "rd16_le m' (b + 24) = htons (ucast (len + 28))" "rd16_le m' (b + 46) = htons (ucast (len + 8))"
    "rd16_le m' (b + 42) = htons RP_SRC_PORT" "rd16_le m' (b + 44) = htons (ucast dst_port)"
    by (simp_all add: m' udp_head_def rd16_le_st16_other rd16_le_st16 add.assoc)
  show "x < b + 12 \<or> b + 50 \<le> x \<Longrightarrow> m' x = m x"
    by (auto simp: m' udp_head_def st16_apply)
  have "?h (b + 22 + 2 * 5) = 0" "?h (b + 22 + 2 * 5 + 1) = 0"
    by (simp_all add: udp_head_def st16_apply)
  from checksum_verifies [OF this _ ck]
  have "word_sum (st16 (b + 32) ck ?h) (b + 22) 10 mod 65535 = 0" by (simp add: add.assoc)
  moreover have "word_sum m' (b + 22) 10 = word_sum (st16 (b + 32) ck ?h) (b + 22) 10"
    unfolding m' by (intro word_sum_cong rd_st16) simp
  ultimately show "word_sum m' (b + 22) 10 mod 65535 = 0" by simp
qed

lemma unat_ucast_16: "unat (ucast (w :: u32) :: u16) = unat w mod 65536"
  by (simp add: unsigned_ucast_eq take_bit_eq_mod)

lemma nwm_output_wellformed_aux:
  assumes "length (n_hdr N) = 50" and "n + 50 < 2 ^ 16"
  shows "\<exists>p. n_sent (nwm_output b n N) = n_sent N @ [p] \<and> length p = n + 50
     \<and> drop 50 p = rd (n_mem N) (b + 50) n
     \<and> be_at p 24 = n + 28 \<and> be_at p 46 = n + 8
     \<and> be_at p 42 = 8000 \<and> be_at p 44 = unat (n_port N) mod 65536
     \<and> sum_list (be_words (take 20 (drop 22 p))) mod 65535 = 0"
proof -
  let ?m = "wr b (n_hdr N) (n_mem N)"
  obtain nsz m' where i: "init_udp_packet (n_port N) b (of_nat n) ?m = (nsz, m')" by fastforce
  note f = udp_fields [OF i]
  have sm: "unat (of_nat k :: u32) = k" if "k < 2 ^ 16" for k
    using that by (intro unat_of_nat_small) simp
  have nsz: "unat nsz = n + 50" using sm [of "n + 50"] assms(2) f(1) by (simp add: ac_simps)
  let ?p = "rd m' b (n + 50)"
  have s: "n_sent (nwm_output b n N) = n_sent N @ [?p]"
    by (simp add: nwm_output_def i nsz Let_def n_set_mem_def)
  have ln: "unat (of_nat n + 28 :: u32) = n + 28" "unat (of_nat n + 8 :: u32) = n + 8"
    using sm [of "n + 28"] sm [of "n + 8"] assms(2) by (simp_all add: ac_simps)
  have fl: "be_at ?p 24 = n + 28" "be_at ?p 46 = n + 8" "be_at ?p 42 = 8000"
    "be_at ?p 44 = unat (n_port N) mod 65536"
    using f assms(2) by (simp_all add: be_at_rd unat_ucast_16 ln RP_SRC_PORT_def)
  have "?p = rd m' b 50 @ rd m' (b + 50) n" using rd_add [of m' b 50 n] by (simp add: add.commute)
  then have "drop 50 ?p = rd m' (b + 50) n" by simp
  also have "\<dots> = rd (n_mem N) (b + 50) n"
    using f(7) assms(1) by (intro rd_cong) (auto simp: mem_simps)
  finally have d: "drop 50 ?p = rd (n_mem N) (b + 50) n" .
  have "rd m' b (n + 50) = rd m' b 22 @ rd m' (b + 22) 20 @ rd m' (b + 42) (n + 8)"
    using rd_add [of m' b 22 "20 + (n + 8)"] rd_add [of m' "b + 22" 20 "n + 8"]
    by (simp add: add.commute add.assoc)
  then have "take 20 (drop 22 ?p) = rd m' (b + 22) (2 * 10)" by simp
  then have "sum_list (be_words (take 20 (drop 22 ?p))) mod 65535 = 0"
    using f(6) by (simp only: word_sum_be)
  with s fl d show ?thesis by (intro exI [of _ ?p]) simp
qed

text \<open>C10: every packet sent is a well-formed UDP datagram round the unchanged payload: the total
  length and the UDP length count the payload, the ports are the configured ones, and the ten words
  of the IP header add up to zero in one's complement arithmetic, so that the receiver accepts its
  checksum.\<close>
theorem nwm_output_wellformed:
  assumes "length (n_hdr N) = 50" and "n + 50 < 2 ^ 16"
  shows "\<exists>p. n_sent (nwm_output b n N) = n_sent N @ [p] \<and> length p = n + 50
     \<and> drop 50 p = rd (n_mem N) (b + 50) n
     \<and> be_at p 24 = n + 28 \<and> be_at p 46 = n + 8
     \<and> be_at p 42 = 8000 \<and> be_at p 44 = unat (n_port N) mod 65536
     \<and> sum_list (be_words (take 20 (drop 22 p))) mod 65535 = 0"
  by (rule nwm_output_wellformed_aux [OF assms])

definition ex_net :: nwm_net where
  "ex_net = \<lparr>n_w = \<lparr>w_mem = (\<lambda>a. of_nat a), w_waits = [], w_rels = [], w_reset = False,
       w_pool = \<lparr>mp_bs = 64, mp_ul_bc = 4, mp_b = 0, mp_ul_b = 1000, mp_bc = 4, mp_m = 1000\<rparr>,
       w_ninfo = (\<lambda>_ t. \<lparr>ni_buf = 200 + 200 * t, buf_packet_last = 300 + 200 * t,
           ni_info = \<lparr>send_pos = 200 + 200 * t, pos = 204 + 200 * t, flag = 0x10\<rparr>\<rparr>),
       w_relq = [], w_terms = (\<lambda>_ _. 0), w_fsize = (\<lambda>_. 0), w_dqsize = (\<lambda>_ _. 0), w_pds = 6\<rparr>,
     n_hdrs = (\<lambda>_. [7, 1, 2, 0]), n_lhdrs = (\<lambda>_. [0, 0]), n_work = \<lparr>ri = 0\<rparr>, n_thread = \<lparr>ri = 0\<rparr>,
     n_need_syn = (\<lambda>_. False), n_next_tick = 0, n_interval = 100, n_sent = [],
     n_hdr = replicate 50 0, n_port = 8001, n_cores = 2, n_lossless = False, n_ticks = []\<rparr>"

theorem nwm_output_wellformed_witness:
  "\<exists>p. n_sent (nwm_output 1000 20 ex_net) = [p] \<and> length p = 70 \<and> be_at p 24 = 48
     \<and> sum_list (be_words (take 20 (drop 22 p))) mod 65535 = 0"
proof -
  have "length (n_hdr ex_net) = 50" "n_sent ex_net = []" by (simp_all add: ex_net_def)
  with nwm_output_wellformed [of ex_net 20 1000] show ?thesis by auto
qed

end
