(* ===== verification/Nwm_Sender.thy ===== *)
theory Nwm_Sender
  imports Nwm_Output
begin

text \<open>
  The sending side without the reliable stream (\<open>send_next_buffer\<close> and below in
  \<^verbatim>\<open>entries/thread_nwm/vars.rs\<close>): the network thread takes the bytes the encoding threads left in
  their send buffers, thread by thread, and cuts them into packets. When a thread has finished, the
  rest of its lst packet is filled with the beginning of the next thread's bytes.
\<close>

definition thread_index_last :: "u32 \<Rightarrow> iranged" where
  "thread_index_last core_count = \<lparr>ri = core_count - 1\<rparr>"

definition t_info :: "nwm_world \<Rightarrow> nat \<Rightarrow> iranged \<Rightarrow> data_info" where
  "t_info W w t = ni_info (w_ninfo W w (unat (ri t)))"

definition data_buffer_filled :: "data_info \<Rightarrow> bool \<times> nat \<times> u32" where
  "data_buffer_filled di = (send_pos di < pos di \<or> 0 < flag di, pos di, flag di)"

definition set_send_pos :: "nat \<Rightarrow> iranged \<Rightarrow> nat \<Rightarrow> nwm_world \<Rightarrow> nwm_world" where
  "set_send_pos w t p W =
     (let i = unat (ri t); ni = w_ninfo W w i in
      W\<lparr>w_ninfo := (w_ninfo W)(w := (w_ninfo W w)(i := ni\<lparr>ni_info := (ni_info ni)\<lparr>send_pos := p\<rparr>\<rparr>))\<rparr>)"

text \<open>The loop over the following threads. The result is \<open>None\<close> when it gives up because a thread
  is not far enough; what it copied so far stays in the buffer and is copied again next time.\<close>

function gather :: "nat \<Rightarrow> iranged \<Rightarrow> nat \<Rightarrow> iranged \<Rightarrow> nat \<Rightarrow> nwm_world
    \<Rightarrow> (iranged \<times> nat \<times> nat \<times> bool) option \<times> nwm_world" where
  "gather data_buf lst w te tot W =
     (let di = t_info W w te; (filled, p, fl) = data_buffer_filled di in
      if \<not> filled then (None, W)
      else
        let data_buf_end = data_buf + tot;
            remaining = w_pds W - tot;
            sz = min (p - send_pos di) remaining;
            emptied = (send_pos di + sz = p);
            done = (emptied \<and> 0 < fl)
        in if sz < remaining \<and> \<not> done then (None, W)
           else
             let W = W\<lparr>w_mem := wr data_buf_end (rd (w_mem W) (send_pos di) sz) (w_mem W)\<rparr>;
                 tot = tot + sz
             in if done then
                  let te = next_wrapped_n 0 lst te in
                  if ri te = 0 then (Some (te, sz, tot, True), W)
                  else gather data_buf lst w te tot W
                else (Some (te, sz, tot, False), W))"
  by pat_completeness auto
termination
proof (relation "measure (\<lambda>(_, _, _, te, _). 2 ^ 32 - unat (ri te))", simp, goal_cases)
  case (1 data_buf lst w te tot W di fp filled pf p fl db rem sz em dn W' tot' te')
  have "te' = next_wrapped_n 0 lst te" using 1 by simp
  with \<open>ri te' \<noteq> 0\<close> have "ri te' = ri te + 1"
    by (auto simp: next_wrapped_n_def ranged_beg_def split: if_splits)
  with \<open>ri te' \<noteq> 0\<close> have "unat (ri te') = Suc (unat (ri te))"
    using unatSuc [of "ri te"] by (simp add: add.commute)
  then show ?case using unat_less_exp [of "ri te'"] by simp
qed

declare gather.simps [simp del]


definition nwm_done_release :: "nwm_net \<Rightarrow> nwm_net" where
  "nwm_done_release N =
     N\<lparr>n_need_syn := (n_need_syn N)(unat (ri (n_work N)) := True),
       n_work := next_wrapped 0 (work_count - 1) (n_work N)\<rparr>"

text \<open>Sending once it is known which threads contribute: header, output, positions.\<close>

definition send_gathered ::
  "iranged \<Rightarrow> u32 \<Rightarrow> u32 \<Rightarrow> bool \<Rightarrow> iranged \<times> nat \<times> nat \<times> bool \<Rightarrow> nwm_net \<Rightarrow> nwm_net" where
  "send_gathered t tick fl thread_done g N =
     (case g of (thread_end_index, end_size, total_size, thread_end_done) \<Rightarrow>
       let w = unat (ri (n_work N));
           data_buf = send_pos (t_info (n_w N) w t);
           lossless_buf = (if n_lossless N then data_buf - RP_LOSSLESS_HDR_SIZE else data_buf);
           packet_buf = lossless_buf - DATA_HDR_SIZE;
           hdr = n_hdrs N w;
           m = wr packet_buf hdr (n_mem N);
           m = (if thread_end_done \<and> ri thread_end_index = 0
                then m(packet_buf + 1 := m (packet_buf + 1) OR ucast fl) else m);
           N = N\<lparr>n_hdrs := (n_hdrs N)(w := hdr[3 := hdr ! 3 + 1])\<rparr>;
           m = (if n_lossless N then
                  let m = wr lossless_buf (n_lhdrs N w) m in
                  m(lossless_buf + 1 := m (lossless_buf + 1) OR (ucast (ri t) AND 0x3))
                else m);
           packet_size = total_size + DATA_HDR_SIZE + (if n_lossless N then RP_LOSSLESS_HDR_SIZE else 0);
           N = rp_output packet_buf packet_size tick (n_set_mem m N);
           N = (if \<not> thread_end_done
                then N\<lparr>n_w := set_send_pos w thread_end_index
                       (send_pos (t_info (n_w N) w thread_end_index) + end_size) (n_w N)\<rparr>
                else N)
       in if thread_done then
            let N = N\<lparr>n_thread := thread_end_index\<rparr>
            in if ri thread_end_index = 0 then nwm_done_release N else N
          else N)"

definition nwm_send_next_buffer ::
  "iranged \<Rightarrow> u32 \<Rightarrow> nat \<Rightarrow> u32 \<Rightarrow> nwm_net \<Rightarrow> bool \<times> nwm_net" where
  "nwm_send_next_buffer t tick p fl N =
     (let w = unat (ri (n_work N));
          lst = thread_index_last (n_cores N);
          data_buf = send_pos (t_info (n_w N) w t);
          sz = min (p - data_buf) (w_pds (n_w N));
          thread_emptied = (data_buf + sz = p);
          thread_done = (thread_emptied \<and> 0 < fl)
      in if sz < w_pds (n_w N) \<and> \<not> thread_done then (False, N)
         else
           let te = (if thread_done then next_wrapped_n 0 lst t else t)
           in if thread_done \<and> ri te \<noteq> 0 then
                case gather data_buf lst w te sz (n_w N) of
                  (None, W) \<Rightarrow> (False, N\<lparr>n_w := W\<rparr>)
                | (Some g, W) \<Rightarrow> (True, send_gathered t tick fl thread_done g (N\<lparr>n_w := W\<rparr>))
              else (True, send_gathered t tick fl thread_done (te, sz, sz, thread_done) N))"

text \<open>\<open>get_system_tick\<close> reads a script of clock values.\<close>

definition tick_now :: "nwm_net \<Rightarrow> u32 \<times> nwm_net" where
  "tick_now N = (case n_ticks N of [] \<Rightarrow> (0, N) | x # xs \<Rightarrow> (x, N\<lparr>n_ticks := xs\<rparr>))"

definition do_send_next_buffer :: "iranged \<Rightarrow> nat \<Rightarrow> u32 \<Rightarrow> nwm_net \<Rightarrow> bool \<times> nwm_net" where
  "do_send_next_buffer t p fl N =
     (let (curr_tick, N) = tick_now N;
          next_tick = n_next_tick N;
          tick_diff = next_tick - curr_tick
      in if 0 <s tick_diff then
           let (tick, N) = (if 0 < NWM_AGGRESSIVE_NEXT_TICK then (next_tick, N) else tick_now N)
           in nwm_send_next_buffer t tick p fl N
         else nwm_send_next_buffer t curr_tick p fl N)"

text \<open>Audio off; waiting for the frame to be started.\<close>

definition nwm_ready_acquire :: "iranged \<Rightarrow> nwm_net \<Rightarrow> bool \<times> nwm_net" where
  "nwm_ready_acquire w N =
     (if n_need_syn N (unat (ri w)) then
        case wait_syn (n_w N) of
          (False, W) \<Rightarrow> (False, N\<lparr>n_w := W\<rparr>)
        | (True, W) \<Rightarrow> (True, N\<lparr>n_w := W, n_need_syn := (n_need_syn N)(unat (ri w) := False)\<rparr>)
      else (True, N))"

text \<open>The sending loop, with fuel: every round sends a packet, so the number of packets left in the
  frame bounds the rounds.\<close>

fun send_loop :: "nat \<Rightarrow> iranged \<Rightarrow> iranged \<Rightarrow> nwm_net \<Rightarrow> bool option \<times> nwm_net" where
  "send_loop 0 work_index thread_index N = (None, N)"
| "send_loop (Suc fuel) work_index thread_index N =
     (case nwm_ready_acquire work_index N of
        (False, N) \<Rightarrow> (Some False, N)
      | (True, N) \<Rightarrow>
          (let (filled, p, fl) = data_buffer_filled (t_info (n_w N) (unat (ri work_index)) thread_index)
           in if \<not> filled then (Some False, N)
              else case do_send_next_buffer thread_index p fl N of
                     (False, N) \<Rightarrow> (Some False, N)
                   | (True, N) \<Rightarrow>
                       if work_index \<noteq> n_work N then (Some True, N)
                       else send_loop fuel work_index (n_thread N) N))"

definition send_next_buffer :: "nat \<Rightarrow> nwm_net \<Rightarrow> bool option \<times> nwm_net" where
  "send_next_buffer fuel N = send_loop fuel (n_work N) (n_thread N) N"

section \<open>What is left to send\<close>

definition t_rest :: "nwm_world \<Rightarrow> nat \<Rightarrow> nat \<Rightarrow> u8 list" where
  "t_rest W w i =
     (let di = ni_info (w_ninfo W w i) in rd (w_mem W) (send_pos di) (pos di - send_pos di))"

definition f_rest :: "nwm_world \<Rightarrow> nat \<Rightarrow> nat \<Rightarrow> nat \<Rightarrow> u8 list" where
  "f_rest W w i cc = concat (map (t_rest W w) [i ..< cc])"

lemma f_rest_step: "i < cc \<Longrightarrow> f_rest W w i cc = t_rest W w i @ f_rest W w (Suc i) cc"
  by (simp add: f_rest_def upt_conv_Cons)

lemma f_rest_end [simp]: "f_rest W w cc cc = []"
  by (simp add: f_rest_def)

text \<open>The unsent bytes of the threads from \<open>i\<close> on lie outside \<open>[lo, hi)\<close>.\<close>

definition clear_of :: "nat \<Rightarrow> nat \<Rightarrow> nwm_world \<Rightarrow> nat \<Rightarrow> nat \<Rightarrow> nat \<Rightarrow> bool" where
  "clear_of lo hi W w i cc \<longleftrightarrow>
     (\<forall>j. i \<le> j \<and> j < cc \<longrightarrow>
        (let di = ni_info (w_ninfo W w j) in send_pos di \<le> pos di \<and> (pos di \<le> lo \<or> hi \<le> send_pos di)))"

lemma t_rest_clear:
  assumes "clear_of lo hi W w i cc" "i \<le> j" "j < cc" "w_ninfo W' = w_ninfo W"
    and "\<And>x. x < lo \<or> hi \<le> x \<Longrightarrow> w_mem W' x = w_mem W x"
  shows "t_rest W' w j = t_rest W w j"
  unfolding t_rest_def Let_def assms(4)
  using assms(1-3) by (intro rd_cong assms(5)) (auto simp: clear_of_def Let_def)

lemma f_rest_clear:
  assumes "clear_of lo hi W w i cc" "w_ninfo W' = w_ninfo W"
    and "\<And>x. x < lo \<or> hi \<le> x \<Longrightarrow> w_mem W' x = w_mem W x" "i \<le> k"
  shows "f_rest W' w k cc = f_rest W w k cc"
  unfolding f_rest_def
  by (intro arg_cong [where f = concat] map_cong refl t_rest_clear [OF assms(1) _ _ assms(2)])
     (use assms in auto)


section \<open>Gathering\<close>

definition gather_post ::
  "nat \<Rightarrow> nat \<Rightarrow> nat \<Rightarrow> nat \<Rightarrow> nat \<Rightarrow> nwm_world
     \<Rightarrow> (iranged \<times> nat \<times> nat \<times> bool) option \<Rightarrow> nwm_world \<Rightarrow> bool" where
  "gather_post db w i cc tot W r W' \<longleftrightarrow>
     (\<exists>m. W' = W\<lparr>w_mem := m\<rparr> \<and> (\<forall>x. x < db + tot \<or> db + w_pds W \<le> x \<longrightarrow> m x = w_mem W x))
   \<and> (case r of
        None \<Rightarrow> True
      | Some (te', sz, tot', d) \<Rightarrow>
          tot \<le> tot' \<and> tot' \<le> w_pds W
        \<and> (if d then ri te' = 0 \<and> f_rest W w i cc = rd (w_mem W') (db + tot) (tot' - tot)
            else tot' = w_pds W \<and> i \<le> unat (ri te') \<and> unat (ri te') < cc
               \<and> sz \<le> length (t_rest W w (unat (ri te')))
               \<and> f_rest W w i cc = rd (w_mem W') (db + tot) (tot' - tot)
                   @ drop sz (t_rest W w (unat (ri te'))) @ f_rest W w (Suc (unat (ri te'))) cc))"

lemma length_t_rest: "length (t_rest W w i) = pos (ni_info (w_ninfo W w i)) - send_pos (ni_info (w_ninfo W w i))"
  by (simp add: t_rest_def Let_def)

lemma take_t_rest:
  "n \<le> length (t_rest W w i) \<Longrightarrow> take n (t_rest W w i) = rd (w_mem W) (send_pos (ni_info (w_ninfo W w i))) n"
  by (rule nth_equalityI) (auto simp: t_rest_def Let_def)

text \<open>One thread's contribution, copied to the end of what is already gathered.\<close>

lemma gather_copy:
  assumes c: "clear_of (db + tot) (db + w_pds W) W w i cc" and i: "i < cc"
    and sz: "sz = min (pos di - send_pos di) (w_pds W - tot)" and tot: "tot \<le> w_pds W"
    and di: "di = ni_info (w_ninfo W w i)"
  defines "W1 \<equiv> W\<lparr>w_mem := wr (db + tot) (rd (w_mem W) (send_pos di) sz) (w_mem W)\<rparr>"
  shows "rd (w_mem W1) (db + tot) sz = take sz (t_rest W w i)" "tot + sz \<le> w_pds W"
    "\<And>x. x < db + tot \<or> db + (tot + sz) \<le> x \<Longrightarrow> w_mem W1 x = w_mem W x"
    "\<And>q. i \<le> q \<Longrightarrow> f_rest W1 w q cc = f_rest W w q cc" "sz \<le> length (t_rest W w i)"
    "clear_of (db + (tot + sz)) (db + w_pds W1) W1 w (Suc i) cc" "t_rest W1 w j = t_rest W w j \<or> \<not> (i \<le> j \<and> j < cc)"
proof -
  show l: "sz \<le> length (t_rest W w i)" using sz di by (simp add: length_t_rest)
  show "tot + sz \<le> w_pds W" using sz tot by simp
  have "rd (wr (db + tot) (rd (w_mem W) (send_pos di) sz) (w_mem W)) (db + tot) (length (rd (w_mem W) (send_pos di) sz))
      = rd (w_mem W) (send_pos di) sz" by (rule rd_wr_same)
  then show "rd (w_mem W1) (db + tot) sz = take sz (t_rest W w i)"
    using take_t_rest [OF l] di by (simp add: W1_def)
  show m: "\<And>x. x < db + tot \<or> db + (tot + sz) \<le> x \<Longrightarrow> w_mem W1 x = w_mem W x"
    by (auto simp: W1_def mem_simps)
  have "\<And>x. x < db + tot \<or> db + w_pds W \<le> x \<Longrightarrow> w_mem W1 x = w_mem W x"
    using m sz tot by (auto simp: min_def split: if_splits)
  note mm = this
  have ninfo: "w_ninfo W1 = w_ninfo W" by (simp add: W1_def)
  show "\<And>q. i \<le> q \<Longrightarrow> f_rest W1 w q cc = f_rest W w q cc"
    by (rule f_rest_clear [OF c ninfo mm]) simp_all
  show "t_rest W1 w j = t_rest W w j \<or> \<not> (i \<le> j \<and> j < cc)"
    using t_rest_clear [OF c _ _ ninfo mm] by blast
  show "clear_of (db + (tot + sz)) (db + w_pds W1) W1 w (Suc i) cc"
    using c sz tot by (auto simp: clear_of_def W1_def Let_def) (meson Suc_leD add_leD1 le_trans le_add2 le_add1 add_le_mono order_refl)
qed

lemma next_thread:
  assumes "unat (ri te) < cc" "cc = unat cores" "1 \<le> cc" "te' = next_wrapped_n 0 (thread_index_last cores) te"
  shows "unat (ri te) = cc - 1 \<and> ri te' = 0 \<or> unat (ri te) < cc - 1 \<and> unat (ri te') = Suc (unat (ri te))"
proof -
  have l: "unat (cores - 1) = cc - 1" using assms(2,3) by (simp add: unat_sub_le)
  show ?thesis
  proof (cases "ri te = cores - 1")
    case True
    then show ?thesis using assms(4) l by (simp add: next_wrapped_n_def iranged_eq_iff thread_index_last_def ranged_beg_def)
  next
    case False
    then have ne: "unat (ri te) < cc - 1"
      using l assms(1) by (metis Suc_pred' assms(3) less_Suc_eq less_le_trans less_one linorder_not_less word_unat_eq_iff)
    then have "unat (ri te + 1) = Suc (unat (ri te))"
      using assms(2) unat_less_exp [of cores] by (subst unat_add_no_wrap) auto
    then show ?thesis using False ne assms(4)
      by (simp add: next_wrapped_n_def iranged_eq_iff thread_index_last_def)
  qed
qed

lemma gather_spec:
  assumes "gather db (thread_index_last cores) w te tot W = (r, W')"
    and "unat (ri te) < cc" "cc = unat cores" "tot \<le> w_pds W"
    and "clear_of (db + tot) (db + w_pds W) W w (unat (ri te)) cc"
  shows "gather_post db w (unat (ri te)) cc tot W r W'"
  using assms
proof (induction "cc - unat (ri te)" arbitrary: te tot W rule: less_induct)
  case less
  note run = less.prems(1) and i = less.prems(2) and cores = less.prems(3) and tot = less.prems(4)
    and clr = less.prems(5)
  let ?i = "unat (ri te)"
  let ?di = "t_info W w te"
  define sz where "sz = min (pos ?di - send_pos ?di) (w_pds W - tot)"
  define dn where "dn \<longleftrightarrow> send_pos ?di + sz = pos ?di \<and> 0 < flag ?di"
  define W1 where "W1 = W\<lparr>w_mem := wr (db + tot) (rd (w_mem W) (send_pos ?di) sz) (w_mem W)\<rparr>"
  define te' where "te' = next_wrapped_n 0 (thread_index_last cores) te"
  have c: "1 \<le> cc" using i by simp
  show ?case
  proof (cases "data_buffer_filled ?di = (False, pos ?di, flag ?di) \<or> sz < w_pds W - tot \<and> \<not> dn")
    case True
    then have "r = None \<and> W' = W"
      using run by (subst (asm) gather.simps)
        (auto simp: data_buffer_filled_def Let_def sz_def dn_def split: if_splits)
    then show ?thesis by (auto simp: gather_post_def intro!: exI [of _ "w_mem W"])
  next
    case F: False
    then have filled: "send_pos ?di < pos ?di \<or> 0 < flag ?di"
      and enough: "\<not> (sz < w_pds W - tot \<and> \<not> dn)" by (auto simp: data_buffer_filled_def)
    have g: "gather db (thread_index_last cores) w te tot W =
        (if dn then if ri te' = 0 then (Some (te', sz, tot + sz, True), W1)
                    else gather db (thread_index_last cores) w te' (tot + sz) W1
         else (Some (te, sz, tot + sz, False), W1))"
      using filled enough
      by (subst gather.simps) (simp add: data_buffer_filled_def Let_def sz_def dn_def W1_def te'_def)
    have di: "?di = ni_info (w_ninfo W w ?i)" by (simp add: t_info_def)
    note k = gather_copy [OF clr i sz_def tot di, folded W1_def]
    have pre: "rd m (db + tot) (tot' - tot) = take sz (t_rest W w ?i) @ rd m (db + (tot + sz)) (tot' - (tot + sz))"
      if "tot + sz \<le> tot'" "\<And>x. x < db + (tot + sz) \<Longrightarrow> m x = w_mem W1 x" for m tot'
    proof -
      have "rd m (db + tot) (tot' - tot) = rd m (db + tot) sz @ rd m (db + tot + sz) (tot' - (tot + sz))"
        using that(1) rd_add [of m "db + tot" sz "tot' - (tot + sz)"] by simp
      moreover have "rd m (db + tot) sz = rd (w_mem W1) (db + tot) sz"
        using that(2) by (intro rd_cong) auto
      ultimately show ?thesis using k(1) by (simp add: add.assoc)
    qed
    have fr: "f_rest W w ?i cc = take sz (t_rest W w ?i) @ drop sz (t_rest W w ?i) @ f_rest W w (Suc ?i) cc"
      using f_rest_step [OF i] by simp
    have W1: "W1 = W\<lparr>w_mem := w_mem W1\<rparr>" "w_pds W1 = w_pds W" by (simp_all add: W1_def)
    consider "\<not> dn" | "dn" "ri te' = 0" | "dn" "ri te' \<noteq> 0" by auto
    then show ?thesis
    proof cases
      case 1
      then have "tot + sz = w_pds W" using enough k(2) by simp
      moreover have "rd (w_mem W1) (db + tot) (tot + sz - tot) = take sz (t_rest W w ?i)" using k(1) by simp
      ultimately show ?thesis
        using g 1 fr k W1 run i
        by (auto simp: gather_post_def intro!: exI [of _ "w_mem W1"])
    next
      case 2
      then have all: "take sz (t_rest W w ?i) = t_rest W w ?i"
        using di unfolding dn_def by (simp add: length_t_rest) linarith
      have last: "f_rest W w (Suc ?i) cc = []"
        using next_thread [OF i cores c te'_def] 2 by (auto simp: f_rest_def)
      have "rd (w_mem W1) (db + tot) (tot + sz - tot) = take sz (t_rest W w ?i)" using k(1) by simp
      then show ?thesis
        using g 2 fr all last k W1 run
        by (auto simp: gather_post_def intro!: exI [of _ "w_mem W1"])
    next
      case 3
      then have te': "unat (ri te') = Suc ?i" "Suc ?i < cc"
        using next_thread [OF i cores c te'_def] by auto
      have "gather db (thread_index_last cores) w te' (tot + sz) W1 = (r, W')"
        using run g 3 by simp
      from less.hyps [OF _ this] te' cores k(2,6) W1(2) i
      have ih: "gather_post db w (Suc ?i) cc (tot + sz) W1 r W'" by simp
      then obtain m where m: "W' = W1\<lparr>w_mem := m\<rparr>"
        "\<And>x. x < db + (tot + sz) \<or> db + w_pds W \<le> x \<Longrightarrow> m x = w_mem W1 x"
        using W1(2) by (auto simp: gather_post_def)
      have frame: "\<exists>m. W' = W\<lparr>w_mem := m\<rparr> \<and> (\<forall>x. x < db + tot \<or> db + w_pds W \<le> x \<longrightarrow> m x = w_mem W x)"
      proof (intro exI conjI allI impI)
        show "W' = W\<lparr>w_mem := m\<rparr>" using m(1) by (simp add: W1_def)
        fix x assume x: "x < db + tot \<or> db + w_pds W \<le> x"
        then have "m x = w_mem W1 x" using m(2) by auto
        also have "\<dots> = w_mem W x" using x k(2) by (intro k(3)) auto
        finally show "m x = w_mem W x" .
      qed
      show ?thesis
      proof (cases r)
        case None
        then show ?thesis using frame by (simp add: gather_post_def)
      next
        case (Some a)
        obtain te2 sz2 tot2 d where a: "a = (te2, sz2, tot2, d)" by (cases a)
        have t2: "tot + sz \<le> tot2" using ih by (simp add: gather_post_def Some a)
        have r: "rd (w_mem W') (db + tot) (tot2 - tot)
            = take sz (t_rest W w ?i) @ rd (w_mem W') (db + (tot + sz)) (tot2 - (tot + sz))"
          using t2 m by (intro pre) auto
        have all: "drop sz (t_rest W w ?i) = []" "take sz (t_rest W w ?i) = t_rest W w ?i"
          using 3(1) di unfolding dn_def by (simp_all add: length_t_rest) linarith+
        have rest: "t_rest W1 w (unat (ri te2)) = t_rest W w (unat (ri te2))" if "\<not> d"
          using k(7) [of "unat (ri te2)"] ih that by (auto simp: gather_post_def Some a)
        have rest': "f_rest W1 w (Suc (unat (ri te2))) cc = f_rest W w (Suc (unat (ri te2))) cc" if "\<not> d"
          using k(4) ih that by (auto simp: gather_post_def Some a)
        show ?thesis
          using ih frame r all fr k(4) rest rest' W1(2) t2
          by (cases d) (auto simp: gather_post_def Some a)
      qed
    qed
  qed
qed


section \<open>One packet\<close>

text \<open>The packet header of \<open>h\<close> bytes goes in front of the data.\<close>

definition hdr_len :: "nwm_net \<Rightarrow> nat" where
  "hdr_len N = DATA_HDR_SIZE + (if n_lossless N then RP_LOSSLESS_HDR_SIZE else 0)"

lemma nwm_output_frame:
  assumes "length (n_hdr N) = 50" "n + 50 < 2 ^ 16"
  shows "\<exists>m p. nwm_output b n N = (n_set_mem m N)\<lparr>n_sent := n_sent N @ [p]\<rparr>
       \<and> (\<forall>x. x < b \<or> b + 50 \<le> x \<longrightarrow> m x = n_mem N x)
       \<and> length p = n + 50 \<and> drop 50 p = rd (n_mem N) (b + 50) n"
proof -
  let ?m = "wr b (n_hdr N) (n_mem N)"
  obtain nsz m' where i: "init_udp_packet (n_port N) b (of_nat n) ?m = (nsz, m')" by fastforce
  obtain p where p: "n_sent (nwm_output b n N) = n_sent N @ [p]" "length p = n + 50"
    "drop 50 p = rd (n_mem N) (b + 50) n"
    using nwm_output_wellformed_aux [OF assms] by blast
  have "\<forall>x. x < b \<or> b + 50 \<le> x \<longrightarrow> m' x = n_mem N x"
    using udp_fields(7) [OF i] assms(1) by (auto simp: mem_simps)
  moreover have "nwm_output b n N = (n_set_mem m' N)\<lparr>n_sent := n_sent N @ [p]\<rparr>"
    using p(1) by (simp add: nwm_output_def i Let_def n_set_mem_def)
  ultimately show ?thesis using p by blast
qed


lemma take_rd: "n \<le> k \<Longrightarrow> take n (rd m a k) = rd m a n"
  by (rule nth_equalityI) auto

lemma rp_output_frame:
  assumes "length (n_hdr N) = 50" "n + 50 < 2 ^ 16" "50 \<le> pb"
  shows "\<exists>m p tk. rp_output pb n tick N = (n_set_mem m N)\<lparr>n_sent := n_sent N @ [p], n_next_tick := tk\<rparr>
       \<and> (\<forall>x. x < pb - 50 \<or> pb \<le> x \<longrightarrow> m x = n_mem N x)
       \<and> length p = n + 50 \<and> drop 50 p = rd (n_mem N) pb n"
proof -
  obtain m p where o: "nwm_output (pb - 50) n N = (n_set_mem m N)\<lparr>n_sent := n_sent N @ [p]\<rparr>"
    "\<forall>x. x < pb - 50 \<or> pb - 50 + 50 \<le> x \<longrightarrow> m x = n_mem N x" "length p = n + 50"
    "drop 50 p = rd (n_mem N) (pb - 50 + 50) n"
    using nwm_output_frame [OF assms(1,2), of "pb - 50"] by blast
  let ?tk = "tick + (if 0 < NWM_PROPORTIONAL_MIN_INTERVAL
             then n_interval N * of_nat n div of_nat PACKET_SIZE else n_interval N)"
  have "rp_output pb n tick N = (n_set_mem m N)\<lparr>n_sent := n_sent N @ [p], n_next_tick := ?tk\<rparr>"
    by (simp add: rp_output_def NWM_HDR_SIZE_def o(1) n_set_mem_def Let_def)
  with o assms(3) show ?thesis by (intro exI [of _ m] exI [of _ p] exI [of _ ?tk]) simp
qed

text \<open>The headers in memory in front of the data.\<close>

definition head_mem :: "iranged \<Rightarrow> u32 \<Rightarrow> bool \<Rightarrow> nat \<Rightarrow> nwm_net \<Rightarrow> mem" where
  "head_mem t fl fin data_buf N =
     (let w = unat (ri (n_work N));
          lossless_buf = (if n_lossless N then data_buf - RP_LOSSLESS_HDR_SIZE else data_buf);
          packet_buf = lossless_buf - DATA_HDR_SIZE;
          m = wr packet_buf (n_hdrs N w) (n_mem N);
          m = (if fin then m(packet_buf + 1 := m (packet_buf + 1) OR ucast fl) else m)
      in if n_lossless N then
           let m = wr lossless_buf (n_lhdrs N w) m in
           m(lossless_buf + 1 := m (lossless_buf + 1) OR (ucast (ri t) AND 0x3))
         else m)"

definition hdrs_ok :: "nwm_net \<Rightarrow> bool" where
  "hdrs_ok N \<longleftrightarrow> length (n_hdr N) = 50 \<and> (\<forall>w. length (n_hdrs N w) = 4 \<and> length (n_lhdrs N w) = 2)
     \<and> w_pds (n_w N) + 56 < 2 ^ 16"

lemma head_mem_frame:
  assumes "hdrs_ok N" "hdr_len N \<le> d"
  shows "x < d - hdr_len N \<or> d \<le> x \<Longrightarrow> head_mem t fl fin d N x = n_mem N x"
    "rd (head_mem t fl fin d N) (d - hdr_len N) 4 =
       (let h = n_hdrs N (unat (ri (n_work N))) in if fin then h[1 := h ! 1 OR ucast fl] else h)"
proof -
  let ?h = "n_hdrs N (unat (ri (n_work N)))"
  have len: "length ?h = 4" "length (n_lhdrs N (unat (ri (n_work N)))) = 2"
    using assms(1) by (simp_all add: hdrs_ok_def)
  obtain a b c e where h: "?h = [a, b, c, e]"
    using len(1) by (auto simp: length_Suc_conv numeral_eq_Suc)
  obtain f g where l: "n_lhdrs N (unat (ri (n_work N))) = [f, g]"
    using len(2) by (auto simp: length_Suc_conv numeral_eq_Suc)
  have rd4: "rd m y 4 = [m y, m (y + 1), m (y + 2), m (y + 3)]" for m y
    by (simp add: rd_def upt_rec numeral_3_eq_3)
  note defs = head_mem_def Let_def hdr_len_def DATA_HDR_SIZE_def RP_LOSSLESS_HDR_SIZE_def h l
  show "x < d - hdr_len N \<or> d \<le> x \<Longrightarrow> head_mem t fl fin d N x = n_mem N x"
    using assms(2) by (cases "n_lossless N") (auto simp: defs)
  show "rd (head_mem t fl fin d N) (d - hdr_len N) 4 =
       (let h = ?h in if fin then h[1 := h ! 1 OR ucast fl] else h)"
    unfolding rd4 using assms(2) by (cases "n_lossless N"; cases fin) (auto simp: defs)
qed

lemma send_gathered_spec:
  assumes ok: "hdrs_ok N" and tot: "tot \<le> w_pds (n_w N)"
    and d: "d = send_pos (t_info (n_w N) (unat (ri (n_work N))) t)" "50 + hdr_len N \<le> d"
    and N': "N' = send_gathered t tick fl tdone (te, sz, tot, edone) N"
  defines "w \<equiv> unat (ri (n_work N))"
  shows "\<exists>m p. n_sent N' = n_sent N @ [p] \<and> drop (50 + hdr_len N) p = rd (n_mem N) d tot
     \<and> length p = 50 + hdr_len N + tot
     \<and> take 4 (drop 50 p) = (let h = n_hdrs N w in if edone \<and> ri te = 0 then h[1 := h ! 1 OR ucast fl] else h)
     \<and> (\<forall>x. x < d - hdr_len N - 50 \<or> d \<le> x \<longrightarrow> m x = n_mem N x)
     \<and> n_w N' = (let W = (n_w N)\<lparr>w_mem := m\<rparr> in
                 if edone then W else set_send_pos w te (send_pos (t_info (n_w N) w te) + sz) W)
     \<and> n_thread N' = (if tdone then te else n_thread N)
     \<and> n_work N' = (if tdone \<and> ri te = 0 then next_wrapped 0 (work_count - 1) (n_work N) else n_work N)
     \<and> n_hdrs N' = (n_hdrs N)(w := (n_hdrs N w)[3 := n_hdrs N w ! 3 + 1])
     \<and> n_hdr N' = n_hdr N \<and> n_lhdrs N' = n_lhdrs N \<and> n_lossless N' = n_lossless N \<and> n_cores N' = n_cores N"
proof -
  let ?pb = "d - hdr_len N"
  let ?m0 = "head_mem t fl (edone \<and> ri te = 0) d N"
  let ?N0 = "n_set_mem ?m0 (N\<lparr>n_hdrs := (n_hdrs N)(w := (n_hdrs N w)[3 := n_hdrs N w ! 3 + 1])\<rparr>)"
  let ?n = "tot + hdr_len N"
  have hl: "hdr_len N \<le> 6" by (simp add: hdr_len_def nwm_consts)
  have "length (n_hdr ?N0) = 50" "?n + 50 < 2 ^ 16" "50 \<le> ?pb"
    using ok tot d(2) hl by (simp_all add: hdrs_ok_def n_set_mem_def)
  from rp_output_frame [OF this, of tick] obtain m p tk where
    o: "rp_output ?pb ?n tick ?N0 = (n_set_mem m ?N0)\<lparr>n_sent := n_sent ?N0 @ [p], n_next_tick := tk\<rparr>"
    "\<forall>x. x < ?pb - 50 \<or> ?pb \<le> x \<longrightarrow> m x = n_mem ?N0 x" "length p = ?n + 50"
    "drop 50 p = rd (n_mem ?N0) ?pb ?n" by blast
  have m0: "n_mem ?N0 = ?m0" by (simp add: n_set_mem_def n_mem_def)
  have hd: "?pb + hdr_len N = d" "hdr_len N \<le> d" using d(2) by simp_all
  note fr = head_mem_frame [OF ok hd(2)]
  have "drop (50 + hdr_len N) p = drop (hdr_len N) (drop 50 p)" by (simp add: add.commute)
  also have "drop 50 p = rd ?m0 ?pb (hdr_len N) @ rd ?m0 d tot"
    using rd_add [of ?m0 ?pb "hdr_len N" tot] unfolding o(4) m0 hd(1) by (simp only: add.commute)
  also have "drop (hdr_len N) (rd ?m0 ?pb (hdr_len N) @ rd ?m0 d tot) = rd ?m0 d tot" by simp
  also have "\<dots> = rd (n_mem N) d tot" by (rule rd_cong) (simp add: fr(1))
  finally have payload: "drop (50 + hdr_len N) p = rd (n_mem N) d tot" .
  have "take 4 (drop 50 p) = rd ?m0 ?pb 4"
    unfolding o(4) m0 by (rule take_rd) (simp add: hdr_len_def nwm_consts)
  then have head: "take 4 (drop 50 p) = (let h = n_hdrs N w in if edone \<and> ri te = 0 then h[1 := h ! 1 OR ucast fl] else h)"
    using fr(2) by (simp add: w_def)
  have mm: "\<forall>x. x < ?pb - 50 \<or> d \<le> x \<longrightarrow> m x = n_mem N x"
  proof (intro allI impI)
    fix x assume x: "x < ?pb - 50 \<or> d \<le> x"
    then have "x < ?pb - 50 \<or> ?pb \<le> x" by auto
    then have "m x = ?m0 x" using o(2) unfolding m0 by blast
    also have "\<dots> = n_mem N x" by (rule fr(1)) (use x in auto)
    finally show "m x = n_mem N x" .
  qed
  have pb: "(if n_lossless N then d - RP_LOSSLESS_HDR_SIZE else d) - DATA_HDR_SIZE = ?pb"
    "tot + DATA_HDR_SIZE + (if n_lossless N then RP_LOSSLESS_HDR_SIZE else 0) = ?n"
    by (simp_all add: hdr_len_def add.commute)
  have hdrs_upd: "n_lossless (N\<lparr>n_hdrs := f\<rparr>) = n_lossless N" "n_lhdrs (N\<lparr>n_hdrs := f\<rparr>) = n_lhdrs N" for f
    by simp_all
  have run: "N' = (let N = rp_output ?pb ?n tick ?N0;
                     N = (if \<not> edone
                          then N\<lparr>n_w := set_send_pos w te (send_pos (t_info (n_w N) w te) + sz) (n_w N)\<rparr>
                          else N)
                 in if tdone then
                      let N = N\<lparr>n_thread := te\<rparr> in if ri te = 0 then nwm_done_release N else N
                    else N)"
    unfolding N' send_gathered_def prod.case Let_def d(1) [symmetric] hdrs_upd pb w_def head_mem_def ..
  have o1: "rp_output ?pb ?n tick ?N0 = N\<lparr>n_w := (n_w N)\<lparr>w_mem := m\<rparr>,
      n_hdrs := (n_hdrs N)(w := (n_hdrs N w)[3 := n_hdrs N w ! 3 + 1]),
      n_sent := n_sent N @ [p], n_next_tick := tk\<rparr>"
    unfolding o(1) by (simp add: n_set_mem_def)
  show ?thesis
    unfolding run o1
    using payload head mm o(3)
    by (intro exI [of _ m] exI [of _ p]) (simp add: Let_def nwm_done_release_def t_info_def)
qed


lemma drop_rd: "drop n (rd m a k) = rd m (a + n) (k - n)"
  by (rule nth_equalityI) (auto simp: add.assoc)

lemma rest_after:
  assumes c: "clear_of lo hi W w i cc" and i: "i = unat (ri te)" "i < cc"
    and m: "\<And>x. x < lo \<or> hi \<le> x \<Longrightarrow> m x = w_mem W x"
    and sz: "sz \<le> length (t_rest W w i)"
  shows "f_rest (set_send_pos w te (send_pos (t_info W w te) + sz) (W\<lparr>w_mem := m\<rparr>)) w i cc
       = drop sz (t_rest W w i) @ f_rest W w (Suc i) cc"
proof -
  let ?W = "set_send_pos w te (send_pos (t_info W w te) + sz) (W\<lparr>w_mem := m\<rparr>)"
  have W: "w_mem ?W = m" by (simp add: set_send_pos_def Let_def)
  have o: "w_ninfo ?W w j = w_ninfo W w j" if "j \<noteq> i" for j
    using that i by (simp add: set_send_pos_def Let_def)
  have "t_rest ?W w j = t_rest W w j" if "Suc i \<le> j" "j < cc" for j
    using t_rest_clear [OF c, of j "W\<lparr>w_mem := m\<rparr>"] m that o [of j]
    by (auto simp: t_rest_def W)
  then have f: "f_rest ?W w (Suc i) cc = f_rest W w (Suc i) cc"
    unfolding f_rest_def by (intro arg_cong [where f = concat] map_cong refl) simp
  have "t_rest ?W w i = drop sz (t_rest (W\<lparr>w_mem := m\<rparr>) w i)"
    using i(1) by (simp add: t_rest_def Let_def set_send_pos_def t_info_def drop_rd)
  also have "t_rest (W\<lparr>w_mem := m\<rparr>) w i = t_rest W w i"
    using t_rest_clear [OF c, of i "W\<lparr>w_mem := m\<rparr>"] m i(2) by simp
  finally show ?thesis using f f_rest_step [OF i(2), of ?W w] by simp
qed

definition sent_step :: "nwm_net \<Rightarrow> nat \<Rightarrow> u32 \<Rightarrow> nwm_net \<Rightarrow> bool" where
  "sent_step N i fl N' \<longleftrightarrow>
     (let w = unat (ri (n_work N)); cc = unat (n_cores N); h = n_hdrs N w in
      \<exists>p q fin. n_sent N' = n_sent N @ [p] \<and> drop (50 + hdr_len N) p = q
        \<and> length p = 50 + hdr_len N + length q
        \<and> take 4 (drop 50 p) = (if fin then h[1 := h ! 1 OR ucast fl] else h)
        \<and> n_hdrs N' = (n_hdrs N)(w := h[3 := h ! 3 + 1])
        \<and> (if fin then f_rest (n_w N) w i cc = q \<and> ri (n_thread N') = 0
                       \<and> n_work N' = next_wrapped 0 (work_count - 1) (n_work N)
            else length q = w_pds (n_w N) \<and> unat (ri (n_thread N')) < cc \<and> n_work N' = n_work N
               \<and> f_rest (n_w N) w i cc = q @ f_rest (n_w N') w (unat (ri (n_thread N'))) cc))"

lemma clear_of_mono:
  "clear_of lo hi W w i cc \<Longrightarrow> lo \<le> lo' \<Longrightarrow> hi' \<le> hi \<Longrightarrow> i \<le> i' \<Longrightarrow> clear_of lo' hi' W w i' cc"
  unfolding clear_of_def Let_def by (meson le_trans)

lemma send_unfinished:
  assumes ok: "hdrs_ok N" and i: "i = unat (ri te)" "i < cc" "cc = unat (n_cores N)"
    and d: "d = send_pos (t_info (n_w N) w t)" "50 + hdr_len N \<le> d" "w = unat (ri (n_work N))"
    and sz: "sz \<le> length (t_rest (n_w N) w i)" and tot: "tot = w_pds (n_w N)"
    and c: "clear_of (d - hdr_len N - 50) d (n_w N) w i cc"
    and rest: "f0 = rd (n_mem N) d tot @ drop sz (t_rest (n_w N) w i) @ f_rest (n_w N) w (Suc i) cc"
    and th: "tdone \<or> te = n_thread N" "tdone \<Longrightarrow> ri te \<noteq> 0"
    and N': "N' = send_gathered t tick fl tdone (te, sz, tot, False) N"
  shows "\<exists>p q. n_sent N' = n_sent N @ [p] \<and> drop (50 + hdr_len N) p = q
        \<and> length p = 50 + hdr_len N + length q \<and> take 4 (drop 50 p) = n_hdrs N w
        \<and> n_hdrs N' = (n_hdrs N)(w := (n_hdrs N w)[3 := n_hdrs N w ! 3 + 1])
        \<and> length q = w_pds (n_w N) \<and> unat (ri (n_thread N')) < cc \<and> n_work N' = n_work N
        \<and> f0 = q @ f_rest (n_w N') w (unat (ri (n_thread N'))) cc"
proof -
  have t: "tot \<le> w_pds (n_w N)" using tot by simp
  obtain m p where s: "n_sent N' = n_sent N @ [p]" "drop (50 + hdr_len N) p = rd (n_mem N) d tot"
    "length p = 50 + hdr_len N + tot" "take 4 (drop 50 p) = n_hdrs N w"
    "\<forall>x. x < d - hdr_len N - 50 \<or> d \<le> x \<longrightarrow> m x = n_mem N x"
    "n_w N' = set_send_pos w te (send_pos (t_info (n_w N) w te) + sz) ((n_w N)\<lparr>w_mem := m\<rparr>)"
    "n_thread N' = (if tdone then te else n_thread N)"
    "n_work N' = (if tdone \<and> ri te = 0 then next_wrapped 0 (work_count - 1) (n_work N) else n_work N)"
    "n_hdrs N' = (n_hdrs N)(w := (n_hdrs N w)[3 := n_hdrs N w ! 3 + 1])"
    using send_gathered_spec [OF ok t d(1) [unfolded d(3)] d(2) N'] unfolding d(3) Let_def
    by (simp only: simp_thms if_False) blast
  have th': "n_thread N' = te" "n_work N' = n_work N" using s(7,8) th by auto
  have "f_rest (n_w N') w i cc = drop sz (t_rest (n_w N) w i) @ f_rest (n_w N) w (Suc i) cc"
    unfolding s(6) by (rule rest_after [OF c i(1,2) _ sz]) (use s(5) in \<open>auto simp: n_mem_def\<close>)
  then have "f0 = rd (n_mem N) d tot @ f_rest (n_w N') w (unat (ri (n_thread N'))) cc"
    using rest th'(1) i(1) by simp
  then show ?thesis using s(1-4,9) th' i tot by (intro exI [of _ p] exI [of _ "rd (n_mem N) d tot"]) simp
qed

text \<open>The result of \<open>send_gathered\<close> for a frame that ends in this packet.\<close>

lemma send_finished:
  assumes ok: "hdrs_ok N" and d: "d = send_pos (t_info (n_w N) w t)" "50 + hdr_len N \<le> d" "w = unat (ri (n_work N))"
    and te: "ri te = 0" and tot: "tot \<le> w_pds (n_w N)"
    and N': "N' = send_gathered t tick fl True (te, sz, tot, True) N"
  shows "\<exists>p q. n_sent N' = n_sent N @ [p] \<and> drop (50 + hdr_len N) p = q \<and> q = rd (n_mem N) d tot
        \<and> length p = 50 + hdr_len N + length q
        \<and> take 4 (drop 50 p) = (n_hdrs N w)[1 := n_hdrs N w ! 1 OR ucast fl]
        \<and> n_hdrs N' = (n_hdrs N)(w := (n_hdrs N w)[3 := n_hdrs N w ! 3 + 1])
        \<and> ri (n_thread N') = 0 \<and> n_work N' = next_wrapped 0 (work_count - 1) (n_work N)"
proof -
  obtain m p where "n_sent N' = n_sent N @ [p]" "drop (50 + hdr_len N) p = rd (n_mem N) d tot"
    "length p = 50 + hdr_len N + tot" "take 4 (drop 50 p) = (n_hdrs N w)[1 := n_hdrs N w ! 1 OR ucast fl]"
    "n_thread N' = te" "n_work N' = next_wrapped 0 (work_count - 1) (n_work N)"
    "n_hdrs N' = (n_hdrs N)(w := (n_hdrs N w)[3 := n_hdrs N w ! 3 + 1])"
    using send_gathered_spec [OF ok tot d(1) [unfolded d(3)] d(2) N'] unfolding d(3) Let_def
    by (simp only: simp_thms te if_True) blast
  then show ?thesis using te by (intro exI [of _ p] exI [of _ "rd (n_mem N) d tot"]) simp
qed

lemma sent_step_finI:
  assumes "\<exists>p q. n_sent N' = n_sent N @ [p] \<and> drop (50 + hdr_len N) p = q \<and> q = f_rest (n_w N) w i cc
        \<and> length p = 50 + hdr_len N + length q
        \<and> take 4 (drop 50 p) = (n_hdrs N w)[1 := n_hdrs N w ! 1 OR ucast fl]
        \<and> n_hdrs N' = (n_hdrs N)(w := (n_hdrs N w)[3 := n_hdrs N w ! 3 + 1])
        \<and> ri (n_thread N') = 0 \<and> n_work N' = next_wrapped 0 (work_count - 1) (n_work N)"
    and "w = unat (ri (n_work N))" "cc = unat (n_cores N)"
  shows "sent_step N i fl N'"
proof -
  obtain p q where pq: "n_sent N' = n_sent N @ [p]" "drop (50 + hdr_len N) p = q"
    "length p = 50 + hdr_len N + length q" "take 4 (drop 50 p) = (n_hdrs N w)[1 := n_hdrs N w ! 1 OR ucast fl]"
    "n_hdrs N' = (n_hdrs N)(w := (n_hdrs N w)[3 := n_hdrs N w ! 3 + 1])"
    "ri (n_thread N') = 0" "n_work N' = next_wrapped 0 (work_count - 1) (n_work N)" "f_rest (n_w N) w i cc = q"
    using assms(1) by (elim exE conjE) (rule that, (assumption | rule sym)+)
  show ?thesis
    unfolding sent_step_def Let_def assms(2,3) [symmetric]
    by (rule exI [of _ p], rule exI [of _ q], rule exI [of _ True]) (simp only: pq if_True simp_thms)
qed

lemma sent_step_moreI:
  assumes "\<exists>p q. n_sent N' = n_sent N @ [p] \<and> drop (50 + hdr_len N) p = q
        \<and> length p = 50 + hdr_len N + length q \<and> take 4 (drop 50 p) = n_hdrs N w
        \<and> n_hdrs N' = (n_hdrs N)(w := (n_hdrs N w)[3 := n_hdrs N w ! 3 + 1])
        \<and> length q = w_pds (n_w N) \<and> unat (ri (n_thread N')) < cc \<and> n_work N' = n_work N
        \<and> f_rest (n_w N) w i cc = q @ f_rest (n_w N') w (unat (ri (n_thread N'))) cc"
    and "w = unat (ri (n_work N))" "cc = unat (n_cores N)"
  shows "sent_step N i fl N'"
proof -
  obtain p q where pq: "n_sent N' = n_sent N @ [p]" "drop (50 + hdr_len N) p = q"
    "length p = 50 + hdr_len N + length q" "take 4 (drop 50 p) = n_hdrs N w"
    "n_hdrs N' = (n_hdrs N)(w := (n_hdrs N w)[3 := n_hdrs N w ! 3 + 1])"
    "length q = w_pds (n_w N)" "unat (ri (n_thread N')) < cc" "n_work N' = n_work N"
    "f_rest (n_w N) w i cc = q @ f_rest (n_w N') w (unat (ri (n_thread N'))) cc"
    using assms(1) by (elim exE conjE) (rule that, (assumption | rule sym)+)
  show ?thesis
    unfolding sent_step_def Let_def assms(2,3) [symmetric]
    by (rule exI [of _ p], rule exI [of _ q], rule exI [of _ False]) (simp only: pq if_False simp_thms)
qed

lemma nwm_send_step:
  assumes ok: "hdrs_ok N" and t: "t = n_thread N" "i = unat (ri t)" "i < cc" "cc = unat (n_cores N)"
    and d: "d = send_pos (t_info (n_w N) w t)" "50 + hdr_len N \<le> d" "w = unat (ri (n_work N))"
    and c: "clear_of (d - hdr_len N - 50) (d + w_pds (n_w N)) (n_w N) w (Suc i) cc"
    and di: "data_buffer_filled (t_info (n_w N) w t) = (filled, p, fl)" "d \<le> p"
    and run: "nwm_send_next_buffer t tick p fl N = (True, N')"
  shows "sent_step N i fl N'"
proof -
  let ?W = "n_w N"
  let ?te = "next_wrapped_n 0 (thread_index_last (n_cores N)) t"
  have ps: "p = pos (ni_info (w_ninfo ?W w i))" "d = send_pos (ni_info (w_ninfo ?W w i))"
    using di d(1) t(2) by (simp_all add: data_buffer_filled_def t_info_def)
  define sz where "sz = min (p - d) (w_pds ?W)"
  define dn where "dn \<longleftrightarrow> d + sz = p \<and> 0 < fl"
  have szl: "sz \<le> length (t_rest ?W w i)" "sz \<le> w_pds ?W" by (simp_all add: sz_def length_t_rest ps)
  have tk: "take sz (t_rest ?W w i) = rd (n_mem N) d sz"
    using take_t_rest [OF szl(1)] ps(2) by (simp add: n_mem_def)
  have fr: "f_rest ?W w i cc = take sz (t_rest ?W w i) @ drop sz (t_rest ?W w i) @ f_rest ?W w (Suc i) cc"
    using f_rest_step [OF t(3)] by simp
  have own: "clear_of (d - hdr_len N - 50) d ?W w i cc"
    unfolding clear_of_def Let_def
  proof (intro allI impI)
    fix j assume j: "i \<le> j \<and> j < cc"
    show "send_pos (ni_info (w_ninfo ?W w j)) \<le> pos (ni_info (w_ninfo ?W w j)) \<and>
       (pos (ni_info (w_ninfo ?W w j)) \<le> d - hdr_len N - 50 \<or> d \<le> send_pos (ni_info (w_ninfo ?W w j)))"
    proof (cases "j = i")
      case True
      then show ?thesis using ps di(2) by simp
    next
      case False
      then have "Suc i \<le> j" using j by simp
      with c j show ?thesis unfolding clear_of_def Let_def by force
    qed
  qed
  have r: "(if sz < w_pds ?W \<and> \<not> dn then (False, N)
     else let te = if dn then ?te else t
          in if dn \<and> ri te \<noteq> 0 then
               case gather d (thread_index_last (n_cores N)) w te sz ?W of
                 (None, W) \<Rightarrow> (False, N\<lparr>n_w := W\<rparr>)
               | (Some g, W) \<Rightarrow> (True, send_gathered t tick fl dn g (N\<lparr>n_w := W\<rparr>))
             else (True, send_gathered t tick fl dn (te, sz, sz, dn) N)) = (True, N')"
    using run unfolding nwm_send_next_buffer_def Let_def sz_def dn_def d(1) d(3) by simp
  consider "\<not> dn" | "dn" "ri ?te = 0" | "dn" "ri ?te \<noteq> 0" by auto
  then show ?thesis
  proof cases
    case 1
    then have N': "N' = send_gathered t tick fl False (t, sz, w_pds ?W, False) N" and e: "sz = w_pds ?W"
      using r szl(2) by (auto simp: Let_def split: if_splits)
    show ?thesis
    proof (rule sent_step_moreI [OF _ d(3) t(4)])
      show "\<exists>p q. n_sent N' = n_sent N @ [p] \<and> drop (50 + hdr_len N) p = q
        \<and> length p = 50 + hdr_len N + length q \<and> take 4 (drop 50 p) = n_hdrs N w
        \<and> n_hdrs N' = (n_hdrs N)(w := (n_hdrs N w)[3 := n_hdrs N w ! 3 + 1])
        \<and> length q = w_pds (n_w N) \<and> unat (ri (n_thread N')) < cc \<and> n_work N' = n_work N
        \<and> f_rest (n_w N) w i cc = q @ f_rest (n_w N') w (unat (ri (n_thread N'))) cc"
        by (rule send_unfinished [OF ok t(2-4) d(1,2,3) szl(1) refl own _ _ _ N'])
           (use fr tk e t(1) in simp_all)
    qed
  next
    case 2
    then have N': "N' = send_gathered t tick fl True (?te, sz, sz, True) N" using r by (simp add: Let_def)
    have "drop sz (t_rest ?W w i) = []" using 2(1) ps unfolding dn_def by (simp add: length_t_rest) linarith
    moreover have "f_rest ?W w (Suc i) cc = []"
      using next_thread [OF _ _ _ refl, of t cc "n_cores N"] 2(2) t by (auto simp: f_rest_def)
    ultimately have "f_rest ?W w i cc = rd (n_mem N) d sz" using fr tk by simp
    then show ?thesis
      using send_finished [OF ok d 2(2) szl(2) N'] by (intro sent_step_finI [OF _ d(3) t(4)]) simp
  next
    case 3
    then obtain g W where g: "gather d (thread_index_last (n_cores N)) w ?te sz ?W = (Some g, W)"
      and N': "N' = send_gathered t tick fl True g (N\<lparr>n_w := W\<rparr>)"
      using r by (auto simp: Let_def split: prod.splits option.splits)
    obtain te sz2 tot e where ge: "g = (te, sz2, tot, e)" by (cases g)
    have nx: "unat (ri ?te) = Suc i" "Suc i < cc"
      using next_thread [OF _ _ _ refl, of t cc "n_cores N"] 3(2) t by auto
    have c': "clear_of (d + sz) (d + w_pds ?W) ?W w (unat (ri ?te)) cc"
      using c nx by (auto intro: clear_of_mono)
    have post: "gather_post d w (Suc i) cc sz ?W (Some g) W"
      using gather_spec [OF g _ t(4) szl(2) c'] nx by simp
    then obtain m where m: "W = ?W\<lparr>w_mem := m\<rparr>" "\<And>x. x < d + sz \<or> d + w_pds ?W \<le> x \<Longrightarrow> m x = w_mem ?W x"
      unfolding gather_post_def by blast
    have q: "sz \<le> tot" "tot \<le> w_pds ?W" using post by (simp_all add: gather_post_def ge)
    have all: "take sz (t_rest ?W w i) = t_rest ?W w i"
      using 3(1) ps unfolding dn_def by (simp add: length_t_rest) linarith
    have "rd m d tot = rd m d sz @ rd m (d + sz) (tot - sz)"
      using rd_add [of m d sz "tot - sz"] q(1) by simp
    moreover have "rd m d sz = rd (n_mem N) d sz" using m(2) by (intro rd_cong) (simp add: n_mem_def)
    ultimately have rd: "rd m d tot = t_rest ?W w i @ rd m (d + sz) (tot - sz)" using tk all by simp
    let ?N = "N\<lparr>n_w := W\<rparr>"
    have ok': "hdrs_ok ?N" using ok m(1) by (simp add: hdrs_ok_def)
    have ti: "t_info W w' t = t_info ?W w' t" for w' by (simp add: t_info_def m(1))
    have N_eq: "hdr_len ?N = hdr_len N" "n_work ?N = n_work N" "n_mem ?N = m" "t_info W w t = t_info ?W w t"
      by (simp_all add: hdr_len_def n_mem_def m(1) t_info_def)
    show ?thesis
    proof (cases e)
      case True
      have te0: "ri te = 0" and f: "f_rest ?W w (Suc i) cc = rd m (d + sz) (tot - sz)"
        using post True m(1) by (simp_all add: gather_post_def ge)
      have fd: "f_rest ?W w i cc = rd m d tot" using rd f f_rest_step [OF t(3)] by simp
      have tl: "tot \<le> w_pds (n_w ?N)" using q m(1) by simp
      have N1: "N' = send_gathered t tick fl True (te, sz2, tot, True) ?N" using N' ge True 3(1) by simp
      have d': "d = send_pos (t_info (n_w ?N) w t)" "50 + hdr_len ?N \<le> d" "w = unat (ri (n_work ?N))"
        using d by (simp_all add: N_eq ti)
      show ?thesis
        using send_finished [OF ok' d' te0 tl N1] fd
        by (intro sent_step_finI [OF _ d(3) t(4)]) (simp add: N_eq)
    next
      case False
      let ?j = "unat (ri te)"
      have p: "tot = w_pds ?W" "Suc i \<le> ?j" "?j < cc" "sz2 \<le> length (t_rest ?W w ?j)"
        "f_rest ?W w (Suc i) cc = rd m (d + sz) (tot - sz) @ drop sz2 (t_rest ?W w ?j) @ f_rest ?W w (Suc ?j) cc"
        using post False m(1) by (simp_all add: gather_post_def ge)
      have cl: "clear_of (d + sz) (d + w_pds ?W) ?W w (Suc i) cc" using c' nx by simp
      have "t_rest W w ?j = t_rest ?W w ?j"
        by (rule t_rest_clear [OF cl p(2,3)]) (use m in auto)
      moreover have "f_rest W w (Suc ?j) cc = f_rest ?W w (Suc ?j) cc"
        by (rule f_rest_clear [OF cl]) (use m p in auto)
      ultimately have rest: "f_rest ?W w i cc = rd m d tot @ drop sz2 (t_rest W w ?j) @ f_rest W w (Suc ?j) cc"
        using p(5) rd f_rest_step [OF t(3)] by simp
      have cl': "clear_of (d - hdr_len N - 50) d W w ?j cc"
        using clear_of_mono [OF own, of _ d ?j] p(2) unfolding clear_of_def m(1) by simp
      have "sz2 \<le> length (t_rest W w ?j)" "tot = w_pds W" using p(1,4) m(1) by (simp_all add: length_t_rest)
      have d': "d = send_pos (t_info (n_w ?N) w t)" "50 + hdr_len ?N \<le> d" "w = unat (ri (n_work ?N))"
        using d by (simp_all add: N_eq ti)
      have te0: "ri te \<noteq> 0" using p(2) by auto
      have N1: "N' = send_gathered t tick fl True (te, sz2, tot, False) ?N" using N' ge False 3(1) by simp
      show ?thesis
      proof (rule sent_step_moreI [OF _ d(3) t(4)])
        have "\<exists>p q. n_sent N' = n_sent ?N @ [p] \<and> drop (50 + hdr_len ?N) p = q
          \<and> length p = 50 + hdr_len ?N + length q \<and> take 4 (drop 50 p) = n_hdrs ?N w
          \<and> n_hdrs N' = (n_hdrs ?N)(w := (n_hdrs ?N w)[3 := n_hdrs ?N w ! 3 + 1])
          \<and> length q = w_pds (n_w ?N) \<and> unat (ri (n_thread N')) < cc \<and> n_work N' = n_work ?N
          \<and> f_rest ?W w i cc = q @ f_rest (n_w N') w (unat (ri (n_thread N'))) cc"
          by (rule send_unfinished [OF ok' refl p(3) _ d' _ _ _ _ _ _ N1])
             (use t(4) p(1,4) cl' rest te0 \<open>t_rest W w ?j = t_rest ?W w ?j\<close> in \<open>simp_all add: N_eq m(1) hdr_len_def n_mem_def\<close>)
        then show "\<exists>p q. n_sent N' = n_sent N @ [p] \<and> drop (50 + hdr_len N) p = q
          \<and> length p = 50 + hdr_len N + length q \<and> take 4 (drop 50 p) = n_hdrs N w
          \<and> n_hdrs N' = (n_hdrs N)(w := (n_hdrs N w)[3 := n_hdrs N w ! 3 + 1])
          \<and> length q = w_pds (n_w N) \<and> unat (ri (n_thread N')) < cc \<and> n_work N' = n_work N
          \<and> f_rest ?W w i cc = q @ f_rest (n_w N') w (unat (ri (n_thread N'))) cc"
          by (simp add: N_eq m(1) hdr_len_def)
      qed
    qed
  qed
qed



end
