(* ===== verification/Audio.thy ===== *)
theory Audio
  imports Nwm_Sender
begin

text \<open>
  The audio threads (\<^verbatim>\<open>entries/thread_audio.rs\<close>): the polling of the DSP's two final-mix regions, the
  ring of audio packets that the network thread drains, and the packets of the reliable stream. The
  work area lies in the raw memory; the DSP regions are read at their mirrored addresses in it.
\<close>

definition DSP_REGION0 :: nat where "DSP_REGION0 = 0x1FF50000 + 0x80000000"
definition DSP_REGION1 :: nat where "DSP_REGION1 = 0x1FF70000 + 0x80000000"
definition DSP_FINAL_SAMPLES_OFF :: nat where "DSP_FINAL_SAMPLES_OFF = 0xA80"
definition DSP_FRAME_COUNTER_OFF :: nat where "DSP_FRAME_COUNTER_OFF = 0x7FFE"
definition AUDIO_SAMPLE_RATE :: nat where "AUDIO_SAMPLE_RATE = 32728"
definition AUDIO_FRAME_SAMPLES :: nat where "AUDIO_FRAME_SAMPLES = 160"
definition AUDIO_FRAME_BYTES :: nat where "AUDIO_FRAME_BYTES = 640"
definition AUDIO_HDR_TYPE :: u8 where "AUDIO_HDR_TYPE = 4"
definition AUDIO_FMT_PCM16 :: u8 where "AUDIO_FMT_PCM16 = 0"
definition AUDIO_REDUNDANCY :: nat where "AUDIO_REDUNDANCY = 2"
definition AUDIO_PAYLOAD_BYTES :: nat where "AUDIO_PAYLOAD_BYTES = AUDIO_REDUNDANCY * AUDIO_FRAME_BYTES"
definition AUDIO_POLL_NS :: nat where
  "AUDIO_POLL_NS = 1000000000 * AUDIO_FRAME_SAMPLES div AUDIO_SAMPLE_RATE div 3"
definition AUDIO_QOS_BUDGET :: u32 where
  "AUDIO_QOS_BUDGET = of_nat (AUDIO_SAMPLE_RATE div AUDIO_FRAME_SAMPLES * (DATA_HDR_SIZE + AUDIO_PAYLOAD_BYTES))"
definition AUDIO_KCP_QOS_BUDGET :: u32 where
  "AUDIO_KCP_QOS_BUDGET = of_nat (AUDIO_SAMPLE_RATE div AUDIO_FRAME_SAMPLES * PACKET_SIZE
     div (PACKET_SIZE div AUDIO_FRAME_BYTES))"
definition AUDIO_Q_LEN :: nat where "AUDIO_Q_LEN = 32"
definition AUDIO_PKT_SIZE :: nat where "AUDIO_PKT_SIZE = DATA_HDR_SIZE + AUDIO_PAYLOAD_BYTES"
definition NWM_PACKET_SIZE :: nat where "NWM_PACKET_SIZE = 1500"
definition RP_ARQ_AUDIO_COUNT :: nat where "RP_ARQ_AUDIO_COUNT = 128"

lemmas audio_consts = DSP_REGION0_def DSP_REGION1_def DSP_FINAL_SAMPLES_OFF_def DSP_FRAME_COUNTER_OFF_def
  AUDIO_FRAME_BYTES_def AUDIO_HDR_TYPE_def AUDIO_FMT_PCM16_def AUDIO_REDUNDANCY_def AUDIO_PAYLOAD_BYTES_def
  AUDIO_Q_LEN_def AUDIO_PKT_SIZE_def NWM_PACKET_SIZE_def RP_ARQ_AUDIO_COUNT_def DATA_HDR_SIZE_def

definition newer_region :: "u16 \<Rightarrow> u16 \<Rightarrow> nat" where
  "newer_region fc0 fc1 = (if fc1 \<noteq> fc0 \<and> fc1 - fc0 < 0x8000 then DSP_REGION1 else DSP_REGION0)"

section \<open>The ring\<close>

record audio =
  a_staging :: nat
  a_bufs :: nat
  a_head :: u32
  a_tail :: u32
  a_pool :: mp_pool
  a_enable :: bool
  a_kcp :: bool

text \<open>The work area is requested once; a failing request leaves the pointer null (here: no record).\<close>

definition once_audio :: "(nat \<times> nat) option \<Rightarrow> audio \<Rightarrow> mem \<Rightarrow> audio \<times> mem" where
  "once_audio request A m =
     (case request of
        Some (staging, bufs) \<Rightarrow>
          (A\<lparr>a_staging := staging, a_bufs := bufs\<rparr>,
           m(staging + 1 := 0, staging + 2 := AUDIO_HDR_TYPE, staging + 3 := AUDIO_FMT_PCM16))
      | None \<Rightarrow> (A, m))"

text \<open>The results of creating the semaphore, the mutex and the queue are arguments.\<close>

definition audio_init :: "i32 \<Rightarrow> i32 \<Rightarrow> i32 \<Rightarrow> audio \<Rightarrow> bool \<times> audio" where
  "audio_init sem_res lock_res syn_res A =
     (if a_bufs A = 0 then (False, A)
      else case mp_init NWM_PACKET_SIZE RP_ARQ_AUDIO_COUNT (a_bufs A) of
        None \<Rightarrow> (False, A)
      | Some p \<Rightarrow>
          let A = A\<lparr>a_pool := p\<rparr>
          in if sem_res \<noteq> 0 \<or> lock_res \<noteq> 0 \<or> syn_res \<noteq> 0 then (False, A)
             else (True, A\<lparr>a_head := 0, a_tail := 0\<rparr>))"

definition ring_slot :: "audio \<Rightarrow> u32 \<Rightarrow> nat" where
  "ring_slot A i = a_bufs A + NWM_PACKET_SIZE * unat (i AND (of_nat AUDIO_Q_LEN - 1))"

definition audio_enqueue :: "nat \<Rightarrow> audio \<Rightarrow> mem \<Rightarrow> audio \<times> mem" where
  "audio_enqueue pkt A m =
     (if AUDIO_Q_LEN \<le> unat (a_tail A - a_head A) then (A, m)
      else let buf = ring_slot A (a_tail A)
           in (A\<lparr>a_tail := a_tail A + 1\<rparr>, wr (buf + NWM_HDR_SIZE) (rd m pkt AUDIO_PKT_SIZE) m))"

definition send_audio :: "nat \<Rightarrow> nwm_net \<Rightarrow> nwm_net" where
  "send_audio packet_buf N =
     (let (curr_tick, N) = tick_now N;
          next_tick = n_next_tick N;
          tick_diff = next_tick - curr_tick;
          (next_tick, N) =
            (if 0 <s tick_diff
             then if NWM_AGGRESSIVE_NEXT_TICK = 0 then tick_now N else (next_tick, N)
             else (curr_tick, N))
      in rp_output packet_buf AUDIO_PKT_SIZE next_tick N)"

function drain_loop :: "bool \<Rightarrow> audio \<Rightarrow> nwm_net \<Rightarrow> audio \<times> nwm_net" where
  "drain_loop ready A N =
     (if a_head A = a_tail A then (A, N)
      else let buf = ring_slot A (a_head A);
               N = (if ready then send_audio (buf + NWM_HDR_SIZE) N else N)
           in drain_loop ready (A\<lparr>a_head := a_head A + 1\<rparr>) N)"
  by pat_completeness auto
termination
proof (relation "measure (\<lambda>(_, A, _). unat (a_tail A - a_head A))", simp, goal_cases)
  case (1 ready A N b N')
  then have "a_tail A - a_head A \<noteq> 0" by auto
  then have "unat (a_tail A - a_head A - 1) < unat (a_tail A - a_head A)"
    by (metis unat_minus_one diff_less neq0_conv unat_eq_zero zero_less_one)
  then show ?case by (simp add: diff_diff_eq)
qed

declare drain_loop.simps [simp del]

definition nwm_session_alive :: "bool \<Rightarrow> bool \<Rightarrow> bool \<Rightarrow> bool" where
  "nwm_session_alive kcp inited established = (if kcp then inited \<and> established else True)"

definition drain_audio :: "bool \<Rightarrow> bool \<Rightarrow> audio \<Rightarrow> nwm_net \<Rightarrow> audio \<times> nwm_net" where
  "drain_audio send_ready session_alive A N =
     drain_loop (a_enable A \<and> send_ready \<and> session_alive) A N"

section \<open>Polling for the ring\<close>

record audio_cap =
  ac_seq :: u8
  ac_last_fc :: u16
  ac_have_last :: bool

definition dsp_fc :: "mem \<Rightarrow> nat \<Rightarrow> u16" where
  "dsp_fc m region = rd16_le m (region + DSP_FRAME_COUNTER_OFF)"

definition thread_audio_start :: "audio \<Rightarrow> mem \<Rightarrow> audio_cap \<times> mem" where
  "thread_audio_start A m =
     (\<lparr>ac_seq = 0, ac_last_fc = 0, ac_have_last = False\<rparr>,
      wr (a_staging A + DATA_HDR_SIZE) (replicate AUDIO_PAYLOAD_BYTES 0) m)"

text \<open>One round of the polling loop; the clamp \<open>fc_diff < AUDIO_REDUNDANCY\<close> decides whether the older
  slot keeps the previous frame.\<close>

definition thread_audio_poll :: "audio_cap \<Rightarrow> audio \<Rightarrow> mem \<Rightarrow> audio_cap \<times> audio \<times> mem" where
  "thread_audio_poll C A m =
     (let packet_buf = a_staging A;
          payload = packet_buf + DATA_HDR_SIZE;
          newest = payload + (AUDIO_REDUNDANCY - 1) * AUDIO_FRAME_BYTES;
          fc0 = dsp_fc m DSP_REGION0;
          fc1 = dsp_fc m DSP_REGION1;
          src = newer_region fc0 fc1;
          fc = (if src = DSP_REGION1 then fc1 else fc0)
      in if ac_have_last C \<and> fc = ac_last_fc C then (C, A, m)
         else
           let fc_diff = (if ac_have_last C then unat (fc - ac_last_fc C) else 1);
               m = (if fc_diff < AUDIO_REDUNDANCY
                    then wr payload (rd m (payload + AUDIO_FRAME_BYTES * fc_diff)
                           ((AUDIO_REDUNDANCY - fc_diff) * AUDIO_FRAME_BYTES)) m
                    else m);
               fc_gap = min fc_diff AUDIO_REDUNDANCY - 1;
               m = (if 0 < fc_gap
                    then wr (newest - AUDIO_FRAME_BYTES * fc_gap) (replicate (AUDIO_FRAME_BYTES * fc_gap) 0) m
                    else m);
               m = wr newest (rd m (src + DSP_FINAL_SAMPLES_OFF) AUDIO_FRAME_BYTES) m;
               m = m(packet_buf := ac_seq C + (if fc_diff < 32 then of_nat fc_gap else 127));
               (A, m) = audio_enqueue packet_buf A m
           in (\<lparr>ac_seq = ac_seq C + 1, ac_last_fc = fc, ac_have_last = True\<rparr>, A, m))"

section \<open>Packets of the reliable stream\<close>

text \<open>The audio thread's own pool, semaphore and queue take the places of the encoder's in the world
  record: \<open>w_pool\<close> is the audio pool and \<open>w_relq\<close> the audio queue.\<close>

definition rp_audio_data_buf_malloc_base :: "nwm_world \<Rightarrow> nat option \<times> nwm_world" where
  "rp_audio_data_buf_malloc_base W =
     (case wait_syn W of
        (False, W) \<Rightarrow> (None, W)
      | (True, W) \<Rightarrow>
          (case wait_syn W of
             (False, W) \<Rightarrow> (None, W)
           | (True, W) \<Rightarrow>
               (let (d, p) = mp_malloc (w_mem W) (w_pool W); W = W\<lparr>w_pool := p\<rparr>
                in if d = 0 then (None, W\<lparr>w_reset := True\<rparr>) else (Some d, W))))"

definition rp_audio_data_buf_malloc :: "nwm_world \<Rightarrow> nat option \<times> nwm_world" where
  "rp_audio_data_buf_malloc W =
     (case rp_audio_data_buf_malloc_base W of
        (Some d, W) \<Rightarrow> (Some (rp_data_buf_data d), W)
      | (None, W) \<Rightarrow> (None, W))"

definition rp_audio_data_buf_free_base :: "nat \<Rightarrow> nwm_world \<Rightarrow> bool \<times> nwm_world" where
  "rp_audio_data_buf_free_base d W =
     (case wait_syn W of
        (False, W) \<Rightarrow> (False, W)
      | (True, W) \<Rightarrow>
          (let (m, p) = mp_free (w_mem W) (w_pool W) d in (True, W\<lparr>w_mem := m, w_pool := p\<rparr>)))"

definition rp_audio_data_buf_free :: "nat \<Rightarrow> nwm_world \<Rightarrow> bool \<times> nwm_world" where
  "rp_audio_data_buf_free d W = rp_audio_data_buf_free_base (d - (NWM_HDR_SIZE + ARQ_OVERHEAD_SIZE)) W"

definition RP_CORE_COUNT_MAX :: u16 where "RP_CORE_COUNT_MAX = 3"

definition audio_enqueue_kcp :: "nat \<Rightarrow> nwm_world \<Rightarrow> bool \<times> nwm_world" where
  "audio_enqueue_kcp dst W =
     (let sz = ARQ_RP_DATA_SIZE;
          dst = dst - ARQ_DATA_HDR_SIZE;
          sz = sz + ARQ_DATA_HDR_SIZE;
          hdr = push_bit (PID_NBITS + CID_NBITS + RP_KCP_HDR_W_NBITS) RP_CORE_COUNT_MAX;
          m = wr dst (le16 hdr) (w_mem W);
          sz32 = of_nat sz OR push_bit 29 1;
          m = wr (dst - 4) (le32 sz32) m
      in syn_rel dst (W\<lparr>w_mem := m\<rparr>))"

text \<open>\<open>get_audio_kcp\<close>: the queue's answer and the pointer it stored are arguments.\<close>

definition get_audio_kcp :: "i32 \<Rightarrow> nat \<Rightarrow> nwm_world \<Rightarrow> nat \<times> nwm_world" where
  "get_audio_kcp res dst W =
     (if res = 0 then (dst, W)
      else (0, if res \<noteq> RES_TIMEOUT then W\<lparr>w_reset := True\<rparr> else W))"

record audio_kcp =
  ak_staging :: nat
  ak_hdr2 :: nat
  ak_next :: nat
  ak_count :: u16
  ak_reprime :: bool
  ak_last_fc :: u16
  ak_have_last :: bool

definition audio_kcp_start :: audio_kcp where
  "audio_kcp_start = \<lparr>ak_staging = 0, ak_hdr2 = 0, ak_next = 0, ak_count = 0, ak_reprime = False,
     ak_last_fc = 0, ak_have_last = False\<rparr>"

text \<open>A new packet: the extension marker and room for the audio header.\<close>

definition audio_kcp_open :: "audio_kcp \<Rightarrow> nwm_world \<Rightarrow> bool \<times> audio_kcp \<times> nwm_world" where
  "audio_kcp_open K W =
     (if ak_staging K = 0 then
        case rp_audio_data_buf_malloc W of
          (Some d, W) \<Rightarrow>
            (True, K\<lparr>ak_staging := d, ak_hdr2 := d + 2, ak_next := d + 4\<rparr>,
             W\<lparr>w_mem := wr d (le16 (push_bit 15 1)) (w_mem W)\<rparr>)
        | (None, W) \<Rightarrow> (False, K, W\<lparr>w_reset := True\<rparr>)
      else (True, K, W))"

definition audio_kcp_hdr :: "u16 \<Rightarrow> bool \<Rightarrow> u16" where
  "audio_kcp_hdr count reprime =
     push_bit 15 1 OR push_bit 14 1 OR push_bit 12 (count AND 3) OR push_bit 11 (u16_of_bool reprime)"

definition audio_kcp_close :: "audio_kcp \<Rightarrow> nwm_world \<Rightarrow> bool \<times> audio_kcp \<times> nwm_world" where
  "audio_kcp_close K W =
     (let left = ARQ_RP_DATA_SIZE - (ak_next K - ak_staging K);
          m = wr (ak_next K) (replicate left 0) (w_mem W);
          m = wr (ak_hdr2 K) (le16 (audio_kcp_hdr (ak_count K) (ak_reprime K))) m
      in case audio_enqueue_kcp (ak_staging K) (W\<lparr>w_mem := m\<rparr>) of
           (False, W) \<Rightarrow> (False, K, W)
         | (True, W) \<Rightarrow>
             (True, K\<lparr>ak_staging := 0, ak_hdr2 := 0, ak_next := 0, ak_count := 0, ak_reprime := False\<rparr>, W))"

definition thread_audio_kcp_poll :: "bool \<Rightarrow> audio_kcp \<Rightarrow> nwm_world \<Rightarrow> bool \<times> audio_kcp \<times> nwm_world" where
  "thread_audio_kcp_poll ready K W =
     (if \<not> ready then (True, K, W)
      else case audio_kcp_open K W of
        (False, K, W) \<Rightarrow> (False, K, W)
      | (True, K, W) \<Rightarrow>
          let fc0 = dsp_fc (w_mem W) DSP_REGION0;
              fc1 = dsp_fc (w_mem W) DSP_REGION1;
              src = newer_region fc0 fc1;
              fc = (if src = DSP_REGION1 then fc1 else fc0)
          in if ak_have_last K \<and> fc = ak_last_fc K then (True, K, W)
             else
               let fc_diff = (if ak_have_last K then unat (fc - ak_last_fc K) else 1);
                   fc_reprime = 1 < fc_diff;
                   force = (fc_reprime \<and> 0 < ak_count K);
                   (K, W) = (if \<not> force then
                       (K\<lparr>ak_next := ak_next K + AUDIO_FRAME_BYTES, ak_count := ak_count K + 1,
                          ak_reprime := (ak_reprime K \<or> fc_reprime), ak_last_fc := fc, ak_have_last := True\<rparr>,
                        W\<lparr>w_mem := wr (ak_next K)
                             (rd (w_mem W) (src + DSP_FINAL_SAMPLES_OFF) AUDIO_FRAME_BYTES) (w_mem W)\<rparr>)
                     else (K, W));
                   left = ARQ_RP_DATA_SIZE - (ak_next K - ak_staging K)
               in if force \<or> left < AUDIO_FRAME_BYTES then audio_kcp_close K W
                  else (True, K, W))"

section \<open>Bounded queues\<close>

text \<open>The contract the two ends of the ring rely on: pushing appends unless the queue is full, and then
  drops the new item.\<close>

locale bounded_queue =
  fixes inv :: "'s \<Rightarrow> bool" and content :: "'s \<Rightarrow> 'a list" and cap :: nat
    and item :: "'a \<Rightarrow> bool" and push :: "'a \<Rightarrow> 's \<Rightarrow> 's"
  assumes inv_push: "inv s \<Longrightarrow> item x \<Longrightarrow> inv (push x s)"
    and content_push: "inv s \<Longrightarrow> item x \<Longrightarrow>
      content (push x s) = (if length (content s) < cap then content s @ [x] else content s)"
begin

lemma pushes:
  "inv s \<Longrightarrow> \<forall>x \<in> set xs. item x \<Longrightarrow> length (content s) \<le> cap \<Longrightarrow>
     inv (fold push xs s) \<and> content (fold push xs s) = take cap (content s @ xs)"
proof (induction xs arbitrary: s)
  case (Cons x xs)
  then have "inv (push x s)" by (simp add: inv_push)
  moreover have "length (content (push x s)) \<le> cap" using Cons by (simp add: content_push)
  ultimately have "inv (fold push xs (push x s))
      \<and> content (fold push xs (push x s)) = take cap (content (push x s) @ xs)"
    using Cons by simp
  then show ?case using Cons.prems by (auto simp: content_push take_Cons')
qed simp

end

section \<open>The ring is a bounded queue\<close>

definition ring_len :: "audio \<Rightarrow> nat" where
  "ring_len A = unat (a_tail A - a_head A)"

definition ring_packet :: "audio \<Rightarrow> mem \<Rightarrow> u32 \<Rightarrow> u8 list" where
  "ring_packet A m i = rd m (ring_slot A i + NWM_HDR_SIZE) AUDIO_PKT_SIZE"

definition ring_content :: "audio \<Rightarrow> mem \<Rightarrow> u8 list list" where
  "ring_content A m = map (\<lambda>k. ring_packet A m (a_head A + of_nat k)) [0 ..< ring_len A]"

definition ring_inv :: "audio \<Rightarrow> bool" where
  "ring_inv A \<longleftrightarrow> ring_len A \<le> AUDIO_Q_LEN \<and> a_staging A + AUDIO_PKT_SIZE \<le> a_bufs A"

definition audio_put :: "u8 list \<Rightarrow> audio \<times> mem \<Rightarrow> audio \<times> mem" where
  "audio_put p s = (case s of (A, m) \<Rightarrow> audio_enqueue (a_staging A) A (wr (a_staging A) p m))"

lemma ring_slot_mod: "ring_slot A i = a_bufs A + 1500 * (unat i mod 32)"
proof -
  have "(of_nat AUDIO_Q_LEN - 1 :: u32) = mask 5" by (simp add: AUDIO_Q_LEN_def mask_eq_exp_minus_1)
  then show ?thesis
    by (simp only: ring_slot_def unat_and_mask NWM_PACKET_SIZE_def) simp
qed

lemma unat_add_mod_32: "unat (h + of_nat k :: u32) mod 32 = (unat h + k) mod 32"
proof -
  have "unat (h + of_nat k :: u32) = (unat h + k) mod 2 ^ 32"
    by (simp add: unat_word_ariths unat_of_nat mod_add_right_eq)
  then show ?thesis by (simp add: mod_mod_cancel)
qed

text \<open>Two places of the window are different slots, 1500 bytes apart.\<close>

lemma ring_slots_disjoint:
  assumes "j < k" "k < 32" and bf: "a_bufs A' = a_bufs A"
  shows "ring_slot A' (h + of_nat j) + 1500 \<le> ring_slot A (h + of_nat k)
    \<or> ring_slot A (h + of_nat k) + 1500 \<le> ring_slot A' (h + of_nat j)"
proof -
  have "(r + j) mod 32 \<noteq> (r + k) mod 32" if "r < 32" for r
    using assms(1,2) that by (cases "r + j < 32"; cases "r + k < 32") (auto simp: mod_if)
  from this [of "unat h mod 32"] have "(unat h + j) mod 32 \<noteq> (unat h + k) mod 32"
    by (simp add: mod_simps)
  then show ?thesis unfolding ring_slot_mod unat_add_mod_32 bf by linarith
qed

lemma length_ring_content [simp]: "length (ring_content A m) = ring_len A"
  by (simp add: ring_content_def)

lemma tail_eq: "a_tail A = a_head A + of_nat (ring_len A)"
  by (simp add: ring_len_def)

lemma ring_packet_cong:
  "a_bufs A' = a_bufs A \<Longrightarrow>
   (\<And>x. ring_slot A i + 50 \<le> x \<Longrightarrow> x < ring_slot A i + 1334 \<Longrightarrow> m' x = m x) \<Longrightarrow>
   ring_packet A' m' i = ring_packet A m i"
  unfolding ring_packet_def ring_slot_def NWM_HDR_SIZE_def
  by (auto intro!: rd_cong simp: AUDIO_PKT_SIZE_def AUDIO_PAYLOAD_BYTES_def AUDIO_REDUNDANCY_def
      AUDIO_FRAME_BYTES_def DATA_HDR_SIZE_def)

lemma audio_put_full:
  "ring_len A = 32 \<Longrightarrow> audio_put p (A, m) = (A, wr (a_staging A) p m)"
  by (simp add: audio_put_def audio_enqueue_def ring_len_def AUDIO_Q_LEN_def)

lemma audio_put_room:
  "ring_len A < 32 \<Longrightarrow> length p = AUDIO_PKT_SIZE \<Longrightarrow> audio_put p (A, m) =
     (A\<lparr>a_tail := a_tail A + 1\<rparr>,
      wr (ring_slot A (a_tail A) + NWM_HDR_SIZE) p (wr (a_staging A) p m))"
  using rd_wr_same [of "a_staging A" p m]
  by (simp add: audio_put_def audio_enqueue_def ring_len_def AUDIO_Q_LEN_def Let_def)

lemma pkt_size: "AUDIO_PKT_SIZE = 1284" by (simp add: audio_consts)

lemma ring_content_staging:
  assumes "ring_inv A" "length p = AUDIO_PKT_SIZE"
  shows "ring_content A (wr (a_staging A) p m) = ring_content A m"
  unfolding ring_content_def
  using assms by (intro map_cong refl ring_packet_cong)
    (auto simp: ring_inv_def ring_slot_mod mem_simps pkt_size)

lemma audio_put_content:
  assumes inv: "ring_inv A" and p: "length p = AUDIO_PKT_SIZE"
  shows "case audio_put p (A, m) of (A', m') \<Rightarrow> ring_inv A' \<and> a_head A' = a_head A \<and>
     ring_content A' m' = (if ring_len A < 32 then ring_content A m @ [p] else ring_content A m)"
proof (cases "ring_len A < 32")
  case False
  then have "ring_len A = 32" using inv by (simp add: ring_inv_def AUDIO_Q_LEN_def)
  then show ?thesis using inv p by (simp add: audio_put_full ring_content_staging)
next
  case True
  let ?A = "A\<lparr>a_tail := a_tail A + 1\<rparr>"
  let ?ms = "wr (a_staging A) p m"
  let ?m = "wr (ring_slot A (a_tail A) + NWM_HDR_SIZE) p ?ms"
  have d: "a_tail A + 1 - a_head A = (a_tail A - a_head A) + 1" by simp
  have len: "ring_len ?A = Suc (ring_len A)"
    using True unfolding ring_len_def by (simp add: d unat_add_no_wrap)
  have old: "ring_packet ?A ?m (a_head A + of_nat k) = ring_packet A ?ms (a_head A + of_nat k)"
    if k: "k < ring_len A" for k
    using ring_slots_disjoint [OF k True refl, of A "a_head A"] p
    by (intro ring_packet_cong) (auto simp: tail_eq [symmetric] mem_simps pkt_size NWM_HDR_SIZE_def)
  have new: "ring_packet ?A ?m (a_tail A) = p"
    using rd_wr_same [of "ring_slot A (a_tail A) + NWM_HDR_SIZE" p "wr (a_staging A) p m"] p
    by (simp add: ring_packet_def ring_slot_mod)
  have "ring_content ?A ?m = ring_content A ?ms @ [p]"
    unfolding ring_content_def len using old new by (simp add: tail_eq [symmetric])
  also have "ring_content A ?ms = ring_content A m" by (rule ring_content_staging [OF inv p])
  finally show ?thesis
    using True p inv len by (simp add: audio_put_room ring_inv_def AUDIO_Q_LEN_def)
qed

interpretation audio_ring: bounded_queue "\<lambda>(A, m). ring_inv A" "\<lambda>(A, m). ring_content A m" AUDIO_Q_LEN
  "\<lambda>p. length p = AUDIO_PKT_SIZE" audio_put
proof (unfold_locales, goal_cases)
  case (1 s x)
  then show ?case using audio_put_content [of "fst s" x "snd s"] by (cases s) auto
next
  case (2 s x)
  then show ?case using audio_put_content [of "fst s" x "snd s"]
    by (cases s) (auto simp: AUDIO_Q_LEN_def split: prod.splits)
qed

section \<open>Draining\<close>

lemma send_audio_frame:
  assumes "length (n_hdr N) = 50" "50 \<le> pb"
  shows "\<exists>m p. n_w (send_audio pb N) = (n_w N)\<lparr>w_mem := m\<rparr> \<and> n_sent (send_audio pb N) = n_sent N @ [p]
     \<and> n_hdr (send_audio pb N) = n_hdr N \<and> (\<forall>x. x < pb - 50 \<or> pb \<le> x \<longrightarrow> m x = n_mem N x)
     \<and> drop 50 p = rd (n_mem N) pb AUDIO_PKT_SIZE"
proof -
  obtain c N1 where t: "tick_now N = (c, N1)" by fastforce
  then have N1: "n_w N1 = n_w N" "n_hdr N1 = n_hdr N" "n_sent N1 = n_sent N" "n_mem N1 = n_mem N"
    by (auto simp: tick_now_def n_mem_def split: list.splits)
  have r: "send_audio pb N = rp_output pb AUDIO_PKT_SIZE (if 0 <s n_next_tick N1 - c then n_next_tick N1 else c) N1"
    by (simp add: send_audio_def t NWM_AGGRESSIVE_NEXT_TICK_def)
  have "length (n_hdr N1) = 50" "AUDIO_PKT_SIZE + 50 < 2 ^ 16" using assms(1) N1 by (simp_all add: pkt_size)
  from rp_output_frame [OF this assms(2), of "if 0 <s n_next_tick N1 - c then n_next_tick N1 else c"]
  obtain m p tk where "rp_output pb AUDIO_PKT_SIZE (if 0 <s n_next_tick N1 - c then n_next_tick N1 else c) N1
      = (n_set_mem m N1)\<lparr>n_sent := n_sent N1 @ [p], n_next_tick := tk\<rparr>"
    "\<forall>x. x < pb - 50 \<or> pb \<le> x \<longrightarrow> m x = n_mem N1 x" "drop 50 p = rd (n_mem N1) pb AUDIO_PKT_SIZE"
    by blast
  then show ?thesis unfolding r using N1 by (intro exI [of _ m] exI [of _ p]) (simp add: n_set_mem_def)
qed

lemma ring_content_Cons:
  assumes "a_head A \<noteq> a_tail A"
  shows "ring_content A m = ring_packet A m (a_head A) # ring_content (A\<lparr>a_head := a_head A + 1\<rparr>) m"
    "ring_len A = Suc (ring_len (A\<lparr>a_head := a_head A + 1\<rparr>))"
proof -
  have ne: "a_tail A - a_head A \<noteq> 0" using assms by auto
  have "a_tail A - (a_head A + 1) = a_tail A - a_head A - 1" by simp
  then have l: "unat (a_tail A - (a_head A + 1)) = ring_len A - 1"
    using unat_minus_one [OF ne] by (simp only: ring_len_def)
  have pos: "0 < ring_len A" using ne by (simp add: ring_len_def unat_gt_0)
  show len: "ring_len A = Suc (ring_len (A\<lparr>a_head := a_head A + 1\<rparr>))"
    using l pos by (simp add: ring_len_def)
  have pk: "ring_packet (A\<lparr>a_head := h\<rparr>) m i = ring_packet A m i" for h i
    by (simp add: ring_packet_def ring_slot_def)
  show "ring_content A m = ring_packet A m (a_head A) # ring_content (A\<lparr>a_head := a_head A + 1\<rparr>) m"
    unfolding ring_content_def len upt_conv_Cons [OF zero_less_Suc] map_Suc_upt [symmetric]
    by (simp add: pk add.assoc o_def)
qed

lemma drain_loop_sends:
  assumes "ring_inv A" "length (n_hdr N) = 50" "drain_loop True A N = (A', N')"
  shows "a_head A' = a_tail A' \<and> (\<exists>ps. n_sent N' = n_sent N @ ps \<and> map (drop 50) ps = ring_content A (n_mem N))"
  using assms
proof (induction "ring_len A" arbitrary: A N)
  case 0
  then have "a_head A = a_tail A" by (simp add: ring_len_def unat_eq_0)
  with 0 show ?case by (auto simp: drain_loop.simps [of _ A] ring_content_def)
next
  case (Suc n)
  then have ne: "a_head A \<noteq> a_tail A" by (auto simp: ring_len_def)
  let ?A = "A\<lparr>a_head := a_head A + 1\<rparr>"
  let ?s = "ring_slot A (a_head A)"
  let ?N = "send_audio (?s + NWM_HDR_SIZE) N"
  note rc = ring_content_Cons [OF ne]
  have len: "n = ring_len ?A" using Suc.hyps(2) rc(2) by simp
  have inv: "ring_inv ?A" using Suc.prems(1) rc(2) by (simp add: ring_inv_def)
  obtain m p where s: "n_w ?N = (n_w N)\<lparr>w_mem := m\<rparr>" "n_sent ?N = n_sent N @ [p]" "n_hdr ?N = n_hdr N"
    "\<forall>x. x < ?s \<or> ?s + 50 \<le> x \<longrightarrow> m x = n_mem N x" "drop 50 p = rd (n_mem N) (?s + 50) AUDIO_PKT_SIZE"
    using send_audio_frame [OF Suc.prems(2), of "?s + NWM_HDR_SIZE"] by (auto simp: NWM_HDR_SIZE_def)
  have run: "drain_loop True ?A ?N = (A', N')"
    using Suc.prems(3) ne by (simp add: drain_loop.simps [of _ A] Let_def)
  obtain ps where ps: "a_head A' = a_tail A'" "n_sent N' = n_sent ?N @ ps"
    "map (drop 50) ps = ring_content ?A (n_mem ?N)"
    using Suc.hyps(1) [OF len inv _ run] s(3) Suc.prems(2) by auto
  have "ring_packet ?A (n_mem ?N) (a_head ?A + of_nat k) = ring_packet ?A (n_mem N) (a_head ?A + of_nat k)"
    if k: "k < ring_len ?A" for k
  proof (rule ring_packet_cong)
    fix x
    assume x: "ring_slot ?A (a_head ?A + of_nat k) + 50 \<le> x" "x < ring_slot ?A (a_head ?A + of_nat k) + 1334"
    have "Suc k < 32 \<or> Suc k = 32" using k Suc.prems(1) rc(2) by (auto simp: ring_inv_def AUDIO_Q_LEN_def)
    then have "Suc k < 32" using k Suc.prems(1) rc(2) by (auto simp: ring_inv_def AUDIO_Q_LEN_def)
    then have "?s + 1500 \<le> ring_slot ?A (a_head A + of_nat (Suc k))
        \<or> ring_slot ?A (a_head A + of_nat (Suc k)) + 1500 \<le> ?s"
      using ring_slots_disjoint [of 0 "Suc k" A ?A "a_head A"] by simp
    then have "x < ?s \<or> ?s + 50 \<le> x" using x by (auto simp: add.assoc)
    then show "n_mem ?N x = n_mem N x" using s(1,4) by (auto simp: n_mem_def)
  qed simp
  then have "ring_content ?A (n_mem ?N) = ring_content ?A (n_mem N)"
    unfolding ring_content_def by (intro map_cong refl) simp
  then show ?case
    using ps s(2,5) rc(1) by (auto simp: ring_packet_def NWM_HDR_SIZE_def)
qed

text \<open>C25: the audio ring is first in, first out and drops what does not fit. Whatever packets the audio
  thread hands over, the next drain sends exactly the first ones that fitted into the ring beside what
  was in it, in order and with unchanged payloads, and leaves the ring empty.\<close>
theorem audio_ring_fifo:
  assumes "ring_inv A" and "\<forall>p \<in> set ps. length p = AUDIO_PKT_SIZE" and "length (n_hdr N) = 50"
    and "fold audio_put ps (A, n_mem N) = (A1, m1)"
    and "drain_loop True A1 (n_set_mem m1 N) = (A2, N2)"
  shows "a_head A2 = a_tail A2 \<and>
    (\<exists>qs. n_sent N2 = n_sent N @ qs \<and>
       map (drop 50) qs = take AUDIO_Q_LEN (ring_content A (n_mem N) @ ps))"
proof -
  have "length (ring_content A (n_mem N)) \<le> AUDIO_Q_LEN" using assms(1) by (simp add: ring_inv_def)
  then have q: "ring_inv A1" "ring_content A1 m1 = take AUDIO_Q_LEN (ring_content A (n_mem N) @ ps)"
    using audio_ring.pushes [of "(A, n_mem N)" ps] assms(1,2,4) by auto
  have "n_mem (n_set_mem m1 N) = m1" "n_sent (n_set_mem m1 N) = n_sent N" "length (n_hdr (n_set_mem m1 N)) = 50"
    using assms(3) by (simp_all add: n_set_mem_def n_mem_def)
  with drain_loop_sends [OF q(1) _ assms(5)] q(2) show ?thesis by auto
qed

definition ex_audio :: audio where
  "ex_audio = \<lparr>a_staging = 1000, a_bufs = 4000, a_head = 0xFFFFFFFF, a_tail = 0xFFFFFFFF,
     a_pool = \<lparr>mp_bs = 1500, mp_ul_bc = 128, mp_b = 0, mp_ul_b = 4000, mp_bc = 128, mp_m = 4000\<rparr>,
     a_enable = True, a_kcp = False\<rparr>"

theorem audio_ring_fifo_witness:
  "\<exists>A1 m1 A2 N2 qs. fold audio_put [replicate 1284 7, replicate 1284 9] (ex_audio, n_mem ex_net) = (A1, m1)
     \<and> drain_loop True A1 (n_set_mem m1 ex_net) = (A2, N2)
     \<and> n_sent N2 = qs \<and> map (drop 50) qs = [replicate 1284 7, replicate 1284 9]"
proof -
  obtain A1 m1 where 1: "fold audio_put [replicate 1284 7, replicate 1284 9] (ex_audio, n_mem ex_net) = (A1, m1)"
    by fastforce
  obtain A2 N2 where 2: "drain_loop True A1 (n_set_mem m1 ex_net) = (A2, N2)" by fastforce
  have e: "ring_inv ex_audio" "length (n_hdr ex_net) = 50" "n_sent ex_net = []"
    "ring_content ex_audio (n_mem ex_net) = []"
    by (simp_all add: ring_inv_def ex_audio_def ring_len_def pkt_size ex_net_def ring_content_def)
  have "\<forall>p \<in> set [replicate 1284 (7 :: u8), replicate 1284 9]. length p = AUDIO_PKT_SIZE"
    by (simp add: pkt_size)
  from audio_ring_fifo [OF e(1) this e(2) 1 2] e show ?thesis using 1 2
    by (auto simp: AUDIO_Q_LEN_def)
qed

section \<open>What a polled packet carries\<close>

definition dsp_newest :: "mem \<Rightarrow> nat \<times> u16" where
  "dsp_newest m = (let fc0 = dsp_fc m DSP_REGION0; fc1 = dsp_fc m DSP_REGION1; src = newer_region fc0 fc1
     in (src, if src = DSP_REGION1 then fc1 else fc0))"

definition dsp_samples :: "mem \<Rightarrow> nat \<Rightarrow> u8 list" where
  "dsp_samples m src = rd m (src + DSP_FINAL_SAMPLES_OFF) AUDIO_FRAME_BYTES"

text \<open>The frame numbers the packet gets, for a distance \<open>d\<close> to the last frame.\<close>

definition audio_seq :: "u8 \<Rightarrow> nat \<Rightarrow> u8" where
  "audio_seq q d = q + (if d < 32 then of_nat (min d AUDIO_REDUNDANCY - 1) else 127)"

lemma audio_payload:
  assumes st: "a + 1284 \<le> DSP_REGION0" and d: "0 < d" and src: "src = DSP_REGION0 \<or> src = DSP_REGION1"
    and m1: "m1 = (if d < 2 then wr (a + 4) (rd m (a + 4 + 640 * d) ((2 - d) * 640)) m else m)"
    and m2: "m2 = (if 0 < min d 2 - 1 then wr (a + 644 - 640 * (min d 2 - 1)) (replicate (640 * (min d 2 - 1)) 0) m1 else m1)"
    and m3: "m3 = wr (a + 644) (rd m2 (src + DSP_FINAL_SAMPLES_OFF) 640) m2"
  shows "rd (m3(a := b)) a 1284 = b # rd m (a + 1) 3
    @ (if d = 1 then rd m (a + 644) 640 else replicate 640 0) @ dsp_samples m src"
proof -
  have "(1284::nat) = Suc (3 + 640 + 640)" by simp
  then have split: "rd x a 1284 = x a # rd x (a + 1) 3 @ rd x (a + 4) 640 @ rd x (a + 644) 640" for x :: mem
    using rd_add [of x a 1 1283] rd_add [of x "a + 1" 3 1280] rd_add [of x "a + 4" 640 640]
    by (simp add: rd_1 ac_simps)
  have far: "a + 1284 \<le> src + DSP_FINAL_SAMPLES_OFF"
    using st src by (auto simp: audio_consts)
  have out: "m2 x = m x" if "x < a + 4 \<or> a + 644 \<le> x" for x
  proof (cases "d = 1")
    case True
    then show ?thesis using that by (auto simp: m1 m2 mem_simps)
  next
    case False
    then show ?thesis using that d by (auto simp: m1 m2 mem_simps min_def)
  qed
  have older: "rd m2 (a + 4) 640 = (if d = 1 then rd m (a + 644) 640 else replicate 640 0)"
  proof (cases "d = 1")
    case True
    have "rd (wr (a + 4) (rd m (a + 644) 640) m) (a + 4) (length (rd m (a + 644) 640)) = rd m (a + 644) 640"
      by (rule rd_wr_same)
    then show ?thesis using True by (simp add: m1 m2 ac_simps)
  next
    case False
    then have "min d 2 = 2" "\<not> d < 2" using d by auto
    then show ?thesis using False rd_wr_same [of "a + 4" "replicate 640 0" m] by (simp add: m1 m2 ac_simps)
  qed
  have new: "rd m2 (src + DSP_FINAL_SAMPLES_OFF) 640 = dsp_samples m src"
    unfolding dsp_samples_def AUDIO_FRAME_BYTES_def using far by (intro rd_cong out) simp
  have "rd m3 (a + 644) (length (dsp_samples m src)) = dsp_samples m src"
    unfolding m3 new by (rule rd_wr_same)
  then have n3: "rd (m3(a := b)) (a + 644) 640 = dsp_samples m src"
    using rd_cong [of 640 "m3(a := b)" "a + 644" m3] by (simp add: dsp_samples_def AUDIO_FRAME_BYTES_def)
  have o3: "rd (m3(a := b)) (a + 4) 640 = rd m2 (a + 4) 640"
    by (rule rd_cong) (auto simp: m3 mem_simps)
  have h3: "rd (m3(a := b)) (a + 1) 3 = rd m (a + 1) 3"
    by (rule rd_cong) (auto simp: m3 mem_simps out)
  show ?thesis unfolding split n3 o3 h3 older by simp
qed

lemma audio_poll_packet_aux:
  assumes "a_staging A + AUDIO_PKT_SIZE \<le> DSP_REGION0"
    and "dsp_newest m = (src, fc)"
    and "d = (if ac_have_last C then unat (fc - ac_last_fc C) else 1)"
    and "thread_audio_poll C A m = (C', A', m')"
  shows "if d = 0 then (C', A', m') = (C, A, m)
     else C' = \<lparr>ac_seq = ac_seq C + 1, ac_last_fc = fc, ac_have_last = True\<rparr> \<and>
       (\<exists>ms. (A', m') = audio_enqueue (a_staging A) A ms \<and>
          rd ms (a_staging A) AUDIO_PKT_SIZE = audio_seq (ac_seq C) d # rd m (a_staging A + 1) 3
            @ (if d = 1 then rd m (a_staging A + 644) 640 else replicate 640 0) @ dsp_samples m src)"
proof (cases "d = 0")
  case True
  then have "ac_have_last C \<and> fc = ac_last_fc C"
    using assms(3) by (auto simp: unat_eq_0 split: if_splits)
  then show ?thesis using True assms(2,4) by (auto simp: thread_audio_poll_def dsp_newest_def Let_def)
next
  case False
  have src: "src = DSP_REGION0 \<or> src = DSP_REGION1"
    using assms(2) by (auto simp: dsp_newest_def Let_def newer_region_def split: if_splits)
  let ?a = "a_staging A"
  define m1 where "m1 = (if d < 2 then wr (?a + 4) (rd m (?a + 4 + 640 * d) ((2 - d) * 640)) m else m)"
  define m2 where "m2 = (if 0 < min d 2 - 1
    then wr (?a + 644 - 640 * (min d 2 - 1)) (replicate (640 * (min d 2 - 1)) 0) m1 else m1)"
  define ms where "ms = wr (?a + 644) (rd m2 (src + DSP_FINAL_SAMPLES_OFF) 640) m2"
  have "?a + 1284 \<le> DSP_REGION0" "0 < d" using assms(1) False by (simp_all add: pkt_size)
  from audio_payload [OF this src m1_def m2_def ms_def]
  have r: "rd (ms(?a := audio_seq (ac_seq C) d)) ?a 1284 = audio_seq (ac_seq C) d # rd m (?a + 1) 3
    @ (if d = 1 then rd m (?a + 644) 640 else replicate 640 0) @ dsp_samples m src" .
  have ne: "\<not> (ac_have_last C \<and> fc = ac_last_fc C)" using False assms(3) by auto
  have fc: "src = newer_region (dsp_fc m DSP_REGION0) (dsp_fc m DSP_REGION1)"
    "fc = (if src = DSP_REGION1 then dsp_fc m DSP_REGION1 else dsp_fc m DSP_REGION0)"
    using assms(2) by (auto simp: dsp_newest_def Let_def)
  have c: "?a + DATA_HDR_SIZE = ?a + 4" "?a + 4 + (2 - 1) * 640 = ?a + 644"
    "AUDIO_REDUNDANCY = 2" "AUDIO_FRAME_BYTES = 640" by (simp_all add: audio_consts)
  have "thread_audio_poll C A m = (case audio_enqueue ?a A (ms(?a := audio_seq (ac_seq C) d)) of
      (A, m) \<Rightarrow> (\<lparr>ac_seq = ac_seq C + 1, ac_last_fc = fc, ac_have_last = True\<rparr>, A, m))"
    unfolding thread_audio_poll_def Let_def fc(1) [symmetric] fc(2) [symmetric] if_not_P [OF ne]
      assms(3) [symmetric] c audio_seq_def m1_def m2_def ms_def by (rule refl)
  then show ?thesis using False r assms(4)
    by (auto simp: pkt_size split: prod.splits)
qed

text \<open>A gap makes two different frames share a number: the packet after a gap of two counts the newest
  frame one ahead, but the running number is advanced by one only.\<close>

lemma audio_seq_repeats:
  assumes "a_staging A + AUDIO_PKT_SIZE \<le> DSP_REGION0"
    and "ac_have_last C" "dsp_newest m = (src, ac_last_fc C + 2)"
    and "thread_audio_poll C A m = (C1, A1, m1)" "dsp_newest n = (src', ac_last_fc C + 3)"
    and "thread_audio_poll C1 A1 n = (C2, A2, m2)"
    and "a_staging A1 = a_staging A"
  shows "\<exists>x y. (A1, m1) = audio_enqueue (a_staging A) A x \<and> (A2, m2) = audio_enqueue (a_staging A) A1 y
    \<and> x (a_staging A) = y (a_staging A)"
proof -
  have one: "rd x a 1284 ! 0 = x a" for x :: mem and a by simp
  have d: "unat (ac_last_fc C + 2 - ac_last_fc C) = 2" by simp
  have hd: "x a = b" if "rd x a 1284 = b # bs" for x :: mem and a b bs
    using one [of x a] that by simp
  obtain x bs where x: "C1 = \<lparr>ac_seq = ac_seq C + 1, ac_last_fc = ac_last_fc C + 2, ac_have_last = True\<rparr>"
    "(A1, m1) = audio_enqueue (a_staging A) A x" "rd x (a_staging A) 1284 = audio_seq (ac_seq C) 2 # bs"
    using audio_poll_packet_aux [OF assms(1,3) refl assms(4)] assms(2) d by (auto simp: pkt_size)
  obtain y cs where "(A2, m2) = audio_enqueue (a_staging A) A1 y"
    "rd y (a_staging A) 1284 = audio_seq (ac_seq C + 1) 1 # cs"
    using audio_poll_packet_aux [OF _ assms(5) refl assms(6)] assms(1,7) x(1) by (auto simp: pkt_size)
  then show ?thesis using x hd [OF x(3)] hd [of y]
    by (intro exI [of _ x] exI [of _ y]) (simp add: audio_seq_def AUDIO_REDUNDANCY_def)
qed



end
