(* ===== verification/Quantizer.thy ===== *)
theory Quantizer
  imports Prelude
begin

text \<open>
  Quantisation (\<^verbatim>\<open>encoder/vars.rs\<close>, \<^verbatim>\<open>encoder/encode/forward_dct.rs\<close>): the quality scaling of the
  standard tables, the reciprocals that replace the divisions, the quantiser with and without delta
  coding against the previous frame, and the rescaling of previous coefficients. Coefficients are
  16-bit words read as signed numbers.
\<close>

definition DCTSIZE :: nat where "DCTSIZE = 8"
definition DCTSIZE2 :: nat where "DCTSIZE2 = 64"
definition CONST_BITS :: nat where "CONST_BITS = 14"

definition AANSCALES :: "u16 list" where
  "AANSCALES = [
    16384, 22725, 21407, 19266, 16384, 12873, 8867, 4520, 22725, 31521, 29692, 26722, 22725, 17855,
    12299, 6270, 21407, 29692, 27969, 25172, 21407, 16819, 11585, 5906, 19266, 26722, 25172, 22654,
    19266, 15137, 10426, 5315, 16384, 22725, 21407, 19266, 16384, 12873, 8867, 4520, 12873, 17855,
    16819, 15137, 12873, 10114, 6967, 3552, 8867, 12299, 11585, 10426, 8867, 6967, 4799, 2446,
    4520, 6270, 5906, 5315, 4520, 3552, 2446, 1247]"

definition quality_scaling :: "u32 \<Rightarrow> u32" where
  "quality_scaling quality =
     (let quality = (if quality \<le> 0 then 1 else if 100 < quality then 100 else quality)
      in if quality < 50 then 5000 div quality else 200 - quality * 2)"

definition STD_LUMINANCE_QUANT_TBL :: "u8 list" where
  "STD_LUMINANCE_QUANT_TBL = [
    16, 11, 10, 16, 24, 40, 51, 61, 12, 12, 14, 19, 26, 58, 60, 55, 14, 13, 16, 24, 40, 57, 69, 56,
    14, 17, 22, 29, 51, 87, 80, 62, 18, 22, 37, 56, 68, 109, 103, 77, 24, 35, 55, 64, 81, 104, 113,
    92, 49, 64, 78, 87, 103, 121, 120, 101, 72, 92, 95, 98, 112, 100, 103, 99]"

definition STD_CHROMINANCE_QUANT_TBL :: "u8 list" where
  "STD_CHROMINANCE_QUANT_TBL = [
    17, 18, 24, 47, 99, 99, 99, 99, 18, 21, 26, 66, 99, 99, 99, 99, 24, 26, 56, 99, 99, 99, 99, 99,
    47, 66, 99, 99, 99, 99, 99, 99, 99, 99, 99, 99, 99, 99, 99, 99, 99, 99, 99, 99, 99, 99, 99, 99,
    99, 99, 99, 99, 99, 99, 99, 99, 99, 99, 99, 99, 99, 99, 99, 99]"

text \<open>Quantisation tables as lists, one per table number.\<close>

type_synonym quant_tbl = "u8 list"

definition quant_entry :: "u32 \<Rightarrow> u8 \<Rightarrow> u8" where
  "quant_entry scale_factor basic =
     (let temp = (ucast basic * scale_factor + 50) div 100;
          temp = (if temp \<le> 0 then 1 else if 255 < temp then 255 else temp)
      in ucast temp)"

definition set_quant_table :: "nat \<Rightarrow> u8 list \<Rightarrow> u32 \<Rightarrow> quant_tbl list \<Rightarrow> quant_tbl list" where
  "set_quant_table which_tbl basic_table scale_factor tbls =
     tbls[which_tbl := map (quant_entry scale_factor) basic_table]"

definition set_linear_quality :: "u32 \<Rightarrow> quant_tbl list \<Rightarrow> quant_tbl list" where
  "set_linear_quality scale_factor tbls =
     set_quant_table 1 STD_CHROMINANCE_QUANT_TBL scale_factor
       (set_quant_table 0 STD_LUMINANCE_QUANT_TBL scale_factor tbls)"

definition set_quality :: "u32 \<Rightarrow> quant_tbl list \<Rightarrow> quant_tbl list" where
  "set_quality quality tbls = set_linear_quality (quality_scaling quality) tbls"

section \<open>Reciprocals\<close>

record divisor_part =
  recip :: i16
  corr :: i16

definition right_shift :: "u32 \<Rightarrow> nat \<Rightarrow> u32" where
  "right_shift x shft = drop_bit shft x"

definition descale :: "u32 \<Rightarrow> nat \<Rightarrow> u16" where
  "descale x n = ucast (right_shift (x + push_bit (n - 1) 1) n)"

definition flss :: "u16 \<Rightarrow> nat" where
  "flss val =
     (if val = 0 then 0
      else
        let bt = 16;
            (bt, val) = (if val AND 0xff00 = 0 then (bt - 8, push_bit 8 val) else (bt, val));
            (bt, val) = (if val AND 0xf000 = 0 then (bt - 4, push_bit 4 val) else (bt, val));
            (bt, val) = (if val AND 0xc000 = 0 then (bt - 2, push_bit 2 val) else (bt, val))
        in if val AND 0x8000 = 0 then bt - 1 else bt)"

definition compute_reciprocal :: "u16 \<Rightarrow> divisor_part \<times> nat" where
  "compute_reciprocal divisor =
     (if divisor = 1 then (\<lparr>recip = 1, corr = 0\<rparr>, 0)
      else
        let b = flss divisor;
            r = 2 * 8 + b - 1;
            divisor = ucast divisor :: u32;
            fq = push_bit r 1 div divisor;
            fr = push_bit r 1 mod divisor;
            c = divisor div 2;
            (fq, c, r) =
              (if fr = 0 then (drop_bit 1 fq, c, r - 1)
               else if fr \<le> divisor div 2 then (fq, c + 1, r)
               else (fq + 1, c, r))
        in (\<lparr>recip = ucast fq, corr = ucast c\<rparr>, r))"

definition set_divisor :: "u8 \<Rightarrow> u16 \<Rightarrow> divisor_part \<times> nat" where
  "set_divisor quant_val aanscale =
     compute_reciprocal (descale (ucast quant_val * ucast aanscale) (CONST_BITS - 3))"

definition set_divisors :: "quant_tbl list \<Rightarrow> (divisor_part \<times> nat) list list" where
  "set_divisors quant_tbls = map (\<lambda>tbl. map2 set_divisor tbl AANSCALES) quant_tbls"

section \<open>The quantiser\<close>

definition sign_mask :: "i16 \<Rightarrow> i16" where
  "sign_mask temp = signed_drop_bit 15 temp"

text \<open>One coefficient: the absolute value times the reciprocal, shifted, with its sign put back.\<close>

definition quantize1 :: "divisor_part \<times> nat \<Rightarrow> i16 \<Rightarrow> i16" where
  "quantize1 dp temp =
     (let recip = ucast (recip (fst dp)) :: u32;
          corr = scast (corr (fst dp)) :: u32;
          sign1 = sign_mask temp;
          abs = (temp + sign1) XOR sign1;
          product = (scast abs + corr) * recip;
          product = drop_bit (snd dp) product
      in (ucast product XOR sign1) - sign1)"

fun bit_len :: "nat \<Rightarrow> nat" where
  "bit_len n = (if n = 0 then 0 else Suc (bit_len (n div 2)))"

declare bit_len.simps [simp del]

definition leading_zeros :: "i32 \<Rightarrow> nat" where
  "leading_zeros x = 32 - bit_len (unat x)"

definition jpeg_nbits_nonzero :: "i32 \<Rightarrow> nat" where
  "jpeg_nbits_nonzero x = 4 * 8 - leading_zeros x"

definition rescale_prev :: "bool \<Rightarrow> bool \<Rightarrow> i16 \<Rightarrow> nat \<Rightarrow> i16" where
  "rescale_prev rescale shr c s =
     (if rescale then
        if shr then
          let mask = push_bit s 1 - 1;
              off = (if c <s 0 then 1 else 0) AND (if 0 <s c AND mask then 1 else 0)
          in signed_drop_bit s c + off
        else push_bit s c
      else c)"

section \<open>Bit lengths\<close>

lemma bit_len_bounds: "n \<noteq> 0 \<Longrightarrow> 2 ^ (bit_len n - 1) \<le> n \<and> n < 2 ^ bit_len n \<and> 0 < bit_len n"
proof (induction n rule: bit_len.induct)
  case (1 n)
  show ?case
  proof (cases "n div 2 = 0")
    case True
    then have "n = 1" using 1 by simp
    then show ?thesis by (simp add: bit_len.simps)
  next
    case False
    then have ih: "2 ^ (bit_len (n div 2) - 1) \<le> n div 2" "n div 2 < 2 ^ bit_len (n div 2)"
      "0 < bit_len (n div 2)" using 1 by auto
    have e: "bit_len n = Suc (bit_len (n div 2))" using 1 by (subst bit_len.simps) simp
    have "2 * 2 ^ (bit_len (n div 2) - 1) = (2 :: nat) ^ bit_len (n div 2)"
      using ih(3) by (metis Suc_diff_1 power_Suc)
    then have "(2 :: nat) ^ bit_len (n div 2) \<le> n" using ih(1) by linarith
    moreover have "n < 2 * 2 ^ bit_len (n div 2)" using ih(2) by linarith
    ultimately show ?thesis unfolding e by simp
  qed
qed

lemma bit_len_unique:
  assumes "2 ^ k \<le> n" "n < 2 ^ Suc k"
  shows "bit_len n = Suc k"
proof -
  have n: "n \<noteq> 0" using assms(1) by (metis not_one_le_zero one_le_power one_le_numeral le_trans)
  note b = bit_len_bounds [OF n]
  have "(2 :: nat) ^ (bit_len n - 1) < 2 ^ Suc k" "(2 :: nat) ^ k < 2 ^ bit_len n"
    using b assms by linarith+
  then have "bit_len n - 1 < Suc k" "k < bit_len n"
    using power_less_imp_less_exp [of "2 :: nat"] by (metis one_less_numeral_iff semiring_norm(76))+
  then show ?thesis by simp
qed

lemma and_high_mask:
  fixes v :: u16
  assumes "k \<le> 16"
  shows "v AND NOT (mask k) = 0 \<longleftrightarrow> unat v < 2 ^ k"
proof -
  have "v AND NOT (mask k) = push_bit k (drop_bit k v)"
    by (rule bit_word_eqI) (auto simp: bit_simps)
  also have "\<dots> = 0 \<longleftrightarrow> drop_bit k v = 0"
  proof
    assume "push_bit k (drop_bit k v) = 0"
    then have "drop_bit k (push_bit k (drop_bit k v)) = 0" by simp
    moreover have "drop_bit k (push_bit k (drop_bit k v)) = drop_bit k v"
      by (rule bit_word_eqI) (auto simp: bit_simps dest: bit_imp_le_length)
    ultimately show "drop_bit k v = 0" by simp
  qed simp
  also have "\<dots> \<longleftrightarrow> unat (drop_bit k v) = 0" by (simp add: unat_eq_0)
  also have "\<dots> \<longleftrightarrow> unat v < 2 ^ k" by (simp add: unat_drop_bit div_eq_0_iff)
  finally show ?thesis .
qed

lemma high_masks:
  "(0xff00 :: u16) = NOT (mask 8)" "(0xf000 :: u16) = NOT (mask 12)"
  "(0xc000 :: u16) = NOT (mask 14)" "(0x8000 :: u16) = NOT (mask 15)"
  by (simp_all add: mask_eq_exp_minus_1)

text \<open>One narrowing step of \<open>flss\<close>: it keeps the position of the top bit.\<close>

lemma flss_step:
  fixes v :: u16
  assumes "unat v < 2 ^ (16 - k)" "k \<le> 16"
  shows "unat (push_bit k v) = unat v * 2 ^ k"
proof -
  have "unat v * 2 ^ k < 2 ^ (16 - k) * 2 ^ k" using assms(1) by simp
  also have "\<dots> = (2 :: nat) ^ 16" using assms(2) by (metis le_add_diff_inverse2 power_add)
  finally have "unat v * 2 ^ k < 2 ^ 16" .
  then show ?thesis
    unfolding unsigned_push_bit_eq push_bit_nat_def by (simp add: take_bit_nat_eq_self)
qed

lemma bit_len_shift: "n \<noteq> 0 \<Longrightarrow> bit_len (n * 2 ^ k) = bit_len n + k"
proof (induction k)
  case (Suc k)
  have "bit_len (n * 2 ^ Suc k) = Suc (bit_len (n * 2 ^ Suc k div 2))"
    using Suc.prems by (subst bit_len.simps) simp
  also have "n * 2 ^ Suc k div 2 = n * 2 ^ k" by simp
  finally show ?case using Suc by simp
qed simp

text \<open>The narrowing invariant: the value is \<open>n\<close> moved up, and its length lies in the last \<open>k\<close> places
  below the counter.\<close>

definition flss_inv :: "nat \<Rightarrow> nat \<Rightarrow> nat \<Rightarrow> u16 \<Rightarrow> bool" where
  "flss_inv n k bt v \<longleftrightarrow>
     k \<le> bt \<and> bt \<le> 16 \<and> 2 ^ (bt - k) \<le> n \<and> n < 2 ^ bt \<and> unat v = n * 2 ^ (16 - bt)"

lemma flss_inv_test:
  assumes "flss_inv n (2 * h) bt v"
  shows "v AND NOT (mask (16 - h)) = 0 \<longleftrightarrow> n < 2 ^ (bt - h)"
proof -
  have h: "h \<le> bt" "bt \<le> 16" "unat v = n * 2 ^ (16 - bt)" using assms by (auto simp: flss_inv_def)
  have "v AND NOT (mask (16 - h)) = 0 \<longleftrightarrow> n * 2 ^ (16 - bt) < 2 ^ (16 - h)"
    by (simp add: and_high_mask h(3))
  also have "(2 :: nat) ^ (16 - h) = 2 ^ (bt - h) * 2 ^ (16 - bt)"
    using h by (simp add: power_add [symmetric])
  finally show ?thesis by simp
qed

lemma flss_inv_step:
  assumes "flss_inv n (2 * h) bt v" "v' = (if n < 2 ^ (bt - h) then push_bit h v else v)"
    "bt' = (if n < 2 ^ (bt - h) then bt - h else bt)"
  shows "flss_inv n h bt' v'"
proof (cases "n < 2 ^ (bt - h)")
  case True
  have i: "2 * h \<le> bt" "bt \<le> 16" "unat v = n * 2 ^ (16 - bt)" "2 ^ (bt - 2 * h) \<le> n"
    using assms(1) by (auto simp: flss_inv_def)
  have "n * 2 ^ (16 - bt) < 2 ^ (bt - h) * 2 ^ (16 - bt)" using True by simp
  also have "\<dots> = (2 :: nat) ^ (16 - h)" using i by (simp add: power_add [symmetric])
  finally have "unat (push_bit h v) = unat v * 2 ^ h" using i by (intro flss_step) auto
  also have "\<dots> = n * 2 ^ (16 - (bt - h))" using i by (simp add: power_add [symmetric])
  finally show ?thesis using True i assms(2,3) by (auto simp: flss_inv_def mult_2)
qed (use assms in \<open>auto simp: flss_inv_def\<close>)

lemma flss_bit_len: "flss v = bit_len (unat v)"
proof (cases "v = 0")
  case True
  then show ?thesis by (simp add: flss_def bit_len.simps)
next
  case False
  let ?n = "unat v"
  have n: "1 \<le> ?n" "?n < 2 ^ 16" using False unat_less_exp [of v] by (auto simp: unat_gt_0 Suc_le_eq)
  have i0: "flss_inv ?n (2 * 8) 16 v" using n by (simp add: flss_inv_def)
  define v1 b1 where 1: "v1 = (if ?n < 2 ^ (16 - 8) then push_bit 8 v else v)"
    "b1 = (if ?n < 2 ^ (16 - 8) then 16 - 8 else 16 :: nat)"
  have i1: "flss_inv ?n (2 * 4) b1 v1" using flss_inv_step [OF i0 1] by simp
  define v2 b2 where 2: "v2 = (if ?n < 2 ^ (b1 - 4) then push_bit 4 v1 else v1)"
    "b2 = (if ?n < 2 ^ (b1 - 4) then b1 - 4 else b1)"
  have i2: "flss_inv ?n (2 * 2) b2 v2" using flss_inv_step [OF i1 2] by simp
  define v3 b3 where 3: "v3 = (if ?n < 2 ^ (b2 - 2) then push_bit 2 v2 else v2)"
    "b3 = (if ?n < 2 ^ (b2 - 2) then b2 - 2 else b2)"
  have i3: "flss_inv ?n (2 * 1) b3 v3" using flss_inv_step [OF i2 3] by simp
  have t: "v AND 0xff00 = 0 \<longleftrightarrow> ?n < 2 ^ (16 - 8)" "v1 AND 0xf000 = 0 \<longleftrightarrow> ?n < 2 ^ (b1 - 4)"
    "v2 AND 0xc000 = 0 \<longleftrightarrow> ?n < 2 ^ (b2 - 2)" "v3 AND 0x8000 = 0 \<longleftrightarrow> ?n < 2 ^ (b3 - 1)"
    using flss_inv_test [OF i0] flss_inv_test [OF i1] flss_inv_test [OF i2] flss_inv_test [OF i3]
    unfolding high_masks by simp_all
  have "(if v AND 0xff00 = 0 then (16 - 8, push_bit 8 v) else (16, v)) = (b1, v1)"
    "(if v1 AND 0xf000 = 0 then (b1 - 4, push_bit 4 v1) else (b1, v1)) = (b2, v2)"
    "(if v2 AND 0xc000 = 0 then (b2 - 2, push_bit 2 v2) else (b2, v2)) = (b3, v3)"
    unfolding t unfolding 1 2 3 by simp_all
  then have f: "flss v = (if ?n < 2 ^ (b3 - 1) then b3 - 1 else b3)"
    unfolding flss_def Let_def if_not_P [OF False] by (simp only: prod.case t(4))
  define b4 where 4: "b4 = (if ?n < 2 ^ (b3 - 1) then b3 - 1 else b3)"
  have i4: "flss_inv ?n 1 b4 (if ?n < 2 ^ (b3 - 1) then push_bit 1 v3 else v3)"
    by (rule flss_inv_step [OF i3 refl 4])
  then have "2 ^ (b4 - 1) \<le> ?n" "?n < 2 ^ Suc (b4 - 1)" "1 \<le> b4" by (auto simp: flss_inv_def)
  then have "bit_len ?n = b4" using bit_len_unique [of "b4 - 1" ?n] by simp
  then show ?thesis using f 4 by simp
qed

section \<open>The reciprocal replaces the division\<close>

text \<open>Multiplying by the rounded reciprocal and shifting divides exactly, for numerators below \<open>2 ^ 16\<close>.\<close>

lemma recip_low:
  fixes n d r :: nat
  assumes d: "2 ^ k \<le> d" "d < 2 ^ Suc k" and n: "n < 2 ^ 16" and r: "r = 16 + k"
    and fr: "0 < 2 ^ r mod d" "2 ^ r mod d \<le> d div 2"
  shows "(n + 1) * (2 ^ r div d) div 2 ^ r = n div d"
proof -
  define fq where "fq = 2 ^ r div d"
  define f where "f = 2 ^ r mod d"
  define q where "q = n div d"
  have d0: "0 < d" using d(1) by (metis less_le_trans zero_less_numeral zero_less_power)
  have e: "fq * d + f = 2 ^ r" by (simp add: fq_def f_def)
  have nq: "q * d \<le> n" "n + 1 \<le> (q + 1) * d"
    using d0 by (simp_all add: q_def) (metis Suc_leI dividend_less_div_times mult.commute mult_Suc_right add.commute)
  have "q * d \<le> n" by (fact nq(1))
  then have "q * 2 ^ k \<le> n" using d(1) by (meson le_trans mult_le_mono2)
  then have "q * 2 ^ k < 2 ^ (16 - k) * 2 ^ k \<or> 16 < k"
    using n by (cases "k \<le> 16") (auto simp: power_add [symmetric])
  have qf: "q * f \<le> fq"
  proof -
    have "2 * f \<le> d" using fr(2) by (simp add: f_def)
    then have "q * (2 * f) \<le> q * d" by (rule mult_le_mono2)
    moreover have "2 * (q * f) = q * (2 * f)" by simp
    ultimately have "2 * (q * f) \<le> n" using nq(1) by linarith
    then have a: "q * f < 2 ^ 15" using n by simp
    have "2 ^ 15 * d < 2 ^ 15 * 2 ^ Suc k" using d(2) by simp
    also have "\<dots> = (2 :: nat) ^ r" by (simp add: r power_add)
    finally have "2 ^ 15 \<le> fq" unfolding fq_def using d0 by (metis div_le_mono less_imp_le nonzero_mult_div_cancel_right less_numeral_extra(3))
    with a show ?thesis by simp
  qed
  have "q * 2 ^ r = q * d * fq + q * f" by (simp add: e [symmetric] algebra_simps)
  also have "\<dots> \<le> n * fq + fq" using nq(1) qf by (intro add_mono mult_le_mono1)
  finally have lo: "q * 2 ^ r \<le> (n + 1) * fq" by simp
  have "(n + 1) * fq \<le> (q + 1) * d * fq" using nq(2) by (rule mult_le_mono1)
  also have "\<dots> = (q + 1) * (fq * d)" by (simp only: ac_simps)
  also have "\<dots> < (q + 1) * 2 ^ r"
    using fr(1) e by (intro mult_strict_left_mono) (auto simp: f_def [symmetric])
  finally have hi: "(n + 1) * fq < (q + 1) * 2 ^ r" .
  have "(n + 1) * fq div 2 ^ r = q"
    using lo hi by (intro div_nat_eqI) (simp_all add: ac_simps)
  then show ?thesis by (simp add: q_def fq_def)
qed

lemma recip_high:
  fixes n d r :: nat
  assumes d: "2 ^ k \<le> d" "d < 2 ^ Suc k" and n: "n < 2 ^ 16" and r: "r = 16 + k"
    and fr: "d div 2 < 2 ^ r mod d"
  shows "n * (2 ^ r div d + 1) div 2 ^ r = n div d"
proof -
  define fq where "fq = 2 ^ r div d"
  define g where "g = d - 2 ^ r mod d"
  define q where "q = n div d"
  have d0: "0 < d" using d(1) by (metis less_le_trans zero_less_numeral zero_less_power)
  have "2 ^ r mod d < d" using d0 by simp
  moreover have "fq * d + 2 ^ r mod d = 2 ^ r" by (simp add: fq_def)
  ultimately have e: "(fq + 1) * d = 2 ^ r + g" unfolding g_def by (simp add: algebra_simps)
  have nq: "q * d \<le> n" "n + 1 \<le> (q + 1) * d"
    using d0 by (simp_all add: q_def) (metis Suc_leI dividend_less_div_times mult.commute mult_Suc_right add.commute)
  have g: "g \<le> 2 ^ k" using fr d(2) by (simp add: g_def)
  have "n * g \<le> n * 2 ^ k" using g by simp
  also have "\<dots> < 2 ^ 16 * 2 ^ k" using n by simp
  finally have ng: "n * g < 2 ^ r" by (simp add: r power_add)
  have "q * 2 ^ r \<le> q * ((fq + 1) * d)" using e by (intro mult_le_mono2) simp
  also have "\<dots> \<le> n * (fq + 1)" using mult_le_mono1 [OF nq(1), of "fq + 1"] by (simp add: algebra_simps)
  finally have lo: "q * 2 ^ r \<le> n * (fq + 1)" .
  have "n * (fq + 1) * d = n * (2 ^ r + g)" by (simp only: e [symmetric] mult.assoc)
  then have "n * (fq + 1) * d = n * 2 ^ r + n * g" by (simp add: distrib_left)
  also have "\<dots> < (n + 1) * 2 ^ r" using ng by simp
  also have "\<dots> \<le> (q + 1) * d * 2 ^ r" using nq(2) by (rule mult_le_mono1)
  finally have "n * (fq + 1) * d < (q + 1) * d * 2 ^ r" .
  moreover have "(q + 1) * d * 2 ^ r = (q + 1) * 2 ^ r * d" by (simp only: ac_simps)
  ultimately have "n * (fq + 1) * d < (q + 1) * 2 ^ r * d" by simp
  then have hi: "n * (fq + 1) < (q + 1) * 2 ^ r" by (rule mult_right_less_imp_less) simp
  have "n * (fq + 1) div 2 ^ r = q"
    using lo hi by (intro div_nat_eqI) (simp_all add: ac_simps)
  then show ?thesis by (simp add: q_def fq_def)
qed

lemma sign_mask_cases: "sign_mask x = (if sint x < 0 then - 1 else 0)"
proof (rule bit_word_eqI)
  fix n
  assume n: "n < LENGTH(16)"
  then show "bit (sign_mask x) n = bit (if sint x < 0 then - 1 else 0 :: i16) n"
    using bit_last_iff [of x]
    by (cases "n = 0") (auto simp: sign_mask_def bit_signed_drop_bit_iff not_less)
qed

lemma abs_word:
  assumes "sint x \<noteq> - 32768"
  shows "unat ((x + sign_mask x) XOR sign_mask x) = nat \<bar>sint x\<bar>" "nat \<bar>sint (x :: i16)\<bar> < 2 ^ 15"
proof -
  have b: "- 32768 \<le> sint x" "sint x < 32768" using sint_ge [of x] sint_lt [of x] by simp_all
  then show "nat \<bar>sint x\<bar> < 2 ^ 15" using assms by auto
  show "unat ((x + sign_mask x) XOR sign_mask x) = nat \<bar>sint x\<bar>"
  proof (cases "sint x < 0")
    case True
    have "(x + - 1) XOR - 1 = - x"
      by (simp add: bit.xor_one_right not_eq_complement)
    moreover have "uint (- x) = - sint x"
    proof -
      have "- x = word_of_int (- sint x)" by simp
      then show ?thesis using True b by (simp only: uint_word_of_int) (simp add: take_bit_int_eq_self)
    qed
    ultimately show ?thesis using True by (simp add: sign_mask_cases unat_eq_nat_uint)
  next
    case False
    have "uint x = sint x"
      using False b by (simp add: uint_sint take_bit_int_eq_self)
    then show ?thesis using False by (simp add: sign_mask_cases unat_eq_nat_uint)
  qed
qed

lemma signed_result:
  assumes "n < 2 ^ 15"
  shows "sint ((of_nat n XOR sign_mask x) - sign_mask x :: i16) = (if sint x < 0 then - int n else int n)"
proof -
  have i: "sint (word_of_int k :: i16) = k" if "- 32768 \<le> k" "k < 32768" for k
    using that by (simp add: signed_of_int signed_take_bit_int_eq_self)
  show ?thesis
  proof (cases "sint x < 0")
    case True
    have "(of_nat n XOR - 1) - - 1 = (- of_nat n :: i16)"
      by (simp add: bit.xor_one_right not_eq_complement)
    also have "\<dots> = word_of_int (- int n)" by simp
    finally show ?thesis using True i [of "- int n"] assms by (simp add: sign_mask_cases)
  next
    case False
    then show ?thesis using i [of "int n"] assms by (simp add: sign_mask_cases)
  qed
qed

text \<open>The abstract values behind \<open>compute_reciprocal\<close>.\<close>

definition recip_nat :: "nat \<Rightarrow> nat \<times> nat \<times> nat" where
  "recip_nat d =
     (if d = 1 then (1, 0, 0)
      else let r = 16 + bit_len d - 1; fq = 2 ^ r div d; fr = 2 ^ r mod d in
        if fr = 0 then (fq div 2, d div 2, r - 1)
        else if fr \<le> d div 2 then (fq, d div 2 + 1, r) else (fq + 1, d div 2, r))"

lemma dvd_power_two: "(d :: nat) dvd 2 ^ n \<Longrightarrow> \<exists>j. d = 2 ^ j"
proof (induction n arbitrary: d)
  case 0
  then show ?case by (auto intro: exI [of _ 0])
next
  case (Suc n)
  show ?case
  proof (cases "even d")
    case True
    then obtain e where e: "d = 2 * e" by blast
    then obtain j where "e = 2 ^ j" using Suc by auto
    then show ?thesis using e by (intro exI [of _ "Suc j"]) simp
  next
    case False
    then have "coprime d 2" by simp
    then have "d dvd 2 ^ n" using Suc.prems by (simp add: coprime_dvd_mult_right_iff)
    then show ?thesis by (rule Suc.IH)
  qed
qed

lemma bit_len_le: "n \<noteq> 0 \<Longrightarrow> n < 2 ^ m \<Longrightarrow> bit_len n \<le> m"
proof (rule ccontr)
  assume n: "n \<noteq> 0" "n < 2 ^ m" and "\<not> bit_len n \<le> m"
  then have "(2 :: nat) ^ m \<le> 2 ^ (bit_len n - 1)" by (intro power_increasing) auto
  then show False using bit_len_bounds [OF n(1)] n(2) by linarith
qed

lemma recip_nat_divides:
  assumes d: "0 < d" "d < 2 ^ 15" and a: "a < 2 ^ 15" and r: "recip_nat d = (fq, c, s)"
  shows "(a + c) * fq div 2 ^ s = (a + d div 2) div d" "fq < 2 ^ 16" "c < 2 ^ 15 \<and> c \<le> d div 2 + 1"
proof -
  have "(a + c) * fq div 2 ^ s = (a + d div 2) div d \<and> fq < 2 ^ 16 \<and> c \<le> d div 2 + 1"
  proof (cases "d = 1")
    case True
    then show ?thesis using r by (auto simp: recip_nat_def)
  next
    case False
    obtain k where k: "bit_len d = Suc k" "2 ^ k \<le> d" "d < 2 ^ Suc k"
      using bit_len_bounds [of d] d(1) by (cases "bit_len d") auto
    let ?r = "16 + k"
    have k14: "k < 15" using k(2) d(2) by (meson le_less_trans one_less_numeral_iff power_less_imp_less_exp semiring_norm(76))
    have n: "a + d div 2 < 2 ^ 16" using a d(2) by simp
    have r': "(if 2 ^ ?r mod d = 0 then (2 ^ ?r div d div 2, d div 2, ?r - 1)
        else if 2 ^ ?r mod d \<le> d div 2 then (2 ^ ?r div d, d div 2 + 1, ?r)
        else (2 ^ ?r div d + 1, d div 2, ?r)) = (fq, c, s)"
      using r False k(1) by (simp add: recip_nat_def Let_def)
    have big: "2 ^ k < d" if "2 ^ ?r mod d \<noteq> 0"
    proof (rule ccontr)
      assume "\<not> 2 ^ k < d"
      then have "d = 2 ^ k" using k(2) by simp
      then show False using that by (simp add: power_add)
    qed
    have lt: "2 ^ ?r div d + 4 \<le> 2 ^ 16" if "2 ^ ?r mod d \<noteq> 0"
    proof -
      have "(2 ^ 16 - 4 + 1) * (2 ^ k + 1) > (2 :: nat) ^ ?r \<or> 2 ^ 14 < (2 :: nat) ^ k"
      proof (cases "k < 15")
        case True
        then have "(2 :: nat) ^ k \<le> 2 ^ 14" by (intro power_increasing) auto
        then show ?thesis by (simp add: power_add)
      qed (use k14 in simp)
      moreover have "(2 :: nat) ^ k \<le> 2 ^ 14" using k14 by (intro power_increasing) auto
      ultimately have "(2 :: nat) ^ ?r < (2 ^ 16 - 4 + 1) * (2 ^ k + 1)" by simp
      also have "\<dots> \<le> (2 ^ 16 - 4 + 1) * d" using big [OF that] by (intro mult_le_mono2) simp
      finally have "2 ^ ?r div d < 2 ^ 16 - 4 + 1" by (rule less_mult_imp_div_less)
      then show ?thesis by simp
    qed
    consider "2 ^ ?r mod d = 0" | "2 ^ ?r mod d \<noteq> 0" "2 ^ ?r mod d \<le> d div 2" | "d div 2 < 2 ^ ?r mod d" by linarith
    then show ?thesis
    proof cases
      case 1
      have "d dvd 2 ^ ?r" using 1 by auto
      then obtain j where j: "d = 2 ^ j" using dvd_power_two by blast
      have "(2 :: nat) ^ k \<le> 2 ^ j" "(2 :: nat) ^ j < 2 ^ Suc k" using k(2,3) j by simp_all
      then have "k \<le> j" "j < Suc k"
        using power_le_imp_le_exp [of "2 :: nat" k j] power_less_imp_less_exp [of "2 :: nat" j "Suc k"]
        by auto
      then have d': "d = 2 ^ k" using j by simp
      have "fq = 2 ^ 15" "c = d div 2" "s = 15 + k" using r' 1 d' by (simp_all add: power_add)
      moreover have "(a + c) * 2 ^ 15 div 2 ^ (15 + k) = (a + c) div 2 ^ k"
      proof -
        have "(2 :: nat) ^ (15 + k) = 2 ^ 15 * 2 ^ k" by (rule power_add)
        then show ?thesis by (simp only: mult.commute [of "a + c"] div_mult2_eq nonzero_mult_div_cancel_left) simp
      qed
      ultimately show ?thesis using d' by simp
    next
      case 2
      have f: "fq = 2 ^ ?r div d" "c = d div 2 + 1" "s = ?r"
        using r' unfolding if_not_P [OF 2(1)] if_P [OF 2(2)] prod.inject by blast+
      show ?thesis unfolding f
        using recip_low [OF k(2,3) n refl _ 2(2)] 2(1) lt [OF 2(1)] by (simp add: add.assoc)
    next
      case 3
      then have nz: "2 ^ ?r mod d \<noteq> 0" "\<not> 2 ^ ?r mod d \<le> d div 2" by simp_all
      have f: "fq = 2 ^ ?r div d + 1" "c = d div 2" "s = ?r"
        using r' unfolding if_not_P [OF nz(1)] if_not_P [OF nz(2)] prod.inject by blast+
      show ?thesis unfolding f
        using recip_high [OF k(2,3) n refl 3] lt 3 by simp
    qed
  qed
  then show "(a + c) * fq div 2 ^ s = (a + d div 2) div d" "fq < 2 ^ 16" "c < 2 ^ 15 \<and> c \<le> d div 2 + 1"
    using d(2) by auto
qed

lemma compute_reciprocal_nat:
  assumes d: "0 < unat d" "unat d < 2 ^ 15" and r: "recip_nat (unat d) = (fq, c, s)"
  shows "compute_reciprocal d = (\<lparr>recip = of_nat fq, corr = of_nat c\<rparr>, s)"
proof (cases "d = 1")
  case True
  then show ?thesis using r by (auto simp: compute_reciprocal_def recip_nat_def)
next
  case False
  then have d1: "unat d \<noteq> 1" by (metis unat_1 word_unat_eq_iff)
  let ?d = "ucast d :: u32"
  let ?r = "16 + bit_len (unat d) - 1"
  have ud: "unat ?d = unat d" by (rule unat_ucast_up) simp
  have bl: "bit_len (unat d) \<le> 15" "0 < bit_len (unat d)"
    using bit_len_bounds [of "unat d"] bit_len_le [of "unat d" 15] d by auto
  have p: "unat (push_bit ?r 1 :: u32) = 2 ^ ?r"
    unfolding unsigned_push_bit_eq push_bit_nat_def
    using bl by (simp add: take_bit_nat_eq_self power_strict_increasing_iff)
  have q: "unat (push_bit ?r 1 div ?d :: u32) = 2 ^ ?r div unat d" "unat (push_bit ?r 1 mod ?d) = 2 ^ ?r mod unat d"
    by (simp_all only: unat_div_distrib unat_mod_distrib p ud)
  have h: "unat (?d div 2) = unat d div 2" by (simp add: unat_div_distrib ud)
  let ?FQ = "push_bit ?r 1 div ?d" and ?FR = "push_bit ?r 1 mod ?d"
  have b: "2 * 8 + bit_len (unat d) - 1 = ?r" by simp
  have fr: "?FR = 0 \<longleftrightarrow> 2 ^ ?r mod unat d = 0" "?FR \<le> ?d div 2 \<longleftrightarrow> 2 ^ ?r mod unat d \<le> unat d div 2"
    by (simp_all only: word_le_nat_alt q h unat_eq_0 [symmetric])
  have big: "(2 :: nat) ^ ?r div unat d < 2 ^ 31"
  proof -
    have "(2 :: nat) ^ ?r \<le> 2 ^ 30" using bl by (intro power_increasing) auto
    moreover have "(2 :: nat) ^ ?r div unat d \<le> 2 ^ ?r" by (rule div_le_dividend)
    ultimately have "(2 :: nat) ^ ?r div unat d \<le> 2 ^ 30" by (rule le_trans [rotated])
    then show ?thesis by simp
  qed
  have suc: "unat (x + 1) = unat x + 1" if "unat x < 2 ^ 31" for x :: u32
    using that by (subst unat_add_no_wrap) auto
  have "unat (?d div 2) < 2 ^ 31" unfolding h using d(2) by simp
  then have u: "unat (drop_bit 1 ?FQ) = 2 ^ ?r div unat d div 2" "unat (?d div 2 + 1) = unat d div 2 + 1"
    "unat (?FQ + 1) = 2 ^ ?r div unat d + 1"
    using suc [of "?d div 2"] suc [of ?FQ] big by (simp_all only: unat_drop_bit q h power_one_right)
  have c: "compute_reciprocal d =
     (case (if ?FR = 0 then (drop_bit 1 ?FQ, ?d div 2, ?r - 1)
            else if ?FR \<le> ?d div 2 then (?FQ, ?d div 2 + 1, ?r) else (?FQ + 1, ?d div 2, ?r))
      of (fq, c, r) \<Rightarrow> (\<lparr>recip = ucast fq, corr = ucast c\<rparr>, r))"
    unfolding compute_reciprocal_def if_not_P [OF False] Let_def flss_bit_len b ..
  have r': "(if 2 ^ ?r mod unat d = 0 then (2 ^ ?r div unat d div 2, unat d div 2, ?r - 1)
        else if 2 ^ ?r mod unat d \<le> unat d div 2 then (2 ^ ?r div unat d, unat d div 2 + 1, ?r)
        else (2 ^ ?r div unat d + 1, unat d div 2, ?r)) = (fq, c, s)"
    using r unfolding recip_nat_def Let_def if_not_P [OF d1] .
  have nat16: "ucast x = (of_nat (unat x) :: u16)" for x :: u32 by simp
  show ?thesis
  proof (cases "2 ^ ?r mod unat d = 0")
    case True
    have f: "fq = 2 ^ ?r div unat d div 2" "c = unat d div 2" "s = ?r - 1"
      using r' unfolding if_P [OF True] prod.inject by blast+
    show ?thesis unfolding c fr if_P [OF True] prod.case nat16 u h f ..
  next
    case nz: False
    show ?thesis
    proof (cases "2 ^ ?r mod unat d \<le> unat d div 2")
      case True
      have f: "fq = 2 ^ ?r div unat d" "c = unat d div 2 + 1" "s = ?r"
        using r' unfolding if_not_P [OF nz] if_P [OF True] prod.inject by blast+
      show ?thesis unfolding c fr if_not_P [OF nz] if_P [OF True] prod.case nat16 u q f ..
    next
      case False
      have f: "fq = 2 ^ ?r div unat d + 1" "c = unat d div 2" "s = ?r"
        using r' unfolding if_not_P [OF nz] if_not_P [OF False] prod.inject by blast+
      show ?thesis unfolding c fr if_not_P [OF nz] if_not_P [OF False] prod.case nat16 u h f ..
    qed
  qed
qed

lemma scast_small:
  assumes "unat (w :: i16) < 2 ^ 15"
  shows "(scast w :: u32) = of_nat (unat w)"
proof -
  have i: "uint w = int (unat w)" by simp
  have "unat w < 32768" using assms by simp
  then have "int (unat w) < 32768" by linarith
  then have "uint w < 32768" by (simp only: i)
  moreover have "- 32768 \<le> uint w" using unsigned_greater_eq [of w] by (rule order_trans [rotated]) simp
  ultimately have s: "sint w = uint w" by (simp add: sint_uint signed_take_bit_int_eq_self)
  show ?thesis unfolding scast_eq s i by (simp only: of_int_of_nat_eq)
qed

text \<open>C17: the quantiser is a rounded division. For every divisor the tables can produce and every
  coefficient but the most negative one, multiplying by the precomputed reciprocal and shifting gives
  the coefficient divided by the divisor, rounded to the nearest integer, halves away from zero.\<close>
theorem quantize_rounds:
  assumes "0 < unat d" and "unat d < 2 ^ 15" and "sint x \<noteq> - 32768"
  shows "sint (quantize1 (compute_reciprocal d) x)
    = sgn (sint x) * ((\<bar>sint x\<bar> + int (unat d div 2)) div int (unat d))"
proof -
  obtain fq c s where r: "recip_nat (unat d) = (fq, c, s)" by (cases "recip_nat (unat d)")
  let ?a = "nat \<bar>sint x\<bar>"
  note a = abs_word [OF assms(3)]
  note n = recip_nat_divides [OF assms(1,2) a(2) r]
  let ?A = "(x + sign_mask x) XOR sign_mask x"
  let ?q = "(?a + unat d div 2) div unat d"
  have A: "(scast ?A :: u32) = of_nat ?a" using scast_small [of ?A] a by simp
  have uc: "unat (of_nat c :: i16) = c" "unat (of_nat fq :: i16) = fq"
    using n(2,3) by (simp_all add: unat_of_nat_small)
  then have C: "(scast (of_nat c :: i16) :: u32) = of_nat c" using scast_small [of "of_nat c"] n(3) by simp
  have F: "(ucast (of_nat fq :: i16) :: u32) = of_nat fq"
    using uc(2) by (metis of_nat_unat)
  have ac: "?a + c < 2 ^ 16" using a(2) n(3) by simp
  have "(?a + c) * fq \<le> 2 ^ 16 * fq" using ac by (intro mult_le_mono1) simp
  also have "\<dots> < 2 ^ 16 * 2 ^ 16" using n(2) by simp
  finally have big: "(?a + c) * fq < 2 ^ 32" by simp
  have P: "(of_nat ?a + of_nat c) * of_nat fq = (of_nat ((?a + c) * fq) :: u32)" by simp
  have "unat (of_nat ((?a + c) * fq) :: u32) = (?a + c) * fq"
    using big by (intro unat_of_nat_small) simp
  then have "unat (drop_bit s (of_nat ((?a + c) * fq) :: u32)) = ?q"
    using n(1) by (simp only: unat_drop_bit)
  then have D: "ucast (drop_bit s (of_nat ((?a + c) * fq) :: u32)) = (of_nat ?q :: i16)"
    by (metis of_nat_unat)
  have "?q \<le> ?a + unat d div 2" by (rule div_le_dividend)
  have q15: "?q < 2 ^ 15"
  proof (cases "unat d = 1")
    case False
    then have "?q \<le> (?a + unat d div 2) div 2" using assms(1) by (intro div_le_mono2) auto
    moreover have "(?a + unat d div 2) div 2 < 2 ^ 15" using a(2) assms(2) by linarith
    ultimately show ?thesis by (rule le_less_trans)
  qed (use a(2) in simp)
  have "quantize1 (compute_reciprocal d) x = (of_nat ?q XOR sign_mask x) - sign_mask x"
    unfolding quantize1_def compute_reciprocal_nat [OF assms(1,2) r] Let_def fst_conv snd_conv
      divisor_part.select_convs A C F P D ..
  moreover have "int ?q = (\<bar>sint x\<bar> + int (unat d div 2)) div int (unat d)"
    by (simp add: zdiv_int)
  moreover have "?q = 0" if "sint x = 0"
    using that assms(1) by (simp add: div_less_iff_less_mult)
  ultimately show ?thesis using signed_result [OF q15, of x]
    by (auto simp: sgn_if simp del: of_nat_unat)
qed

theorem quantize_rounds_witness:
  "sint (quantize1 (compute_reciprocal 12) (- 100)) = - 8 \<and> sint (quantize1 (compute_reciprocal 12) 102) = 9"
  using quantize_rounds [of 12 "- 100"] quantize_rounds [of 12 102] by simp

text \<open>The divisors of the tables are in the range of the theorem: no entry of a quality-scaled table is
  zero, and no product with a scale factor leaves it.\<close>

lemma quant_entry_pos: "1 \<le> unat (quant_entry sf b)"
proof -
  define t where "t = (ucast b * sf + 50 :: u32) div 100"
  define t' where "t' = (if t \<le> 0 then 1 else if 255 < t then 255 else t)"
  have "1 \<le> unat t'" "unat t' \<le> 255"
    by (auto simp: t'_def word_le_nat_alt word_less_nat_alt Suc_le_eq unat_gt_0)
  then have "unat (ucast t' :: u8) = unat t'"
    by (simp add: unsigned_ucast_eq take_bit_nat_eq_self)
  moreover have "quant_entry sf b = ucast t'" by (simp add: quant_entry_def t_def t'_def Let_def)
  ultimately show ?thesis using \<open>1 \<le> unat t'\<close> by simp
qed

lemma aanscales_range: "a \<in> set AANSCALES \<Longrightarrow> 1247 \<le> unat a \<and> unat a \<le> 31521"
  by (auto simp: AANSCALES_def)

lemma table_divisor_range:
  assumes "1 \<le> unat (q :: u8)" "a \<in> set AANSCALES"
  shows "0 < unat (descale (ucast q * ucast a) (CONST_BITS - 3))"
    "unat (descale (ucast q * ucast a) (CONST_BITS - 3)) < 2 ^ 15"
proof -
  let ?Q = "ucast q :: u32" and ?A = "ucast a :: u32"
  have u: "unat ?Q = unat q" "unat ?A = unat a" by (simp_all add: unat_ucast_up)
  have q: "unat q \<le> 255" using unat_less_exp [of q] by simp
  note a = aanscales_range [OF assms(2)]
  have "unat q * unat a \<le> 255 * 31521" using q a by (intro mult_le_mono) auto
  then have m: "unat (?Q * ?A) = unat q * unat a" by (subst unat_mult_no_wrap) (simp_all add: u)
  have one: "unat (push_bit 10 1 :: u32) = 1024" by simp
  have s: "unat (?Q * ?A + push_bit 10 1) = unat q * unat a + 1024"
    using \<open>unat q * unat a \<le> 255 * 31521\<close> by (subst unat_add_no_wrap) (simp_all only: m one, simp)
  have r: "unat (right_shift (?Q * ?A + push_bit 10 1) 11) = (unat q * unat a + 1024) div 2 ^ 11"
    unfolding right_shift_def unat_drop_bit s ..
  have "1 * 1247 \<le> unat q * unat a" using assms(1) a by (intro mult_le_mono) auto
  then have lo: "0 < (unat q * unat a + 1024) div 2 ^ 11" by (simp add: div_greater_zero_iff)
  have "(unat q * unat a + 1024) div 2 ^ 11 \<le> (255 * 31521 + 1024) div 2 ^ 11"
    using \<open>unat q * unat a \<le> 255 * 31521\<close> by (intro div_le_mono) simp
  then have hi: "(unat q * unat a + 1024) div 2 ^ 11 < 2 ^ 15" by simp
  have "unat (ucast (right_shift (?Q * ?A + push_bit 10 1) 11) :: u16) = (unat q * unat a + 1024) div 2 ^ 11"
    using hi by (simp only: unsigned_ucast_eq r) (simp add: take_bit_nat_eq_self)
  then have "unat (descale (?Q * ?A) (CONST_BITS - 3)) = (unat q * unat a + 1024) div 2 ^ 11"
    by (simp add: descale_def CONST_BITS_def)
  with lo hi show "0 < unat (descale (?Q * ?A) (CONST_BITS - 3))" "unat (descale (?Q * ?A) (CONST_BITS - 3)) < 2 ^ 15"
    by simp_all
qed

section \<open>Blocks and delta coding\<close>

text \<open>The bit counts of the trial run are (DC, AC); \<open>prev\<close> and \<open>next\<close> are the coefficient blocks behind
  the two pointers.\<close>

definition abs16 :: "i16 \<Rightarrow> i16" where
  "abs16 t = (if t <s 0 then - t else t)"

definition quantize_step ::
  "bool \<Rightarrow> bool \<Rightarrow> bool \<Rightarrow> bool \<Rightarrow> (divisor_part \<times> nat) list \<Rightarrow> nat list \<Rightarrow> nat
    \<Rightarrow> (u16 \<times> u16) \<times> i16 list \<times> i16 list \<times> i16 list \<Rightarrow> (u16 \<times> u16) \<times> i16 list \<times> i16 list \<times> i16 list" where
  "quantize_step delta_q update_prev rescale shr divs rp_shifts i st =
     (case st of ((dc, ac), inout, prev, next) \<Rightarrow>
        let temp = quantize1 (divs ! i) (inout ! i)
        in if delta_q then
             if update_prev then
               let prev = prev[i := rescale_prev rescale shr (prev ! i) (rp_shifts ! i)];
                   nxt = temp;
                   temp = temp - prev ! i;
                   prev = prev[i := nxt]
               in ((dc, ac), inout[i := temp], prev, next)
             else
               let prev = prev[i := rescale_prev rescale shr (prev ! i) (rp_shifts ! i)];
                   next = next[i := temp];
                   temp = temp - prev ! i;
                   nbits = of_nat (jpeg_nbits_nonzero (scast (abs16 temp)))
               in (if i = 0 then (dc + nbits, ac) else (dc, ac + nbits), inout[i := temp], prev, next)
           else ((dc, ac), inout[i := temp], prev, next))"

definition do_quantize ::
  "bool \<Rightarrow> bool \<Rightarrow> bool \<Rightarrow> bool \<Rightarrow> (divisor_part \<times> nat) list \<Rightarrow> nat list
    \<Rightarrow> i16 list \<Rightarrow> i16 list \<Rightarrow> i16 list \<Rightarrow> (u16 \<times> u16) \<times> i16 list \<times> i16 list \<times> i16 list" where
  "do_quantize delta_q update_prev rescale shr divs rp_shifts inout prev next =
     fold (quantize_step delta_q update_prev rescale shr divs rp_shifts) [0 ..< DCTSIZE2]
       ((0, 0), inout, prev, next)"

definition do_quantize_update_prev ::
  "bool \<Rightarrow> bool \<Rightarrow> bool \<Rightarrow> (divisor_part \<times> nat) list \<Rightarrow> nat list
    \<Rightarrow> i16 list \<Rightarrow> i16 list \<Rightarrow> i16 list \<Rightarrow> (u16 \<times> u16) \<times> i16 list \<times> i16 list \<times> i16 list" where
  "do_quantize_update_prev update_prev rescale shr divs rp_shifts inout prev next =
     (if rescale then
        if shr then do_quantize True update_prev True True divs rp_shifts inout prev next
        else do_quantize True update_prev True False divs rp_shifts inout prev next
      else do_quantize True update_prev False False divs rp_shifts inout prev next)"

definition do_quantize_delta_q ::
  "bool \<Rightarrow> bool \<Rightarrow> bool \<Rightarrow> (divisor_part \<times> nat) list \<Rightarrow> nat list
    \<Rightarrow> i16 list \<Rightarrow> i16 list \<Rightarrow> i16 list \<Rightarrow> (u16 \<times> u16) \<times> i16 list \<times> i16 list \<times> i16 list" where
  "do_quantize_delta_q update_prev rescale shr divs rp_shifts inout prev next =
     (if update_prev then do_quantize_update_prev True rescale shr divs rp_shifts inout prev next
      else do_quantize_update_prev False rescale shr divs rp_shifts inout prev next)"

definition quantize ::
  "bool \<Rightarrow> bool \<Rightarrow> bool \<Rightarrow> bool \<Rightarrow> (divisor_part \<times> nat) list \<Rightarrow> nat list
    \<Rightarrow> i16 list \<Rightarrow> i16 list \<Rightarrow> i16 list \<Rightarrow> (u16 \<times> u16) \<times> i16 list \<times> i16 list \<times> i16 list" where
  "quantize delta_q update_prev rescale shr divs rp_shifts inout prev next =
     (if \<not> delta_q then do_quantize False False False False divs rp_shifts inout prev next
      else do_quantize_delta_q update_prev rescale shr divs rp_shifts inout prev next)"

lemma quantize_delta:
  "quantize True update_prev rescale shr divs rp_shifts inout prev next =
     do_quantize True update_prev rescale (rescale \<and> shr) divs rp_shifts inout prev next"
  by (auto simp: quantize_def do_quantize_delta_q_def do_quantize_update_prev_def)

lemma rescale_prev_noshr [simp]: "rescale_prev rescale (rescale \<and> shr) = rescale_prev rescale shr"
  by (intro ext) (simp add: rescale_prev_def)

text \<open>What the loop leaves in the three blocks.\<close>

lemma list_update_map_upt:
  "n < length xs \<Longrightarrow> (map f [0 ..< n] @ drop n xs)[n := f n] = map f [0 ..< Suc n] @ drop (Suc n) xs"
  by (auto simp: list_update_append Cons_nth_drop_Suc [symmetric])

lemma nth_map_drop: "n < length xs \<Longrightarrow> (map f [0 ..< n] @ drop n xs) ! n = xs ! n"
  by (simp add: nth_append)

lemma quantize_step_update:
  "n < length pv \<Longrightarrow> quantize_step True True rescale shr divs rs n ((0, 0), io, pv, nx) =
     ((0, 0), io[n := quantize1 (divs ! n) (io ! n) - rescale_prev rescale shr (pv ! n) (rs ! n)],
      pv[n := quantize1 (divs ! n) (io ! n)], nx)"
  by (simp add: quantize_step_def Let_def)

lemma quantize_update_loop:
  assumes "length io = DCTSIZE2" "length pv = DCTSIZE2" "n \<le> DCTSIZE2"
  shows "fold (quantize_step True True rescale shr divs rs) [0 ..< n] ((0, 0), io, pv, nx) =
    ((0, 0), map (\<lambda>i. quantize1 (divs ! i) (io ! i) - rescale_prev rescale shr (pv ! i) (rs ! i)) [0 ..< n] @ drop n io,
     map (\<lambda>i. quantize1 (divs ! i) (io ! i)) [0 ..< n] @ drop n pv, nx)"
  using assms(3)
proof (induction n)
  case (Suc n)
  then have n: "n < length io" "n < length pv" using assms by simp_all
  have "fold (quantize_step True True rescale shr divs rs) [0 ..< Suc n] ((0, 0), io, pv, nx) =
    quantize_step True True rescale shr divs rs n
      (fold (quantize_step True True rescale shr divs rs) [0 ..< n] ((0, 0), io, pv, nx))" by simp
  also have "\<dots> = ((0, 0),
      (map (\<lambda>i. quantize1 (divs ! i) (io ! i) - rescale_prev rescale shr (pv ! i) (rs ! i)) [0 ..< n] @ drop n io)
        [n := quantize1 (divs ! n) (io ! n) - rescale_prev rescale shr (pv ! n) (rs ! n)],
      (map (\<lambda>i. quantize1 (divs ! i) (io ! i)) [0 ..< n] @ drop n pv)[n := quantize1 (divs ! n) (io ! n)], nx)"
    using Suc n by (simp add: quantize_step_update nth_map_drop)
  finally show ?case
    using list_update_map_upt [OF n(1), of "\<lambda>i. quantize1 (divs ! i) (io ! i) - rescale_prev rescale shr (pv ! i) (rs ! i)"]
      list_update_map_upt [OF n(2), of "\<lambda>i. quantize1 (divs ! i) (io ! i)"] by simp
qed simp

lemma do_quantize_update:
  assumes "length io = DCTSIZE2" "length pv = DCTSIZE2"
  shows "do_quantize True True rescale shr divs rs io pv nx =
    ((0, 0), map (\<lambda>i. quantize1 (divs ! i) (io ! i) - rescale_prev rescale shr (pv ! i) (rs ! i)) [0 ..< DCTSIZE2],
     map (\<lambda>i. quantize1 (divs ! i) (io ! i)) [0 ..< DCTSIZE2], nx)"
  unfolding do_quantize_def using quantize_update_loop [OF assms order_refl] assms by simp

section \<open>The receiver stays in step\<close>

text \<open>A frame of a delta stream: the rescaling the encoder announces and the transmitted block. The
  receiver rescales its copy of the previous block in the same way and adds.\<close>

fun delta_encode :: "(divisor_part \<times> nat) list \<Rightarrow> (bool \<times> bool \<times> nat list \<times> i16 list) list \<Rightarrow> i16 list
    \<Rightarrow> (bool \<times> bool \<times> nat list \<times> i16 list) list" where
  "delta_encode divs [] prev = []"
| "delta_encode divs ((rescale, shr, rs, block) # frames) prev =
     (case quantize True True rescale shr divs rs block prev [] of
        (_, out, prev', _) \<Rightarrow> (rescale, shr, rs, out) # delta_encode divs frames prev')"

fun delta_decode :: "(bool \<times> bool \<times> nat list \<times> i16 list) list \<Rightarrow> i16 list \<Rightarrow> i16 list list" where
  "delta_decode [] prev = []"
| "delta_decode ((rescale, shr, rs, d) # frames) prev =
     (let cur = map (\<lambda>i. rescale_prev rescale shr (prev ! i) (rs ! i) + d ! i) [0 ..< DCTSIZE2]
      in cur # delta_decode frames cur)"



end
