(* ===== verification/Dct.thy ===== *)
theory Dct
  imports Quantizer
begin

text \<open>
  The forward DCT (\<^verbatim>\<open>encoder/encode/forward_dct.rs\<close>): the sampling of an 8 by 8 block out of a
  preprocessed plane with its padding at the right edge, and the integer AAN transform, rows first and
  then columns, in 16-bit arithmetic.
\<close>

definition CENTERJSAMPLE :: i16 where "CENTERJSAMPLE = 128"

section \<open>Sampling\<close>

definition convsamp_pixel :: "nat \<Rightarrow> mem \<Rightarrow> nat \<Rightarrow> nat \<Rightarrow> nat \<Rightarrow> nat \<Rightarrow> i16 list \<Rightarrow> i16 list" where
  "convsamp_pixel width m row xpos xidx oidx output =
     (let self_input = xpos + DCTSIZE \<le> width;
          self_dct = xpos + DCTSIZE div 2 \<le> width;
          idx = xpos + xidx
      in if self_input \<or> idx < width then output[oidx := ucast (m (row + idx)) - CENTERJSAMPLE]
         else if self_dct then
           let eidx = oidx - (idx - width) - 1 in output[oidx := output ! eidx]
         else output[oidx := 0])"

text \<open>\<open>None\<close> is the failing assertion that the block starts inside the plane.\<close>

definition do_convsamp :: "nat \<Rightarrow> mem \<Rightarrow> nat \<Rightarrow> u16 \<Rightarrow> u16 \<Rightarrow> i16 list \<Rightarrow> i16 list option" where
  "do_convsamp width m input ypos xpos output =
     (if \<not> unat xpos + DCTSIZE \<le> width \<and> \<not> unat xpos + DCTSIZE div 2 \<le> width \<and> \<not> unat xpos \<le> width
      then None
      else Some (fold (\<lambda>yidx output.
             let row = input + width * (unat ypos + yidx)
             in fold (\<lambda>xidx output. convsamp_pixel width m row (unat xpos) xidx (DCTSIZE * yidx + xidx) output)
                  [0 ..< DCTSIZE] output) [0 ..< DCTSIZE] output))"

definition convsamp :: "nat \<Rightarrow> bool \<Rightarrow> mem \<Rightarrow> nat \<Rightarrow> u16 \<Rightarrow> u16 \<Rightarrow> i16 list \<Rightarrow> i16 list option" where
  "convsamp width h_samp m input ypos xpos output =
     (let width = (if h_samp then width div 2 else width) in do_convsamp width m input ypos xpos output)"

section \<open>The transform\<close>

definition multiply :: "i16 \<Rightarrow> i32 \<Rightarrow> i16" where
  "multiply v c = ucast (signed_drop_bit 8 (scast v * c))"

definition FIX_0_382683433 :: i32 where "FIX_0_382683433 = 98"
definition FIX_0_541196100 :: i32 where "FIX_0_541196100 = 139"
definition FIX_0_707106781 :: i32 where "FIX_0_707106781 = 181"
definition FIX_1_306562965 :: i32 where "FIX_1_306562965 = 334"

text \<open>One pass over the eight elements \<open>i\<close>, \<open>i + s\<close>, \<dots>, \<open>i + 7 * s\<close>; rows have \<open>s = 1\<close>, columns \<open>s = 8\<close>.\<close>

definition fdct_pass :: "nat \<Rightarrow> nat \<Rightarrow> i16 list \<Rightarrow> i16 list" where
  "fdct_pass s i b =
     (let tmp0 = b ! (i + s * 0) + b ! (i + s * 7);
          tmp7 = b ! (i + s * 0) - b ! (i + s * 7);
          tmp1 = b ! (i + s * 1) + b ! (i + s * 6);
          tmp6 = b ! (i + s * 1) - b ! (i + s * 6);
          tmp2 = b ! (i + s * 2) + b ! (i + s * 5);
          tmp5 = b ! (i + s * 2) - b ! (i + s * 5);
          tmp3 = b ! (i + s * 3) + b ! (i + s * 4);
          tmp4 = b ! (i + s * 3) - b ! (i + s * 4);
          tmp10 = tmp0 + tmp3;
          tmp13 = tmp0 - tmp3;
          tmp11 = tmp1 + tmp2;
          tmp12 = tmp1 - tmp2;
          b = b[i + s * 0 := tmp10 + tmp11];
          b = b[i + s * 4 := tmp10 - tmp11];
          z1 = multiply (tmp12 + tmp13) FIX_0_707106781;
          b = b[i + s * 2 := tmp13 + z1];
          b = b[i + s * 6 := tmp13 - z1];
          tmp10 = tmp4 + tmp5;
          tmp11 = tmp5 + tmp6;
          tmp12 = tmp6 + tmp7;
          z5 = multiply (tmp10 - tmp12) FIX_0_382683433;
          z2 = multiply tmp10 FIX_0_541196100 + z5;
          z4 = multiply tmp12 FIX_1_306562965 + z5;
          z3 = multiply tmp11 FIX_0_707106781;
          z11 = tmp7 + z3;
          z13 = tmp7 - z3;
          b = b[i + s * 5 := z13 + z2];
          b = b[i + s * 3 := z13 - z2];
          b = b[i + s * 1 := z11 + z4];
          b = b[i + s * 7 := z11 - z4]
      in b)"

definition fdct_rows :: "i16 list \<Rightarrow> i16 list" where
  "fdct_rows b = fold (\<lambda>k. fdct_pass 1 (DCTSIZE * k)) [0 ..< DCTSIZE] b"

definition fdct_cols :: "i16 list \<Rightarrow> i16 list" where
  "fdct_cols b = fold (fdct_pass DCTSIZE) [0 ..< DCTSIZE] b"

definition fdct_ifast :: "i16 list \<Rightarrow> i16 list" where
  "fdct_ifast b = fdct_cols (fdct_rows b)"

definition do_forward_dct ::
  "bool \<Rightarrow> bool \<Rightarrow> bool \<Rightarrow> bool \<Rightarrow> (divisor_part \<times> nat) list \<Rightarrow> nat list
    \<Rightarrow> i16 list \<Rightarrow> i16 list \<Rightarrow> i16 list \<Rightarrow> (u16 \<times> u16) \<times> i16 list \<times> i16 list \<times> i16 list" where
  "do_forward_dct delta_prog update_prev rescale shr divs rp_shifts output prev next =
     quantize delta_prog update_prev rescale shr divs rp_shifts (fdct_ifast output) prev next"

section \<open>Reference transform on integers\<close>

text \<open>The same butterfly without width limits, on the eight values of a row or column.\<close>

definition imul :: "int \<Rightarrow> int \<Rightarrow> int" where
  "imul v c = v * c div 256"

definition fdct8 :: "int \<Rightarrow> int \<Rightarrow> int \<Rightarrow> int \<Rightarrow> int \<Rightarrow> int \<Rightarrow> int \<Rightarrow> int \<Rightarrow> int list" where
  "fdct8 x0 x1 x2 x3 x4 x5 x6 x7 =
     (let e0 = (x0 + x7) + (x3 + x4); e3 = (x0 + x7) - (x3 + x4);
          e1 = (x1 + x6) + (x2 + x5); e2 = (x1 + x6) - (x2 + x5);
          z1 = imul (e2 + e3) 181;
          o0 = (x3 - x4) + (x2 - x5); o1 = (x2 - x5) + (x1 - x6); o2 = (x1 - x6) + (x0 - x7);
          z5 = imul (o0 - o2) 98; z2 = imul o0 139 + z5; z4 = imul o2 334 + z5; z3 = imul o1 181;
          z11 = (x0 - x7) + z3; z13 = (x0 - x7) - z3
      in [e0 + e1, z11 + z4, e3 + z1, z13 - z2, e0 - e1, z13 + z2, e3 - z1, z11 - z4])"

definition row8 :: "nat \<Rightarrow> nat \<Rightarrow> 'a list \<Rightarrow> 'a list" where
  "row8 s i b = map (\<lambda>k. b ! (i + s * k)) [0 ..< 8]"

definition fdct8_list :: "int list \<Rightarrow> int list" where
  "fdct8_list x = fdct8 (x ! 0) (x ! 1) (x ! 2) (x ! 3) (x ! 4) (x ! 5) (x ! 6) (x ! 7)"

definition fdct_ref :: "int list \<Rightarrow> int list" where
  "fdct_ref b =
     (let rows = map (\<lambda>r. fdct8_list (row8 1 (8 * r) b)) [0 ..< 8];
          cols = map (\<lambda>c. fdct8_list (map (\<lambda>r. rows ! r ! c) [0 ..< 8])) [0 ..< 8]
      in concat (map (\<lambda>r. map (\<lambda>c. cols ! c ! r) [0 ..< 8]) [0 ..< 8]))"

section \<open>Words behave like integers while they are small\<close>

lemma sint16_of_int: "- 32768 \<le> k \<Longrightarrow> k < 32768 \<Longrightarrow> sint (word_of_int k :: i16) = k"
  by (simp add: signed_of_int signed_take_bit_int_eq_self)

lemma add16: "sint a = x \<Longrightarrow> sint b = y \<Longrightarrow> - 32768 \<le> x + y \<Longrightarrow> x + y < 32768 \<Longrightarrow> sint (a + b :: i16) = x + y"
  by (simp add: sint_word_add signed_take_bit_int_eq_self)

lemma sub16: "sint a = x \<Longrightarrow> sint b = y \<Longrightarrow> - 32768 \<le> x - y \<Longrightarrow> x - y < 32768 \<Longrightarrow> sint (a - b :: i16) = x - y"
  by (simp add: sint_word_diff signed_take_bit_int_eq_self)

lemma mul16:
  assumes v: "sint v = x" "- 16384 \<le> x" "x \<le> 16384" and c: "sint (c :: i32) = k" "0 \<le> k" "k \<le> 400"
  shows "sint (multiply v c) = imul x k"
proof -
  have "\<bar>x * k\<bar> \<le> 16384 * 400" unfolding abs_mult using v c by (intro mult_mono) auto
  then have b: "- 6553600 \<le> x * k" "x * k \<le> 6553600" by auto
  have "sint (scast v :: i32) = x"
    using v by (simp add: signed_scast_eq signed_take_bit_int_eq_self)
  then have p: "sint ((scast v :: i32) * c) = x * k"
    using b c by (simp add: sint_word_mult signed_take_bit_int_eq_self)
  have d: "sint (signed_drop_bit 8 ((scast v :: i32) * c)) = imul x k"
    by (simp add: sint_signed_drop_bit_eq p imul_def drop_bit_eq_div)
  have r: "- 32768 \<le> imul x k" "imul x k < 32768" using b unfolding imul_def by auto
  have "multiply v c = word_of_int (sint (signed_drop_bit 8 ((scast v :: i32) * c)))"
    unfolding multiply_def by (rule bit_word_eqI) (simp add: bit_simps)
  then show ?thesis using r by (simp add: d sint16_of_int)
qed

lemma imul_bounds: "256 * imul v c \<le> v * c" "v * c < 256 * imul v c + 256"
  unfolding imul_def by linarith+

lemma imul_range:
  assumes "- K \<le> v" "v \<le> K" "0 \<le> c" "K * c + 256 \<le> 256 * L"
  shows "- L \<le> imul v c \<and> imul v c \<le> L"
proof -
  have "- K * c \<le> v * c" "v * c \<le> K * c" using assms(1-3) by (intro mult_right_mono; simp)+
  then show ?thesis using imul_bounds [of v c] assms(4) by auto
qed

lemma fix_consts:
  "sint FIX_0_382683433 = 98" "sint FIX_0_541196100 = 139" "sint FIX_0_707106781 = 181" "sint FIX_1_306562965 = 334"
  by (simp_all add: FIX_0_382683433_def FIX_0_541196100_def FIX_0_707106781_def FIX_1_306562965_def)

section \<open>One pass is the reference butterfly\<close>

definition fdct8w :: "i16 list \<Rightarrow> i16 list" where
  "fdct8w x =
     (let d0 = x ! 0 - x ! 7; d1 = x ! 1 - x ! 6; d2 = x ! 2 - x ! 5; d3 = x ! 3 - x ! 4;
          a0 = x ! 0 + x ! 7; a1 = x ! 1 + x ! 6; a2 = x ! 2 + x ! 5; a3 = x ! 3 + x ! 4;
          e0 = a0 + a3; e3 = a0 - a3; e1 = a1 + a2; e2 = a1 - a2;
          z1 = multiply (e2 + e3) FIX_0_707106781;
          o0 = d3 + d2; o1 = d2 + d1; o2 = d1 + d0;
          z5 = multiply (o0 - o2) FIX_0_382683433; z2 = multiply o0 FIX_0_541196100 + z5;
          z4 = multiply o2 FIX_1_306562965 + z5; z3 = multiply o1 FIX_0_707106781;
          z11 = d0 + z3; z13 = d0 - z3
      in [e0 + e1, z11 + z4, e3 + z1, z13 - z2, e0 - e1, z13 + z2, e3 - z1, z11 - z4])"

lemma fdct_pass_eq:
  assumes "0 < s"
  shows "fdct_pass s i b = fold (\<lambda>k b'. b'[i + s * k := fdct8w (row8 s i b) ! k]) [0, 4, 2, 6, 5, 3, 1, 7] b"
proof -
  have x: "row8 s i b ! k = b ! (i + s * k)" if "k < 8" for k using that by (simp add: row8_def)
  have "row8 s i b ! 0 = b ! (i + s * 0)" "row8 s i b ! 1 = b ! (i + s * 1)" "row8 s i b ! 2 = b ! (i + s * 2)"
    "row8 s i b ! 3 = b ! (i + s * 3)" "row8 s i b ! 4 = b ! (i + s * 4)" "row8 s i b ! 5 = b ! (i + s * 5)"
    "row8 s i b ! 6 = b ! (i + s * 6)" "row8 s i b ! 7 = b ! (i + s * 7)"
    using x [of 0] x [of 1] x [of 2] x [of 3] x [of 4] x [of 5] x [of 6] x [of 7] by simp_all
  then show ?thesis
    unfolding fdct_pass_def fdct8w_def Let_def by (simp add: add.commute)
qed

lemma fdct8w_exact:
  assumes len: "length x = 8" and b: "\<And>k. k < 8 \<Longrightarrow> - 1700 \<le> sint (x ! k) \<and> sint (x ! k) \<le> 1700"
  shows "map sint (fdct8w x) = fdct8_list (map sint x)"
proof -
  define y where "y k = sint (x ! k)" for k
  have y: "sint (x ! k) = y k" for k by (simp add: y_def)
  have B: "- 1700 \<le> y 0" "y 0 \<le> 1700" "- 1700 \<le> y 1" "y 1 \<le> 1700" "- 1700 \<le> y 2" "y 2 \<le> 1700"
    "- 1700 \<le> y 3" "y 3 \<le> 1700" "- 1700 \<le> y 4" "y 4 \<le> 1700" "- 1700 \<le> y 5" "y 5 \<le> 1700"
    "- 1700 \<le> y 6" "y 6 \<le> 1700" "- 1700 \<le> y 7" "y 7 \<le> 1700"
    using b [of 0] b [of 1] b [of 2] b [of 3] b [of 4] b [of 5] b [of 6] b [of 7] by (simp_all add: y_def)
  define d0 d1 d2 d3 where d: "d0 = y 0 - y 7" "d1 = y 1 - y 6" "d2 = y 2 - y 5" "d3 = y 3 - y 4"
  define a0 a1 a2 a3 where a: "a0 = y 0 + y 7" "a1 = y 1 + y 6" "a2 = y 2 + y 5" "a3 = y 3 + y 4"
  have D: "sint (x ! 0 - x ! 7) = d0" "sint (x ! 1 - x ! 6) = d1" "sint (x ! 2 - x ! 5) = d2" "sint (x ! 3 - x ! 4) = d3"
    unfolding d using B by (intro sub16 y; linarith)+
  have A: "sint (x ! 0 + x ! 7) = a0" "sint (x ! 1 + x ! 6) = a1" "sint (x ! 2 + x ! 5) = a2" "sint (x ! 3 + x ! 4) = a3"
    unfolding a using B by (intro add16 y; linarith)+
  define e0 e1 e2 e3 where e: "e0 = a0 + a3" "e1 = a1 + a2" "e2 = a1 - a2" "e3 = a0 - a3"
  define o0 o1 o2 where o: "o0 = d3 + d2" "o1 = d2 + d1" "o2 = d1 + d0"
  have E: "sint ((x ! 0 + x ! 7) + (x ! 3 + x ! 4)) = e0" "sint ((x ! 1 + x ! 6) + (x ! 2 + x ! 5)) = e1"
    "sint ((x ! 1 + x ! 6) - (x ! 2 + x ! 5)) = e2" "sint ((x ! 0 + x ! 7) - (x ! 3 + x ! 4)) = e3"
    unfolding e using B unfolding a [symmetric] by (intro add16 sub16 A; use B a in linarith)+
  have O: "sint ((x ! 3 - x ! 4) + (x ! 2 - x ! 5)) = o0" "sint ((x ! 2 - x ! 5) + (x ! 1 - x ! 6)) = o1"
    "sint ((x ! 1 - x ! 6) + (x ! 0 - x ! 7)) = o2"
    unfolding o by (intro add16 D; use B d in linarith)+
  have E23: "sint (((x ! 1 + x ! 6) - (x ! 2 + x ! 5)) + ((x ! 0 + x ! 7) - (x ! 3 + x ! 4))) = e2 + e3"
    by (intro add16 E; use B a e in linarith)
  have O02: "sint (((x ! 3 - x ! 4) + (x ! 2 - x ! 5)) - ((x ! 1 - x ! 6) + (x ! 0 - x ! 7))) = o0 - o2"
    by (intro sub16 O; use B d o in linarith)
  have lim: "- 13600 \<le> e2 + e3" "e2 + e3 \<le> 13600" "- 13600 \<le> o0 - o2" "o0 - o2 \<le> 13600"
    "- 6800 \<le> o0" "o0 \<le> 6800" "- 6800 \<le> o1" "o1 \<le> 6800" "- 6800 \<le> o2" "o2 \<le> 6800"
    "- 6800 \<le> e0" "e0 \<le> 6800" "- 6800 \<le> e1" "e1 \<le> 6800" "- 6800 \<le> e3" "e3 \<le> 6800" "- 3400 \<le> d0" "d0 \<le> 3400"
    using B a d e o by linarith+
  define z1 z3 z5 p0 p2 where z: "z1 = imul (e2 + e3) 181" "z3 = imul o1 181" "z5 = imul (o0 - o2) 98"
    "p0 = imul o0 139" "p2 = imul o2 334"
  have Z: "sint (multiply (((x ! 1 + x ! 6) - (x ! 2 + x ! 5)) + ((x ! 0 + x ! 7) - (x ! 3 + x ! 4))) FIX_0_707106781) = z1"
    "sint (multiply ((x ! 2 - x ! 5) + (x ! 1 - x ! 6)) FIX_0_707106781) = z3"
    "sint (multiply (((x ! 3 - x ! 4) + (x ! 2 - x ! 5)) - ((x ! 1 - x ! 6) + (x ! 0 - x ! 7))) FIX_0_382683433) = z5"
    "sint (multiply ((x ! 3 - x ! 4) + (x ! 2 - x ! 5)) FIX_0_541196100) = p0"
    "sint (multiply ((x ! 1 - x ! 6) + (x ! 0 - x ! 7)) FIX_1_306562965) = p2"
    unfolding z by (rule mul16 [OF E23 _ _ fix_consts(3)] mul16 [OF O(2) _ _ fix_consts(3)] mul16 [OF O02 _ _ fix_consts(1)]
        mul16 [OF O(1) _ _ fix_consts(2)] mul16 [OF O(3) _ _ fix_consts(4)]; use lim in linarith)+
  have zl: "- 10000 \<le> z1" "z1 \<le> 10000" "- 5000 \<le> z3" "z3 \<le> 5000" "- 5300 \<le> z5" "z5 \<le> 5300"
    "- 3800 \<le> p0" "p0 \<le> 3800" "- 9000 \<le> p2" "p2 \<le> 9000"
    using imul_range [of 13600 "e2 + e3" 181 10000] imul_range [of 6800 o1 181 5000]
      imul_range [of 13600 "o0 - o2" 98 5300] imul_range [of 6800 o0 139 3800] imul_range [of 6800 o2 334 9000] lim
    by (simp_all add: z)
  define z2 z4 z11 z13 where q: "z2 = p0 + z5" "z4 = p2 + z5" "z11 = d0 + z3" "z13 = d0 - z3"
  note Q = add16 [OF Z(4,3), folded q(1)] add16 [OF Z(5,3), folded q(2)] add16 [OF D(1) Z(2), folded q(3)] sub16 [OF D(1) Z(2), folded q(4)]
  have Q: "sint (multiply ((x ! 3 - x ! 4) + (x ! 2 - x ! 5)) FIX_0_541196100
      + multiply (((x ! 3 - x ! 4) + (x ! 2 - x ! 5)) - ((x ! 1 - x ! 6) + (x ! 0 - x ! 7))) FIX_0_382683433) = z2"
    "sint (multiply ((x ! 1 - x ! 6) + (x ! 0 - x ! 7)) FIX_1_306562965
      + multiply (((x ! 3 - x ! 4) + (x ! 2 - x ! 5)) - ((x ! 1 - x ! 6) + (x ! 0 - x ! 7))) FIX_0_382683433) = z4"
    "sint ((x ! 0 - x ! 7) + multiply ((x ! 2 - x ! 5) + (x ! 1 - x ! 6)) FIX_0_707106781) = z11"
    "sint ((x ! 0 - x ! 7) - multiply ((x ! 2 - x ! 5) + (x ! 1 - x ! 6)) FIX_0_707106781) = z13"
    by (rule Q; use zl lim q in linarith)+
  note ql = zl lim q
  have "fdct8_list (map sint x) = [e0 + e1, z11 + z4, e3 + z1, z13 - z2, e0 - e1, z13 + z2, e3 - z1, z11 - z4]"
    using len unfolding fdct8_list_def fdct8_def Let_def z q e o d a y_def by simp
  moreover have "map sint (fdct8w x) = [e0 + e1, z11 + z4, e3 + z1, z13 - z2, e0 - e1, z13 + z2, e3 - z1, z11 - z4]"
    unfolding fdct8w_def Let_def list.map
    by (intro arg_cong2 [where f = Cons] refl; rule add16 sub16; (rule E Q Z)?; use ql in linarith)
  ultimately show ?thesis by simp
qed

lemma length_fdct8 [simp]: "length (fdct8w x) = 8" "length (fdct8_list y) = 8"
  by (simp_all add: fdct8w_def fdct8_list_def fdct8_def Let_def)

lemma fdct8_bound:
  assumes "\<And>k. k < 8 \<Longrightarrow> - 128 \<le> x ! k \<and> x ! k \<le> 128" and "k < 8"
  shows "- 1700 \<le> fdct8_list x ! k \<and> fdct8_list x ! k \<le> 1700"
proof -
  have B: "- 128 \<le> x ! 0" "x ! 0 \<le> 128" "- 128 \<le> x ! 1" "x ! 1 \<le> 128" "- 128 \<le> x ! 2" "x ! 2 \<le> 128"
    "- 128 \<le> x ! 3" "x ! 3 \<le> 128" "- 128 \<le> x ! 4" "x ! 4 \<le> 128" "- 128 \<le> x ! 5" "x ! 5 \<le> 128"
    "- 128 \<le> x ! 6" "x ! 6 \<le> 128" "- 128 \<le> x ! 7" "x ! 7 \<le> 128"
    using assms(1) [of 0] assms(1) [of 1] assms(1) [of 2] assms(1) [of 3] assms(1) [of 4] assms(1) [of 5]
      assms(1) [of 6] assms(1) [of 7] by simp_all
  define d0 d1 d2 d3 where d: "d0 = x ! 0 - x ! 7" "d1 = x ! 1 - x ! 6" "d2 = x ! 2 - x ! 5" "d3 = x ! 3 - x ! 4"
  define a0 a1 a2 a3 where a: "a0 = x ! 0 + x ! 7" "a1 = x ! 1 + x ! 6" "a2 = x ! 2 + x ! 5" "a3 = x ! 3 + x ! 4"
  define e0 e1 e2 e3 where e: "e0 = a0 + a3" "e1 = a1 + a2" "e2 = a1 - a2" "e3 = a0 - a3"
  define o0 o1 o2 where o: "o0 = d3 + d2" "o1 = d2 + d1" "o2 = d1 + d0"
  have l1: "- 256 \<le> d0" "d0 \<le> 256" "- 512 \<le> e0" "e0 \<le> 512" "- 512 \<le> e1" "e1 \<le> 512" "- 512 \<le> e3" "e3 \<le> 512"
    "- 1024 \<le> e2 + e3" "e2 + e3 \<le> 1024"
    using B a d e by linarith+
  have l2: "- 512 \<le> o0" "o0 \<le> 512" "- 512 \<le> o1" "o1 \<le> 512" "- 512 \<le> o2" "o2 \<le> 512"
    "- 1024 \<le> o0 - o2" "o0 - o2 \<le> 1024"
    using B d o by linarith+
  define z1 z3 z5 p0 p2 where z: "z1 = imul (e2 + e3) 181" "z3 = imul o1 181" "z5 = imul (o0 - o2) 98"
    "p0 = imul o0 139" "p2 = imul o2 334"
  have zl: "- 725 \<le> z1" "z1 \<le> 725" "- 363 \<le> z3" "z3 \<le> 363" "- 393 \<le> z5" "z5 \<le> 393"
    "- 279 \<le> p0" "p0 \<le> 279" "- 669 \<le> p2" "p2 \<le> 669"
    using imul_range [of 1024 "e2 + e3" 181 725] imul_range [of 512 o1 181 363]
      imul_range [of 1024 "o0 - o2" 98 393] imul_range [of 512 o0 139 279] imul_range [of 512 o2 334 669] l1 l2
    by (simp_all add: z)
  have f: "fdct8_list x = [e0 + e1, (d0 + z3) + (p2 + z5), e3 + z1, (d0 - z3) - (p0 + z5), e0 - e1,
      (d0 - z3) + (p0 + z5), e3 - z1, (d0 + z3) - (p2 + z5)]"
    unfolding fdct8_list_def fdct8_def Let_def z e o d a by simp
  have "\<forall>v \<in> set (fdct8_list x). - 1700 \<le> v \<and> v \<le> 1700"
    unfolding f using l1 zl by simp
  then show ?thesis using assms(2) nth_mem [of k "fdct8_list x"] by simp
qed

section \<open>The whole block\<close>

lemma fold_update_other:
  "\<forall>k \<in> set ks. f k \<noteq> j \<Longrightarrow> fold (\<lambda>k b. b[f k := v k]) ks b ! j = b ! j"
  by (induction ks arbitrary: b) auto

lemma fold_update_length [simp]: "length (fold (\<lambda>k b. b[f k := v k]) ks b) = length b"
  by (induction ks arbitrary: b) auto

lemma fold_update_nth:
  "k \<in> set ks \<Longrightarrow> distinct ks \<Longrightarrow> inj_on f (set ks) \<Longrightarrow> \<forall>k \<in> set ks. f k < length b \<Longrightarrow>
   fold (\<lambda>k b. b[f k := v k]) ks b ! f k = v k"
proof (induction ks arbitrary: b)
  case (Cons a ks)
  show ?case
  proof (cases "k = a")
    case True
    have "\<forall>k \<in> set ks. f k \<noteq> f a" using Cons.prems(2,3) by (auto simp: inj_on_def)
    then show ?thesis using True Cons.prems(4) by (simp add: fold_update_other)
  next
    case False
    then show ?thesis using Cons by (auto simp: inj_on_def)
  qed
qed simp

lemma pass_order: "set [0, 4, 2, 6, 5, 3, 1, 7 :: nat] = {..< 8}" "distinct [0, 4, 2, 6, 5, 3, 1, 7 :: nat]"
  by auto

lemma fdct_pass_nth:
  assumes "0 < s" "i + s * 7 < length b"
  shows "k < 8 \<Longrightarrow> fdct_pass s i b ! (i + s * k) = fdct8w (row8 s i b) ! k"
    "(\<And>k. k < 8 \<Longrightarrow> j \<noteq> i + s * k) \<Longrightarrow> fdct_pass s i b ! j = b ! j" "length (fdct_pass s i b) = length b"
proof -
  have lt: "\<forall>k \<in> {..< 8}. i + s * k < length b"
  proof
    fix k :: nat
    assume "k \<in> {..< 8}"
    then have "s * k \<le> s * 7" by (intro mult_le_mono2) auto
    then show "i + s * k < length b" using assms(2) by linarith
  qed
  have inj: "inj_on (\<lambda>k. i + s * k) {..< 8}" using assms(1) by (auto simp: inj_on_def)
  show "k < 8 \<Longrightarrow> fdct_pass s i b ! (i + s * k) = fdct8w (row8 s i b) ! k"
    unfolding fdct_pass_eq [OF assms(1)]
    using lt inj pass_order by (intro fold_update_nth [where f = "\<lambda>k. i + s * k"]) (simp_all only: lessThan_iff)
  show "(\<And>k. k < 8 \<Longrightarrow> j \<noteq> i + s * k) \<Longrightarrow> fdct_pass s i b ! j = b ! j"
    unfolding fdct_pass_eq [OF assms(1)]
    using pass_order(1) by (intro fold_update_other [where f = "\<lambda>k. i + s * k"]) (auto simp del: set_simps)
  show "length (fdct_pass s i b) = length b"
    unfolding fdct_pass_eq [OF assms(1)] by (rule fold_update_length)
qed

text \<open>All eight passes along one axis, the bases being the starts of the rows or columns.\<close>

lemma fdct_passes:
  assumes s: "0 < s" and base: "\<And>r. r < 8 \<Longrightarrow> base r + s * 7 < 64"
    and inj: "\<And>r k r' k'. r < 8 \<Longrightarrow> k < 8 \<Longrightarrow> r' < 8 \<Longrightarrow> k' < 8 \<Longrightarrow> base r + s * k = base r' + s * k' \<Longrightarrow> r = r'"
    and len: "length b = 64" and n: "n \<le> 8"
  shows "length (fold (\<lambda>r. fdct_pass s (base r)) [0 ..< n] b) = 64 \<and>
    (\<forall>r < 8. \<forall>k < 8. fold (\<lambda>r. fdct_pass s (base r)) [0 ..< n] b ! (base r + s * k) =
      (if r < n then fdct8w (row8 s (base r) b) ! k else b ! (base r + s * k)))"
  using n
proof (induction n)
  case (Suc n)
  let ?b = "fold (\<lambda>r. fdct_pass s (base r)) [0 ..< n] b"
  have ih: "length ?b = 64" "\<And>r k. r < 8 \<Longrightarrow> k < 8 \<Longrightarrow> ?b ! (base r + s * k) =
      (if r < n then fdct8w (row8 s (base r) b) ! k else b ! (base r + s * k))"
    using Suc by auto
  have st: "fold (\<lambda>r. fdct_pass s (base r)) [0 ..< Suc n] b = fdct_pass s (base n) ?b" by simp
  have lb: "base n + s * 7 < length ?b" using base [of n] Suc.prems ih(1) by simp
  note p = fdct_pass_nth [OF s lb]
  have row: "row8 s (base n) ?b = row8 s (base n) b"
    using ih(2) [of n] Suc.prems by (simp add: row8_def)
  show ?case
  proof (intro conjI allI impI)
    show "length (fold (\<lambda>r. fdct_pass s (base r)) [0 ..< Suc n] b) = 64" using p(3) ih(1) by (simp add: st)
    fix r k :: nat
    assume r: "r < 8" and k: "k < 8"
    show "fold (\<lambda>r. fdct_pass s (base r)) [0 ..< Suc n] b ! (base r + s * k) =
      (if r < Suc n then fdct8w (row8 s (base r) b) ! k else b ! (base r + s * k))"
    proof (cases "r = n")
      case True
      then show ?thesis using p(1) [OF k] row by (simp add: st)
    next
      case False
      then have "base r + s * k \<noteq> base n + s * k'" if "k' < 8" for k'
        using inj [OF r k _ that, of n] Suc.prems by auto
      then have "fdct_pass s (base n) ?b ! (base r + s * k) = ?b ! (base r + s * k)" by (rule p(2))
      then show ?thesis using ih(2) [OF r k] False by (simp only: st) auto
    qed
  qed
qed (use len in simp)

lemma fdct_rows_nth:
  assumes "length b = 64"
  shows "length (fdct_rows b) = 64"
    "r < 8 \<Longrightarrow> k < 8 \<Longrightarrow> fdct_rows b ! (8 * r + k) = fdct8w (row8 1 (8 * r) b) ! k"
  using fdct_passes [of 1 "\<lambda>r. 8 * r" b 8] assms
  by (simp_all add: fdct_rows_def DCTSIZE_def)

lemma fdct_cols_nth:
  assumes "length b = 64"
  shows "length (fdct_cols b) = 64"
    "r < 8 \<Longrightarrow> k < 8 \<Longrightarrow> fdct_cols b ! (r + 8 * k) = fdct8w (row8 8 r b) ! k"
proof -
  have "r = r'" if "r < 8" "r' < 8" "r + 8 * k = r' + 8 * k'" for r r' k k' :: nat
    using that by (metis mod_less mod_mult_self2)
  then show "length (fdct_cols b) = 64"
    "r < 8 \<Longrightarrow> k < 8 \<Longrightarrow> fdct_cols b ! (r + 8 * k) = fdct8w (row8 8 r b) ! k"
    using fdct_passes [of 8 "\<lambda>r. r" b 8] assms by (simp_all add: fdct_cols_def DCTSIZE_def)
qed

lemma length_row8 [simp]: "length (row8 s i b) = 8" by (simp add: row8_def)

lemma nth_row8 [simp]: "k < 8 \<Longrightarrow> row8 s i b ! k = b ! (i + s * k)" by (simp add: row8_def)

lemma map_row8: "(\<And>k. k < 8 \<Longrightarrow> i + s * k < length b) \<Longrightarrow> map f (row8 s i b) = row8 s i (map f b)"
  by (simp add: row8_def)

text \<open>The fast path on 16-bit words for samples of 8 bits: every intermediate value fits, so the result
  is the reference transform's.\<close>

lemma length_fdct_ref: "length (fdct_ref b) = 64"
  by (simp add: fdct_ref_def Let_def length_concat sum_list_triv o_def)

lemma nth_concat_uniform:
  "\<forall>x \<in> set xss. length x = n \<Longrightarrow> r < length xss \<Longrightarrow> c < n \<Longrightarrow> concat xss ! (n * r + c) = xss ! r ! c"
proof (induction xss arbitrary: r)
  case (Cons x xss)
  then show ?case by (cases r) (auto simp: nth_append add.assoc)
qed simp

lemma nth_fdct_ref:
  assumes "r < 8" "c < 8"
  shows "fdct_ref b ! (8 * r + c)
    = fdct8_list (map (\<lambda>r. fdct8_list (row8 1 (8 * r) b) ! c) [0 ..< 8]) ! r"
proof -
  have e: "map (\<lambda>r. map f [0 ..< 8] ! r ! c) [0 ..< 8] = map (\<lambda>r. f r ! c) [0 ..< 8]" for f :: "nat \<Rightarrow> int list"
    by (intro map_cong) auto
  show ?thesis
    unfolding fdct_ref_def Let_def using assms by (subst nth_concat_uniform) (simp_all add: e)
qed

text \<open>C0: the 16-bit transform never overflows on sample data: for any block of 64 samples between
  \<open>-128\<close> and 127 the fast DCT computes exactly the integer butterfly network, rows and then columns,
  without a wrap-around in any of its additions, subtractions and fixed-point products.\<close>
theorem fdct_exact:
  assumes "length b = 64" and "\<forall>k < 64. - 128 \<le> sint (b ! k) \<and> sint (b ! k) \<le> 127"
  shows "map sint (fdct_ifast b) = fdct_ref (map sint b)"
proof (rule nth_equalityI)
  let ?w = "fdct_rows b"
  note R = fdct_rows_nth [OF assms(1)]
  note C = fdct_cols_nth [OF R(1)]
  show "length (map sint (fdct_ifast b)) = length (fdct_ref (map sint b))"
    using C(1) by (simp add: fdct_ifast_def length_fdct_ref)
  fix j
  assume "j < length (map sint (fdct_ifast b))"
  then have j: "j < 64" using C(1) by (simp add: fdct_ifast_def)
  define r c where rc: "r = j div 8" "c = j mod 8"
  have rc8: "r < 8" "c < 8" "j = 8 * r + c" using j by (auto simp: rc)
  have small: "- 128 \<le> sint (row8 1 (8 * k) b ! i) \<and> sint (row8 1 (8 * k) b ! i) \<le> 128" if "k < 8" "i < 8" for k i
    using assms(2) [rule_format, of "8 * k + i"] that by simp
  have row: "map sint (fdct8w (row8 1 (8 * k) b)) = fdct8_list (row8 1 (8 * k) (map sint b))" if k: "k < 8" for k
  proof -
    have "map sint (fdct8w (row8 1 (8 * k) b)) = fdct8_list (map sint (row8 1 (8 * k) b))"
      using small [OF k] by (intro fdct8w_exact) force+
    also have "map sint (row8 1 (8 * k) b) = row8 1 (8 * k) (map sint b)"
      using k assms(1) by (intro map_row8) simp
    finally show ?thesis .
  qed
  have w: "sint (?w ! (8 * k + c')) = fdct8_list (row8 1 (8 * k) (map sint b)) ! c'" if "k < 8" "c' < 8" for k c'
    using arg_cong [OF row [OF that(1)], of "\<lambda>l. l ! c'"] that by (simp add: R(2))
  have wb: "- 1700 \<le> sint (?w ! (8 * k + c')) \<and> sint (?w ! (8 * k + c')) \<le> 1700" if "k < 8" "c' < 8" for k c'
    unfolding w [OF that]
    using small [OF that(1)] that assms(1) by (intro fdct8_bound) auto
  have "map sint (fdct8w (row8 8 c ?w)) = fdct8_list (map sint (row8 8 c ?w))"
    using wb rc8 by (intro fdct8w_exact) (auto simp: add.commute)
  also have "map sint (row8 8 c ?w) = map (\<lambda>r. fdct8_list (row8 1 (8 * r) (map sint b)) ! c) [0 ..< 8]"
    using w rc8 by (auto simp: row8_def add.commute)
  finally have "sint (fdct8w (row8 8 c ?w) ! r) = fdct8_list (map (\<lambda>r. fdct8_list (row8 1 (8 * r) (map sint b)) ! c) [0 ..< 8]) ! r"
    using rc8 by (metis length_fdct8(1) nth_map)
  then show "map sint (fdct_ifast b) ! j = fdct_ref (map sint b) ! j"
    using C rc8 nth_fdct_ref [of r c "map sint b"] by (simp add: fdct_ifast_def add.commute)
qed

theorem fdct_exact_witness:
  "map sint (fdct_ifast (replicate 64 (- 7))) = fdct_ref (map sint (replicate 64 (- 7 :: i16)))"
  by (rule fdct_exact) simp_all

end
