(* ===== verification/Pixels.thy ===== *)
theory Pixels
  imports Quantizer
begin

text \<open>
  Preprocessing of screen rows (\<^verbatim>\<open>encoder/vars.rs\<close>, \<^verbatim>\<open>encoder/encode/color_convert.rs\<close>,
  \<^verbatim>\<open>encoder/encode/pre_process.rs\<close>): screen dimensions, the layout of the component planes, the colour
  tables and conversions, and the chroma and quarter downsampling. Buffers lie in the raw memory; the
  row iterator is the list of the addresses still to come. The screen width of the graphics service is
  the argument \<open>gw\<close>.
\<close>

section \<open>Dimensions\<close>

definition RP_DOWNSAMPLE_NONE :: u8 where "RP_DOWNSAMPLE_NONE = 0"
definition RP_DOWNSAMPLE_CHECKER :: u8 where "RP_DOWNSAMPLE_CHECKER = 1"
definition RP_DOWNSAMPLE_EVEN_ODD :: u8 where "RP_DOWNSAMPLE_EVEN_ODD = 2"
definition RP_DOWNSAMPLE_QUARTER :: u8 where "RP_DOWNSAMPLE_QUARTER = 3"

lemmas downsample_consts = RP_DOWNSAMPLE_NONE_def RP_DOWNSAMPLE_CHECKER_def RP_DOWNSAMPLE_EVEN_ODD_def
  RP_DOWNSAMPLE_QUARTER_def

definition SAMP_FACTOR :: nat where "SAMP_FACTOR = 2"
definition DOWNSAMPLE_FACTOR :: nat where "DOWNSAMPLE_FACTOR = 2"
definition MAX_COMPONENTS :: nat where "MAX_COMPONENTS = 3"

definition downsample_quality_scale_factor :: "u8 \<Rightarrow> u32" where
  "downsample_quality_scale_factor downsample =
     (if downsample = RP_DOWNSAMPLE_QUARTER then 4
      else if downsample = RP_DOWNSAMPLE_CHECKER \<or> downsample = RP_DOWNSAMPLE_EVEN_ODD then 2 else 1)"

definition downsample_quality_scale :: "u8 \<Rightarrow> u32 \<Rightarrow> u32" where
  "downsample_quality_scale downsample quality =
     (let factor = downsample_quality_scale_factor downsample
      in 100 - (100 - quality + factor div 2) div factor)"

definition downsample_screen_width :: "nat \<Rightarrow> u8 \<Rightarrow> nat" where
  "downsample_screen_width gw downsample =
     (if downsample = RP_DOWNSAMPLE_QUARTER \<or> downsample = RP_DOWNSAMPLE_EVEN_ODD then gw div DOWNSAMPLE_FACTOR
      else gw)"

text \<open>The height of the screen in question is the argument here (\<open>rp_screen_height!\<close>).\<close>

definition rp_screen_height :: "nat \<Rightarrow> nat \<Rightarrow> nat \<Rightarrow> bool \<Rightarrow> bool \<Rightarrow> nat" where
  "rp_screen_height top_1x top_2x bottom both is_top = (if is_top then if both then top_2x else top_1x else bottom)"

definition downsample_screen_height :: "nat \<Rightarrow> u8 \<Rightarrow> nat" where
  "downsample_screen_height height downsample =
     (if downsample = RP_DOWNSAMPLE_QUARTER then height div DOWNSAMPLE_FACTOR else height)"

definition downsample_checker_screen_dim :: "nat \<Rightarrow> nat \<Rightarrow> nat" where
  "downsample_checker_screen_dim gw height = (gw + height) div DOWNSAMPLE_FACTOR"

definition jdiv_round_up :: "nat \<Rightarrow> nat \<Rightarrow> nat" where
  "jdiv_round_up a b = (a + b - 1) div b"

definition jround_up :: "nat \<Rightarrow> nat \<Rightarrow> nat" where
  "jround_up a b = jdiv_round_up a b * b"

section \<open>Component planes\<close>

text \<open>The compile-time check of the sampling factors: vertical without horizontal is excluded.\<close>

definition subsamp_constraint :: "bool \<Rightarrow> bool \<Rightarrow> bool" where
  "subsamp_constraint h_samp v_samp \<longleftrightarrow> \<not> (\<not> h_samp \<and> v_samp)"

definition need_subsamp :: "nat \<Rightarrow> bool \<Rightarrow> bool \<Rightarrow> bool" where
  "need_subsamp comp_i h_samp v_samp \<longleftrightarrow> (h_samp \<or> v_samp) \<and> comp_i \<noteq> 0"

definition need_subsamp_ci :: "bool \<Rightarrow> bool \<Rightarrow> nat \<Rightarrow> bool" where
  "need_subsamp_ci h_samp v_samp ci =
     (if ci = 2 then need_subsamp 2 h_samp v_samp
      else if ci = 1 then need_subsamp 1 h_samp v_samp else need_subsamp 0 h_samp v_samp)"

definition worker_buf_comps_size :: "nat \<Rightarrow> nat option" where
  "worker_buf_comps_size width =
     (let no_v_no_h = width * DCTSIZE * MAX_COMPONENTS;
          no_v_h = width * DCTSIZE + width div SAMP_FACTOR * DCTSIZE * (MAX_COMPONENTS - 1);
          v_h = width * SAMP_FACTOR * DCTSIZE + width div SAMP_FACTOR * DCTSIZE * (MAX_COMPONENTS - 1)
      in if no_v_h < v_h \<and> v_h = no_v_no_h then Some v_h else None)"

text \<open>The slice of a component, from its first to behind its last byte; \<open>None\<close> is the panic.\<close>

definition comps_get :: "nat \<Rightarrow> nat \<Rightarrow> bool \<Rightarrow> bool \<Rightarrow> (nat \<times> nat) option" where
  "comps_get sz ci h_samp v_samp =
     (case (h_samp, v_samp) of
        (True, True) \<Rightarrow>
          let width_dct = sz div MAX_COMPONENTS;
              y_size = width_dct * SAMP_FACTOR;
              u_v_size = (sz - y_size) div (MAX_COMPONENTS - 1)
          in Some (if ci = 2 then (y_size + u_v_size, sz)
                   else if ci = 1 then (y_size, y_size + u_v_size) else (0, y_size))
      | (True, False) \<Rightarrow>
          let width_dct = sz div MAX_COMPONENTS;
              y_size = width_dct;
              u_v_size = width_dct div SAMP_FACTOR
          in Some (if ci = 2 then (y_size + u_v_size, y_size + u_v_size * 2)
                   else if ci = 1 then (y_size, y_size + u_v_size) else (0, y_size))
      | (False, True) \<Rightarrow> None
      | (False, False) \<Rightarrow>
          let width_dct = sz div MAX_COMPONENTS in Some (width_dct * ci, width_dct * (ci + 1)))"

text \<open>Address of a component's slice; the excluded combination has none.\<close>

definition comps_ptr :: "nat \<Rightarrow> nat \<Rightarrow> nat \<Rightarrow> bool \<Rightarrow> bool \<Rightarrow> nat" where
  "comps_ptr base sz ci h_samp v_samp =
     base + (case comps_get sz ci h_samp v_samp of Some (a, _) \<Rightarrow> a | None \<Rightarrow> 0)"

section \<open>Colour tables\<close>

definition MAXJSAMPLE :: nat where "MAXJSAMPLE = 255"
definition SCALEBITS :: nat where "SCALEBITS = 16"
definition CBCR_OFFSET :: int where "CBCR_OFFSET = 128 * 2 ^ SCALEBITS"
definition ONE_HALF :: int where "ONE_HALF = 2 ^ (SCALEBITS - 1)"

definition R_Y_OFF :: nat where "R_Y_OFF = 0"
definition G_Y_OFF :: nat where "G_Y_OFF = 1 * (MAXJSAMPLE + 1)"
definition B_Y_OFF :: nat where "B_Y_OFF = 2 * (MAXJSAMPLE + 1)"
definition R_CB_OFF :: nat where "R_CB_OFF = 3 * (MAXJSAMPLE + 1)"
definition G_CB_OFF :: nat where "G_CB_OFF = 4 * (MAXJSAMPLE + 1)"
definition B_CB_OFF :: nat where "B_CB_OFF = 5 * (MAXJSAMPLE + 1)"
definition R_CR_OFF :: nat where "R_CR_OFF = B_CB_OFF"
definition G_CR_OFF :: nat where "G_CR_OFF = 6 * (MAXJSAMPLE + 1)"
definition B_CR_OFF :: nat where "B_CR_OFF = 7 * (MAXJSAMPLE + 1)"
definition TABLE_SIZE :: nat where "TABLE_SIZE = 8 * (MAXJSAMPLE + 1)"

lemmas ycc_offs = R_Y_OFF_def G_Y_OFF_def B_Y_OFF_def R_CB_OFF_def G_CB_OFF_def B_CB_OFF_def R_CR_OFF_def
  G_CR_OFF_def B_CR_OFF_def MAXJSAMPLE_def

text \<open>\<open>fix(n / d)\<close>: the fixed-point constant nearest to a positive fraction, which the code computes in
  floating point at compile time.\<close>

definition fix_point :: "int \<Rightarrow> int \<Rightarrow> int" where
  "fix_point n d = (2 * n * 2 ^ SCALEBITS + d) div (2 * d)"

definition ycc_step :: "nat \<Rightarrow> i32 list \<Rightarrow> i32 list" where
  "ycc_step i tab =
     (let j = int i;
          tab = tab[i + R_Y_OFF := word_of_int (fix_point 29900 100000 * j)];
          tab = tab[i + G_Y_OFF := word_of_int (fix_point 58700 100000 * j)];
          tab = tab[i + B_Y_OFF := word_of_int (fix_point 11400 100000 * j + ONE_HALF)];
          tab = tab[i + R_CB_OFF := word_of_int (- fix_point 16874 100000 * j)];
          tab = tab[i + G_CB_OFF := word_of_int (- fix_point 33126 100000 * j)];
          tab = tab[i + B_CB_OFF := word_of_int (fix_point 50000 100000 * j + CBCR_OFFSET + ONE_HALF - 1)];
          tab = tab[i + G_CR_OFF := word_of_int (- fix_point 41869 100000 * j)];
          tab = tab[i + B_CR_OFF := word_of_int (- fix_point 8131 100000 * j)]
      in tab)"

definition rgb_ycc_tab :: "i32 list" where
  "rgb_ycc_tab = fold ycc_step [0 ..< MAXJSAMPLE + 1] (replicate TABLE_SIZE 0)"

text \<open>The tables that widen 5, 6 and 4 bit components to 8 bits.\<close>

definition widen_entry :: "int \<Rightarrow> nat \<Rightarrow> u8" where
  "widen_entry n i = word_of_int ((fix_point 255 n * int i + ONE_HALF) div 2 ^ SCALEBITS)"

definition rb_5_tab :: "u8 list" where
  "rb_5_tab = map (widen_entry (2 ^ 5 - 1)) [0 ..< 2 ^ 5]"

definition g_6_tab :: "u8 list" where
  "g_6_tab = map (widen_entry (2 ^ 6 - 1)) [0 ..< 2 ^ 6]"

definition rgb_4_tab :: "u8 list" where
  "rgb_4_tab = map (widen_entry (2 ^ 4 - 1)) [0 ..< 2 ^ 4]"

section \<open>Colour conversion\<close>

datatype color_space = RGBA8 | RGB8 | RGB565 | RGB5A1 | RGB4

datatype start_step = Normal | Even | Odd

definition get_start_step :: "start_step \<Rightarrow> nat \<times> nat" where
  "get_start_step ss = (case ss of Normal \<Rightarrow> (0, 1) | Even \<Rightarrow> (0, 2) | Odd \<Rightarrow> (1, 2))"

definition rgb565_comps :: "u16 \<Rightarrow> u8 \<times> u8 \<times> u8" where
  "rgb565_comps input =
     (rb_5_tab ! unat (drop_bit 11 input AND 0x1f), g_6_tab ! unat (drop_bit 5 input AND 0x3f),
      rb_5_tab ! unat (input AND 0x1f))"

definition rgb5a1_comps :: "u16 \<Rightarrow> u8 \<times> u8 \<times> u8" where
  "rgb5a1_comps input =
     (rb_5_tab ! unat (drop_bit 11 input AND 0x1f), rb_5_tab ! unat (drop_bit 6 input AND 0x1f),
      rb_5_tab ! unat (drop_bit 1 input AND 0x1f))"

definition rgba4_comps :: "u16 \<Rightarrow> u8 \<times> u8 \<times> u8" where
  "rgba4_comps input =
     (rgb_4_tab ! unat (drop_bit 12 input AND 0xf), rgb_4_tab ! unat (drop_bit 8 input AND 0xf),
      rgb_4_tab ! unat (drop_bit 4 input AND 0xf))"

definition pccopy :: "u8 \<Rightarrow> u8 \<Rightarrow> u8 \<Rightarrow> nat \<Rightarrow> nat \<Rightarrow> nat \<Rightarrow> mem \<Rightarrow> mem" where
  "pccopy r g b y cb cr m = m(y := g, cb := r, cr := b)"

definition ycc :: "nat \<Rightarrow> nat \<Rightarrow> nat \<Rightarrow> u8 \<Rightarrow> u8 \<Rightarrow> u8 \<Rightarrow> u8" where
  "ycc r_off g_off b_off r g b =
     ucast (signed_drop_bit SCALEBITS
       (rgb_ycc_tab ! (unat r + r_off) + rgb_ycc_tab ! (unat g + g_off) + rgb_ycc_tab ! (unat b + b_off)))"

definition pconvert :: "u8 \<Rightarrow> u8 \<Rightarrow> u8 \<Rightarrow> nat \<Rightarrow> nat \<Rightarrow> nat \<Rightarrow> mem \<Rightarrow> mem" where
  "pconvert r g b y cb cr m =
     m(y := ycc R_Y_OFF G_Y_OFF B_Y_OFF r g b, cb := ycc R_CB_OFF G_CB_OFF B_CB_OFF r g b,
       cr := ycc R_CR_OFF G_CR_OFF B_CR_OFF r g b)"

section \<open>The slices of the planes\<close>



section \<open>The colour tables hold the products\<close>

lemma fix_values:
  "fix_point 29900 100000 = 19595" "fix_point 58700 100000 = 38470" "fix_point 11400 100000 = 7471"
  "fix_point 16874 100000 = 11059" "fix_point 33126 100000 = 21709" "fix_point 50000 100000 = 32768"
  "fix_point 41869 100000 = 27439" "fix_point 8131 100000 = 5329" "CBCR_OFFSET = 8388608" "ONE_HALF = 32768"
  by (simp_all add: fix_point_def SCALEBITS_def CBCR_OFFSET_def ONE_HALF_def)

definition ycc_val :: "nat \<Rightarrow> int \<Rightarrow> int" where
  "ycc_val sec j = [19595 * j, 38470 * j, 7471 * j + 32768, - 11059 * j, - 21709 * j,
     32768 * j + 8388608 + 32768 - 1, - 27439 * j, - 5329 * j] ! sec"

definition ycc_secs :: "nat list" where
  "ycc_secs = [0, 1, 2, 3, 4, 5, 6, 7]"

lemma ycc_step_fold:
  "ycc_step i tab = fold (\<lambda>sec t. t[256 * sec + i := word_of_int (ycc_val sec (int i))]) ycc_secs tab"
  by (simp add: ycc_step_def Let_def ycc_offs fix_values ycc_val_def ycc_secs_def add.commute)

lemma sec_eq:
  fixes i j :: nat
  assumes "i < 256" "j < 256"
  shows "256 * a + i = 256 * k + j \<longleftrightarrow> a = k \<and> i = j"
proof
  assume e: "256 * a + i = 256 * k + j"
  have "(256 * a + i) div 256 = a" "(256 * k + j) div 256 = k" using assms by simp_all
  with e show "a = k \<and> i = j" by simp
qed simp

lemma fold_sec_update:
  assumes "distinct ss" "i < 256" "j < 256" "\<forall>s \<in> set ss. 256 * s + i < length tab"
  shows "length (fold (\<lambda>s t. t[256 * s + i := f s]) ss tab) = length tab"
    "fold (\<lambda>s t. t[256 * s + i := f s]) ss tab ! (256 * k + j)
       = (if k \<in> set ss \<and> j = i then f k else tab ! (256 * k + j))"
proof -
  show "length (fold (\<lambda>s t. t[256 * s + i := f s]) ss tab) = length tab"
    by (induction ss arbitrary: tab) auto
  show "fold (\<lambda>s t. t[256 * s + i := f s]) ss tab ! (256 * k + j)
       = (if k \<in> set ss \<and> j = i then f k else tab ! (256 * k + j))"
    using assms
  proof (induction ss arbitrary: tab)
    case Nil
    show ?case by simp
  next
    case (Cons a ss)
    note sec_eq [OF Cons.prems(2,3), of a k]
    then show ?case using Cons by (auto simp: nth_list_update)
  qed
qed

lemma ycc_step_nth:
  assumes "length tab = 2048" "i < 256" "sec < 8" "j < 256"
  shows "ycc_step i tab ! (256 * sec + j) = (if j = i then word_of_int (ycc_val sec (int i)) else tab ! (256 * sec + j))"
    "length (ycc_step i tab) = 2048"
proof -
  have d: "distinct ycc_secs" "\<forall>s \<in> set ycc_secs. 256 * s + i < length tab"
    using assms by (auto simp: ycc_secs_def)
  have "sec \<in> set ycc_secs" using assms(3) by (auto simp: ycc_secs_def)
  then show "ycc_step i tab ! (256 * sec + j) = (if j = i then word_of_int (ycc_val sec (int i)) else tab ! (256 * sec + j))"
    by (simp add: ycc_step_fold fold_sec_update(2) [OF d(1) assms(2,4) d(2)])
  show "length (ycc_step i tab) = 2048"
    by (simp add: ycc_step_fold fold_sec_update(1) [OF d(1) assms(2,4) d(2)] assms(1))
qed

lemma ycc_tab_nth:
  assumes "sec < 8" "j < 256"
  shows "rgb_ycc_tab ! (256 * sec + j) = word_of_int (ycc_val sec (int j))"
proof -
  have "length (fold ycc_step [0 ..< n] (replicate TABLE_SIZE 0)) = 2048
     \<and> (j < n \<longrightarrow> fold ycc_step [0 ..< n] (replicate TABLE_SIZE 0) ! (256 * sec + j) = word_of_int (ycc_val sec (int j)))"
    if "n \<le> 256" for n using that
  proof (induction n)
    case 0
    show ?case by (simp add: TABLE_SIZE_def MAXJSAMPLE_def)
  next
    case (Suc n)
    then have "length (fold ycc_step [0 ..< n] (replicate TABLE_SIZE 0)) = 2048" by simp
    from ycc_step_nth [OF this _ assms(1,2), of n] Suc show ?case by auto
  qed
  from this [of 256] assms(2) show ?thesis by (simp add: rgb_ycc_tab_def MAXJSAMPLE_def)
qed

section \<open>Colour conversion is exact\<close>

lemma ycc_shift:
  assumes "0 \<le> v" "v < 2 ^ 24"
  shows "unat (ucast (signed_drop_bit SCALEBITS (word_of_int v :: i32)) :: u8) = nat (v div 2 ^ 16)"
proof -
  have sv: "sint (word_of_int v :: i32) = v"
    using assms by (simp add: signed_of_int signed_take_bit_int_eq_self)
  have "sint (signed_drop_bit SCALEBITS (word_of_int v :: i32)) = v div 2 ^ 16"
    by (simp add: sint_signed_drop_bit_eq sv drop_bit_eq_div SCALEBITS_def)
  then have "signed_drop_bit SCALEBITS (word_of_int v :: i32) = word_of_int (v div 2 ^ 16)"
    by (metis of_int_sint scast_id)
  moreover have "0 \<le> v div 2 ^ 16" "v div 2 ^ 16 < 2 ^ 8" using assms by auto
  ultimately show ?thesis
    by (simp add: unat_eq_nat_uint uint_word_of_int unsigned_ucast_eq take_bit_eq_mod)
qed

lemma ycc_exact:
  assumes "sr < 8" "sg < 8" "sb < 8"
    and "v = ycc_val sr (uint r) + ycc_val sg (uint g) + ycc_val sb (uint b)" and "0 \<le> v" "v < 2 ^ 24"
  shows "unat (ycc (256 * sr) (256 * sg) (256 * sb) r g b) = nat (v div 2 ^ 16)"
proof -
  have u: "unat x < 256" for x :: u8 using unat_less_exp [of x] by simp
  have t: "rgb_ycc_tab ! (unat x + 256 * s) = word_of_int (ycc_val s (uint x))" if "s < 8" for x :: u8 and s
    using ycc_tab_nth [OF that u, of x] by (simp add: add.commute)
  show ?thesis
    unfolding ycc_def t [OF assms(1)] t [OF assms(2)] t [OF assms(3)] of_int_add [symmetric]
    using ycc_shift [OF assms(5,6)] assms(4) by simp
qed

text \<open>C0: colour conversion is the exact fixed-point transform. For every pixel the three table sums
  shifted right by sixteen equal the linear forms of the standard with coefficients scaled by \<open>2^16\<close>,
  rounded to nearest for luma and with ties to the left for chroma; no sum leaves the range of a
  sample, so the narrowing casts never truncate, and a grey pixel has luma equal to its level and both chroma samples at
  the centre.\<close>
theorem pconvert_exact:
  fixes r g b :: u8 and m :: mem
  assumes "y \<noteq> cb" "y \<noteq> cr" "cb \<noteq> cr"
  defines "R \<equiv> uint r" and "G \<equiv> uint g" and "B \<equiv> uint b" and "m' \<equiv> pconvert r g b y cb cr m"
  shows "uint (m' y) = (19595 * R + 38470 * G + 7471 * B + 32768) div 65536
    \<and> uint (m' cb) = (32768 * B - 11059 * R - 21709 * G + 8421375) div 65536
    \<and> uint (m' cr) = (32768 * R - 27439 * G - 5329 * B + 8421375) div 65536
    \<and> (R = G \<and> G = B \<longrightarrow> uint (m' y) = R \<and> m' cb = 128 \<and> m' cr = 128)"
proof -
  have b: "0 \<le> R" "R < 256" "0 \<le> G" "G < 256" "0 \<le> B" "B < 256"
    using uint_lt2p [of r] uint_lt2p [of g] uint_lt2p [of b] by (simp_all add: R_def G_def B_def)
  have u: "uint w = x div 65536" if "unat w = nat (x div 2 ^ 16)" "0 \<le> x" for x and w :: u8
  proof -
    have "uint w = int (unat w)" by simp
    with that show ?thesis by (simp add: pos_imp_zdiv_nonneg_iff)
  qed
  have m': "m' y = ycc (256 * 0) (256 * 1) (256 * 2) r g b" "m' cb = ycc (256 * 3) (256 * 4) (256 * 5) r g b"
    "m' cr = ycc (256 * 5) (256 * 6) (256 * 7) r g b"
    using assms(1-3) by (simp_all add: m'_def pconvert_def ycc_offs)
  have "unat (ycc (256 * 0) (256 * 1) (256 * 2) r g b) = nat ((19595 * R + 38470 * G + 7471 * B + 32768) div 2 ^ 16)"
    by (rule ycc_exact) (use b in \<open>simp_all add: ycc_val_def R_def [symmetric] G_def [symmetric] B_def [symmetric]\<close>)
  then have y: "uint (m' y) = (19595 * R + 38470 * G + 7471 * B + 32768) div 65536"
    unfolding m' by (rule u) (use b in simp)
  have "unat (ycc (256 * 3) (256 * 4) (256 * 5) r g b) = nat ((32768 * B - 11059 * R - 21709 * G + 8421375) div 2 ^ 16)"
    by (rule ycc_exact) (use b in \<open>simp_all add: ycc_val_def R_def [symmetric] G_def [symmetric] B_def [symmetric]\<close>)
  then have cb: "uint (m' cb) = (32768 * B - 11059 * R - 21709 * G + 8421375) div 65536"
    unfolding m' by (rule u) (use b in simp)
  have "unat (ycc (256 * 5) (256 * 6) (256 * 7) r g b) = nat ((32768 * R - 27439 * G - 5329 * B + 8421375) div 2 ^ 16)"
    by (rule ycc_exact) (use b in \<open>simp_all add: ycc_val_def R_def [symmetric] G_def [symmetric] B_def [symmetric]\<close>)
  then have cr: "uint (m' cr) = (32768 * R - 27439 * G - 5329 * B + 8421375) div 65536"
    unfolding m' by (rule u) (use b in simp)
  have "R = G \<and> G = B \<longrightarrow> uint (m' y) = R \<and> m' cb = 128 \<and> m' cr = 128"
    unfolding y word_uint_eq_iff cb cr by auto
  with y cb cr show ?thesis by blast
qed

theorem pconvert_exact_witness:
  "uint (pconvert 255 0 0 1 2 3 (\<lambda>_. 0) 1) = 76 \<and> uint (pconvert 255 0 0 1 2 3 (\<lambda>_. 0) 3) = 255"
proof -
  have "(1 :: nat) \<noteq> 2" "(1 :: nat) \<noteq> 3" "(2 :: nat) \<noteq> 3" by simp_all
  from pconvert_exact [OF this, of 255 0 0] show ?thesis by simp
qed

end
