(* ===== verification/Pre_Process.thy ===== *)
theory Pre_Process
  imports Pixels
begin

text \<open>
  Preprocessing of screen rows before encoding (\<^verbatim>\<open>encoder/encode/color_convert.rs\<close>,
  \<^verbatim>\<open>encoder/encode/pre_process.rs\<close>): conversion of the next rows of the source into the component
  planes or the two-row colour buffers, and the chroma and quarter downsampling between them. The source
  iterator is the list of the addresses of the rows still to come.
\<close>

section \<open>Buffers\<close>

text \<open>Addresses of a thread's buffers. The members of the two unions get an address each; the code uses
  one member at a time.\<close>

record wbufs =
  color_full :: "nat list"
  color_even_odd :: "nat list"
  color_ptr :: "nat list"
  prep_full :: nat
  prep_even_odd :: nat
  quarter_buf :: nat
  quarter_prep :: "nat list"
  lossless_ptr :: nat

record pp_state =
  pp_src :: "nat list"
  pp_bufs :: wbufs
  pp_mem :: mem
  pp_cs :: color_space
  pp_even_odd :: bool

definition comps_sz :: "nat \<Rightarrow> nat" where
  "comps_sz width = width * SAMP_FACTOR * DCTSIZE + width div SAMP_FACTOR * DCTSIZE * (MAX_COMPONENTS - 1)"

definition full_get_mut :: "nat \<Rightarrow> wbufs \<Rightarrow> nat \<Rightarrow> bool \<Rightarrow> bool \<Rightarrow> nat" where
  "full_get_mut gw b ci h v = comps_ptr (prep_full b) (comps_sz (downsample_screen_width gw RP_DOWNSAMPLE_NONE)) ci h v"

definition even_odd_get_mut :: "nat \<Rightarrow> wbufs \<Rightarrow> nat \<Rightarrow> bool \<Rightarrow> bool \<Rightarrow> nat" where
  "even_odd_get_mut gw b ci h v =
     comps_ptr (prep_even_odd b) (comps_sz (downsample_screen_width gw RP_DOWNSAMPLE_EVEN_ODD)) ci h v"

definition quarter_get_mut :: "nat \<Rightarrow> wbufs \<Rightarrow> nat \<Rightarrow> bool \<Rightarrow> bool \<Rightarrow> nat" where
  "quarter_get_mut gw b ci h v =
     comps_ptr (quarter_buf b) (comps_sz (downsample_screen_width gw RP_DOWNSAMPLE_QUARTER)) ci h v"

section \<open>Averaging\<close>

definition h2v1_step :: "nat \<Rightarrow> nat \<Rightarrow> nat \<Rightarrow> nat \<times> mem \<Rightarrow> nat \<times> mem" where
  "h2v1_step input output x s =
     (case s of (bias, m) \<Rightarrow>
        (bias XOR 1,
         m(output + x := ucast (drop_bit 1 (ucast (m (input + SAMP_FACTOR * x))
             + ucast (m (input + SAMP_FACTOR * x + 1)) + of_nat bias :: u16)))))"

definition h2v1_downsample :: "nat \<Rightarrow> nat \<Rightarrow> nat \<Rightarrow> mem \<Rightarrow> mem" where
  "h2v1_downsample width input output m =
     snd (fold (h2v1_step input output) [0 ..< width div SAMP_FACTOR] (0, m))"

definition h2v2_step :: "nat \<Rightarrow> nat \<Rightarrow> nat \<Rightarrow> nat \<Rightarrow> nat \<times> mem \<Rightarrow> nat \<times> mem" where
  "h2v2_step input0 input1 output x s =
     (case s of (bias, m) \<Rightarrow>
        (bias XOR 3,
         m(output + x := ucast (drop_bit 2 (ucast (m (input0 + SAMP_FACTOR * x))
             + ucast (m (input0 + SAMP_FACTOR * x + 1)) + ucast (m (input1 + SAMP_FACTOR * x))
             + ucast (m (input1 + SAMP_FACTOR * x + 1)) + of_nat bias :: u16)))))"

definition h2v2_downsample :: "nat \<Rightarrow> nat \<Rightarrow> nat \<Rightarrow> mem \<Rightarrow> mem" where
  "h2v2_downsample width input output m =
     snd (fold (h2v2_step input (input + width) output) [0 ..< width div SAMP_FACTOR] (1, m))"

definition samp_downsample :: "bool \<Rightarrow> nat \<Rightarrow> nat \<Rightarrow> nat \<Rightarrow> mem \<Rightarrow> mem" where
  "samp_downsample v width input output m =
     (if v then h2v2_downsample width input output m else h2v1_downsample width input output m)"

section \<open>Colour conversion of rows\<close>

definition px :: "bool \<Rightarrow> u8 \<times> u8 \<times> u8 \<Rightarrow> nat \<Rightarrow> nat \<Rightarrow> nat \<Rightarrow> mem \<Rightarrow> mem" where
  "px copy rgb y cb cr m =
     (case rgb of (r, g, b) \<Rightarrow> if copy then pccopy r g b y cb cr m else pconvert r g b y cb cr m)"

definition crow :: "(mem \<Rightarrow> nat \<Rightarrow> u8 \<times> u8 \<times> u8) \<Rightarrow> nat \<Rightarrow> start_step \<Rightarrow> bool \<Rightarrow> nat list \<Rightarrow> nat \<Rightarrow> nat \<Rightarrow> nat
    \<Rightarrow> mem \<Rightarrow> mem" where
  "crow pixel p ss copy outs out_width i input m =
     (let (start, step) = get_start_step ss;
          output0 = outs ! 0 + out_width * i; output1 = outs ! 1 + out_width * i; output2 = outs ! 2 + out_width * i
      in fold (\<lambda>x m. px copy (pixel m (input + (x * step + start) * p)) (output0 + x) (output1 + x) (output2 + x) m)
           [0 ..< out_width] m)"

definition next_row :: "(nat \<Rightarrow> nat \<Rightarrow> mem \<Rightarrow> mem) \<Rightarrow> nat \<Rightarrow> nat list \<times> mem \<Rightarrow> nat list \<times> mem" where
  "next_row row i s = (case s of (src, m) \<Rightarrow> (case src of [] \<Rightarrow> ([], m) | input # rest \<Rightarrow> (rest, row i input m)))"

definition cconvert :: "nat \<Rightarrow> nat \<Rightarrow> nat \<Rightarrow> nat \<Rightarrow> nat \<Rightarrow> start_step \<Rightarrow> bool \<Rightarrow> nat list \<Rightarrow> nat \<Rightarrow> nat list \<times> mem
    \<Rightarrow> nat list \<times> mem" where
  "cconvert r g b p n ss copy outs width s =
     fold (next_row (crow (\<lambda>m a. (m (a + r), m (a + g), m (a + b))) p ss copy outs (width div snd (get_start_step ss))))
       [0 ..< n] s"

definition cconvert2 :: "nat \<Rightarrow> (u16 \<Rightarrow> u8 \<times> u8 \<times> u8) \<Rightarrow> start_step \<Rightarrow> bool \<Rightarrow> nat list \<Rightarrow> nat \<Rightarrow> nat list \<times> mem
    \<Rightarrow> nat list \<times> mem" where
  "cconvert2 n comps ss copy outs width s =
     fold (next_row (crow (\<lambda>m a. comps (rd16_le m a)) 2 ss copy outs (width div snd (get_start_step ss)))) [0 ..< n] s"

definition comp_all :: "nat list" where
  "comp_all = [0 ..< MAX_COMPONENTS]"

definition color_target :: "nat \<Rightarrow> nat \<Rightarrow> bool \<Rightarrow> bool \<Rightarrow> start_step \<Rightarrow> nat \<Rightarrow> u8 \<Rightarrow> wbufs \<Rightarrow> nat \<Rightarrow> nat" where
  "color_target gw n h v ss output_base downsample b ci =
     (let step = snd (get_start_step ss); width = downsample_screen_width gw RP_DOWNSAMPLE_NONE
      in if downsample = RP_DOWNSAMPLE_QUARTER \<or> need_subsamp_ci h v ci
         then if downsample = RP_DOWNSAMPLE_EVEN_ODD then color_even_odd b ! ci else color_full b ! ci
         else let output_step = n; output_base = output_base * output_step; out_width = width div step;
                  output_base = output_base * out_width
              in if downsample = RP_DOWNSAMPLE_EVEN_ODD then even_odd_get_mut gw b ci h v + output_base
                 else full_get_mut gw b ci h v + output_base)"

definition color_convert :: "nat \<Rightarrow> nat \<Rightarrow> bool \<Rightarrow> bool \<Rightarrow> start_step \<Rightarrow> bool \<Rightarrow> nat \<Rightarrow> u8 \<Rightarrow> pp_state \<Rightarrow> pp_state" where
  "color_convert gw n h v ss copy output_base downsample st =
     (let width = downsample_screen_width gw RP_DOWNSAMPLE_NONE;
          bufs = fold (\<lambda>ci b. b\<lparr>color_ptr := (color_ptr b)[ci := color_target gw n h v ss output_base downsample b ci]\<rparr>)
                   comp_all (pp_bufs st);
          outs = color_ptr bufs; s = (pp_src st, pp_mem st);
          s' = (case pp_cs st of
                  RGBA8 \<Rightarrow> cconvert 3 2 1 4 n ss copy outs width s
                | RGB8 \<Rightarrow> cconvert 2 1 0 3 n ss copy outs width s
                | RGB565 \<Rightarrow> cconvert2 n rgb565_comps ss copy outs width s
                | RGB5A1 \<Rightarrow> cconvert2 n rgb5a1_comps ss copy outs width s
                | RGB4 \<Rightarrow> cconvert2 n rgba4_comps ss copy outs width s)
      in st\<lparr>pp_src := fst s', pp_bufs := bufs, pp_mem := snd s'\<rparr>)"

definition color_convert_quarter_vsamp :: "nat \<Rightarrow> bool \<Rightarrow> pp_state \<Rightarrow> pp_state" where
  "color_convert_quarter_vsamp gw h st = color_convert gw DOWNSAMPLE_FACTOR h True Normal False 0 RP_DOWNSAMPLE_QUARTER st"

definition color_convert_quarter_novsamp :: "nat \<Rightarrow> bool \<Rightarrow> pp_state \<Rightarrow> pp_state" where
  "color_convert_quarter_novsamp gw h st = color_convert gw DOWNSAMPLE_FACTOR h False Normal False 0 RP_DOWNSAMPLE_QUARTER st"

definition color_copy_quarter_nohsamp_novsamp :: "nat \<Rightarrow> pp_state \<Rightarrow> pp_state" where
  "color_copy_quarter_nohsamp_novsamp gw st =
     color_convert gw DOWNSAMPLE_FACTOR False False Normal True 0 RP_DOWNSAMPLE_QUARTER st"

definition color_convert_full :: "nat \<Rightarrow> nat \<Rightarrow> bool \<Rightarrow> bool \<Rightarrow> nat \<Rightarrow> pp_state \<Rightarrow> pp_state" where
  "color_convert_full gw n h v output_base st = color_convert gw n h v Normal False output_base RP_DOWNSAMPLE_NONE st"

definition color_convert_even_odd :: "nat \<Rightarrow> nat \<Rightarrow> bool \<Rightarrow> bool \<Rightarrow> nat \<Rightarrow> pp_state \<Rightarrow> pp_state" where
  "color_convert_even_odd gw n h v output_base st =
     (if pp_even_odd st = False then color_convert gw n h v Even False output_base RP_DOWNSAMPLE_EVEN_ODD st
      else color_convert gw n h v Odd False output_base RP_DOWNSAMPLE_EVEN_ODD st)"

section \<open>Downsampling of the components\<close>

abbreviation upd_mem :: "(mem \<Rightarrow> mem) \<Rightarrow> pp_state \<Rightarrow> pp_state" where
  "upd_mem f st \<equiv> st\<lparr>pp_mem := f (pp_mem st)\<rparr>"

definition downsample_full :: "nat \<Rightarrow> bool \<Rightarrow> bool \<Rightarrow> nat \<Rightarrow> pp_state \<Rightarrow> pp_state" where
  "downsample_full gw h v output_base st =
     (let width = downsample_screen_width gw RP_DOWNSAMPLE_NONE; out_width = width div SAMP_FACTOR
      in fold (\<lambda>ci st. if need_subsamp_ci h v ci
                 then upd_mem (samp_downsample v width (color_full (pp_bufs st) ! ci)
                        (full_get_mut gw (pp_bufs st) ci h v + output_base * out_width)) st
                 else st) comp_all st)"

definition downsample_even_odd :: "nat \<Rightarrow> bool \<Rightarrow> bool \<Rightarrow> nat \<Rightarrow> pp_state \<Rightarrow> pp_state" where
  "downsample_even_odd gw h v output_base st =
     (let width = downsample_screen_width gw RP_DOWNSAMPLE_EVEN_ODD; out_width = width div SAMP_FACTOR
      in fold (\<lambda>ci st. if need_subsamp_ci h v ci
                 then upd_mem (samp_downsample v width (color_even_odd (pp_bufs st) ! ci)
                        (even_odd_get_mut gw (pp_bufs st) ci h v + output_base * out_width)) st
                 else st) comp_all st)"

definition downsample_quarter :: "nat \<Rightarrow> bool \<Rightarrow> bool \<Rightarrow> nat \<Rightarrow> nat \<Rightarrow> pp_state \<Rightarrow> pp_state" where
  "downsample_quarter gw h v output_base ci st =
     (let width = downsample_screen_width gw RP_DOWNSAMPLE_QUARTER; out_width = width div SAMP_FACTOR
      in if need_subsamp_ci h v ci
         then upd_mem (samp_downsample v width (quarter_prep (pp_bufs st) ! ci)
                (quarter_get_mut gw (pp_bufs st) ci h v + output_base * out_width)) st
         else st)"

section \<open>Preprocessing of a row of units\<close>

definition lossless_pre_process_nohsamp_novsamp :: "pp_state \<Rightarrow> pp_state" where
  "lossless_pre_process_nohsamp_novsamp st =
     (case pp_src st of
        a # rest \<Rightarrow> st\<lparr>pp_src := rest, pp_bufs := (pp_bufs st)\<lparr>lossless_ptr := a\<rparr>\<rparr>
      | [] \<Rightarrow> st\<lparr>pp_bufs := (pp_bufs st)\<lparr>lossless_ptr := 0\<rparr>\<rparr>)"

text \<open>Averages all colour buffers into the quarter planes.\<close>

definition quarter_all :: "nat \<Rightarrow> bool \<Rightarrow> bool \<Rightarrow> nat \<Rightarrow> pp_state \<Rightarrow> pp_state" where
  "quarter_all gw h v off st =
     fold (\<lambda>ci st. upd_mem (h2v2_downsample (downsample_screen_width gw RP_DOWNSAMPLE_NONE)
              (color_full (pp_bufs st) ! ci) (quarter_get_mut gw (pp_bufs st) ci h v + off)) st) comp_all st"

definition lossless_pre_process_quarter_nohsamp_novsamp :: "nat \<Rightarrow> pp_state \<Rightarrow> pp_state" where
  "lossless_pre_process_quarter_nohsamp_novsamp gw st =
     quarter_all gw False False 0 (color_copy_quarter_nohsamp_novsamp gw st)"

definition quarter_unit :: "nat \<Rightarrow> nat \<Rightarrow> nat \<Rightarrow> pp_state \<Rightarrow> pp_state" where
  "quarter_unit gw output_base prep_base st =
     (let width = downsample_screen_width gw RP_DOWNSAMPLE_NONE; out_width = width div SAMP_FACTOR;
          st = color_convert_quarter_vsamp gw True st
      in fold (\<lambda>ci st.
           if need_subsamp_ci True True ci
           then upd_mem (h2v2_downsample width (color_full (pp_bufs st) ! ci)
                  (quarter_prep (pp_bufs st) ! ci + out_width * prep_base)) st
           else upd_mem (h2v2_downsample width (color_full (pp_bufs st) ! ci)
                  (quarter_get_mut gw (pp_bufs st) ci True True
                     + out_width * (output_base * SAMP_FACTOR + prep_base))) st) comp_all st)"

definition do_pre_process_quarter :: "nat \<Rightarrow> nat \<Rightarrow> pp_state \<Rightarrow> pp_state" where
  "do_pre_process_quarter gw output_base st =
     fold (downsample_quarter gw True True output_base) comp_all
       (fold (quarter_unit gw output_base) [0 ..< SAMP_FACTOR] st)"

text \<open>The rows missing in the last unit row mirror the rows already there. A row index that has
  wrapped below zero is an offset to before the plane.\<close>

definition mem_copy :: "nat \<Rightarrow> nat \<Rightarrow> nat \<Rightarrow> mem \<Rightarrow> mem" where
  "mem_copy src dst n m = wr dst (rd m src n) m"

definition rem_row :: "nat \<Rightarrow> nat \<Rightarrow> nat \<Rightarrow> nat \<Rightarrow> pp_state \<Rightarrow> pp_state" where
  "rem_row gw n i ci st =
     (let k = i - n;
          samp_factor = (if need_subsamp_ci True True ci then SAMP_FACTOR else 1);
          width = downsample_screen_width gw RP_DOWNSAMPLE_QUARTER div samp_factor;
          vs = SAMP_FACTOR div samp_factor
      in fold (\<lambda>j st.
           let l = (int n - int k) * int vs - int j - 1; ms = i * vs + j; buf = quarter_get_mut gw (pp_bufs st) ci True True
           in upd_mem (mem_copy (nat (int buf + int width * l)) (buf + width * ms) width) st) [0 ..< vs] st)"

definition pre_process_quarter_rem :: "nat \<Rightarrow> nat \<Rightarrow> nat \<Rightarrow> pp_state \<Rightarrow> bool \<times> pp_state" where
  "pre_process_quarter_rem gw count src_count st =
     (let n = src_count div (SAMP_FACTOR * DOWNSAMPLE_FACTOR);
          st = fold (do_pre_process_quarter gw) [0 ..< n] st
      in if n = 0 then (False, st)
         else (True, fold (\<lambda>i st. fold (rem_row gw n i) comp_all st) [n ..< count] st))"

definition pre_process_quarter :: "nat \<Rightarrow> nat \<Rightarrow> nat \<Rightarrow> pp_state \<Rightarrow> pp_state" where
  "pre_process_quarter gw count start st = fold (do_pre_process_quarter gw) [start ..< start + count] st"

definition pre_process_even_odd :: "nat \<Rightarrow> nat \<Rightarrow> nat \<Rightarrow> pp_state \<Rightarrow> pp_state" where
  "pre_process_even_odd gw count start st =
     fold (\<lambda>output_base st. downsample_even_odd gw True True output_base
             (color_convert_even_odd gw SAMP_FACTOR True True output_base st)) [start ..< start + count] st"

definition pre_process_full :: "nat \<Rightarrow> nat \<Rightarrow> nat \<Rightarrow> pp_state \<Rightarrow> pp_state" where
  "pre_process_full gw count start st =
     fold (\<lambda>output_base st. downsample_full gw True True output_base
             (color_convert_full gw SAMP_FACTOR True True output_base st)) [start ..< start + count] st"

definition pre_process_quarter_nohsamp_novsamp :: "nat \<Rightarrow> nat \<Rightarrow> nat \<Rightarrow> pp_state \<Rightarrow> pp_state" where
  "pre_process_quarter_nohsamp_novsamp gw count start st =
     (let out_width = downsample_screen_width gw RP_DOWNSAMPLE_NONE div SAMP_FACTOR
      in fold (\<lambda>output_base st. quarter_all gw False False (out_width * output_base)
                (color_convert_quarter_novsamp gw False st)) [start ..< start + count] st)"

definition quarter_novsamp_comp :: "nat \<Rightarrow> nat \<Rightarrow> nat \<Rightarrow> pp_state \<Rightarrow> pp_state" where
  "quarter_novsamp_comp gw output_base ci st =
     (let width = downsample_screen_width gw RP_DOWNSAMPLE_NONE; out_width = width div SAMP_FACTOR;
          st = (if need_subsamp_ci True False ci
                then upd_mem (h2v2_downsample width (color_full (pp_bufs st) ! ci) (quarter_prep (pp_bufs st) ! ci)) st
                else upd_mem (h2v2_downsample width (color_full (pp_bufs st) ! ci)
                       (quarter_get_mut gw (pp_bufs st) ci True False + out_width * output_base)) st)
      in downsample_quarter gw True False output_base ci st)"

definition pre_process_quarter_novsamp :: "nat \<Rightarrow> nat \<Rightarrow> nat \<Rightarrow> pp_state \<Rightarrow> pp_state" where
  "pre_process_quarter_novsamp gw count start st =
     fold (\<lambda>output_base st. fold (quarter_novsamp_comp gw output_base) comp_all
             (color_convert_quarter_novsamp gw True st)) [start ..< start + count] st"

definition pre_process_full_novsamp :: "nat \<Rightarrow> nat \<Rightarrow> bool \<Rightarrow> nat \<Rightarrow> pp_state \<Rightarrow> pp_state" where
  "pre_process_full_novsamp gw count h start st =
     fold (\<lambda>base st. downsample_full gw h False base (color_convert_full gw 1 h False base st))
       [start ..< start + count] st"

definition pre_process_even_odd_novsamp :: "nat \<Rightarrow> nat \<Rightarrow> bool \<Rightarrow> nat \<Rightarrow> pp_state \<Rightarrow> pp_state" where
  "pre_process_even_odd_novsamp gw count h start st =
     fold (\<lambda>base st. downsample_even_odd gw h False base (color_convert_even_odd gw 1 h False base st))
       [start ..< start + count] st"

section \<open>Averages\<close>

lemma unat_narrow:
  assumes "unat (w :: u16) = v" "v < 256"
  shows "unat (ucast w :: u8) = v"
  using assms by (simp add: unsigned_ucast_eq take_bit_nat_eq_self)

lemma avg4_val:
  fixes a b c d :: u8
  assumes "n \<le> 3"
  shows "unat (ucast (drop_bit 2 (ucast a + ucast b + ucast c + ucast d + of_nat n :: u16)) :: u8)
       = (unat a + unat b + unat c + unat d + n) div 4"
proof -
  have u: "unat x < 256" for x :: u8 using unat_less_exp [of x] by simp
  have e: "(ucast a + ucast b + ucast c + ucast d + of_nat n :: u16) = of_nat (unat a + unat b + unat c + unat d + n)"
    by simp
  have s: "unat (of_nat (unat a + unat b + unat c + unat d + n) :: u16) = unat a + unat b + unat c + unat d + n"
    by (rule unat_of_nat_small) (use u [of a] u [of b] u [of c] u [of d] assms in simp)
  show ?thesis
    unfolding e by (rule unat_narrow) (use u [of a] u [of b] u [of c] u [of d] assms s in \<open>simp_all add: unat_drop_bit\<close>)
qed

lemma avg2_val:
  fixes a b :: u8
  assumes "n \<le> 1"
  shows "unat (ucast (drop_bit 1 (ucast a + ucast b + of_nat n :: u16)) :: u8) = (unat a + unat b + n) div 2"
proof -
  have u: "unat x < 256" for x :: u8 using unat_less_exp [of x] by simp
  have e: "(ucast a + ucast b + of_nat n :: u16) = of_nat (unat a + unat b + n)" by simp
  have s: "unat (of_nat (unat a + unat b + n) :: u16) = unat a + unat b + n"
    by (rule unat_of_nat_small) (use u [of a] u [of b] assms in simp)
  show ?thesis
    unfolding e by (rule unat_narrow) (use u [of a] u [of b] assms s in \<open>simp_all add: unat_drop_bit\<close>)
qed

definition mean4 :: "nat \<Rightarrow> nat \<Rightarrow> mem \<Rightarrow> nat \<Rightarrow> nat" where
  "mean4 width input m x =
     (unat (m (input + 2 * x)) + unat (m (input + 2 * x + 1)) + unat (m (input + width + 2 * x))
        + unat (m (input + width + 2 * x + 1)) + (if even x then 1 else 2)) div 4"

definition mean2 :: "nat \<Rightarrow> mem \<Rightarrow> nat \<Rightarrow> nat" where
  "mean2 input m x = (unat (m (input + 2 * x)) + unat (m (input + 2 * x + 1)) + (if even x then 0 else 1)) div 2"

lemma mean4_bound: "mean4 width input m x < 256"
proof -
  have u: "unat (m y) < 256" for y using unat_less_exp [of "m y"] by simp
  show ?thesis using u [of "input + 2 * x"] u [of "input + 2 * x + 1"] u [of "input + width + 2 * x"]
    u [of "input + width + 2 * x + 1"]
    unfolding mean4_def by (cases "even x") (simp_all del: One_nat_def Suc_eq_plus1_left add_2_eq_Suc' add: div_less_iff_less_mult)
qed

lemma mean2_bound: "mean2 input m x < 256"
proof -
  have u: "unat (m y) < 256" for y using unat_less_exp [of "m y"] by simp
  show ?thesis using u [of "input + 2 * x"] u [of "input + 2 * x + 1"]
    unfolding mean2_def by (cases "even x") (simp_all del: One_nat_def add: div_less_iff_less_mult)
qed

lemma h2v2_fold:
  assumes "n \<le> width div 2" "output + width div 2 \<le> input \<or> input + 2 * width \<le> output"
  shows "fold (h2v2_step input (input + width) output) [0 ..< n] (1, m)
    = (if even n then 1 else 2, \<lambda>a. if output \<le> a \<and> a < output + n then of_nat (mean4 width input m (a - output)) else m a)"
  using assms(1)
proof (induction n)
  case 0
  show ?case by (auto simp: fun_eq_iff)
next
  case (Suc n)
  let ?m' = "\<lambda>a. if output \<le> a \<and> a < output + n then of_nat (mean4 width input m (a - output)) else m a"
  have "n < width div 2" using Suc.prems by simp
  then have r: "?m' (input + 2 * n) = m (input + 2 * n)" "?m' (input + 2 * n + 1) = m (input + 2 * n + 1)"
    "?m' (input + width + 2 * n) = m (input + width + 2 * n)"
    "?m' (input + width + 2 * n + 1) = m (input + width + 2 * n + 1)"
    using assms(2) by auto
  have v: "ucast (drop_bit 2 (ucast (m (input + 2 * n)) + ucast (m (input + 2 * n + 1)) + ucast (m (input + width + 2 * n))
      + ucast (m (input + width + 2 * n + 1)) + of_nat (if even n then 1 else 2) :: u16)) = (of_nat (mean4 width input m n) :: u8)"
    (is "?l = _")
  proof -
    have "unat ?l = mean4 width input m n" unfolding mean4_def by (rule avg4_val) simp
    then show ?thesis by (metis of_nat_unat ucast_id)
  qed
  show ?case
    unfolding upt_Suc_append [OF le0] fold_append comp_apply Suc.IH [OF Suc_leD [OF Suc.prems]]
    by (simp only: fold.simps id_def comp_apply h2v2_step_def SAMP_FACTOR_def prod.case r v)
       (auto simp: fun_eq_iff less_Suc_eq)
qed

lemma h2v1_fold:
  assumes "n \<le> width div 2" "output + width div 2 \<le> input \<or> input + width \<le> output"
  shows "fold (h2v1_step input output) [0 ..< n] (0, m)
    = (if even n then 0 else 1, \<lambda>a. if output \<le> a \<and> a < output + n then of_nat (mean2 input m (a - output)) else m a)"
  using assms(1)
proof (induction n)
  case 0
  show ?case by (auto simp: fun_eq_iff)
next
  case (Suc n)
  let ?m' = "\<lambda>a. if output \<le> a \<and> a < output + n then of_nat (mean2 input m (a - output)) else m a"
  have "n < width div 2" using Suc.prems by simp
  then have r: "?m' (input + 2 * n) = m (input + 2 * n)" "?m' (input + 2 * n + 1) = m (input + 2 * n + 1)"
    using assms(2) by auto
  have v: "ucast (drop_bit 1 (ucast (m (input + 2 * n)) + ucast (m (input + 2 * n + 1))
      + of_nat (if even n then 0 else 1) :: u16)) = (of_nat (mean2 input m n) :: u8)"
    (is "?l = _")
  proof -
    have "unat ?l = mean2 input m n" unfolding mean2_def by (rule avg2_val) simp
    then show ?thesis by (metis of_nat_unat ucast_id)
  qed
  show ?case
    unfolding upt_Suc_append [OF le0] fold_append comp_apply Suc.IH [OF Suc_leD [OF Suc.prems]]
    by (simp only: fold.simps id_def comp_apply h2v1_step_def SAMP_FACTOR_def prod.case r v)
       (auto simp: fun_eq_iff less_Suc_eq)
qed

section \<open>Where the writes go\<close>

definition frame :: "nat set \<Rightarrow> mem \<Rightarrow> mem \<Rightarrow> bool" where
  "frame P m m' \<longleftrightarrow> (\<forall>a. a \<notin> P \<longrightarrow> m' a = m a)"

lemma frame_refl [simp]: "frame P m m"
  by (simp add: frame_def)

lemma frame_trans: "frame P m m' \<Longrightarrow> frame P m' m'' \<Longrightarrow> frame P m m''"
  by (simp add: frame_def)

lemma frame_upd: "a \<in> P \<Longrightarrow> frame P m m' \<Longrightarrow> frame P m (m'(a := v))"
  by (auto simp: frame_def)

lemma frame_fold:
  "(\<And>x m. x \<in> set xs \<Longrightarrow> frame P m (f x m)) \<Longrightarrow> frame P m (fold f xs m)"
proof (induction xs arbitrary: m)
  case (Cons a xs)
  have "frame P m (f a m)" "frame P (f a m) (fold f xs (f a m))" using Cons by auto
  then show ?case by (auto intro: frame_trans)
qed simp

lemma frame_h2v2:
  assumes "\<And>x. x < width div 2 \<Longrightarrow> output + x \<in> P"
  shows "frame P m (h2v2_downsample width input output m)"
proof -
  have "frame P (snd s) (snd (fold (h2v2_step input (input + width) output) [0 ..< n] s))"
    if "n \<le> width div 2" for n s using that
    by (induction n) (auto simp: h2v2_step_def split: prod.split intro!: frame_upd assms)
  from this [of _ "(1, m)"] show ?thesis by (simp add: h2v2_downsample_def SAMP_FACTOR_def)
qed

lemma frame_h2v1:
  assumes "\<And>x. x < width div 2 \<Longrightarrow> output + x \<in> P"
  shows "frame P m (h2v1_downsample width input output m)"
proof -
  have "frame P (snd s) (snd (fold (h2v1_step input output) [0 ..< n] s))"
    if "n \<le> width div 2" for n s using that
    by (induction n) (auto simp: h2v1_step_def split: prod.split intro!: frame_upd assms)
  from this [of _ "(0, m)"] show ?thesis by (simp add: h2v1_downsample_def SAMP_FACTOR_def)
qed

lemma frame_samp:
  "(\<And>x. x < width div 2 \<Longrightarrow> output + x \<in> P) \<Longrightarrow> frame P m (samp_downsample v width input output m)"
  by (simp add: samp_downsample_def frame_h2v1 frame_h2v2)

lemma frame_crow:
  assumes "\<And>k x. k < 3 \<Longrightarrow> x < ow \<Longrightarrow> outs ! k + ow * i + x \<in> P"
  shows "frame P m (crow pixel p ss copy outs ow i input m)"
  unfolding crow_def Let_def
  by (cases "get_start_step ss") (auto simp: px_def pccopy_def pconvert_def split: prod.split
    intro!: frame_fold frame_upd assms)

lemma next_row_fold:
  assumes "\<And>i a m. i \<in> set xs \<Longrightarrow> frame P m (row i a m)"
  shows "fst (fold (next_row row) xs s) = drop (length xs) (fst s)
    \<and> frame P (snd s) (snd (fold (next_row row) xs s))"
  using assms
proof (induction xs arbitrary: s)
  case (Cons i xs)
  obtain src m where s: "s = (src, m)" by fastforce
  have 1: "fst (next_row row i s) = drop 1 src" "frame P m (snd (next_row row i s))"
    using Cons.prems by (auto simp: next_row_def s split: list.split)
  from Cons.IH [OF Cons.prems, of "next_row row i s"] 1 show ?case
    by (auto simp: s intro: frame_trans)
qed simp

text \<open>\<open>pp_step P k\<close>: \<open>k\<close> rows are consumed, only \<open>P\<close> is written and the buffers stay where they are.\<close>

definition bufs_layout :: "wbufs \<Rightarrow> nat list \<times> nat list \<times> nat \<times> nat \<times> nat \<times> nat list \<times> bool" where
  "bufs_layout b = (color_full b, color_even_odd b, prep_full b, prep_even_odd b, quarter_buf b, quarter_prep b,
     length (color_ptr b) = MAX_COMPONENTS)"

definition pp_step :: "nat set \<Rightarrow> nat \<Rightarrow> pp_state \<Rightarrow> pp_state \<Rightarrow> bool" where
  "pp_step P k st st' \<longleftrightarrow> pp_src st' = drop k (pp_src st) \<and> frame P (pp_mem st) (pp_mem st')
     \<and> bufs_layout (pp_bufs st') = bufs_layout (pp_bufs st) \<and> pp_cs st' = pp_cs st \<and> pp_even_odd st' = pp_even_odd st"

lemma pp_step_refl [simp]: "pp_step P 0 st st"
  by (simp add: pp_step_def)

lemma pp_step_trans: "pp_step P k st st' \<Longrightarrow> pp_step P j st' st'' \<Longrightarrow> pp_step P (k + j) st st''"
  by (auto simp: pp_step_def add.commute intro: frame_trans)

lemma pp_step_fold:
  assumes "\<And>x st. x \<in> set xs \<Longrightarrow> bufs_layout (pp_bufs st) = L \<Longrightarrow> pp_step P k st (f x st)"
    and "bufs_layout (pp_bufs st) = L"
  shows "pp_step P (length xs * k) st (fold f xs st)"
  using assms
proof (induction xs arbitrary: st)
  case (Cons x xs)
  have 1: "pp_step P k st (f x st)" using Cons.prems by auto
  then have "bufs_layout (pp_bufs (f x st)) = L" using Cons.prems(2) by (simp add: pp_step_def)
  then have "pp_step P (length xs * k) (f x st) (fold f xs (f x st))" using Cons by auto
  from pp_step_trans [OF 1 this] show ?case by simp
qed simp

lemma pp_step_mem: "frame P (pp_mem st) (f (pp_mem st)) \<Longrightarrow> pp_step P 0 st (upd_mem f st)"
  by (simp add: pp_step_def)

lemma color_target_ptr [simp]: "color_target gw n h v ss ob d (b\<lparr>color_ptr := ps\<rparr>) ci = color_target gw n h v ss ob d b ci"
  by (simp add: color_target_def Let_def full_get_mut_def even_odd_get_mut_def)

lemma color_convert_step:
  assumes "bufs_layout (pp_bufs st) = L" "snd (snd (snd (snd (snd (snd L)))))"
    and t: "\<And>ci i x. ci < 3 \<Longrightarrow> i < n \<Longrightarrow> x < gw div snd (get_start_step ss)
      \<Longrightarrow> color_target gw n h v ss ob d (pp_bufs st) ci + gw div snd (get_start_step ss) * i + x \<in> P"
  shows "pp_step P n st (color_convert gw n h v ss copy ob d st)"
proof -
  let ?t = "color_target gw n h v ss ob d (pp_bufs st)"
  let ?b = "fold (\<lambda>ci b. b\<lparr>color_ptr := (color_ptr b)[ci := color_target gw n h v ss ob d b ci]\<rparr>) comp_all (pp_bufs st)"
  have len: "length (color_ptr (pp_bufs st)) = 3"
    using assms(1,2) by (auto simp: bufs_layout_def MAX_COMPONENTS_def)
  have all: "comp_all = [0, 1, 2]" by (simp add: comp_all_def MAX_COMPONENTS_def upt_rec)
  have b: "?b = (pp_bufs st)\<lparr>color_ptr := [?t 0, ?t 1, ?t 2]\<rparr>"
    using len by (auto simp: all length_Suc_conv eval_nat_numeral)
  have o: "[?t 0, ?t 1, ?t 2] ! k = ?t k" if "k < 3" for k
    using that by (auto simp: less_Suc_eq eval_nat_numeral)
  have w: "downsample_screen_width gw RP_DOWNSAMPLE_NONE = gw" by (simp add: downsample_screen_width_def downsample_consts)
  have fr: "frame P m (crow pixel p ss copy [?t 0, ?t 1, ?t 2] (gw div snd (get_start_step ss)) i a m)"
    if "i \<in> set [0 ..< n]" for pixel p i a m
    by (rule frame_crow) (use that t o in auto)
  have lay: "bufs_layout ?b = bufs_layout (pp_bufs st)"
    using len by (simp add: b bufs_layout_def MAX_COMPONENTS_def)
  note conv = next_row_fold [where xs = "[0 ..< n]" and s = "(pp_src st, pp_mem st)", OF fr, simplified]
  show ?thesis
    unfolding pp_step_def color_convert_def Let_def w
    using lay conv by (simp add: b cconvert_def cconvert2_def split: color_space.split)
qed

section \<open>The planes\<close>

definition plane_width :: "nat \<Rightarrow> bool \<Rightarrow> nat \<Rightarrow> nat" where
  "plane_width w h ci = (if h \<and> ci \<noteq> 0 then w div 2 else w)"

definition plane_rows :: "bool \<Rightarrow> nat \<Rightarrow> nat" where
  "plane_rows v ci = (if v \<and> ci = 0 then 16 else 8)"

lemma row_lt: "r < n \<Longrightarrow> x < w \<Longrightarrow> r * w + x < n * (w :: nat)"
  by (metis add.commute mult_Suc add_le_cancel_left less_le_trans mult_le_mono1 nat_add_left_cancel_less Suc_leI)

lemma plane_size:
  assumes "even w" "subsamp_constraint h v" "ci < 3"
  shows "comps_ptr base (comps_sz w) ci h v + plane_rows v ci * plane_width w h ci \<le> base + comps_sz w"
    "base \<le> comps_ptr base (comps_sz w) ci h v"
proof -
  obtain k where w: "w = 2 * k" using assms(1) by (auto elim: evenE)
  have sz: "comps_sz w = 48 * k"
    by (simp add: comps_sz_def w SAMP_FACTOR_def DCTSIZE_def MAX_COMPONENTS_def)
  have ci: "ci = 0 \<or> ci = 1 \<or> ci = 2" using assms(3) by auto
  consider "h" "v" | "h" "\<not> v" | "\<not> h" "\<not> v" using assms(2) by (auto simp: subsamp_constraint_def)
  then show "comps_ptr base (comps_sz w) ci h v + plane_rows v ci * plane_width w h ci \<le> base + comps_sz w"
    unfolding sz using ci
    by cases (auto simp: comps_ptr_def comps_get_def Let_def MAX_COMPONENTS_def SAMP_FACTOR_def plane_rows_def
      plane_width_def w)
  show "base \<le> comps_ptr base (comps_sz w) ci h v" by (simp add: comps_ptr_def)
qed

lemma plane_in:
  assumes "even w" "subsamp_constraint h v" "ci < 3" "r < plane_rows v ci" "x < plane_width w h ci"
    and "off = r * plane_width w h ci + x"
  shows "comps_ptr base (comps_sz w) ci h v + off \<in> {base ..< base + comps_sz w}"
  using plane_size [OF assms(1-3), of base] row_lt [OF assms(4,5)] assms(6) by simp

lemma need_subsamp_ci_iff: "ci < 3 \<Longrightarrow> need_subsamp_ci h v ci \<longleftrightarrow> (h \<or> v) \<and> ci \<noteq> 0"
  by (auto simp: need_subsamp_ci_def need_subsamp_def less_Suc_eq eval_nat_numeral)

lemma screen_widths [simp]:
  "downsample_screen_width gw RP_DOWNSAMPLE_NONE = gw"
  "downsample_screen_width gw RP_DOWNSAMPLE_QUARTER = gw div 2"
  "downsample_screen_width gw RP_DOWNSAMPLE_EVEN_ODD = gw div 2"
  by (simp_all add: downsample_screen_width_def downsample_consts DOWNSAMPLE_FACTOR_def)

lemma downsample_neq [simp]:
  "RP_DOWNSAMPLE_NONE \<noteq> RP_DOWNSAMPLE_QUARTER" "RP_DOWNSAMPLE_EVEN_ODD \<noteq> RP_DOWNSAMPLE_QUARTER"
  "RP_DOWNSAMPLE_NONE \<noteq> RP_DOWNSAMPLE_EVEN_ODD" "RP_DOWNSAMPLE_QUARTER \<noteq> RP_DOWNSAMPLE_EVEN_ODD"
  by (simp_all add: downsample_consts)

text \<open>The writable memory of a thread: the two-row colour buffers, the planes and, for the quarter
  mode, the buffers of the first averaging step.\<close>

definition own_buffers :: "nat \<Rightarrow> wbufs \<Rightarrow> nat set" where
  "own_buffers gw b =
     (\<Union>ci < 3. {color_full b ! ci ..< color_full b ! ci + 2 * gw})
     \<union> (\<Union>ci < 3. {color_even_odd b ! ci ..< color_even_odd b ! ci + 2 * (gw div 2)})
     \<union> {prep_full b ..< prep_full b + comps_sz gw}
     \<union> {prep_even_odd b ..< prep_even_odd b + comps_sz (gw div 2)}
     \<union> {quarter_buf b ..< quarter_buf b + comps_sz (gw div 2)}
     \<union> (\<Union>ci < 3. {quarter_prep b ! ci ..< quarter_prep b ! ci + 2 * (gw div 2)})"

lemma own_color_full:
  assumes "ci < 3" "y < 2 * gw"
  shows "color_full b ! ci + y \<in> own_buffers gw b"
proof -
  have "color_full b ! ci + y \<in> (\<Union>ci < 3. {color_full b ! ci ..< color_full b ! ci + 2 * gw})"
    by (rule UN_I [of ci]) (use assms in auto)
  then show ?thesis unfolding own_buffers_def by blast
qed

lemma own_color_even_odd:
  assumes "ci < 3" "y < 2 * (gw div 2)"
  shows "color_even_odd b ! ci + y \<in> own_buffers gw b"
proof -
  have "color_even_odd b ! ci + y \<in> (\<Union>ci < 3. {color_even_odd b ! ci ..< color_even_odd b ! ci + 2 * (gw div 2)})"
    by (rule UN_I [of ci]) (use assms in auto)
  then show ?thesis unfolding own_buffers_def by blast
qed

lemma own_quarter_prep:
  assumes "ci < 3" "y < 2 * (gw div 2)"
  shows "quarter_prep b ! ci + y \<in> own_buffers gw b"
proof -
  have "quarter_prep b ! ci + y \<in> (\<Union>ci < 3. {quarter_prep b ! ci ..< quarter_prep b ! ci + 2 * (gw div 2)})"
    by (rule UN_I [of ci]) (use assms in auto)
  then show ?thesis unfolding own_buffers_def by blast
qed

lemma own_full_plane:
  assumes "4 dvd gw" "subsamp_constraint h v" "ci < 3" "r < plane_rows v ci" "x < plane_width gw h ci"
    and "off = r * plane_width gw h ci + x"
  shows "full_get_mut gw b ci h v + off \<in> own_buffers gw b"
proof -
  have "even gw" using assms(1) by auto
  from plane_in [OF this assms(2-6), of "prep_full b"] show ?thesis
    by (auto simp: full_get_mut_def own_buffers_def)
qed

lemma own_even_odd_plane:
  assumes "4 dvd gw" "subsamp_constraint h v" "ci < 3" "r < plane_rows v ci" "x < plane_width (gw div 2) h ci"
    and "off = r * plane_width (gw div 2) h ci + x"
  shows "even_odd_get_mut gw b ci h v + off \<in> own_buffers gw b"
proof -
  have "even (gw div 2)" using assms(1) by auto
  from plane_in [OF this assms(2-6), of "prep_even_odd b"] show ?thesis
    by (auto simp: even_odd_get_mut_def own_buffers_def)
qed

lemma own_quarter_plane:
  assumes "4 dvd gw" "subsamp_constraint h v" "ci < 3" "r < plane_rows v ci" "x < plane_width (gw div 2) h ci"
    and "off = r * plane_width (gw div 2) h ci + x"
  shows "quarter_get_mut gw b ci h v + off \<in> own_buffers gw b"
proof -
  have "even (gw div 2)" using assms(1) by auto
  from plane_in [OF this assms(2-6), of "quarter_buf b"] show ?thesis
    by (auto simp: quarter_get_mut_def own_buffers_def)
qed

text \<open>The buffers of a state, by their layout, and the step that stays inside them.\<close>

lemma own_buffers_layout: "bufs_layout b = bufs_layout b' \<Longrightarrow> own_buffers gw b = own_buffers gw b'"
  by (simp add: bufs_layout_def own_buffers_def)

definition pp_ok :: "nat \<Rightarrow> nat \<Rightarrow> (pp_state \<Rightarrow> pp_state) \<Rightarrow> bool" where
  "pp_ok gw k f \<longleftrightarrow> (\<forall>st. length (color_ptr (pp_bufs st)) = 3
     \<longrightarrow> pp_step (own_buffers gw (pp_bufs st)) k st (f st))"

lemma pp_ok_comp: "pp_ok gw k f \<Longrightarrow> pp_ok gw j g \<Longrightarrow> pp_ok gw (k + j) (\<lambda>st. g (f st))"
proof -
  assume f: "pp_ok gw k f" and g: "pp_ok gw j g"
  show ?thesis
    unfolding pp_ok_def
  proof (intro allI impI)
    fix st :: pp_state
    assume l: "length (color_ptr (pp_bufs st)) = 3"
    then have 1: "pp_step (own_buffers gw (pp_bufs st)) k st (f st)" using f by (simp add: pp_ok_def)
    then have lay: "bufs_layout (pp_bufs (f st)) = bufs_layout (pp_bufs st)" by (simp add: pp_step_def)
    then have "length (color_ptr (pp_bufs (f st))) = 3" using l by (simp add: bufs_layout_def MAX_COMPONENTS_def)
    then have "pp_step (own_buffers gw (pp_bufs (f st))) j (f st) (g (f st))" using g by (simp add: pp_ok_def)
    then show "pp_step (own_buffers gw (pp_bufs st)) (k + j) st (g (f st))"
      using pp_step_trans [OF 1] own_buffers_layout [OF lay] by simp
  qed
qed

lemma pp_ok_id: "pp_ok gw 0 (\<lambda>st. st)"
  by (simp add: pp_ok_def)

lemma pp_ok_fold:
  "(\<And>x. x \<in> set xs \<Longrightarrow> pp_ok gw k (f x)) \<Longrightarrow> pp_ok gw (length xs * k) (fold f xs)"
proof (induction xs)
  case Nil
  show ?case using pp_ok_id by (simp add: id_def)
next
  case (Cons a xs)
  then have "pp_ok gw k (f a)" "pp_ok gw (length xs * k) (fold f xs)" by auto
  from pp_ok_comp [OF this] show ?case by (simp add: comp_def)
qed

lemma pp_ok_mem:
  assumes "\<And>st. frame (own_buffers gw (pp_bufs st)) (pp_mem st) (f st (pp_mem st))"
  shows "pp_ok gw 0 (\<lambda>st. upd_mem (f st) st)"
  unfolding pp_ok_def by (intro allI impI pp_step_mem assms)

lemma comp_all_lt: "ci \<in> set comp_all \<Longrightarrow> ci < 3"
  by (simp add: comp_all_def MAX_COMPONENTS_def)

lemma length_comp_all: "length comp_all = 3"
  by (simp add: comp_all_def MAX_COMPONENTS_def)

lemma pp_ok_convert:
  assumes "\<And>(st :: pp_state) ci i x. ci < 3 \<Longrightarrow> i < n \<Longrightarrow> x < gw div snd (get_start_step ss)
      \<Longrightarrow> color_target gw n h v ss ob d (pp_bufs st) ci + gw div snd (get_start_step ss) * i + x
          \<in> own_buffers gw (pp_bufs st)"
  shows "pp_ok gw n (color_convert gw n h v ss copy ob d)"
  unfolding pp_ok_def
proof (intro allI impI)
  fix st :: pp_state
  assume l: "length (color_ptr (pp_bufs st)) = 3"
  show "pp_step (own_buffers gw (pp_bufs st)) n st (color_convert gw n h v ss copy ob d st)"
    by (rule color_convert_step [OF refl]) (simp_all add: l bufs_layout_def MAX_COMPONENTS_def assms)
qed

lemma two_rows: "i < 2 \<Longrightarrow> x < w \<Longrightarrow> w * i + x < 2 * (w :: nat)"
  using row_lt [of i 2 x w] by (simp add: mult.commute)

lemma pp_ok_convert_quarter: "pp_ok gw 2 (color_convert gw DOWNSAMPLE_FACTOR h v Normal copy 0 RP_DOWNSAMPLE_QUARTER)"
  unfolding DOWNSAMPLE_FACTOR_def
  by (rule pp_ok_convert) (simp add: color_target_def Let_def get_start_step_def own_color_full two_rows add.assoc)

lemma rows_ok: "(if v then n = 2 else n = 1) \<Longrightarrow> ob < 8 \<Longrightarrow> i < n \<Longrightarrow> ob * n + i < plane_rows v 0"
  "(if v then n = 2 else n = 1) \<Longrightarrow> ob < 8 \<Longrightarrow> i < n \<Longrightarrow> \<not> v \<Longrightarrow> ob * n + i < plane_rows v ci"
  by (auto simp: plane_rows_def split: if_splits)

lemma pp_ok_convert_full:
  assumes "4 dvd gw" "subsamp_constraint h v" "if v then n = 2 else n = 1" "ob < 8"
  shows "pp_ok gw n (color_convert_full gw n h v ob)"
  unfolding color_convert_full_def
proof (rule pp_ok_convert)
  fix st :: pp_state and ci i x :: nat
  assume a: "ci < 3" "i < n" "x < gw div snd (get_start_step Normal)"
  then have x: "x < gw" by (simp add: get_start_step_def)
  show "color_target gw n h v Normal ob RP_DOWNSAMPLE_NONE (pp_bufs st) ci + gw div snd (get_start_step Normal) * i + x
      \<in> own_buffers gw (pp_bufs st)"
  proof (cases "need_subsamp_ci h v ci")
    case True
    have "i < 2" using a(2) assms(3) by (auto split: if_splits)
    then show ?thesis
      using True a x by (simp add: color_target_def Let_def get_start_step_def own_color_full two_rows add.assoc)
  next
    case False
    then have f: "\<not> h \<and> \<not> v \<or> ci = 0" using a(1) by (simp add: need_subsamp_ci_iff)
    then have r: "ob * n + i < plane_rows v ci" using rows_ok [OF assms(3,4) a(2)] by auto
    have w: "plane_width gw h ci = gw" using f by (auto simp: plane_width_def)
    have "full_get_mut gw (pp_bufs st) ci h v + ((ob * n + i) * gw + x) \<in> own_buffers gw (pp_bufs st)"
      by (rule own_full_plane [OF assms(1,2) a(1) r]) (simp_all add: w x)
    then show ?thesis
      using False by (simp add: color_target_def Let_def get_start_step_def algebra_simps)
  qed
qed

lemma pp_ok_convert_even_odd:
  assumes "4 dvd gw" "subsamp_constraint h v" "if v then n = 2 else n = 1" "ob < 8"
  shows "pp_ok gw n (color_convert_even_odd gw n h v ob)"
proof -
  have "pp_ok gw n (color_convert gw n h v ss False ob RP_DOWNSAMPLE_EVEN_ODD)" if ss: "ss = Even \<or> ss = Odd" for ss
  proof (rule pp_ok_convert)
    fix st :: pp_state and ci i x :: nat
    assume a: "ci < 3" "i < n" "x < gw div snd (get_start_step ss)"
    have s2: "snd (get_start_step ss) = 2" using ss by (auto simp: get_start_step_def)
    have x: "x < gw div 2" using a(3) by (simp add: s2)
    show "color_target gw n h v ss ob RP_DOWNSAMPLE_EVEN_ODD (pp_bufs st) ci + gw div snd (get_start_step ss) * i + x
        \<in> own_buffers gw (pp_bufs st)"
    proof (cases "need_subsamp_ci h v ci")
      case True
      have "i < 2" using a(2) assms(3) by (auto split: if_splits)
      then show ?thesis
        using True a x by (simp add: color_target_def Let_def s2 own_color_even_odd two_rows add.assoc)
    next
      case False
      then have f: "\<not> h \<and> \<not> v \<or> ci = 0" using a(1) by (simp add: need_subsamp_ci_iff)
      then have r: "ob * n + i < plane_rows v ci" using rows_ok [OF assms(3,4) a(2)] by auto
      have w: "plane_width (gw div 2) h ci = gw div 2" using f by (auto simp: plane_width_def)
      have "even_odd_get_mut gw (pp_bufs st) ci h v + ((ob * n + i) * (gw div 2) + x) \<in> own_buffers gw (pp_bufs st)"
        by (rule own_even_odd_plane [OF assms(1,2) a(1) r]) (simp_all add: w x)
      then show ?thesis
        using False by (simp add: color_target_def Let_def s2 algebra_simps)
    qed
  qed
  then show ?thesis
    by (auto simp: pp_ok_def color_convert_even_odd_def)
qed

lemma pp_ok_comps:
  assumes "\<And>ci. ci < 3 \<Longrightarrow> pp_ok gw 0 (f ci)"
  shows "pp_ok gw 0 (fold f comp_all)"
  using pp_ok_fold [of comp_all gw 0 f] assms comp_all_lt by auto

lemma pp_ok_samp:
  assumes "\<And>st x. x < w div 2 \<Longrightarrow> output st + x \<in> own_buffers gw (pp_bufs st)"
  shows "pp_ok gw 0 (\<lambda>st. upd_mem (samp_downsample v w (input st) (output st)) st)"
  by (rule pp_ok_mem) (rule frame_samp, rule assms)

lemma pp_ok_h2v2:
  assumes "\<And>st x. x < w div 2 \<Longrightarrow> output st + x \<in> own_buffers gw (pp_bufs st)"
  shows "pp_ok gw 0 (\<lambda>st. upd_mem (h2v2_downsample w (input st) (output st)) st)"
  by (rule pp_ok_mem) (rule frame_h2v2, rule assms)

lemma sub_row:
  assumes "need_subsamp_ci h v ci" "subsamp_constraint h v" "ci < 3"
  shows "plane_width w h ci = w div 2" "ob < 8 \<Longrightarrow> ob < plane_rows v ci"
  using assms by (auto simp: need_subsamp_ci_iff subsamp_constraint_def plane_width_def plane_rows_def)

lemma pp_ok_downsample_full:
  assumes "4 dvd gw" "subsamp_constraint h v" "ob < 8"
  shows "pp_ok gw 0 (downsample_full gw h v ob)"
  unfolding downsample_full_def Let_def screen_widths
proof (rule pp_ok_comps)
  fix ci :: nat
  assume ci: "ci < 3"
  show "pp_ok gw 0 (\<lambda>st. if need_subsamp_ci h v ci
      then upd_mem (samp_downsample v gw (color_full (pp_bufs st) ! ci)
             (full_get_mut gw (pp_bufs st) ci h v + ob * (gw div SAMP_FACTOR))) st else st)"
  proof (cases "need_subsamp_ci h v ci")
    case True
    note r = sub_row [OF True assms(2) ci]
    have "pp_ok gw 0 (\<lambda>st. upd_mem (samp_downsample v gw (color_full (pp_bufs st) ! ci)
        (full_get_mut gw (pp_bufs st) ci h v + ob * (gw div SAMP_FACTOR))) st)"
    proof (rule pp_ok_samp)
      fix st :: pp_state and x
      assume "x < gw div 2"
      then show "full_get_mut gw (pp_bufs st) ci h v + ob * (gw div SAMP_FACTOR) + x \<in> own_buffers gw (pp_bufs st)"
        using own_full_plane [OF assms(1,2) ci r(2) [OF assms(3)] _ refl, of x "pp_bufs st"]
        by (simp add: r SAMP_FACTOR_def add.assoc)
    qed
    then show ?thesis using True by simp
  qed (simp add: pp_ok_id)
qed

lemma pp_ok_downsample_even_odd:
  assumes "4 dvd gw" "subsamp_constraint h v" "ob < 8"
  shows "pp_ok gw 0 (downsample_even_odd gw h v ob)"
  unfolding downsample_even_odd_def Let_def screen_widths
proof (rule pp_ok_comps)
  fix ci :: nat
  assume ci: "ci < 3"
  show "pp_ok gw 0 (\<lambda>st. if need_subsamp_ci h v ci
      then upd_mem (samp_downsample v (gw div 2) (color_even_odd (pp_bufs st) ! ci)
             (even_odd_get_mut gw (pp_bufs st) ci h v + ob * (gw div 2 div SAMP_FACTOR))) st else st)"
  proof (cases "need_subsamp_ci h v ci")
    case True
    note r = sub_row [OF True assms(2) ci]
    have "pp_ok gw 0 (\<lambda>st. upd_mem (samp_downsample v (gw div 2) (color_even_odd (pp_bufs st) ! ci)
        (even_odd_get_mut gw (pp_bufs st) ci h v + ob * (gw div 2 div SAMP_FACTOR))) st)"
    proof (rule pp_ok_samp)
      fix st :: pp_state and x
      assume "x < gw div 2 div 2"
      then show "even_odd_get_mut gw (pp_bufs st) ci h v + ob * (gw div 2 div SAMP_FACTOR) + x \<in> own_buffers gw (pp_bufs st)"
        using own_even_odd_plane [OF assms(1,2) ci r(2) [OF assms(3)] _ refl, of x "pp_bufs st"]
        by (simp only: r(1) SAMP_FACTOR_def add.assoc)
    qed
    then show ?thesis using True by simp
  qed (simp add: pp_ok_id)
qed

lemma pp_ok_downsample_quarter:
  assumes "4 dvd gw" "subsamp_constraint h v" "ob < 8" "ci < 3"
  shows "pp_ok gw 0 (downsample_quarter gw h v ob ci)"
  unfolding downsample_quarter_def Let_def screen_widths
proof (cases "need_subsamp_ci h v ci")
  case True
  note r = sub_row [OF True assms(2,4)]
  have "pp_ok gw 0 (\<lambda>st. upd_mem (samp_downsample v (gw div 2) (quarter_prep (pp_bufs st) ! ci)
      (quarter_get_mut gw (pp_bufs st) ci h v + ob * (gw div 2 div SAMP_FACTOR))) st)"
  proof (rule pp_ok_samp)
    fix st :: pp_state and x
    assume "x < gw div 2 div 2"
    then show "quarter_get_mut gw (pp_bufs st) ci h v + ob * (gw div 2 div SAMP_FACTOR) + x \<in> own_buffers gw (pp_bufs st)"
      using own_quarter_plane [OF assms(1,2,4) r(2) [OF assms(3)] _ refl, of x "pp_bufs st"]
      by (simp only: r(1) SAMP_FACTOR_def add.assoc)
  qed
  then show "pp_ok gw 0 (\<lambda>st. if need_subsamp_ci h v ci then upd_mem (samp_downsample v (gw div 2)
      (quarter_prep (pp_bufs st) ! ci) (quarter_get_mut gw (pp_bufs st) ci h v + ob * (gw div 2 div SAMP_FACTOR))) st
      else st)" using True by simp
next
  case False
  then show "pp_ok gw 0 (\<lambda>st. if need_subsamp_ci h v ci then upd_mem (samp_downsample v (gw div 2)
      (quarter_prep (pp_bufs st) ! ci) (quarter_get_mut gw (pp_bufs st) ci h v + ob * (gw div 2 div SAMP_FACTOR))) st
      else st)" by (simp add: pp_ok_id)
qed

lemma pp_ok_quarter_all:
  assumes "4 dvd gw" "ob < 8"
  shows "pp_ok gw 0 (quarter_all gw False False (gw div SAMP_FACTOR * ob))"
  unfolding quarter_all_def [abs_def] screen_widths
proof (rule pp_ok_comps, rule pp_ok_h2v2)
  fix ci :: nat and st :: pp_state and x :: nat
  assume ci: "ci < 3" and x: "x < gw div 2"
  have s: "subsamp_constraint False False" by (simp add: subsamp_constraint_def)
  have r: "ob < plane_rows False ci" using assms(2) by (simp add: plane_rows_def)
  show "quarter_get_mut gw (pp_bufs st) ci False False + gw div SAMP_FACTOR * ob + x \<in> own_buffers gw (pp_bufs st)"
    using own_quarter_plane [OF assms(1) s ci r _ refl, of x "pp_bufs st"] x
    by (simp add: plane_width_def SAMP_FACTOR_def algebra_simps)
qed

lemma pp_ok_quarter_unit:
  assumes "4 dvd gw" "ob < 8" "pb < 2"
  shows "pp_ok gw 2 (quarter_unit gw ob pb)"
proof -
  let ?comp = "\<lambda>ci st. if need_subsamp_ci True True ci
      then upd_mem (h2v2_downsample gw (color_full (pp_bufs st) ! ci) (quarter_prep (pp_bufs st) ! ci + gw div 2 * pb)) st
      else upd_mem (h2v2_downsample gw (color_full (pp_bufs st) ! ci)
             (quarter_get_mut gw (pp_bufs st) ci True True + gw div 2 * (ob * 2 + pb))) st"
  have "pp_ok gw 0 (fold ?comp comp_all)"
  proof (rule pp_ok_comps)
    fix ci :: nat
    assume ci: "ci < 3"
    show "pp_ok gw 0 (?comp ci)"
    proof (cases "need_subsamp_ci True True ci")
      case True
      have "pp_ok gw 0 (\<lambda>st. upd_mem (h2v2_downsample gw (color_full (pp_bufs st) ! ci)
          (quarter_prep (pp_bufs st) ! ci + gw div 2 * pb)) st)"
        by (rule pp_ok_h2v2) (use ci assms(3) in \<open>simp add: add.assoc own_quarter_prep two_rows\<close>)
      then show ?thesis using True by simp
    next
      case False
      then have c0: "ci = 0" using ci by (simp add: need_subsamp_ci_iff)
      have s: "subsamp_constraint True True" by (simp add: subsamp_constraint_def)
      have r: "ob * 2 + pb < plane_rows True ci" using assms c0 by (simp add: plane_rows_def)
      have "pp_ok gw 0 (\<lambda>st. upd_mem (h2v2_downsample gw (color_full (pp_bufs st) ! ci)
          (quarter_get_mut gw (pp_bufs st) ci True True + gw div 2 * (ob * 2 + pb))) st)"
      proof (rule pp_ok_h2v2)
        fix st :: pp_state and x :: nat
        assume x: "x < gw div 2"
        have w: "plane_width (gw div 2) True ci = gw div 2" by (simp add: plane_width_def c0)
        have "quarter_get_mut gw (pp_bufs st) ci True True + ((ob * 2 + pb) * (gw div 2) + x) \<in> own_buffers gw (pp_bufs st)"
          by (rule own_quarter_plane [OF assms(1) s ci r]) (simp_all add: x w)
        then show "quarter_get_mut gw (pp_bufs st) ci True True + gw div 2 * (ob * 2 + pb) + x
            \<in> own_buffers gw (pp_bufs st)" by (simp add: algebra_simps)
      qed
      then show ?thesis using False by simp
    qed
  qed
  from pp_ok_comp [OF pp_ok_convert_quarter [where h = True and v = True and copy = False] this]
  show ?thesis
    unfolding quarter_unit_def [abs_def] Let_def SAMP_FACTOR_def color_convert_quarter_vsamp_def screen_widths
    by simp
qed

lemma pp_ok_do_quarter:
  assumes "4 dvd gw" "ob < 8"
  shows "pp_ok gw 4 (do_pre_process_quarter gw ob)"
proof -
  have s: "subsamp_constraint True True" by (simp add: subsamp_constraint_def)
  have 1: "pp_ok gw (length [0 ..< 2] * 2) (fold (quarter_unit gw ob) [0 ..< 2])"
    by (rule pp_ok_fold) (use pp_ok_quarter_unit [OF assms] in auto)
  have 2: "pp_ok gw 0 (fold (downsample_quarter gw True True ob) comp_all)"
    by (rule pp_ok_comps) (rule pp_ok_downsample_quarter [OF assms(1) s assms(2)])
  from pp_ok_comp [OF 1 2] show ?thesis
    by (simp add: do_pre_process_quarter_def [abs_def] SAMP_FACTOR_def)
qed

lemma pp_ok_rows:
  assumes "\<And>ob. ob < 8 \<Longrightarrow> pp_ok gw k (f ob)" "start + count \<le> 8"
  shows "pp_ok gw (k * count) (fold f [start ..< start + count])"
proof -
  have "pp_ok gw k (f ob)" if "ob \<in> set [start ..< start + count]" for ob
    using that assms by auto
  then have "pp_ok gw (length [start ..< start + count] * k) (fold f [start ..< start + count])" by (rule pp_ok_fold)
  then show ?thesis by (simp add: mult.commute)
qed

lemma pp_ok_rem_row:
  assumes "4 dvd gw" "i < 8" "ci < 3"
  shows "pp_ok gw 0 (rem_row gw n i ci)"
proof -
  let ?sf = "if need_subsamp_ci True True ci then SAMP_FACTOR else 1"
  let ?vs = "SAMP_FACTOR div ?sf" and ?w = "gw div 2 div ?sf"
  have s: "subsamp_constraint True True" by (simp add: subsamp_constraint_def)
  have w: "?w = plane_width (gw div 2) True ci"
    using assms(3) by (simp add: need_subsamp_ci_iff plane_width_def SAMP_FACTOR_def)
  have "pp_ok gw 0 (\<lambda>st. let l = (int n - int (i - n)) * int ?vs - int j - 1; ms = i * ?vs + j;
        buf = quarter_get_mut gw (pp_bufs st) ci True True
      in upd_mem (mem_copy (nat (int buf + int ?w * l)) (buf + ?w * ms) ?w) st)" if j: "j < ?vs" for j
    unfolding Let_def
  proof (rule pp_ok_mem)
    fix st :: pp_state
    let ?b = "quarter_get_mut gw (pp_bufs st) ci True True"
    have r: "i * ?vs + j < plane_rows True ci"
      using assms(2,3) j by (auto simp: need_subsamp_ci_iff plane_rows_def SAMP_FACTOR_def split: if_splits)
    have "?b + ?w * (i * ?vs + j) + x \<in> own_buffers gw (pp_bufs st)" if "x < ?w" for x
      using own_quarter_plane [OF assms(1) s assms(3) r _ refl, of x "pp_bufs st"] that
      unfolding w by (simp add: algebra_simps)
    then have own: "a \<in> own_buffers gw (pp_bufs st)"
      if "?b + ?w * (i * ?vs + j) \<le> a" "a < ?b + ?w * (i * ?vs + j) + ?w" for a
      using that by (metis add_less_cancel_left le_add_diff_inverse)
    show "frame (own_buffers gw (pp_bufs st)) (pp_mem st)
        (mem_copy (nat (int ?b + int ?w * ((int n - int (i - n)) * int ?vs - int j - 1))) (?b + ?w * (i * ?vs + j)) ?w (pp_mem st))"
      unfolding frame_def mem_copy_def using own by (auto simp: wr_apply)
  qed
  then have "pp_ok gw (length [0 ..< ?vs] * 0) (fold (\<lambda>j st. let l = (int n - int (i - n)) * int ?vs - int j - 1; ms = i * ?vs + j;
        buf = quarter_get_mut gw (pp_bufs st) ci True True
      in upd_mem (mem_copy (nat (int buf + int ?w * l)) (buf + ?w * ms) ?w) st) [0 ..< ?vs])"
    by (intro pp_ok_fold) simp
  then show ?thesis
    unfolding rem_row_def [abs_def] Let_def screen_widths by simp
qed

lemma pp_ok_quarter_rem:
  assumes "4 dvd gw" "count \<le> 8" "src_count < 4 * count"
  shows "pp_ok gw (4 * (src_count div 4)) (\<lambda>st. snd (pre_process_quarter_rem gw count src_count st))"
proof -
  let ?n = "src_count div 4"
  have n: "?n \<le> 8" using assms(2,3) by simp
  have 1: "pp_ok gw (4 * ?n) (fold (do_pre_process_quarter gw) [0 ..< ?n])"
    using pp_ok_rows [of gw 4 "do_pre_process_quarter gw" 0 ?n] pp_ok_do_quarter [OF assms(1)] n by simp
  have "pp_ok gw 0 (fold (rem_row gw ?n i) comp_all)" if "i < 8" for i
    by (rule pp_ok_comps) (rule pp_ok_rem_row [OF assms(1) that])
  then have "pp_ok gw (length [?n ..< count] * 0) (fold (\<lambda>i st. fold (rem_row gw ?n i) comp_all st) [?n ..< count])"
    by (intro pp_ok_fold) (use assms(2) in auto)
  from pp_ok_comp [OF 1 this] 1 show ?thesis
    by (cases "?n = 0") (simp_all add: pre_process_quarter_rem_def Let_def SAMP_FACTOR_def DOWNSAMPLE_FACTOR_def id_def)
qed

lemma pp_ok_all:
  assumes "4 dvd gw" "start + count \<le> 8"
  shows "pp_ok gw (4 * count) (pre_process_quarter gw count start)"
    and "pp_ok gw (2 * count) (pre_process_quarter_novsamp gw count start)"
    and "pp_ok gw (2 * count) (pre_process_quarter_nohsamp_novsamp gw count start)"
    and "pp_ok gw (2 * count) (pre_process_even_odd gw count start)"
    and "pp_ok gw (2 * count) (pre_process_full gw count start)"
    and "pp_ok gw (1 * count) (pre_process_even_odd_novsamp gw count h start)"
    and "pp_ok gw (1 * count) (pre_process_full_novsamp gw count h start)"
proof -
  have tt: "subsamp_constraint True True" and tf: "subsamp_constraint h False" and tf': "subsamp_constraint True False" for h
    by (simp_all add: subsamp_constraint_def)
  show "pp_ok gw (4 * count) (pre_process_quarter gw count start)"
    unfolding pre_process_quarter_def [abs_def] using pp_ok_rows [OF pp_ok_do_quarter [OF assms(1)] assms(2)] .
  have qn: "pp_ok gw 0 (quarter_novsamp_comp gw ob ci)" if ob: "ob < 8" and ci: "ci < 3" for ob ci
  proof -
    let ?f = "\<lambda>st. if need_subsamp_ci True False ci
        then upd_mem (h2v2_downsample gw (color_full (pp_bufs st) ! ci) (quarter_prep (pp_bufs st) ! ci)) st
        else upd_mem (h2v2_downsample gw (color_full (pp_bufs st) ! ci)
               (quarter_get_mut gw (pp_bufs st) ci True False + gw div SAMP_FACTOR * ob)) st"
    have "pp_ok gw 0 ?f"
    proof (cases "need_subsamp_ci True False ci")
      case True
      have "pp_ok gw 0 (\<lambda>st. upd_mem (h2v2_downsample gw (color_full (pp_bufs st) ! ci) (quarter_prep (pp_bufs st) ! ci)) st)"
        by (rule pp_ok_h2v2) (use ci in \<open>simp add: own_quarter_prep\<close>)
      then show ?thesis using True by simp
    next
      case False
      then have c0: "ci = 0" using ci by (simp add: need_subsamp_ci_iff)
      have r: "ob < plane_rows False ci" using ob by (simp add: plane_rows_def)
      have "pp_ok gw 0 (\<lambda>st. upd_mem (h2v2_downsample gw (color_full (pp_bufs st) ! ci)
          (quarter_get_mut gw (pp_bufs st) ci True False + gw div SAMP_FACTOR * ob)) st)"
      proof (rule pp_ok_h2v2)
        fix st :: pp_state and x :: nat
        assume x: "x < gw div 2"
        show "quarter_get_mut gw (pp_bufs st) ci True False + gw div SAMP_FACTOR * ob + x \<in> own_buffers gw (pp_bufs st)"
          using own_quarter_plane [OF assms(1) tf ci r _ refl, of x True "pp_bufs st"] x
          by (simp add: plane_width_def c0 SAMP_FACTOR_def algebra_simps)
      qed
      then show ?thesis using False by simp
    qed
    from pp_ok_comp [OF this pp_ok_downsample_quarter [OF assms(1) tf' ob ci]] show ?thesis
      unfolding quarter_novsamp_comp_def [abs_def] Let_def screen_widths by simp
  qed
  have "pp_ok gw (2 + 0) (\<lambda>st. fold (quarter_novsamp_comp gw ob) comp_all (color_convert_quarter_novsamp gw True st))"
    if "ob < 8" for ob
    unfolding color_convert_quarter_novsamp_def
    by (rule pp_ok_comp [OF pp_ok_convert_quarter pp_ok_comps]) (rule qn [OF that])
  from pp_ok_rows [of gw, OF this assms(2)]
  show "pp_ok gw (2 * count) (pre_process_quarter_novsamp gw count start)"
    by (simp add: pre_process_quarter_novsamp_def [abs_def])
  have "pp_ok gw (2 + 0) (\<lambda>st. quarter_all gw False False (gw div SAMP_FACTOR * ob) (color_convert_quarter_novsamp gw False st))"
    if "ob < 8" for ob
    unfolding color_convert_quarter_novsamp_def
    by (rule pp_ok_comp [OF pp_ok_convert_quarter pp_ok_quarter_all [OF assms(1) that]])
  from pp_ok_rows [of gw, OF this assms(2)]
  show "pp_ok gw (2 * count) (pre_process_quarter_nohsamp_novsamp gw count start)"
    by (simp add: pre_process_quarter_nohsamp_novsamp_def [abs_def] Let_def)
  have "pp_ok gw (2 + 0) (\<lambda>st. downsample_even_odd gw True True ob (color_convert_even_odd gw 2 True True ob st))"
    if "ob < 8" for ob
    by (rule pp_ok_comp [OF pp_ok_convert_even_odd pp_ok_downsample_even_odd]) (use assms(1) tt that in simp_all)
  from pp_ok_rows [of gw, OF this assms(2)]
  show "pp_ok gw (2 * count) (pre_process_even_odd gw count start)"
    by (simp add: pre_process_even_odd_def [abs_def] SAMP_FACTOR_def)
  have "pp_ok gw (2 + 0) (\<lambda>st. downsample_full gw True True ob (color_convert_full gw 2 True True ob st))"
    if "ob < 8" for ob
    by (rule pp_ok_comp [OF pp_ok_convert_full pp_ok_downsample_full]) (use assms(1) tt that in simp_all)
  from pp_ok_rows [of gw, OF this assms(2)]
  show "pp_ok gw (2 * count) (pre_process_full gw count start)"
    by (simp add: pre_process_full_def [abs_def] SAMP_FACTOR_def)
  have "pp_ok gw (1 + 0) (\<lambda>st. downsample_even_odd gw h False ob (color_convert_even_odd gw 1 h False ob st))"
    if "ob < 8" for ob
    by (rule pp_ok_comp [OF pp_ok_convert_even_odd pp_ok_downsample_even_odd]) (use assms(1) tf that in simp_all)
  from pp_ok_rows [of gw, OF this assms(2)]
  show "pp_ok gw (1 * count) (pre_process_even_odd_novsamp gw count h start)"
    by (simp add: pre_process_even_odd_novsamp_def [abs_def])
  have "pp_ok gw (1 + 0) (\<lambda>st. downsample_full gw h False ob (color_convert_full gw 1 h False ob st))"
    if "ob < 8" for ob
    by (rule pp_ok_comp [OF pp_ok_convert_full pp_ok_downsample_full]) (use assms(1) tf that in simp_all)
  from pp_ok_rows [of gw, OF this assms(2)]
  show "pp_ok gw (1 * count) (pre_process_full_novsamp gw count h start)"
    by (simp add: pre_process_full_novsamp_def [abs_def])
qed

text \<open>C28: preprocessing is memory safe and takes exactly its rows. For a screen width that is a multiple of four and
  at most eight unit rows, every entry point, the padding of an incomplete last unit row included,
  writes nothing outside the thread's own colour buffers, planes and quarter buffers, leaves the
  buffers where they are, and consumes exactly the number of source rows its comment promises.\<close>
theorem pre_process_safe:
  assumes "4 dvd gw" "start + count \<le> 8" "src_count < 4 * count" "length (color_ptr (pp_bufs st)) = 3"
  defines "P \<equiv> own_buffers gw (pp_bufs st)"
  shows "pp_step P (4 * count) st (pre_process_quarter gw count start st)
     \<and> pp_step P (2 * count) st (pre_process_quarter_novsamp gw count start st)
     \<and> pp_step P (2 * count) st (pre_process_quarter_nohsamp_novsamp gw count start st)
     \<and> pp_step P (2 * count) st (pre_process_even_odd gw count start st)
     \<and> pp_step P (2 * count) st (pre_process_full gw count start st)
     \<and> pp_step P count st (pre_process_even_odd_novsamp gw count h start st)
     \<and> pp_step P count st (pre_process_full_novsamp gw count h start st)
     \<and> pp_step P (4 * (src_count div 4)) st (snd (pre_process_quarter_rem gw count src_count st))"
proof -
  have "count \<le> 8" using assms(2) by simp
  note all = pp_ok_all [OF assms(1,2)] pp_ok_quarter_rem [OF assms(1) this assms(3)]
  show ?thesis
    unfolding P_def using all [unfolded pp_ok_def, rule_format, OF assms(4)] by simp
qed

definition pp_example :: pp_state where
  "pp_example = \<lparr>pp_src = [100, 200], pp_bufs = \<lparr>color_full = [1000, 1010, 1020], color_even_odd = [1000, 1010, 1020],
     color_ptr = [0, 0, 0], prep_full = 2000, prep_even_odd = 2000, quarter_buf = 2000, quarter_prep = [2500, 2510, 2520],
     lossless_ptr = 0\<rparr>, pp_mem = (\<lambda>_. 7), pp_cs = RGBA8, pp_even_odd = False\<rparr>"

theorem pre_process_safe_witness:
  "pp_src (pre_process_full 4 1 0 pp_example) = [] \<and> pp_mem (pre_process_full 4 1 0 pp_example) 3000 = 7"
proof -
  have "(4 :: nat) dvd 4" "(0 :: nat) + 1 \<le> 8" "(3 :: nat) < 4 * 1" "length (color_ptr (pp_bufs pp_example)) = 3"
    by (simp_all add: pp_example_def)
  note s = pre_process_safe [OF this]
  have o: "3000 \<notin> own_buffers 4 (pp_bufs pp_example)"
    by (simp add: own_buffers_def pp_example_def comps_sz_def DCTSIZE_def SAMP_FACTOR_def MAX_COMPONENTS_def
      lessThan_nat_numeral)
  have "pp_step (own_buffers 4 (pp_bufs pp_example)) (2 * 1) pp_example (pre_process_full 4 1 0 pp_example)"
    using s by blast
  then show ?thesis using o by (simp add: pp_step_def frame_def) (simp add: pp_example_def)
qed

text \<open>C31: chroma averaging is an unbiased mean. When output and input do not overlap, every sample of
  the output is the sum of its two by two block plus a bias that alternates between one and two, over
  four, computed without overflow: a quarter of the sum up to one half. It lies between the smallest
  and the largest sample of the block, and nothing else is written.\<close>
theorem h2v2_mean:
  fixes m :: mem
  assumes "output + width div 2 \<le> input \<or> input + 2 * width \<le> output" and "x < width div 2"
  defines "m' \<equiv> h2v2_downsample width input output m"
    and "block \<equiv> {unat (m (input + 2 * x)), unat (m (input + 2 * x + 1)), unat (m (input + width + 2 * x)),
                     unat (m (input + width + 2 * x + 1))}"
    and "total_sum \<equiv> unat (m (input + 2 * x)) + unat (m (input + 2 * x + 1)) + unat (m (input + width + 2 * x))
                     + unat (m (input + width + 2 * x + 1))"
  shows "unat (m' (output + x)) = (total_sum + (if even x then 1 else 2)) div 4
    \<and> abs (4 * int (unat (m' (output + x))) - int total_sum) \<le> 2
    \<and> Min block \<le> unat (m' (output + x)) \<and> unat (m' (output + x)) \<le> Max block
    \<and> (\<forall>a. a < output \<or> output + width div 2 \<le> a \<longrightarrow> m' a = m a)"
proof -
  have m': "m' = (\<lambda>a. if output \<le> a \<and> a < output + width div 2 then of_nat (mean4 width input m (a - output)) else m a)"
    unfolding m'_def h2v2_downsample_def SAMP_FACTOR_def using h2v2_fold [OF le_refl assms(1), of m] by simp
  have v: "unat (m' (output + x)) = mean4 width input m x"
    using assms(2) unat_of_nat_small [of "mean4 width input m x", where 'a = 8] mean4_bound [of width input m x] by (simp add: m')
  then have e: "unat (m' (output + x)) = (total_sum + (if even x then 1 else 2)) div 4"
    by (simp add: mean4_def total_sum_def)
  have q: "4 * (t div 4) \<le> t" "t < 4 * (t div 4) + 4" for t :: nat by simp_all
  have b: "4 * unat (m' (output + x)) \<le> total_sum + 2" "total_sum \<le> 4 * unat (m' (output + x)) + 2"
    unfolding e using q [of "total_sum + 1"] q [of "total_sum + 2"] by (cases "even x"; simp)+
  then have c: "abs (4 * int (unat (m' (output + x))) - int total_sum) \<le> 2" by linarith
  have f: "finite block" by (simp add: block_def)
  have mm: "Min block \<le> s" "s \<le> Max block" if "s \<in> block" for s
    using that f by simp_all
  have in4: "unat (m (input + 2 * x)) \<in> block" "unat (m (input + 2 * x + 1)) \<in> block"
    "unat (m (input + width + 2 * x)) \<in> block" "unat (m (input + width + 2 * x + 1)) \<in> block"
    by (simp_all add: block_def)
  have "4 * Min block \<le> total_sum" "total_sum \<le> 4 * Max block"
    unfolding total_sum_def using mm [OF in4(1)] mm [OF in4(2)] mm [OF in4(3)] mm [OF in4(4)] by linarith+
  with b have d: "Min block \<le> unat (m' (output + x)) \<and> unat (m' (output + x)) \<le> Max block" by linarith
  have "\<forall>a. a < output \<or> output + width div 2 \<le> a \<longrightarrow> m' a = m a" by (auto simp: m')
  with e c d show ?thesis by blast
qed

theorem h2v2_mean_witness:
  "unat (h2v2_downsample 4 0 8 (\<lambda>a. of_nat a) 9) = (2 + 3 + 6 + 7 + 2) div 4"
proof -
  have "(8 :: nat) + 4 div 2 \<le> 0 \<or> 0 + 2 * 4 \<le> (8 :: nat)" "(1 :: nat) < 4 div 2" by simp_all
  from h2v2_mean [OF this, of "\<lambda>a. of_nat a"] show ?thesis by simp
qed

end
