(* ===== verification/Huffman.thy ===== *)
theory Huffman
  imports Prelude
begin

text \<open>
  Huffman tables (\<^verbatim>\<open>encoder/vars.rs\<close>): the standard tables and their installation, and the
  derivation of codes from the counts per length. A panic of the code is \<open>None\<close>. The code words of
  the derivation stay below \<open>2^17\<close> (they are checked against \<open>2^si\<close> with \<open>si \<le> 16\<close> in every round and grow by at most
  256 in one), so the loop counts in natural numbers and stores 32-bit values.
\<close>

section \<open>Standard tables\<close>

definition BITS_DC_LUMINANCE :: "u8 list" where
  "BITS_DC_LUMINANCE =
    [0, 0, 1, 5, 1, 1, 1, 1, 1, 1, 0, 0, 0, 0, 0, 0, 0]"

definition VAL_DC_LUMINANCE :: "u8 list" where
  "VAL_DC_LUMINANCE =
    [0, 1, 2, 3, 4, 5, 6, 7, 8, 9, 10, 11]"

definition BITS_DC_CHROMINANCE :: "u8 list" where
  "BITS_DC_CHROMINANCE =
    [0, 0, 3, 1, 1, 1, 1, 1, 1, 1, 1, 1, 0, 0, 0, 0, 0]"

definition VAL_DC_CHROMINANCE :: "u8 list" where
  "VAL_DC_CHROMINANCE =
    [0, 1, 2, 3, 4, 5, 6, 7, 8, 9, 10, 11]"

definition BITS_AC_LUMINANCE :: "u8 list" where
  "BITS_AC_LUMINANCE =
    [0, 0, 2, 1, 3, 3, 2, 4, 3, 5, 5, 4, 4, 0, 0, 1, 0x7d]"

definition VAL_AC_LUMINANCE :: "u8 list" where
  "VAL_AC_LUMINANCE =
    [0x01, 0x02, 0x03, 0x00, 0x04, 0x11, 0x05, 0x12, 0x21, 0x31, 0x41, 0x06, 0x13, 0x51, 0x61, 0x07,
     0x22, 0x71, 0x14, 0x32, 0x81, 0x91, 0xa1, 0x08, 0x23, 0x42, 0xb1, 0xc1, 0x15, 0x52, 0xd1, 0xf0,
     0x24, 0x33, 0x62, 0x72, 0x82, 0x09, 0x0a, 0x16, 0x17, 0x18, 0x19, 0x1a, 0x25, 0x26, 0x27, 0x28,
     0x29, 0x2a, 0x34, 0x35, 0x36, 0x37, 0x38, 0x39, 0x3a, 0x43, 0x44, 0x45, 0x46, 0x47, 0x48, 0x49,
     0x4a, 0x53, 0x54, 0x55, 0x56, 0x57, 0x58, 0x59, 0x5a, 0x63, 0x64, 0x65, 0x66, 0x67, 0x68, 0x69,
     0x6a, 0x73, 0x74, 0x75, 0x76, 0x77, 0x78, 0x79, 0x7a, 0x83, 0x84, 0x85, 0x86, 0x87, 0x88, 0x89,
     0x8a, 0x92, 0x93, 0x94, 0x95, 0x96, 0x97, 0x98, 0x99, 0x9a, 0xa2, 0xa3, 0xa4, 0xa5, 0xa6, 0xa7,
     0xa8, 0xa9, 0xaa, 0xb2, 0xb3, 0xb4, 0xb5, 0xb6, 0xb7, 0xb8, 0xb9, 0xba, 0xc2, 0xc3, 0xc4, 0xc5,
     0xc6, 0xc7, 0xc8, 0xc9, 0xca, 0xd2, 0xd3, 0xd4, 0xd5, 0xd6, 0xd7, 0xd8, 0xd9, 0xda, 0xe1, 0xe2,
     0xe3, 0xe4, 0xe5, 0xe6, 0xe7, 0xe8, 0xe9, 0xea, 0xf1, 0xf2, 0xf3, 0xf4, 0xf5, 0xf6, 0xf7, 0xf8,
     0xf9, 0xfa]"

definition BITS_AC_CHROMINANCE :: "u8 list" where
  "BITS_AC_CHROMINANCE =
    [0, 0, 2, 1, 2, 4, 4, 3, 4, 7, 5, 4, 4, 0, 1, 2, 0x77]"

definition VAL_AC_CHROMINANCE :: "u8 list" where
  "VAL_AC_CHROMINANCE =
    [0x00, 0x01, 0x02, 0x03, 0x11, 0x04, 0x05, 0x21, 0x31, 0x06, 0x12, 0x41, 0x51, 0x07, 0x61, 0x71,
     0x13, 0x22, 0x32, 0x81, 0x08, 0x14, 0x42, 0x91, 0xa1, 0xb1, 0xc1, 0x09, 0x23, 0x33, 0x52, 0xf0,
     0x15, 0x62, 0x72, 0xd1, 0x0a, 0x16, 0x24, 0x34, 0xe1, 0x25, 0xf1, 0x17, 0x18, 0x19, 0x1a, 0x26,
     0x27, 0x28, 0x29, 0x2a, 0x35, 0x36, 0x37, 0x38, 0x39, 0x3a, 0x43, 0x44, 0x45, 0x46, 0x47, 0x48,
     0x49, 0x4a, 0x53, 0x54, 0x55, 0x56, 0x57, 0x58, 0x59, 0x5a, 0x63, 0x64, 0x65, 0x66, 0x67, 0x68,
     0x69, 0x6a, 0x73, 0x74, 0x75, 0x76, 0x77, 0x78, 0x79, 0x7a, 0x82, 0x83, 0x84, 0x85, 0x86, 0x87,
     0x88, 0x89, 0x8a, 0x92, 0x93, 0x94, 0x95, 0x96, 0x97, 0x98, 0x99, 0x9a, 0xa2, 0xa3, 0xa4, 0xa5,
     0xa6, 0xa7, 0xa8, 0xa9, 0xaa, 0xb2, 0xb3, 0xb4, 0xb5, 0xb6, 0xb7, 0xb8, 0xb9, 0xba, 0xc2, 0xc3,
     0xc4, 0xc5, 0xc6, 0xc7, 0xc8, 0xc9, 0xca, 0xd2, 0xd3, 0xd4, 0xd5, 0xd6, 0xd7, 0xd8, 0xd9, 0xda,
     0xe2, 0xe3, 0xe4, 0xe5, 0xe6, 0xe7, 0xe8, 0xe9, 0xea, 0xf2, 0xf3, 0xf4, 0xf5, 0xf6, 0xf7, 0xf8,
     0xf9, 0xfa]"

section \<open>Tables\<close>

record huff_tbl =
  tbits :: "u8 list"
  huff_vals :: "u8 list"

record huff_tbls =
  dc_huff_tbls :: "huff_tbl list"
  ac_huff_tbls :: "huff_tbl list"

definition NUM_HUFF_TBLS :: nat where "NUM_HUFF_TBLS = 2"

definition empty_huff_tbl :: huff_tbl where
  "empty_huff_tbl = \<lparr>tbits = replicate 17 0, huff_vals = replicate 256 0\<rparr>"

definition add_huff_table :: "u8 list \<Rightarrow> u8 list \<Rightarrow> huff_tbl option" where
  "add_huff_table bts val =
     (let nsymbols = sum_list (map (\<lambda>len. unat (bts ! len)) [1 ..< 17])
      in if nsymbols < 1 \<or> nsymbols > 256 then None
         else if length val < nsymbols then None
         else Some \<lparr>tbits = bts, huff_vals = take nsymbols val @ replicate (256 - nsymbols) 0\<rparr>)"

definition huff_once :: "huff_tbls \<Rightarrow> huff_tbls option" where
  "huff_once t =
     (case add_huff_table BITS_DC_LUMINANCE VAL_DC_LUMINANCE of None \<Rightarrow> None | Some d0 \<Rightarrow>
      case add_huff_table BITS_AC_LUMINANCE VAL_AC_LUMINANCE of None \<Rightarrow> None | Some a0 \<Rightarrow>
      case add_huff_table BITS_DC_CHROMINANCE VAL_DC_CHROMINANCE of None \<Rightarrow> None | Some d1 \<Rightarrow>
      case add_huff_table BITS_AC_CHROMINANCE VAL_AC_CHROMINANCE of None \<Rightarrow> None | Some a1 \<Rightarrow>
        Some (t\<lparr>dc_huff_tbls := (dc_huff_tbls t)[0 := d0, 1 := d1],
                ac_huff_tbls := (ac_huff_tbls t)[0 := a0, 1 := a1]\<rparr>))"

section \<open>Derived tables\<close>

record derived_tbl =
  ehufco :: "u32 list"
  ehufsi :: "u8 list"

record entropy_tbls =
  dc_derived_tbls :: "derived_tbl list"
  ac_derived_tbls :: "derived_tbl list"

text \<open>The code length of every symbol in table order. The array of the code has zeros behind the
  entries made here.\<close>

function huff_sizes :: "u8 list \<Rightarrow> nat \<Rightarrow> nat list \<Rightarrow> nat list option" where
  "huff_sizes bts l hs =
     (if l > 16 then Some hs
      else let i = unat (bts ! l)
           in if length hs + i > 256 then None else huff_sizes bts (Suc l) (hs @ replicate i l))"
  by pat_completeness auto
termination by (relation "measure (\<lambda>(_, l, _). 17 - l)") auto

declare huff_sizes.simps [simp del]

definition hsz :: "nat list \<Rightarrow> nat \<Rightarrow> nat" where
  "hsz hs p = (if p < length hs then hs ! p else 0)"

text \<open>The inner loop: consecutive codes for the symbols of length \<open>si\<close>.\<close>

function code_run :: "nat list \<Rightarrow> nat \<Rightarrow> nat \<Rightarrow> nat \<Rightarrow> nat list \<Rightarrow> nat \<times> nat \<times> nat list" where
  "code_run hs si p code hc =
     (if p < 257 \<and> hsz hs p = si then code_run hs si (p + 1) (code + 1) (hc[p := code]) else (p, code, hc))"
  by pat_completeness auto
termination by (relation "measure (\<lambda>(_, _, p, _, _). 257 - p)") auto

declare code_run.simps [simp del]

text \<open>The outer loop; its bound is the number of lengths, which the proof of \<open>huff_codes_run\<close> shows to be enough.\<close>

fun huff_codes :: "nat \<Rightarrow> nat list \<Rightarrow> nat \<Rightarrow> nat \<Rightarrow> nat \<Rightarrow> nat list \<Rightarrow> nat list option" where
  "huff_codes 0 hs p si code hc = None"
| "huff_codes (Suc fuel) hs p si code hc =
     (if hsz hs p > 0
      then (case code_run hs si p code hc of (p, code, hc) \<Rightarrow>
              if code \<ge> 2 ^ si then None else huff_codes fuel hs p (si + 1) (2 * code) hc)
      else Some hc)"

definition fill_derived :: "u8 \<Rightarrow> nat list \<Rightarrow> nat list \<Rightarrow> u8 list \<Rightarrow> nat \<Rightarrow> derived_tbl option \<Rightarrow> derived_tbl option" where
  "fill_derived maxsymbol hs hc vals p st =
     (case st of None \<Rightarrow> None
      | Some t \<Rightarrow>
          let i = vals ! p
          in if i > maxsymbol \<or> ehufsi t ! unat i > 0 then None
             else Some (t\<lparr>ehufco := (ehufco t)[unat i := of_nat (hc ! p)],
                          ehufsi := (ehufsi t)[unat i := of_nat (hsz hs p)]\<rparr>))"

definition do_set_derived_tbl :: "huff_tbl \<Rightarrow> u8 \<Rightarrow> derived_tbl option" where
  "do_set_derived_tbl htbl maxsymbol =
     (case huff_sizes (tbits htbl) 1 [] of None \<Rightarrow> None
      | Some hs \<Rightarrow>
          let lastp = length hs
          in (case huff_codes 17 hs 0 (hsz hs 0) 0 (replicate 257 0) of None \<Rightarrow> None
              | Some hc \<Rightarrow>
                  fold (fill_derived maxsymbol hs hc (huff_vals htbl)) [0 ..< max 1 lastp]
                    (Some \<lparr>ehufco = replicate 256 0, ehufsi = replicate 256 0\<rparr>)))"

definition set_derived_tbl :: "bool \<Rightarrow> nat \<Rightarrow> huff_tbls \<Rightarrow> bool \<Rightarrow> derived_tbl option" where
  "set_derived_tbl is_dc tblno tbls is_dq =
     (let htbl = (if is_dc then dc_huff_tbls tbls ! tblno else ac_huff_tbls tbls ! tblno)
      in do_set_derived_tbl htbl (if is_dc then if is_dq then 16 else 15 else 255))"

definition set_entropy_tbls :: "huff_tbls \<Rightarrow> bool \<Rightarrow> entropy_tbls \<Rightarrow> entropy_tbls option" where
  "set_entropy_tbls tbls is_dq t =
     fold (\<lambda>i st. case st of None \<Rightarrow> None
                  | Some t \<Rightarrow> (case (set_derived_tbl True i tbls is_dq, set_derived_tbl False i tbls is_dq) of
                                 (Some d, Some a) \<Rightarrow>
                                   Some (t\<lparr>dc_derived_tbls := (dc_derived_tbls t)[i := d],
                                           ac_derived_tbls := (ac_derived_tbls t)[i := a]\<rparr>)
                               | _ \<Rightarrow> None)) [0 ..< NUM_HUFF_TBLS] (Some t)"

section \<open>Counting the codes of each length\<close>

definition cnt :: "(nat \<Rightarrow> nat) \<Rightarrow> nat \<Rightarrow> nat" where
  "cnt b l = (\<Sum>k \<in> {1..l}. b k)"

fun kraft :: "(nat \<Rightarrow> nat) \<Rightarrow> nat \<Rightarrow> nat" where
  "kraft b 0 = 0"
| "kraft b (Suc l) = 2 * kraft b l + b (Suc l)"

lemma cnt_0 [simp]: "cnt b 0 = 0" by (simp add: cnt_def)

lemma cnt_Suc [simp]: "cnt b (Suc l) = cnt b l + b (Suc l)" by (simp add: cnt_def)

lemma cnt_mono: "l \<le> l' \<Longrightarrow> cnt b l \<le> cnt b l'"
  by (induction l' rule: dec_induct) auto

lemma kraft_scale: "l \<le> l' \<Longrightarrow> kraft b l * 2 ^ (l' - l) \<le> kraft b l'"
  by (induction l' rule: dec_induct) (auto simp: Suc_diff_le)

definition bcount :: "u8 list \<Rightarrow> nat \<Rightarrow> nat" where
  "bcount bts l = unat (bts ! l)"

definition sizes_upto :: "(nat \<Rightarrow> nat) \<Rightarrow> nat \<Rightarrow> nat list" where
  "sizes_upto b l = concat (map (\<lambda>k. replicate (b k) k) [1 ..< Suc l])"

lemma sizes_upto_Suc: "sizes_upto b (Suc l) = sizes_upto b l @ replicate (b (Suc l)) (Suc l)"
  by (simp add: sizes_upto_def)

lemma sizes_upto_0 [simp]: "sizes_upto b 0 = []" by (simp add: sizes_upto_def)

lemma length_sizes_upto [simp]: "length (sizes_upto b l) = cnt b l"
  by (induction l) (simp_all add: sizes_upto_Suc)

lemma sizes_upto_nth: "l' < l \<Longrightarrow> j < b (Suc l') \<Longrightarrow> sizes_upto b l ! (cnt b l' + j) = Suc l'"
proof (induction l)
  case (Suc l)
  show ?case
  proof (cases "l' = l")
    case True
    then show ?thesis using Suc.prems by (simp add: sizes_upto_Suc nth_append)
  next
    case False
    then have l: "l' < l" using Suc.prems by simp
    have "cnt b (Suc l') \<le> cnt b l" using l by (intro cnt_mono) simp
    then have "cnt b l' + j < length (sizes_upto b l)" using Suc.prems(2) by simp
    then show ?thesis using Suc.IH [OF l Suc.prems(2)] by (simp add: sizes_upto_Suc nth_append)
  qed
qed simp

lemma cnt_split:
  assumes "p < cnt b l"
  obtains l' j where "l' < l" "j < b (Suc l')" "p = cnt b l' + j"
proof -
  have "\<exists>l' j. l' < l \<and> j < b (Suc l') \<and> p = cnt b l' + j"
    using assms
  proof (induction l)
    case (Suc l)
    show ?case
    proof (cases "p < cnt b l")
      case True
      with Suc.IH show ?thesis using less_Suc_eq by metis
    next
      case False
      then show ?thesis using Suc.prems by (intro exI [of _ l] exI [of _ "p - cnt b l"]) auto
    qed
  qed simp
  with that show thesis by blast
qed

lemma huff_sizes_eq:
  assumes "l \<le> 17" "0 < l" "hs = sizes_upto (bcount bts) (l - 1)" "cnt (bcount bts) 16 \<le> 256"
  shows "huff_sizes bts l hs = Some (sizes_upto (bcount bts) 16)"
  using assms
proof (induction bts l hs rule: huff_sizes.induct)
  case (1 bts l hs)
  show ?case
  proof (cases "l = 17")
    case True
    then show ?thesis using 1 by (simp add: huff_sizes.simps [of bts 17])
  next
    case False
    then have l: "\<not> l > 16" using 1 by simp
    obtain k where k: "l = Suc k" using "1.prems"(2) by (cases l) auto
    have "cnt (bcount bts) l \<le> 256" using cnt_mono [of l 16 "bcount bts"] l "1.prems"(4) by simp
    then have f: "\<not> length hs + unat (bts ! l) > 256"
      using "1.prems"(3) unfolding bcount_def [of bts l, symmetric] by (simp add: k)
    have h: "hs @ replicate (unat (bts ! l)) l = sizes_upto (bcount bts) (Suc l - 1)"
      using "1.prems"(3) by (simp add: k sizes_upto_Suc) (simp add: bcount_def)
    have "huff_sizes bts (Suc l) (hs @ replicate (unat (bts ! l)) l) = Some (sizes_upto (bcount bts) 16)"
      using "1.IH" [OF l refl f] h l "1.prems"(4) by simp
    then show ?thesis using l f by (simp add: huff_sizes.simps [of bts l hs] Let_def)
  qed
qed

lemma huff_sizes_Some:
  assumes "huff_sizes bts l hs = Some r" "l \<le> 17" "0 < l" "hs = sizes_upto (bcount bts) (l - 1)" "length hs \<le> 256"
  shows "r = sizes_upto (bcount bts) 16 \<and> cnt (bcount bts) 16 \<le> 256"
  using assms
proof (induction bts l hs rule: huff_sizes.induct)
  case (1 bts l hs)
  show ?case
  proof (cases "l = 17")
    case True
    have "hs = r" using "1.prems"(1) by (simp add: True huff_sizes.simps [of bts 17])
    moreover have "hs = sizes_upto (bcount bts) 16" using "1.prems"(4) by (simp add: True)
    ultimately show ?thesis using "1.prems"(5) by auto
  next
    case False
    then have l: "\<not> l > 16" using 1 by simp
    obtain k where k: "l = Suc k" using "1.prems"(3) by (cases l) auto
    have f: "\<not> length hs + unat (bts ! l) > 256"
      using "1.prems"(1) l by (auto simp: huff_sizes.simps [of bts l hs] Let_def split: if_splits)
    have h: "hs @ replicate (unat (bts ! l)) l = sizes_upto (bcount bts) (Suc l - 1)"
      using "1.prems"(4) by (simp add: k sizes_upto_Suc) (simp add: bcount_def)
    have "huff_sizes bts (Suc l) (hs @ replicate (unat (bts ! l)) l) = Some r"
      using "1.prems"(1) l f by (simp add: huff_sizes.simps [of bts l hs] Let_def)
    then show ?thesis using "1.IH" [OF l refl f _ _ _ h] l f by simp
  qed
qed

lemma hsz_sizes: "l' < 16 \<Longrightarrow> j < b (Suc l') \<Longrightarrow> hsz (sizes_upto b 16) (cnt b l' + j) = Suc l'"
proof -
  assume a: "l' < 16" "j < b (Suc l')"
  have "cnt b (Suc l') \<le> cnt b 16" using a(1) by (intro cnt_mono) simp
  then show ?thesis using a sizes_upto_nth [of l' 16 j b, OF a] by (simp add: hsz_def)
qed

lemma hsz_next:
  assumes "l \<le> 16"
  shows "hsz (sizes_upto b 16) (cnt b l) = 0 \<and> cnt b l = cnt b 16
    \<or> hsz (sizes_upto b 16) (cnt b l) > l \<and> cnt b l < cnt b 16"
proof (cases "cnt b l < cnt b 16")
  case True
  then obtain l' j where p: "l' < 16" "j < b (Suc l')" "cnt b l = cnt b l' + j" by (rule cnt_split)
  have "\<not> l' < l"
  proof
    assume "l' < l"
    then have "cnt b (Suc l') \<le> cnt b l" by (intro cnt_mono) simp
    then show False using p by simp
  qed
  then show ?thesis using True hsz_sizes [of l' j b, OF p(1,2)] p(3) by simp
next
  case False
  then show ?thesis using cnt_mono [OF assms, of b] by (simp add: hsz_def)
qed

section \<open>The code words\<close>

lemma code_run_eq:
  assumes "\<And>j. j < k \<Longrightarrow> hsz hs (p + j) = si" "hsz hs (p + k) \<noteq> si" "p + k \<le> 256" "length hc = 257"
  shows "\<exists>hc'. code_run hs si p code hc = (p + k, code + k, hc') \<and> length hc' = 257
    \<and> (\<forall>q. hc' ! q = (if p \<le> q \<and> q < p + k then code + (q - p) else hc ! q))"
  using assms
proof (induction k arbitrary: p code hc)
  case 0
  then show ?case by (simp add: code_run.simps [of hs si p])
next
  case (Suc k)
  have c: "p < 257 \<and> hsz hs p = si" using Suc.prems(1) [of 0] Suc.prems(3) by simp
  have "hsz hs (p + 1 + j) = si" if "j < k" for j using Suc.prems(1) [of "Suc j"] that by simp
  then obtain hc' where h: "code_run hs si (p + 1) (code + 1) (hc[p := code]) = (p + 1 + k, code + 1 + k, hc')"
    "length hc' = 257" "\<forall>q. hc' ! q = (if p + 1 \<le> q \<and> q < p + 1 + k then code + 1 + (q - (p + 1)) else hc[p := code] ! q)"
    using Suc.IH [of "p + 1" "hc[p := code]" "code + 1"] Suc.prems by auto
  have q: "hc' ! q = (if p \<le> q \<and> q < p + Suc k then code + (q - p) else hc ! q)" for q
    using h(3) c Suc.prems(4) by (cases "q = p") (auto simp: nth_list_update)
  show ?case
    using h(1,2) q c by (subst code_run.simps) simp
qed

definition codes_upto :: "(nat \<Rightarrow> nat) \<Rightarrow> nat \<Rightarrow> nat list \<Rightarrow> bool" where
  "codes_upto b l hc \<longleftrightarrow> length hc = 257 \<and> (\<forall>l' j. l' < l \<longrightarrow> j < b (Suc l') \<longrightarrow> hc ! (cnt b l' + j) = 2 * kraft b l' + j)"

lemma huff_codes_step:
  assumes "l < 16" "codes_upto b l hc" "cnt b 16 \<le> 256" "cnt b l < cnt b 16"
  shows "\<exists>hc'. huff_codes (Suc fuel) (sizes_upto b 16) (cnt b l) (Suc l) (2 * kraft b l) hc
    = (if kraft b (Suc l) \<ge> 2 ^ Suc l then None
       else huff_codes fuel (sizes_upto b 16) (cnt b (Suc l)) (Suc (Suc l)) (2 * kraft b (Suc l)) hc')
    \<and> codes_upto b (Suc l) hc'"
proof -
  let ?hs = "sizes_upto b 16"
  have n: "hsz ?hs (cnt b l + b (Suc l)) \<noteq> Suc l"
    using hsz_next [of "Suc l" b] assms(1) by auto
  have le: "cnt b l + b (Suc l) \<le> 256" using cnt_mono [of "Suc l" 16 b] assms(1,3) by simp
  have hl: "length hc = 257" using assms(2) by (simp add: codes_upto_def)
  from code_run_eq [of "b (Suc l)" ?hs "cnt b l" "Suc l" hc "2 * kraft b l", OF hsz_sizes n le hl] assms(1)
  obtain hc' where h: "code_run ?hs (Suc l) (cnt b l) (2 * kraft b l) hc = (cnt b (Suc l), kraft b (Suc l), hc')"
    "length hc' = 257"
    "\<And>q. hc' ! q = (if cnt b l \<le> q \<and> q < cnt b (Suc l) then 2 * kraft b l + (q - cnt b l) else hc ! q)"
    by auto
  have "codes_upto b (Suc l) hc'"
    unfolding codes_upto_def
  proof (intro conjI allI impI)
    fix l' j
    assume a: "l' < Suc l" "j < b (Suc l')"
    show "hc' ! (cnt b l' + j) = 2 * kraft b l' + j"
    proof (cases "l' = l")
      case True
      then show ?thesis using a h(3) by simp
    next
      case False
      then have l: "l' < l" using a by simp
      then have "cnt b (Suc l') \<le> cnt b l" by (intro cnt_mono) simp
      then have "\<not> cnt b l \<le> cnt b l' + j" using a(2) by simp
      then show ?thesis using assms(2) l a(2) h(3) by (simp add: codes_upto_def)
    qed
  qed (use h in simp)
  moreover have "hsz ?hs (cnt b l) > 0" using hsz_next [of l b] assms(1,4) by auto
  ultimately show ?thesis using h(1) by (intro exI [of _ hc']) simp
qed

lemma huff_codes_end:
  "cnt b l = cnt b 16 \<Longrightarrow> huff_codes (Suc fuel) (sizes_upto b 16) (cnt b l) si code hc = Some hc"
  by (simp add: hsz_def)

lemma codes_upto_end:
  assumes "codes_upto b l hc" "cnt b l = cnt b 16" "l \<le> 16"
  shows "codes_upto b 16 hc"
proof -
  have "b (Suc l') = 0" if "l \<le> l'" "l' < 16" for l'
    using cnt_mono [of "Suc l'" 16 b] cnt_mono [of l l' b] that assms(2) by simp
  then show ?thesis using assms(1) unfolding codes_upto_def by (metis not_less less_nat_zero_code)
qed

text \<open>The bound of the loop is enough: from length \<open>l + 1\<close> on, \<open>17 - l\<close> rounds suffice, and the loop fails
  exactly when some length has no code left.\<close>

lemma huff_codes_run:
  assumes "l \<le> 16" "fuel \<ge> 17 - l" "codes_upto b l hc" "cnt b 16 \<le> 256"
  shows "(case huff_codes fuel (sizes_upto b 16) (cnt b l) (Suc l) (2 * kraft b l) hc of
      None \<Rightarrow> \<exists>k. l < k \<and> k \<le> 16 \<and> cnt b (k - 1) < cnt b 16 \<and> kraft b k \<ge> 2 ^ k
    | Some hc' \<Rightarrow> codes_upto b 16 hc' \<and> (\<forall>k. l < k \<longrightarrow> k \<le> 16 \<longrightarrow> cnt b (k - 1) < cnt b 16 \<longrightarrow> kraft b k < 2 ^ k))"
  using assms(1-3)
proof (induction fuel arbitrary: l hc)
  case (Suc fuel)
  show ?case
  proof (cases "cnt b l = cnt b 16")
    case True
    have "\<not> cnt b (k - 1) < cnt b 16" if "l < k" for k
    proof -
      have "l \<le> k - 1" using that by simp
      from cnt_mono [OF this, of b] True show ?thesis by simp
    qed
    then show ?thesis
      using huff_codes_end [OF True] codes_upto_end [OF Suc.prems(3) True Suc.prems(1)] by simp
  next
    case False
    then have c: "cnt b l < cnt b 16" using cnt_mono [OF Suc.prems(1), of b] by simp
    then have l: "l < 16" using Suc.prems(1) by (cases "l = 16") auto
    from huff_codes_step [OF l Suc.prems(3) assms(4) c, of fuel] obtain hc' where
      h: "huff_codes (Suc fuel) (sizes_upto b 16) (cnt b l) (Suc l) (2 * kraft b l) hc
        = (if kraft b (Suc l) \<ge> 2 ^ Suc l then None
           else huff_codes fuel (sizes_upto b 16) (cnt b (Suc l)) (Suc (Suc l)) (2 * kraft b (Suc l)) hc')"
      "codes_upto b (Suc l) hc'" by blast
    show ?thesis
    proof (cases "kraft b (Suc l) \<ge> 2 ^ Suc l")
      case True
      then show ?thesis using h(1) c l by (auto intro!: exI [of _ "Suc l"])
    next
      case False
      have "Suc l \<le> 16" "17 - Suc l \<le> fuel" using l Suc.prems(2) by simp_all
      note IH = Suc.IH [OF this h(2)]
      have k: "l < k \<longleftrightarrow> k = Suc l \<or> Suc l < k" for k by auto
      show ?thesis
        unfolding h(1) if_not_P [OF False]
        using IH False by (auto simp: k split: option.splits)
    qed
  qed
qed simp

section \<open>The derivation as a whole\<close>

definition canon :: "(nat \<Rightarrow> nat) \<Rightarrow> nat \<Rightarrow> nat \<Rightarrow> nat" where
  "canon b l j = 2 * kraft b (l - 1) + j"

definition max_len :: "(nat \<Rightarrow> nat) \<Rightarrow> nat \<Rightarrow> bool" where
  "max_len b l \<longleftrightarrow> 0 < l \<and> l \<le> 16 \<and> 0 < b l"

text \<open>The derivation succeeds on its counts when no length runs out of codes.\<close>

definition counts_ok :: "(nat \<Rightarrow> nat) \<Rightarrow> bool" where
  "counts_ok b \<longleftrightarrow> cnt b 16 \<le> 256 \<and> (\<forall>k. 0 < k \<longrightarrow> k \<le> 16 \<longrightarrow> cnt b (k - 1) < cnt b 16 \<longrightarrow> kraft b k < 2 ^ k)"

lemma kraft_zero: "(\<And>k. 0 < k \<Longrightarrow> k \<le> l \<Longrightarrow> b k = 0) \<Longrightarrow> kraft b l = 0 \<and> cnt b l = 0"
  by (induction l) auto

text \<open>The least length in use.\<close>

lemma first_len:
  assumes "0 < cnt b 16"
  obtains l where "l < 16" "hsz (sizes_upto b 16) 0 = Suc l" "kraft b l = 0" "cnt b l = 0"
proof -
  from assms obtain l' j where p: "l' < 16" "j < b (Suc l')" "0 = cnt b l' + j" by (rule cnt_split)
  have "b k = 0" if k: "0 < k" "k \<le> l'" for k
  proof -
    obtain i where i: "k = Suc i" using gr0_implies_Suc [OF k(1)] by auto
    have "cnt b k \<le> cnt b l'" using k(2) by (rule cnt_mono)
    then show ?thesis using p(3) by (simp add: i)
  qed
  from kraft_zero [of l' b, OF this] have "kraft b l' = 0" "cnt b l' = 0" by auto
  moreover have "hsz (sizes_upto b 16) 0 = Suc l'" using hsz_sizes [of l' j b, OF p(1,2)] p(3) by simp
  ultimately show thesis using that p(1) by blast
qed

lemma huff_codes_result:
  assumes "cnt b 16 \<le> 256"
  shows "(case huff_codes 17 (sizes_upto b 16) 0 (hsz (sizes_upto b 16) 0) 0 (replicate 257 0) of
      None \<Rightarrow> \<not> counts_ok b | Some hc \<Rightarrow> counts_ok b \<and> codes_upto b 16 hc)"
proof (cases "cnt b 16 = 0")
  case True
  have "codes_upto b 16 (replicate 257 0)"
    by (rule codes_upto_end [of b 0]) (simp_all add: codes_upto_def True)
  moreover have "huff_codes (Suc 16) (sizes_upto b 16) (cnt b 0) si 0 hc = Some hc" for si hc
    by (rule huff_codes_end) (simp add: True)
  then have "huff_codes 17 (sizes_upto b 16) 0 si 0 hc = Some hc" for si hc by (simp only: cnt_0 Suc_numeral) simp
  moreover have "counts_ok b" using True by (simp add: counts_ok_def)
  ultimately show ?thesis by (simp only: option.case)
next
  case False
  then obtain l where l: "l < 16" "hsz (sizes_upto b 16) 0 = Suc l" "kraft b l = 0" "cnt b l = 0"
    using first_len [of b] by blast
  have z: "b k = 0 \<and> kraft b k = 0" if k: "k \<le> l" "0 < k" for k
  proof -
    obtain i where i: "k = Suc i" using gr0_implies_Suc [OF k(2)] by auto
    have "kraft b k * 2 ^ (l - k) \<le> kraft b l" using k(1) by (rule kraft_scale)
    then show ?thesis using l(3) by (simp add: i)
  qed
  have c: "codes_upto b l (replicate 257 0)"
    unfolding codes_upto_def using z by (auto simp: Suc_le_eq)
  have r: "(\<forall>k. 0 < k \<longrightarrow> k \<le> 16 \<longrightarrow> cnt b (k - 1) < cnt b 16 \<longrightarrow> kraft b k < 2 ^ k)
    \<longleftrightarrow> (\<forall>k. l < k \<longrightarrow> k \<le> 16 \<longrightarrow> cnt b (k - 1) < cnt b 16 \<longrightarrow> kraft b k < 2 ^ k)"
  proof (intro iffI allI impI)
    fix k
    assume a: "\<forall>k. l < k \<longrightarrow> k \<le> 16 \<longrightarrow> cnt b (k - 1) < cnt b 16 \<longrightarrow> kraft b k < 2 ^ k"
      "0 < k" "k \<le> 16" "cnt b (k - 1) < cnt b 16"
    show "kraft b k < 2 ^ k"
    proof (cases "l < k")
      case True
      then show ?thesis using a by blast
    next
      case False
      then show ?thesis using z [of k] a(2) by simp
    qed
  next
    fix k
    assume a: "\<forall>k. 0 < k \<longrightarrow> k \<le> 16 \<longrightarrow> cnt b (k - 1) < cnt b 16 \<longrightarrow> kraft b k < 2 ^ k"
      "l < k" "k \<le> 16" "cnt b (k - 1) < cnt b 16"
    have "0 < k" using a(2) by simp
    then show "kraft b k < 2 ^ k" using a(1,3,4) by blast
  qed
  have "17 - l \<le> 17" "l \<le> 16" using l(1) by simp_all
  note run = huff_codes_run [OF this(2,1) c assms, unfolded l(3,4) mult_0_right]
  show ?thesis
  proof (cases "huff_codes 17 (sizes_upto b 16) 0 (Suc l) 0 (replicate 257 0)")
    case None
    with run have "\<exists>k. l < k \<and> k \<le> 16 \<and> cnt b (k - 1) < cnt b 16 \<and> kraft b k \<ge> 2 ^ k" by simp
    then have "\<not> counts_ok b" unfolding counts_ok_def r by (metis not_less)
    then show ?thesis by (simp add: l(2) None)
  next
    case (Some hc)
    with run have "codes_upto b 16 hc"
      "\<forall>k. l < k \<longrightarrow> k \<le> 16 \<longrightarrow> cnt b (k - 1) < cnt b 16 \<longrightarrow> kraft b k < 2 ^ k" by simp_all
    then have "counts_ok b \<and> codes_upto b 16 hc" unfolding counts_ok_def r using assms by blast
    then show ?thesis by (simp only: l(2) Some option.case)
  qed
qed

text \<open>Filling the table: every listed symbol gets its code, and no symbol is listed twice.\<close>

lemma fill_derived_None [simp]: "fold (fill_derived maxsymbol hs hc vals) ps None = None"
  by (induction ps) (simp_all add: fill_derived_def)

definition filled :: "nat list \<Rightarrow> nat list \<Rightarrow> u8 list \<Rightarrow> nat \<Rightarrow> derived_tbl \<Rightarrow> bool" where
  "filled hs hc vals n t \<longleftrightarrow> length (ehufco t) = 256 \<and> length (ehufsi t) = 256
     \<and> distinct (take n vals)
     \<and> (\<forall>p < n. ehufco t ! unat (vals ! p) = of_nat (hc ! p) \<and> ehufsi t ! unat (vals ! p) = of_nat (hs ! p))
     \<and> (\<forall>s < 256. of_nat s \<notin> set (take n vals) \<longrightarrow> ehufco t ! s = 0 \<and> ehufsi t ! s = 0)"

lemma filled_distinct: "filled hs hc vals n t \<Longrightarrow> distinct (take n vals)"
  by (simp add: filled_def)

lemma u8_lt: "unat (x :: u8) < 256"
  using unat_less_exp [of x] by simp

lemma u8_eq: "unat (x :: u8) = unat y \<longleftrightarrow> x = y"
  by (simp add: word_unat_eq_iff)

lemma fill_run:
  assumes "\<And>p. p < length hs \<Longrightarrow> 0 < hs ! p \<and> hs ! p < 256" "length hs \<le> length vals" "n \<le> length hs"
  shows "case fold (fill_derived maxsymbol hs hc vals) [0 ..< n] (Some \<lparr>ehufco = replicate 256 0, ehufsi = replicate 256 0\<rparr>) of
      None \<Rightarrow> \<not> distinct (take n vals) \<or> (\<exists>p < n. vals ! p > maxsymbol)
    | Some t \<Rightarrow> filled hs hc vals n t \<and> (\<forall>p < n. vals ! p \<le> maxsymbol)"
  using assms(3)
proof (induction n)
  case 0
  show ?case by (simp add: filled_def)
next
  case (Suc n)
  then have n: "n < length hs" "n < length vals" using assms(2) by simp_all
  let ?r = "fold (fill_derived maxsymbol hs hc vals) [0 ..< n] (Some \<lparr>ehufco = replicate 256 0, ehufsi = replicate 256 0\<rparr>)"
  have tk: "take (Suc n) vals = take n vals @ [vals ! n]" using n by (simp add: take_Suc_conv_app_nth)
  show ?case
  proof (cases ?r)
    case None
    have "fold (fill_derived maxsymbol hs hc vals) [0 ..< Suc n] (Some \<lparr>ehufco = replicate 256 0, ehufsi = replicate 256 0\<rparr>) = None"
      using None by (simp add: fill_derived_def)
    moreover have "\<not> distinct (take n vals) \<or> (\<exists>p < n. vals ! p > maxsymbol)" using Suc None by simp
    ultimately show ?thesis using less_SucI by (auto simp: tk)
  next
    case (Some t)
    then have f: "filled hs hc vals n t" "\<forall>p < n. vals ! p \<le> maxsymbol" using Suc by simp_all
    let ?v = "vals ! n"
    have occ: "ehufsi t ! unat ?v > 0 \<longleftrightarrow> ?v \<in> set (take n vals)"
    proof
      assume p: "ehufsi t ! unat ?v > 0"
      show "?v \<in> set (take n vals)"
      proof (rule ccontr)
        assume "?v \<notin> set (take n vals)"
        then have "of_nat (unat ?v) \<notin> set (take n vals)" by simp
        then have "ehufsi t ! unat ?v = 0" using f(1) u8_lt [of ?v] unfolding filled_def by blast
        then show False using p by simp
      qed
    next
      assume "?v \<in> set (take n vals)"
      then obtain p where p: "p < n" "vals ! p = ?v" using n by (auto simp: in_set_conv_nth)
      have "unat (of_nat (hs ! p) :: u8) = hs ! p" using assms(1) [of p] p(1) n by (simp add: unat_of_nat_small)
      then have "unat (ehufsi t ! unat ?v) > 0" using f(1) p assms(1) [of p] n unfolding filled_def by auto
      then show "ehufsi t ! unat ?v > 0" by (simp add: word_greater_zero_iff unat_gt_0)
    qed
    have step: "fold (fill_derived maxsymbol hs hc vals) [0 ..< Suc n] (Some \<lparr>ehufco = replicate 256 0, ehufsi = replicate 256 0\<rparr>)
      = (if ?v > maxsymbol \<or> ?v \<in> set (take n vals) then None
         else Some (t\<lparr>ehufco := (ehufco t)[unat ?v := of_nat (hc ! n)], ehufsi := (ehufsi t)[unat ?v := of_nat (hs ! n)]\<rparr>))"
      using Some occ n by (simp add: fill_derived_def Let_def hsz_def)
    show ?thesis
    proof (cases "?v > maxsymbol \<or> ?v \<in> set (take n vals)")
      case True
      then have "\<not> distinct (take (Suc n) vals) \<or> (\<exists>p < Suc n. vals ! p > maxsymbol)" by (auto simp: tk)
      then show ?thesis using True step by simp
    next
      case False
      have ne: "\<forall>p < n. vals ! p \<noteq> ?v" using False n by (auto simp: in_set_conv_nth)
      have "filled hs hc vals (Suc n) (t\<lparr>ehufco := (ehufco t)[unat ?v := of_nat (hc ! n)], ehufsi := (ehufsi t)[unat ?v := of_nat (hs ! n)]\<rparr>)"
        unfolding filled_def
      proof (intro conjI allI impI)
        show "distinct (take (Suc n) vals)" using f(1) False by (simp add: tk filled_def)
      next
        fix s :: nat
        assume s: "s < 256" "of_nat s \<notin> set (take (Suc n) vals)"
        then have sv: "s \<noteq> unat ?v" by (auto simp: tk)
        have "of_nat s \<notin> set (take n vals)" using s(2) by (simp add: tk)
        then have z: "ehufco t ! s = 0 \<and> ehufsi t ! s = 0" using f(1) s(1) unfolding filled_def by blast
        show "ehufco (t\<lparr>ehufco := (ehufco t)[unat ?v := of_nat (hc ! n)], ehufsi := (ehufsi t)[unat ?v := of_nat (hs ! n)]\<rparr>) ! s = 0"
          using z sv by simp
        show "ehufsi (t\<lparr>ehufco := (ehufco t)[unat ?v := of_nat (hc ! n)], ehufsi := (ehufsi t)[unat ?v := of_nat (hs ! n)]\<rparr>) ! s = 0"
          using z sv by simp
      qed (use f(1) u8_lt [of ?v] ne in \<open>auto simp: filled_def nth_list_update u8_eq less_Suc_eq\<close>)
      then show ?thesis using False step f(2) by (auto simp: less_Suc_eq not_less)
    qed
  qed
qed

lemma sizes_bounds: "p < cnt b 16 \<Longrightarrow> 0 < sizes_upto b 16 ! p \<and> sizes_upto b 16 ! p < 256"
  by (erule cnt_split) (use sizes_upto_nth [of _ 16 _ b] in auto)

text \<open>The derivation fails exactly on counts that overflow a length, on repeated and on forbidden symbols,
  and assigns the canonical codes otherwise.\<close>

definition derived_ok :: "huff_tbl \<Rightarrow> u8 \<Rightarrow> bool" where
  "derived_ok h mx \<longleftrightarrow> (let b = bcount (tbits h); n = cnt b 16
     in counts_ok b \<and> distinct (take n (huff_vals h)) \<and> (\<forall>p < n. huff_vals h ! p \<le> mx))"

lemma do_set_derived_result:
  assumes "0 < cnt (bcount (tbits h)) 16" "length (huff_vals h) = 256"
  shows "case do_set_derived_tbl h mx of
      None \<Rightarrow> \<not> derived_ok h mx
    | Some t \<Rightarrow> derived_ok h mx \<and> (\<exists>hc. codes_upto (bcount (tbits h)) 16 hc
        \<and> filled (sizes_upto (bcount (tbits h)) 16) hc (huff_vals h) (cnt (bcount (tbits h)) 16) t)"
proof (cases "huff_sizes (tbits h) 1 []")
  case None
  have "\<not> cnt (bcount (tbits h)) 16 \<le> 256"
    using None huff_sizes_eq [of 1 "[]" "tbits h"] by auto
  then show ?thesis using None by (simp add: do_set_derived_tbl_def derived_ok_def Let_def counts_ok_def)
next
  case (Some hs)
  let ?b = "bcount (tbits h)"
  have hs: "hs = sizes_upto ?b 16" "cnt ?b 16 \<le> 256"
    using huff_sizes_Some [OF Some] by simp_all
  note cr = huff_codes_result [OF hs(2)]
  show ?thesis
  proof (cases "huff_codes 17 (sizes_upto ?b 16) 0 (hsz (sizes_upto ?b 16) 0) 0 (replicate 257 0)")
    case None
    then have "\<not> counts_ok ?b" using cr by simp
    then show ?thesis using None Some hs by (simp add: do_set_derived_tbl_def derived_ok_def Let_def)
  next
    case (Some hc)
    then have c: "counts_ok ?b" "codes_upto ?b 16 hc" using cr by simp_all
    have m: "max 1 (cnt ?b 16) = cnt ?b 16" using assms(1) by simp
    have d: "do_set_derived_tbl h mx = fold (fill_derived mx (sizes_upto ?b 16) hc (huff_vals h)) [0 ..< cnt ?b 16]
        (Some \<lparr>ehufco = replicate 256 0, ehufsi = replicate 256 0\<rparr>)"
      unfolding do_set_derived_tbl_def \<open>huff_sizes (tbits h) 1 [] = Some hs\<close> option.case Let_def hs(1) Some
        length_sizes_upto m ..
    from fill_run [of "sizes_upto ?b 16" "huff_vals h" "cnt ?b 16" mx hc] sizes_bounds [of _ ?b] hs(2) assms(2) c
    show ?thesis unfolding d derived_ok_def Let_def
      by (auto split: option.splits simp: not_le dest: filled_distinct)
  qed
qed

lemma canon_disjoint:
  assumes "l < l'" "j < b (Suc l)"
  shows "2 * kraft b l + j < (2 * kraft b l' + j') div 2 ^ (l' - l)"
proof -
  have "kraft b (Suc l) * 2 ^ (l' - Suc l) \<le> kraft b l'" using assms(1) by (intro kraft_scale) simp
  then have "2 * kraft b (Suc l) * 2 ^ (l' - Suc l) \<le> 2 * kraft b l' + j'" by (simp del: kraft.simps)
  moreover have "l' - l = Suc (l' - Suc l)" using assms(1) by simp
  ultimately have "kraft b (Suc l) * 2 ^ (l' - l) \<le> 2 * kraft b l' + j'" by (simp del: kraft.simps add: ac_simps)
  then have "kraft b (Suc l) \<le> (2 * kraft b l' + j') div 2 ^ (l' - l)" by (simp del: kraft.simps add: less_eq_div_iff_mult_less_eq)
  then show ?thesis using assms(2) by simp
qed

lemma canon_bound:
  assumes "counts_ok b" "l < 16" "j < b (Suc l)"
  shows "2 * kraft b l + j + 1 < 2 ^ Suc l"
proof -
  have "cnt b (Suc l) \<le> cnt b 16" using assms(2) by (intro cnt_mono) simp
  then have "cnt b (Suc l - 1) < cnt b 16" using assms(3) by simp
  then have "kraft b (Suc l) < 2 ^ Suc l" using assms(1,2) unfolding counts_ok_def by (metis Suc_leI zero_less_Suc)
  then show ?thesis using assms(3) by simp
qed

text \<open>A symbol of the table, with its length and code.\<close>

lemma symbol_code:
  assumes "counts_ok b" "codes_upto b 16 hc" "filled (sizes_upto b 16) hc vals (cnt b 16) t"
    and "s < 256" "ehufsi t ! s > 0" "cnt b 16 \<le> length vals"
  obtains l j where "l < 16" "j < b (Suc l)" "unat (ehufsi t ! s) = Suc l" "unat (ehufco t ! s) = 2 * kraft b l + j"
    "vals ! (cnt b l + j) = of_nat s"
proof -
  have "of_nat s \<in> set (take (cnt b 16) vals)"
    using assms(3-5) unfolding filled_def by force
  then obtain p where p: "p < cnt b 16" "vals ! p = of_nat s" using assms(6) by (auto simp: in_set_conv_nth)
  from p(1) obtain l j where l: "l < 16" "j < b (Suc l)" "p = cnt b l + j" by (rule cnt_split)
  have us: "unat (of_nat s :: u8) = s" using assms(4) by (simp add: unat_of_nat_small)
  have e: "ehufco t ! s = of_nat (hc ! p)" "ehufsi t ! s = of_nat (sizes_upto b 16 ! p)"
    using assms(3) p us unfolding filled_def by metis+
  have "2 ^ Suc l \<le> (2 :: nat) ^ 16" using l(1) by (intro power_increasing) auto
  then have "2 * kraft b l + j < 2 ^ 32" using canon_bound [OF assms(1) l(1,2)] by simp
  then have c: "unat (ehufco t ! s) = 2 * kraft b l + j"
    using e(1) l assms(2) unat_of_nat_small [of "2 * kraft b l + j", where 'a = 32] by (simp add: codes_upto_def)
  have "unat (ehufsi t ! s) = Suc l"
    using e(2) l sizes_upto_nth [OF l(1), of j b] unat_of_nat_small [of "Suc l", where 'a = 8] by simp
  with c l p that show thesis by blast
qed

text \<open>A table of words: bounded lengths, words below the all-ones word, and no word is a prefix of another.\<close>

definition prefix_code :: "derived_tbl \<Rightarrow> bool" where
  "prefix_code t \<longleftrightarrow>
     (\<forall>s < 256. ehufsi t ! s > 0 \<longrightarrow>
        unat (ehufsi t ! s) \<le> 16 \<and> unat (ehufco t ! s) + 1 < 2 ^ unat (ehufsi t ! s))
   \<and> (\<forall>r < 256. \<forall>s < 256. r \<noteq> s \<and> ehufsi t ! r > 0 \<and> ehufsi t ! s > 0 \<and> ehufsi t ! r \<le> ehufsi t ! s \<longrightarrow>
        unat (ehufco t ! s) div 2 ^ (unat (ehufsi t ! s) - unat (ehufsi t ! r)) \<noteq> unat (ehufco t ! r))"

lemma derived_prefix_code:
  assumes "do_set_derived_tbl h mx = Some t" "0 < cnt (bcount (tbits h)) 16" "length (huff_vals h) = 256"
  shows "prefix_code t"
proof -
  let ?b = "bcount (tbits h)"
  from do_set_derived_result [OF assms(2,3), of mx] assms(1) obtain hc where
    c: "derived_ok h mx" "codes_upto ?b 16 hc" "filled (sizes_upto ?b 16) hc (huff_vals h) (cnt ?b 16) t" by auto
  have co: "counts_ok ?b" and n: "cnt ?b 16 \<le> length (huff_vals h)"
    using c(1) assms(3) by (auto simp: derived_ok_def Let_def counts_ok_def)
  note sym = symbol_code [OF co c(2,3) _ _ n]
  have "unat (ehufsi t ! s) \<le> 16 \<and> unat (ehufco t ! s) + 1 < 2 ^ unat (ehufsi t ! s)"
    if s: "s < 256" "ehufsi t ! s > 0" for s
    by (rule sym [OF s]) (use canon_bound [OF co] in auto)
  moreover have "unat (ehufco t ! s) div 2 ^ (unat (ehufsi t ! s) - unat (ehufsi t ! r)) \<noteq> unat (ehufco t ! r)"
    if h: "r < 256" "s < 256" "r \<noteq> s" "ehufsi t ! r > 0" "ehufsi t ! s > 0" "ehufsi t ! r \<le> ehufsi t ! s" for r s
  proof -
    obtain l j where r: "l < 16" "j < ?b (Suc l)" "unat (ehufsi t ! r) = Suc l" "unat (ehufco t ! r) = 2 * kraft ?b l + j"
      "huff_vals h ! (cnt ?b l + j) = of_nat r"
      using sym [OF h(1,4)] .
    obtain l' j' where s: "l' < 16" "j' < ?b (Suc l')" "unat (ehufsi t ! s) = Suc l'" "unat (ehufco t ! s) = 2 * kraft ?b l' + j'"
      "huff_vals h ! (cnt ?b l' + j') = of_nat s"
      using sym [OF h(2,5)] .
    have ne: "(of_nat r :: u8) \<noteq> of_nat s"
      using h(1-3) unat_of_nat_small [of r, where 'a = 8] unat_of_nat_small [of s, where 'a = 8] by auto
    have le: "l \<le> l'" using h(6) r(3) s(3) by (simp add: word_le_nat_alt)
    have "(2 * kraft ?b l' + j') div 2 ^ (l' - l) \<noteq> 2 * kraft ?b l + j"
    proof (cases "l = l'")
      case True
      then have "j \<noteq> j'" using r(5) s(5) ne by auto
      then show ?thesis using True by simp
    next
      case False
      then show ?thesis using canon_disjoint [of l l' j ?b j'] le r(2) by simp
    qed
    then show ?thesis using r s by simp
  qed
  ultimately show ?thesis by (simp add: prefix_code_def)
qed


section \<open>The standard tables\<close>

lemma counts_ok_kraft: "cnt b 16 \<le> 256 \<Longrightarrow> kraft b 16 < 2 ^ 16 \<Longrightarrow> counts_ok b"
proof -
  assume c: "cnt b 16 \<le> 256" and k: "kraft b 16 < 2 ^ 16"
  have "kraft b l < 2 ^ l" if l: "l \<le> 16" for l
  proof -
    have "kraft b l * 2 ^ (16 - l) < 2 ^ l * 2 ^ (16 - l)"
      using kraft_scale [OF l, of b] k l by (simp add: power_add [symmetric] del: kraft.simps)
    then show ?thesis by simp
  qed
  then show ?thesis using c by (simp add: counts_ok_def)
qed

lemma distinct_unat: "map unat xs = ys \<Longrightarrow> distinct ys \<Longrightarrow> distinct xs"
  by (auto simp: distinct_map)

lemma std_vals_distinct:
  "distinct VAL_DC_LUMINANCE" "distinct VAL_DC_CHROMINANCE" "distinct VAL_AC_LUMINANCE" "distinct VAL_AC_CHROMINANCE"
  by (rule distinct_unat, simp add: VAL_DC_LUMINANCE_def, simp)
     (rule distinct_unat, simp add: VAL_DC_CHROMINANCE_def, simp,
      rule distinct_unat, simp add: VAL_AC_LUMINANCE_def, simp,
      rule distinct_unat, simp add: VAL_AC_CHROMINANCE_def, simp)

lemma std_vals_length:
  "length VAL_DC_LUMINANCE = 12" "length VAL_DC_CHROMINANCE = 12" "length VAL_AC_LUMINANCE = 162" "length VAL_AC_CHROMINANCE = 162"
  by (simp_all add: VAL_DC_LUMINANCE_def VAL_DC_CHROMINANCE_def VAL_AC_LUMINANCE_def VAL_AC_CHROMINANCE_def)

lemma upt16: "[1 ..< 17] = [1, 2, 3, 4, 5, 6, 7, 8, 9, 10, 11, 12, 13, 14, 15, 16 :: nat]"
  by (simp add: upt_rec)

lemma cnt16: "cnt b 16 = sum_list (map b [1 ..< 17])"
proof -
  have "{1 .. 16 :: nat} = set [1 ..< 17]" by auto
  then show ?thesis by (simp only: cnt_def) (simp add: sum_set_upt_conv_sum_list_nat [symmetric] atLeastLessThanSuc_atLeastAtMost)
qed

lemma kraft16: "kraft b 16 = fold (\<lambda>l k. 2 * k + b l) [1 ..< 17] 0"
  by (simp add: upt16 eval_nat_numeral)

lemma std_counts:
  "cnt (bcount BITS_DC_LUMINANCE) 16 = 12" "cnt (bcount BITS_DC_CHROMINANCE) 16 = 12"
  "cnt (bcount BITS_AC_LUMINANCE) 16 = 162" "cnt (bcount BITS_AC_CHROMINANCE) 16 = 162"
  "kraft (bcount BITS_DC_LUMINANCE) 16 < 2 ^ 16" "kraft (bcount BITS_DC_CHROMINANCE) 16 < 2 ^ 16"
  "kraft (bcount BITS_AC_LUMINANCE) 16 < 2 ^ 16" "kraft (bcount BITS_AC_CHROMINANCE) 16 < 2 ^ 16"
  unfolding cnt16 kraft16 upt16
  by (simp_all add: bcount_def BITS_DC_LUMINANCE_def BITS_DC_CHROMINANCE_def BITS_AC_LUMINANCE_def
      BITS_AC_CHROMINANCE_def)

lemma add_huff_table_ok:
  assumes "0 < cnt (bcount bts) 16" "cnt (bcount bts) 16 = length val" "length val \<le> 256"
  shows "add_huff_table bts val = Some \<lparr>tbits = bts, huff_vals = val @ replicate (256 - length val) 0\<rparr>"
proof -
  have "sum_list (map (\<lambda>len. unat (bts ! len)) [1 ..< 17]) = length val"
    using assms(2) unfolding cnt16 bcount_def .
  then show ?thesis using assms by (simp add: add_huff_table_def Let_def)
qed

lemma derive_ok:
  assumes "cnt (bcount bts) 16 = length val" "0 < length val" "length val \<le> 256" "kraft (bcount bts) 16 < 2 ^ 16"
    "distinct val" "\<forall>v \<in> set val. v \<le> mx"
  shows "\<exists>t. do_set_derived_tbl \<lparr>tbits = bts, huff_vals = val @ replicate (256 - length val) 0\<rparr> mx = Some t"
proof -
  let ?h = "\<lparr>tbits = bts, huff_vals = val @ replicate (256 - length val) 0\<rparr>"
  have "counts_ok (bcount bts)" using counts_ok_kraft assms(1,3,4) by simp
  then have "derived_ok ?h mx"
    using assms by (auto simp: derived_ok_def Let_def nth_append)
  moreover have "0 < cnt (bcount (tbits ?h)) 16" "length (huff_vals ?h) = 256" using assms(1-3) by simp_all
  ultimately show ?thesis using do_set_derived_result [of ?h mx] by (cases "do_set_derived_tbl ?h mx") auto
qed

lemma std_tables_exist:
  "\<exists>h t. huff_once \<lparr>dc_huff_tbls = [empty_huff_tbl, empty_huff_tbl], ac_huff_tbls = [empty_huff_tbl, empty_huff_tbl]\<rparr> = Some h
     \<and> set_entropy_tbls h False e = Some t"
proof -
  note c = std_counts std_vals_length
  let ?t = "\<lambda>bts val. \<lparr>tbits = bts, huff_vals = val @ replicate (256 - length val) (0 :: u8)\<rparr>"
  have h: "huff_once \<lparr>dc_huff_tbls = [empty_huff_tbl, empty_huff_tbl], ac_huff_tbls = [empty_huff_tbl, empty_huff_tbl]\<rparr>
    = Some \<lparr>dc_huff_tbls = [?t BITS_DC_LUMINANCE VAL_DC_LUMINANCE, ?t BITS_DC_CHROMINANCE VAL_DC_CHROMINANCE],
            ac_huff_tbls = [?t BITS_AC_LUMINANCE VAL_AC_LUMINANCE, ?t BITS_AC_CHROMINANCE VAL_AC_CHROMINANCE]\<rparr>"
    using c by (simp add: huff_once_def add_huff_table_ok)
  have m: "v \<le> 255" for v :: u8 using u8_lt [of v] by (simp add: word_le_nat_alt)
  obtain d0 where d0: "do_set_derived_tbl (?t BITS_DC_LUMINANCE VAL_DC_LUMINANCE) 15 = Some d0"
    using derive_ok [of BITS_DC_LUMINANCE VAL_DC_LUMINANCE 15] c std_vals_distinct by (auto simp: VAL_DC_LUMINANCE_def)
  obtain d1 where d1: "do_set_derived_tbl (?t BITS_DC_CHROMINANCE VAL_DC_CHROMINANCE) 15 = Some d1"
    using derive_ok [of BITS_DC_CHROMINANCE VAL_DC_CHROMINANCE 15] c std_vals_distinct by (auto simp: VAL_DC_CHROMINANCE_def)
  obtain a0 where a0: "do_set_derived_tbl (?t BITS_AC_LUMINANCE VAL_AC_LUMINANCE) 255 = Some a0"
    using derive_ok [of BITS_AC_LUMINANCE VAL_AC_LUMINANCE 255] c std_vals_distinct m by auto
  obtain a1 where a1: "do_set_derived_tbl (?t BITS_AC_CHROMINANCE VAL_AC_CHROMINANCE) 255 = Some a1"
    using derive_ok [of BITS_AC_CHROMINANCE VAL_AC_CHROMINANCE 255] c std_vals_distinct m by auto
  have "[0 ..< NUM_HUFF_TBLS] = [0, 1]" by (simp add: NUM_HUFF_TBLS_def upt_rec)
  then show ?thesis using d0 d1 a0 a1 c by (simp add: h set_entropy_tbls_def set_derived_tbl_def)
qed


definition small_tbl :: huff_tbl where
  "small_tbl = \<lparr>tbits = BITS_DC_LUMINANCE, huff_vals = VAL_DC_LUMINANCE @ replicate 244 0\<rparr>"


end
