(* ===== verification/Huff_Gen.thy ===== *)
theory Huff_Gen
  imports Huffman Complex_Main
begin

text \<open>
  Generation of optimal Huffman tables (\<^verbatim>\<open>gen_optimal_table\<close> of \<^verbatim>\<open>encoder/vars.rs\<close>) for the delta and the
  lossless streams: the Huffman procedure on parallel arrays, the counts per length, the limiting to
  sixteen bits and the symbol list. Indices that the code keeps in signed integers with \<open>-1\<close> as the
  empty link are integers here. A panic is \<open>None\<close>; the loops take a bound, which the proofs show to be
  enough.
\<close>

section \<open>The Huffman procedure\<close>

definition MAX_C_LEN :: nat where "MAX_C_LEN = 32"

definition FREQ_DONE :: nat where "FREQ_DONE = 1000000001"

text \<open>The symbols with a nonzero frequency, moved to the front of the array.\<close>

definition group_step :: "nat \<Rightarrow> nat list \<times> nat list \<times> nat \<Rightarrow> nat list \<times> nat list \<times> nat" where
  "group_step i s =
     (case s of (freq, nz_index, num) \<Rightarrow>
        if freq ! i > 0 then (freq[num := freq ! i], nz_index[num := i], num + 1) else (freq, nz_index, num))"

definition group_nonzero :: "nat list \<Rightarrow> nat list \<times> nat list \<times> nat" where
  "group_nonzero freq = fold group_step [0 ..< 257] (freq, replicate 257 0, 0)"

text \<open>The two smallest frequencies; on ties the larger index.\<close>

definition smallest_step :: "nat list \<Rightarrow> nat \<Rightarrow> int \<times> int \<times> nat \<times> nat \<Rightarrow> int \<times> int \<times> nat \<times> nat" where
  "smallest_step freq i s =
     (case s of (c1, c2, v, v2) \<Rightarrow>
        if freq ! i \<le> v2 then if freq ! i \<le> v then (int i, c1, freq ! i, v) else (c1, int i, v, freq ! i)
        else (c1, c2, v, v2))"

definition find_smallest :: "nat list \<Rightarrow> nat \<Rightarrow> int \<times> int" where
  "find_smallest freq num =
     (case fold (smallest_step freq) [0 ..< num] (-1, -1, 1000000000, 1000000000) of (c1, c2, _, _) \<Rightarrow> (c1, c2))"

text \<open>Increments the code sizes along a branch and returns its last symbol.\<close>

fun branch :: "nat \<Rightarrow> int list \<Rightarrow> nat \<Rightarrow> nat list \<Rightarrow> (nat \<times> nat list) option" where
  "branch 0 others c codesize = None"
| "branch (Suc fuel) others c codesize =
     (let codesize = codesize[c := codesize ! c + 1]
      in if others ! c \<ge> 0 then branch fuel others (nat (others ! c)) codesize else Some (c, codesize))"

fun huff_merge :: "nat \<Rightarrow> nat \<Rightarrow> nat list \<Rightarrow> nat list \<Rightarrow> int list \<Rightarrow> (nat list \<times> int list) option" where
  "huff_merge 0 num freq codesize others = None"
| "huff_merge (Suc fuel) num freq codesize others =
     (case find_smallest freq num of (c1, c2) \<Rightarrow>
        if c2 < 0 then Some (codesize, others)
        else
          let freq = freq[nat c1 := freq ! nat c1 + freq ! nat c2];
              freq = freq[nat c2 := FREQ_DONE]
          in (case branch 257 others (nat c1) codesize of None \<Rightarrow> None
              | Some (e1, codesize) \<Rightarrow>
                  let others = others[e1 := c2]
                  in (case branch 257 others (nat c2) codesize of None \<Rightarrow> None
                      | Some (_, codesize) \<Rightarrow> huff_merge fuel num freq codesize others)))"

section \<open>Counts per length and their limiting\<close>

definition count_sizes :: "nat list \<Rightarrow> nat \<Rightarrow> u8 list option" where
  "count_sizes codesize num =
     fold (\<lambda>i st. case st of None \<Rightarrow> None
             | Some bts \<Rightarrow> if codesize ! i > MAX_C_LEN then None
                         else Some (bts[codesize ! i := bts ! (codesize ! i) + 1]))
       [0 ..< num] (Some (replicate (MAX_C_LEN + 1) 0))"

definition bit_positions :: "u8 list \<Rightarrow> nat list" where
  "bit_positions bts =
     fst (fold (\<lambda>i (pos, p). (pos[i := p], p + unat (bts ! i))) [0 ..< MAX_C_LEN + 1] (replicate (MAX_C_LEN + 1) 0, 0))"

fun find_prefix :: "u8 list \<Rightarrow> nat \<Rightarrow> nat option" where
  "find_prefix bts j = (if bts ! j = 0 then if j = 0 then None else find_prefix bts (j - 1) else Some j)"

declare find_prefix.simps [simp del]

fun limit_len :: "nat \<Rightarrow> nat \<Rightarrow> u8 list \<Rightarrow> u8 list option" where
  "limit_len 0 i bts = None"
| "limit_len (Suc fuel) i bts =
     (if bts ! i > 0
      then (case find_prefix bts (i - 2) of None \<Rightarrow> None
            | Some j \<Rightarrow>
                let bts = bts[i := bts ! i - 2];
                    bts = bts[i - 1 := bts ! (i - 1) + 1];
                    bts = bts[j + 1 := bts ! (j + 1) + 2];
                    bts = bts[j := bts ! j - 1]
                in limit_len fuel i bts)
      else Some bts)"

definition limit_lens :: "u8 list \<Rightarrow> u8 list option" where
  "limit_lens bts =
     fold (\<lambda>i st. case st of None \<Rightarrow> None | Some bts \<Rightarrow> limit_len 257 i bts) (rev [17 ..< MAX_C_LEN + 1]) (Some bts)"

definition place_symbols :: "nat list \<Rightarrow> nat list \<Rightarrow> nat \<Rightarrow> nat list \<Rightarrow> u8 list \<Rightarrow> u8 list" where
  "place_symbols codesize nz_index num bit_pos vals =
     fst (fold (\<lambda>i (vals, pos). (vals[pos ! (codesize ! i) := of_nat (nz_index ! i)],
                                 pos[codesize ! i := pos ! (codesize ! i) + 1])) [0 ..< num - 1] (vals, bit_pos))"

definition gen_optimal_table :: "huff_tbl \<Rightarrow> nat list \<Rightarrow> huff_tbl option" where
  "gen_optimal_table tbl freq =
     (let freq = freq[256 := 1]
      in case group_nonzero freq of (freq, nz_index, num) \<Rightarrow>
        (case huff_merge 257 num freq (replicate 257 0) (replicate 257 (-1)) of None \<Rightarrow> None
         | Some (codesize, _) \<Rightarrow>
        (case count_sizes codesize num of None \<Rightarrow> None
         | Some bts \<Rightarrow>
           let bit_pos = bit_positions bts
           in (case limit_lens bts of None \<Rightarrow> None
               | Some bts \<Rightarrow>
        (case find_prefix bts 16 of None \<Rightarrow> None
         | Some i \<Rightarrow>
           let bts = bts[i := bts ! i - 1]
           in Some \<lparr>tbits = take 17 bts, huff_vals = place_symbols codesize nz_index num bit_pos (huff_vals tbl)\<rparr>)))))"

text \<open>The tables of the delta stream.\<close>

definition dc_dq_freq :: "nat list" where
  "dc_dq_freq = map (\<lambda>i. if i \<le> 12 then 12 + 1 - i else 0) [0 ..< 257]"

definition fill_ac_freq :: "u8 list \<Rightarrow> nat list \<Rightarrow> nat list" where
  "fill_ac_freq base freq =
     (let dq_freq = map (\<lambda>k. 0x0b + 0x10 * k) [0 ..< 16];
          count = length base + length dq_freq;
          freq = fold (\<lambda>i freq. freq[unat (base ! i) := count - i]) [0 ..< length base] freq;
          count = count - length base
      in fold (\<lambda>i freq. freq[dq_freq ! i := count - i]) [0 ..< length dq_freq] freq)"

definition huff_once_dq :: "huff_tbls \<Rightarrow> huff_tbls option" where
  "huff_once_dq t =
     (case gen_optimal_table (dc_huff_tbls t ! 0) dc_dq_freq of None \<Rightarrow> None | Some d0 \<Rightarrow>
      case gen_optimal_table (dc_huff_tbls t ! 1) dc_dq_freq of None \<Rightarrow> None | Some d1 \<Rightarrow>
      case gen_optimal_table (ac_huff_tbls t ! 0) (fill_ac_freq VAL_AC_LUMINANCE (replicate 257 0)) of None \<Rightarrow> None | Some a0 \<Rightarrow>
      case gen_optimal_table (ac_huff_tbls t ! 1) (fill_ac_freq VAL_AC_CHROMINANCE (replicate 257 0)) of None \<Rightarrow> None | Some a1 \<Rightarrow>
        Some (t\<lparr>dc_huff_tbls := (dc_huff_tbls t)[0 := d0, 1 := d1], ac_huff_tbls := (ac_huff_tbls t)[0 := a0, 1 := a1]\<rparr>))"

section \<open>Grouping\<close>

lemma group_run:
  assumes "length freq = 257" "i \<le> 257"
  defines "S \<equiv> filter (\<lambda>i. freq ! i > 0) [0 ..< i]"
  shows "\<exists>freq' nz. fold group_step [0 ..< i] (freq, replicate 257 0, 0) = (freq', nz, length S)
    \<and> length freq' = 257 \<and> length nz = 257 \<and> length S \<le> i
    \<and> (\<forall>k < length S. freq' ! k = freq ! (S ! k) \<and> nz ! k = S ! k) \<and> (\<forall>k. i \<le> k \<longrightarrow> freq' ! k = freq ! k)"
  unfolding S_def using assms(2)
proof (induction i)
  case 0
  show ?case using assms(1) by simp
next
  case (Suc i)
  let ?S = "filter (\<lambda>i. freq ! i > 0) [0 ..< i]"
  from Suc obtain freq' nz where h: "fold group_step [0 ..< i] (freq, replicate 257 0, 0) = (freq', nz, length ?S)"
    "length freq' = 257" "length nz = 257" "length ?S \<le> i"
    "\<forall>k < length ?S. freq' ! k = freq ! (?S ! k) \<and> nz ! k = ?S ! k" "\<forall>k. i \<le> k \<longrightarrow> freq' ! k = freq ! k" by auto
  have i: "freq' ! i = freq ! i" "length ?S < 257" using h Suc.prems by simp_all
  show ?case
  proof (cases "freq ! i > 0")
    case True
    have "\<forall>k < Suc (length ?S). freq'[length ?S := freq' ! i] ! k = freq ! ((?S @ [i]) ! k)
        \<and> nz[length ?S := i] ! k = (?S @ [i]) ! k"
      using h i by (auto simp: nth_append less_Suc_eq)
    moreover have "\<forall>k. Suc i \<le> k \<longrightarrow> freq'[length ?S := freq' ! i] ! k = freq ! k" using h(4,6) by auto
    moreover have "fold group_step [0 ..< Suc i] (freq, replicate 257 0, 0)
        = (freq'[length ?S := freq' ! i], nz[length ?S := i], Suc (length ?S))"
      by (simp add: h(1)) (simp add: group_step_def True i)
    moreover have "filter (\<lambda>i. freq ! i > 0) [0 ..< Suc i] = ?S @ [i]" using True by simp
    ultimately show ?thesis using h(2,3,4) by (simp del: fold.simps upt_Suc)
  next
    case False
    moreover have "fold group_step [0 ..< Suc i] (freq, replicate 257 0, 0) = (freq', nz, length ?S)"
      by (simp add: h(1)) (simp add: group_step_def False i)
    moreover have "filter (\<lambda>i. freq ! i > 0) [0 ..< Suc i] = ?S" using False by simp
    ultimately show ?thesis using h(2-6) by (simp del: fold.simps upt_Suc)
  qed
qed

definition nz_symbols :: "nat list \<Rightarrow> nat list" where
  "nz_symbols freq = filter (\<lambda>i. freq[256 := 1] ! i > 0) [0 ..< 257]"

lemma group_result:
  assumes "length freq = 257"
  obtains freq' nz where "group_nonzero (freq[256 := 1]) = (freq', nz, length (nz_symbols freq))"
    "length freq' = 257" "length nz = 257" "length (nz_symbols freq) \<le> 257"
    "\<And>k. k < length (nz_symbols freq) \<Longrightarrow> freq' ! k = freq[256 := 1] ! (nz_symbols freq ! k)"
    "\<And>k. k < length (nz_symbols freq) \<Longrightarrow> nz ! k = nz_symbols freq ! k"
  using group_run [of "freq[256 := 1]" 257] assms unfolding group_nonzero_def nz_symbols_def by auto

lemma nz_symbols_split:
  assumes "length freq = 257"
  shows "nz_symbols freq = filter (\<lambda>i. freq ! i > 0) [0 ..< 256] @ [256]"
proof -
  have "filter (\<lambda>i. freq[256 := 1] ! i > 0) [0 ..< 256] = filter (\<lambda>i. freq ! i > 0) [0 ..< 256]"
    by (rule filter_cong) auto
  moreover have "[0 ..< 257] = [0 ..< 256] @ [256 :: nat]" by (simp add: upt_rec_numeral flip: upt_Suc_append)
  ultimately show ?thesis using assms by (simp add: nz_symbols_def)
qed

section \<open>The two smallest\<close>

definition beats :: "nat list \<Rightarrow> nat \<Rightarrow> nat \<Rightarrow> bool" where
  "beats freq i j \<longleftrightarrow> freq ! i < freq ! j \<or> freq ! i = freq ! j \<and> j < i"

definition active :: "nat list \<Rightarrow> nat \<Rightarrow> nat set" where
  "active freq n = {i. i < n \<and> freq ! i \<le> 1000000000}"

lemma active_Suc: "active freq (Suc n) = (if freq ! n \<le> 1000000000 then insert n (active freq n) else active freq n)"
  by (auto simp: active_def less_Suc_eq)

definition smallest_inv :: "nat list \<Rightarrow> nat \<Rightarrow> int \<times> int \<times> nat \<times> nat \<Rightarrow> bool" where
  "smallest_inv freq n s = (case s of (c1, c2, v, v2) \<Rightarrow>
     active freq n = {} \<and> c1 = -1 \<and> c2 = -1 \<and> v = 1000000000 \<and> v2 = 1000000000
   \<or> (\<exists>a. active freq n = {a} \<and> c1 = int a \<and> c2 = -1 \<and> v = freq ! a \<and> v2 = 1000000000)
   \<or> (\<exists>a b. a \<in> active freq n \<and> b \<in> active freq n \<and> a \<noteq> b \<and> c1 = int a \<and> c2 = int b \<and> v = freq ! a \<and> v2 = freq ! b
        \<and> beats freq a b \<and> (\<forall>c \<in> active freq n - {a, b}. beats freq b c)))"

lemma smallest_step_inv:
  assumes "smallest_inv freq n s"
  shows "smallest_inv freq (Suc n) (smallest_step freq n s)"
proof -
  obtain c1 c2 v v2 where s: "s = (c1, c2, v, v2)" by (cases s)
  have lt: "c < n" if "c \<in> active freq n" for c using that by (simp add: active_def)
  from assms consider
      "active freq n = {}" "c1 = -1" "c2 = -1" "v = 1000000000" "v2 = 1000000000"
    | a where "active freq n = {a}" "c1 = int a" "c2 = -1" "v = freq ! a" "v2 = 1000000000"
    | a b where "a \<in> active freq n" "b \<in> active freq n" "a \<noteq> b" "c1 = int a" "c2 = int b" "v = freq ! a" "v2 = freq ! b"
        "beats freq a b" "\<forall>c \<in> active freq n - {a, b}. beats freq b c"
    unfolding smallest_inv_def s by auto
  then show ?thesis
  proof cases
    case 1
    then show ?thesis by (simp add: s smallest_inv_def smallest_step_def active_Suc)
  next
    case (2 a)
    have "a < n" "freq ! a \<le> 1000000000" using 2(1) by (auto simp: active_def)
    then show ?thesis using 2 by (auto simp: s smallest_inv_def smallest_step_def active_Suc beats_def)
  next
    case (3 a b)
    have ab: "a < n" "b < n" "freq ! a \<le> 1000000000" "freq ! b \<le> 1000000000" using 3(1,2) by (auto simp: active_def)
    have "freq ! a \<le> freq ! b" using 3(8) by (auto simp: beats_def)
    then consider "freq ! n \<le> freq ! a" "freq ! n \<le> freq ! b" | "freq ! n \<le> freq ! b" "freq ! a < freq ! n" | "freq ! b < freq ! n"
      by linarith
    then show ?thesis
    proof cases
      case i: 1
      have "beats freq n a" using i ab by (auto simp: beats_def)
      moreover have "beats freq a c" if "c \<in> active freq n - {a, b}" for c
        using 3(8) 3(9) [rule_format, OF that] by (auto simp: beats_def)
      ultimately show ?thesis
        using 3 i ab by (auto simp: s smallest_inv_def smallest_step_def active_Suc)
    next
      case i: 2
      have "beats freq a n" "beats freq n b" using i ab by (auto simp: beats_def)
      moreover have "beats freq n c" if "c \<in> active freq n - {a, b}" for c
        using i ab 3(9) [rule_format, OF that] lt [of c] that by (auto simp: beats_def)
      ultimately show ?thesis
        using 3 i ab by (auto simp: s smallest_inv_def smallest_step_def active_Suc)
    next
      case i: 3
      have "beats freq b n" using i by (simp add: beats_def)
      then show ?thesis
        using 3 i ab by (auto simp: s smallest_inv_def smallest_step_def active_Suc)
    qed
  qed
qed

lemma find_smallest_result:
  "\<exists>v v2. smallest_inv freq n (fst (find_smallest freq n), snd (find_smallest freq n), v, v2)"
proof -
  have "smallest_inv freq n (fold (smallest_step freq) [0 ..< n] (-1, -1, 1000000000, 1000000000))"
    by (induction n) (auto simp: smallest_step_inv, simp add: smallest_inv_def active_def)
  then show ?thesis by (cases "fold (smallest_step freq) [0 ..< n] (-1, -1, 1000000000, 1000000000)")
    (auto simp: find_smallest_def)
qed

end
