(* ===== verification/Huff_Forest.thy ===== *)
theory Huff_Forest
  imports Huff_Gen
begin

text \<open>
  Correctness of the Huffman procedure of \<open>gen_optimal_table\<close>. The arrays represent a forest: every tree
  is the chain of its symbols along the links, headed by the symbol that carries the weight. Merging
  keeps for every tree the Kraft sum one, the Fibonacci bound on depths, and the place of the
  pseudo-symbol among the deepest leaves.
\<close>

section \<open>Chains\<close>

fun chain :: "int list \<Rightarrow> nat list \<Rightarrow> bool" where
  "chain oth [] \<longleftrightarrow> False"
| "chain oth [x] \<longleftrightarrow> oth ! x = -1"
| "chain oth (x # y # ys) \<longleftrightarrow> oth ! x = int y \<and> chain oth (y # ys)"

definition bump :: "nat list \<Rightarrow> nat list \<Rightarrow> nat list" where
  "bump xs cs = fold (\<lambda>x cs. cs[x := cs ! x + 1]) xs cs"

lemma bump_Cons: "bump (x # xs) cs = bump xs (cs[x := cs ! x + 1])"
  by (simp add: bump_def)

lemma length_bump [simp]: "length (bump xs cs) = length cs"
  by (induction xs arbitrary: cs) (simp_all add: bump_def)

lemma bump_nth:
  "distinct xs \<Longrightarrow> i < length cs \<Longrightarrow> bump xs cs ! i = cs ! i + (if i \<in> set xs then 1 else 0)"
proof (induction xs arbitrary: cs)
  case Nil
  show ?case by (simp add: bump_def)
next
  case (Cons x xs)
  then show ?case by (cases "i = x") (auto simp: bump_Cons)
qed

lemma chain_nonempty: "chain oth xs \<Longrightarrow> xs \<noteq> []"
  by (cases xs) auto

lemma branch_chain:
  "chain oth xs \<Longrightarrow> length xs \<le> fuel \<Longrightarrow> branch fuel oth (hd xs) cs = Some (last xs, bump xs cs)"
proof (induction oth xs arbitrary: fuel cs rule: chain.induct)
  case (2 oth x)
  then obtain f where "fuel = Suc f" by (cases fuel) auto
  then show ?case using 2 by (simp add: bump_def)
next
  case (3 oth x y ys)
  then obtain f where f: "fuel = Suc f" by (cases fuel) auto
  have "branch f oth (hd (y # ys)) (cs[x := cs ! x + 1]) = Some (last (y # ys), bump (y # ys) (cs[x := cs ! x + 1]))"
    by (rule 3) (use 3 f in auto)
  then show ?case using 3(2) by (simp add: f bump_Cons Let_def)
qed simp

lemma chain_update_other: "chain oth xs \<Longrightarrow> e \<notin> set xs \<Longrightarrow> chain (oth[e := v]) xs"
proof (induction oth xs rule: chain.induct)
  case (3 oth x y ys)
  then show ?case by (cases "e = x") auto
qed auto

lemma chain_append:
  assumes "chain oth xs" "chain oth ys" "distinct xs" "set xs \<inter> set ys = {}" "last xs < length oth"
  shows "chain (oth[last xs := int (hd ys)]) (xs @ ys)"
  using assms
proof (induction oth xs rule: chain.induct)
  case (2 oth x)
  have "chain (oth[x := int (hd ys)]) ys" using 2 by (intro chain_update_other) auto
  then show ?case using 2 by (cases ys) auto
next
  case (3 oth x y ys')
  have l: "last (y # ys') \<noteq> x" using 3(4) by (metis distinct.simps(2) last_in_set list.distinct(1))
  have "chain (oth[last (y # ys') := int (hd ys)]) ((y # ys') @ ys)" by (rule 3) (use 3 in auto)
  then show ?case using 3 l by auto
qed auto

section \<open>The forest\<close>

text \<open>Frequencies of the grouped symbols are the argument \<open>w\<close>.\<close>

definition weight :: "nat list \<Rightarrow> nat list \<Rightarrow> nat" where
  "weight w xs = sum_list (map (\<lambda>i. w ! i) xs)"

lemma weight_append [simp]: "weight w (xs @ ys) = weight w xs + weight w ys"
  by (simp add: weight_def)

definition forest :: "nat \<Rightarrow> nat list set \<Rightarrow> bool" where
  "forest n F \<longleftrightarrow> finite F \<and> F \<noteq> {} \<and> (\<forall>xs \<in> F. xs \<noteq> [] \<and> distinct xs)
     \<and> (\<forall>xs \<in> F. \<forall>ys \<in> F. xs \<noteq> ys \<longrightarrow> set xs \<inter> set ys = {}) \<and> (\<Union>xs \<in> F. set xs) = {..<n}"

definition arrays_ok :: "nat list \<Rightarrow> nat \<Rightarrow> nat list set \<Rightarrow> nat list \<Rightarrow> int list \<Rightarrow> bool" where
  "arrays_ok w n F freq oth \<longleftrightarrow> length freq = 257 \<and> length oth = 257 \<and> (\<forall>xs \<in> F. chain oth xs)
     \<and> (\<forall>xs \<in> F. freq ! hd xs = weight w xs)
     \<and> (\<forall>i < n. i \<notin> hd ` F \<longrightarrow> freq ! i = FREQ_DONE)"

lemma forest_sub: "forest n F \<Longrightarrow> xs \<in> F \<Longrightarrow> set xs \<subseteq> {..<n}"
  by (auto simp: forest_def)

lemma forest_hd: "forest n F \<Longrightarrow> xs \<in> F \<Longrightarrow> hd xs \<in> set xs"
  by (auto simp: forest_def)

lemma forest_hd_inj:
  assumes "forest n F" "xs \<in> F" "ys \<in> F" "hd xs = hd ys"
  shows "xs = ys"
proof (rule ccontr)
  assume "xs \<noteq> ys"
  then have "set xs \<inter> set ys = {}" using assms(1-3) by (simp add: forest_def)
  then show False using forest_hd [OF assms(1,2)] forest_hd [OF assms(1,3)] assms(4) by auto
qed

lemma forest_length:
  assumes "forest n F" "xs \<in> F"
  shows "length xs \<le> n"
proof -
  have "length xs = card (set xs)" using assms by (simp add: forest_def distinct_card)
  also have "\<dots> \<le> card {..<n}" using forest_sub [OF assms] by (intro card_mono) auto
  finally show ?thesis by simp
qed

lemma forest_total:
  assumes "forest n F"
  shows "(\<Sum>xs \<in> F. weight w xs) = (\<Sum>i < n. w ! i)"
proof -
  have "weight w xs = (\<Sum>i \<in> set xs. w ! i)" if "xs \<in> F" for xs
    using assms that by (simp add: weight_def forest_def sum_list_distinct_conv_sum_set)
  then have "(\<Sum>xs \<in> F. weight w xs) = (\<Sum>xs \<in> F. \<Sum>i \<in> set xs. w ! i)" by simp
  also have "\<dots> = (\<Sum>i \<in> (\<Union>xs \<in> F. set xs). w ! i)"
    using assms by (intro sum.UNION_disjoint [symmetric]) (auto simp: forest_def)
  finally show ?thesis using assms by (simp add: forest_def)
qed

lemma forest_weight:
  assumes "forest n F" "xs \<in> F"
  shows "weight w xs \<le> (\<Sum>i < n. w ! i)"
proof -
  have "weight w xs \<le> (\<Sum>xs \<in> F. weight w xs)"
    using assms by (intro member_le_sum) (auto simp: forest_def)
  then show ?thesis by (simp add: forest_total [OF assms(1)])
qed

lemma forest_merge:
  assumes "forest n F" "xs \<in> F" "ys \<in> F" "xs \<noteq> ys"
  shows "forest n (insert (xs @ ys) (F - {xs, ys}))"
proof -
  have d: "set xs \<inter> set ys = {}" using assms by (simp add: forest_def)
  have o: "set zs \<inter> (set xs \<union> set ys) = {}" if "zs \<in> F - {xs, ys}" for zs
    using assms(1-3) that by (auto simp: forest_def)
  have u: "(\<Union>zs \<in> insert (xs @ ys) (F - {xs, ys}). set zs) = (\<Union>zs \<in> F. set zs)"
    using assms(2,3) by auto
  show ?thesis
    unfolding forest_def u
    using assms d o by (auto simp: forest_def)
qed

lemma merged_new: "forest n F \<Longrightarrow> xs \<in> F \<Longrightarrow> ys \<in> F \<Longrightarrow> xs \<noteq> ys \<Longrightarrow> xs @ ys \<notin> F - {xs, ys}"
proof
  assume a: "forest n F" "xs \<in> F" "ys \<in> F" "xs \<noteq> ys" "xs @ ys \<in> F - {xs, ys}"
  then have "set (xs @ ys) \<inter> set xs = {}" unfolding forest_def by blast
  then show False using a(1,2) by (auto simp: forest_def)
qed

lemma arrays_active:
  assumes "forest n F" "arrays_ok w n F freq oth" "(\<Sum>i < n. w ! i) \<le> 1000000000"
  shows "active freq n = hd ` F"
proof -
  have "hd xs < n" "freq ! hd xs \<le> 1000000000" if "xs \<in> F" for xs
    using forest_sub [OF assms(1) that] forest_hd [OF assms(1) that] forest_weight [OF assms(1) that, of w] assms(2,3) that
    by (auto simp: arrays_ok_def)
  moreover have "i \<in> hd ` F" if "i < n" "freq ! i \<le> 1000000000" for i
    using assms(2) that by (auto simp: arrays_ok_def FREQ_DONE_def)
  ultimately show ?thesis by (auto simp: active_def)
qed

lemma arrays_merge:
  assumes f: "forest n F" and a: "arrays_ok w n F freq oth" and xy: "xs \<in> F" "ys \<in> F" "xs \<noteq> ys" and n: "n \<le> 257"
  shows "arrays_ok w n (insert (xs @ ys) (F - {xs, ys}))
     (freq[hd xs := freq ! hd xs + freq ! hd ys, hd ys := FREQ_DONE]) (oth[last xs := int (hd ys)])"
proof -
  have ne: "xs \<noteq> []" "ys \<noteq> []" "distinct xs" using f xy by (auto simp: forest_def)
  have d: "set xs \<inter> set ys = {}" using f xy by (simp add: forest_def)
  have o: "set zs \<inter> (set xs \<union> set ys) = {}" if "zs \<in> F - {xs, ys}" for zs
    using f xy that by (auto simp: forest_def)
  have h: "hd xs \<in> set xs" "hd ys \<in> set ys" "last xs \<in> set xs" using ne by auto
  have lt: "hd xs < 257" "hd ys < 257" "last xs < 257" using forest_sub [OF f xy(1)] forest_sub [OF f xy(2)] h n by auto
  have hne: "hd xs \<noteq> hd ys" using h d by auto
  have ho: "hd zs \<noteq> hd xs" "hd zs \<noteq> hd ys" "last xs \<notin> set zs" if z: "zs \<in> F - {xs, ys}" for zs
    using o [OF z] h forest_hd [OF f, of zs] z by auto
  have hd_app: "hd (xs @ ys) = hd xs" using ne by simp
  have len: "length freq = 257" "length oth = 257" using a by (simp_all add: arrays_ok_def)
  show ?thesis
    unfolding arrays_ok_def
  proof (intro conjI ballI allI impI)
    fix zs
    assume z: "zs \<in> insert (xs @ ys) (F - {xs, ys})"
    show "chain (oth[last xs := int (hd ys)]) zs"
    proof (cases "zs = xs @ ys")
      case True
      show ?thesis unfolding True
        by (rule chain_append) (use a xy ne d lt len in \<open>auto simp: arrays_ok_def\<close>)
    next
      case False
      then show ?thesis using z a ho(3) by (intro chain_update_other) (auto simp: arrays_ok_def)
    qed
    show "freq[hd xs := freq ! hd xs + freq ! hd ys, hd ys := FREQ_DONE] ! hd zs = weight w zs"
    proof (cases "zs = xs @ ys")
      case True
      then show ?thesis using hne lt len a xy hd_app by (simp add: arrays_ok_def)
    next
      case False
      then show ?thesis using z a ho(1,2) [of zs] by (auto simp: arrays_ok_def)
    qed
  next
    fix i
    assume i: "i < n" "i \<notin> hd ` insert (xs @ ys) (F - {xs, ys})"
    have ix: "i \<noteq> hd xs" using i(2) hd_app by (metis image_eqI insertI1)
    show "freq[hd xs := freq ! hd xs + freq ! hd ys, hd ys := FREQ_DONE] ! i = FREQ_DONE"
    proof (cases "i = hd ys")
      case True
      then show ?thesis using lt len by simp
    next
      case False
      then have "i \<notin> hd ` F" using i(2) ix by auto
      then show ?thesis using a i(1) ix False by (simp add: arrays_ok_def)
    qed
  qed (simp_all add: len)
qed

section \<open>Code sizes\<close>

fun fibn :: "nat \<Rightarrow> nat" where
  "fibn 0 = 0"
| "fibn (Suc 0) = 1"
| "fibn (Suc (Suc n)) = fibn n + fibn (Suc n)"

lemma fibn_pos: "0 < fibn (Suc n)"
proof (induction n rule: less_induct)
  case (less n)
  show ?case
  proof (cases n)
    case (Suc m)
    then show ?thesis using less [of m] by simp
  qed simp
qed

lemma fibn_mono: "m \<le> n \<Longrightarrow> fibn m \<le> fibn n"
proof (induction n rule: dec_induct)
  case (step n)
  then show ?case by (cases n) auto
qed simp

definition tbeats :: "nat list \<Rightarrow> nat list \<Rightarrow> nat list \<Rightarrow> bool" where
  "tbeats w xs ys \<longleftrightarrow> weight w xs < weight w ys \<or> weight w xs = weight w ys \<and> hd ys < hd xs"

definition sizes_ok :: "nat list \<Rightarrow> nat list set \<Rightarrow> nat list \<Rightarrow> bool" where
  "sizes_ok w F cs \<longleftrightarrow> length cs = 257
     \<and> (\<forall>xs \<in> F. (\<Sum>i \<in> set xs. (1 / 2 :: real) ^ (cs ! i)) = 1)
     \<and> (\<forall>xs \<in> F. \<forall>i \<in> set xs. fibn (cs ! i + 2) \<le> weight w xs \<and> (\<forall>ys \<in> F - {xs}. fibn (cs ! i + 1) \<le> weight w ys))"

text \<open>The tree of the pseudo-symbol \<open>n - 1\<close>: no leaf is deeper, trees that will be merged before it are less
  deep, and two others together never come before it.\<close>

definition pseudo_ok :: "nat list \<Rightarrow> nat \<Rightarrow> nat list set \<Rightarrow> nat list \<Rightarrow> bool" where
  "pseudo_ok w n F cs \<longleftrightarrow> (\<forall>i < n. cs ! i \<le> cs ! (n - 1)) \<and> (\<forall>tp \<in> F. n - 1 \<in> set tp \<longrightarrow>
      (\<forall>t \<in> F - {tp}. tbeats w t tp \<longrightarrow> (\<forall>i \<in> set t. cs ! i < cs ! (n - 1)))
    \<and> (\<forall>d \<in> F - {tp}. \<forall>e \<in> F - {tp}. d \<noteq> e \<longrightarrow> weight w tp < weight w d + weight w e
          \<or> weight w tp = weight w d + weight w e \<and> hd d < hd tp \<and> hd e < hd tp))"

definition merge_pair :: "nat list \<Rightarrow> nat list set \<Rightarrow> nat list \<Rightarrow> nat list \<Rightarrow> bool" where
  "merge_pair w F xs ys \<longleftrightarrow> xs \<in> F \<and> ys \<in> F \<and> xs \<noteq> ys \<and> tbeats w xs ys \<and> (\<forall>zs \<in> F - {xs, ys}. tbeats w ys zs)"

lemma tbeats_le: "tbeats w xs ys \<Longrightarrow> weight w xs \<le> weight w ys"
  by (auto simp: tbeats_def)

text \<open>The situation of one merge.\<close>

definition merging :: "nat list \<Rightarrow> nat \<Rightarrow> nat list set \<Rightarrow> nat list \<Rightarrow> nat list \<Rightarrow> nat list \<Rightarrow> nat list \<Rightarrow> bool" where
  "merging w n F cs xs ys cs' \<longleftrightarrow> forest n F \<and> merge_pair w F xs ys \<and> n \<le> 257 \<and> sizes_ok w F cs \<and> cs' = bump ys (bump xs cs)"

definition merged :: "nat list set \<Rightarrow> nat list \<Rightarrow> nat list \<Rightarrow> nat list set" where
  "merged F xs ys = insert (xs @ ys) (F - {xs, ys})"

lemma merging_mem:
  assumes "merging w n F cs xs ys cs'"
  shows "xs \<in> F" "ys \<in> F" "xs \<noteq> ys" "tbeats w xs ys" "set xs \<inter> set ys = {}"
  using assms by (auto simp: merging_def merge_pair_def forest_def)

lemma merging_other: "merging w n F cs xs ys cs' \<Longrightarrow> zs \<in> F - {xs, ys} \<Longrightarrow> set zs \<inter> (set xs \<union> set ys) = {}"
  by (auto simp: merging_def merge_pair_def forest_def)

lemma merging_range: "merging w n F cs xs ys cs' \<Longrightarrow> zs \<in> F \<Longrightarrow> i \<in> set zs \<Longrightarrow> i < n"
  using forest_sub [of n F zs] by (auto simp: merging_def)

lemma merging_nth:
  assumes "merging w n F cs xs ys cs'" "i < n"
  shows "cs' ! i = cs ! i + (if i \<in> set xs \<union> set ys then 1 else 0)"
proof -
  have "i < length cs" using assms by (simp add: merging_def sizes_ok_def)
  moreover have "distinct xs" "distinct ys" using assms(1) by (auto simp: merging_def merge_pair_def forest_def)
  moreover have "cs' = bump ys (bump xs cs)" using assms(1) by (simp add: merging_def)
  ultimately show ?thesis using merging_mem(5) [OF assms(1)] by (auto simp: bump_nth)
qed

lemma merging_nth_pair:
  "merging w n F cs xs ys cs' \<Longrightarrow> i \<in> set xs \<Longrightarrow> cs' ! i = Suc (cs ! i)"
  "merging w n F cs xs ys cs' \<Longrightarrow> i \<in> set ys \<Longrightarrow> cs' ! i = Suc (cs ! i)"
  using merging_nth [of w n F cs xs ys cs' i] merging_range [of w n F cs xs ys cs' _ i] merging_mem [of w n F cs xs ys cs']
  by simp_all

lemma merging_nth_other:
  assumes "merging w n F cs xs ys cs'" "zs \<in> F - {xs, ys}" "i \<in> set zs"
  shows "cs' ! i = cs ! i"
proof -
  have "i < n" using merging_range [OF assms(1) _ assms(3)] assms(2) by simp
  moreover have "i \<notin> set xs \<union> set ys" using merging_other [OF assms(1,2)] assms(3) by auto
  ultimately show ?thesis using merging_nth [OF assms(1), of i] by simp
qed

lemma merging_weights:
  assumes "merging w n F cs xs ys cs'"
  shows "weight w xs \<le> weight w ys" "zs \<in> F - {xs, ys} \<Longrightarrow> weight w ys \<le> weight w zs"
  using assms by (auto simp: merging_def merge_pair_def intro: tbeats_le)

lemma merging_fib:
  assumes "merging w n F cs xs ys cs'" "zs \<in> F" "i \<in> set zs"
  shows "fibn (cs ! i + 2) \<le> weight w zs" "us \<in> F \<Longrightarrow> us \<noteq> zs \<Longrightarrow> fibn (cs ! i + 1) \<le> weight w us"
  using assms by (auto simp: merging_def sizes_ok_def)

lemma merging_pos:
  assumes "merging w n F cs xs ys cs'" "zs \<in> F"
  shows "0 < weight w zs"
proof -
  have "hd zs \<in> set zs" using assms forest_hd by (auto simp: merging_def)
  from merging_fib(1) [OF assms this] fibn_pos [of "cs ! hd zs + 1"] show ?thesis by (simp del: fibn.simps)
qed

lemma kraft_merge:
  assumes C: "merging w n F cs xs ys cs'" and z: "zs \<in> merged F xs ys"
  shows "(\<Sum>i \<in> set zs. (1 / 2 :: real) ^ (cs' ! i)) = 1"
proof (cases "zs = xs @ ys")
  case True
  have half: "(\<Sum>i \<in> set ts. (1 / 2 :: real) ^ (cs' ! i)) = 1 / 2" if t: "ts = xs \<or> ts = ys" for ts
  proof -
    have "(\<Sum>i \<in> set ts. (1 / 2 :: real) ^ (cs' ! i)) = (\<Sum>i \<in> set ts. (1 / 2) * (1 / 2 :: real) ^ (cs ! i))"
      using merging_nth_pair [OF C] t by (intro sum.cong) auto
    also have "\<dots> = 1 / 2 * (\<Sum>i \<in> set ts. (1 / 2 :: real) ^ (cs ! i))" by (rule sum_distrib_left [symmetric])
    also have "\<dots> = 1 / 2" using C t merging_mem(1,2) [OF C] by (auto simp: merging_def sizes_ok_def)
    finally show ?thesis .
  qed
  have "(\<Sum>i \<in> set zs. (1 / 2 :: real) ^ (cs' ! i)) = (\<Sum>i \<in> set xs. (1 / 2 :: real) ^ (cs' ! i)) + (\<Sum>i \<in> set ys. (1 / 2 :: real) ^ (cs' ! i))"
    unfolding True set_append by (rule sum.union_disjoint) (use merging_mem(5) [OF C] in auto)
  then show ?thesis using half [of xs] half [of ys] by simp
next
  case False
  then have zF: "zs \<in> F - {xs, ys}" using z by (auto simp: merged_def)
  have "(\<Sum>i \<in> set zs. (1 / 2 :: real) ^ (cs' ! i)) = (\<Sum>i \<in> set zs. (1 / 2 :: real) ^ (cs ! i))"
    using merging_nth_other [OF C zF] by (intro sum.cong) auto
  then show ?thesis using C zF by (auto simp: merging_def sizes_ok_def)
qed

lemma fib_merge:
  assumes C: "merging w n F cs xs ys cs'" and z: "zs \<in> merged F xs ys" and i: "i \<in> set zs"
  shows "fibn (cs' ! i + 2) \<le> weight w zs \<and> (\<forall>us \<in> merged F xs ys - {zs}. fibn (cs' ! i + 1) \<le> weight w us)"
proof (cases "zs = xs @ ys")
  case True
  note mem = merging_mem [OF C] and wt = merging_weights [OF C]
  from True i consider "i \<in> set xs" | "i \<in> set ys" by auto
  then show ?thesis
  proof cases
    case 1
    have "fibn (cs ! i + 2) \<le> weight w xs" "fibn (cs ! i + 1) \<le> weight w ys"
      using merging_fib [OF C mem(1) 1] mem(2,3) by auto
    moreover have "weight w xs \<le> weight w us" if "us \<in> F - {xs, ys}" for us
      using wt(1) wt(2) [OF that] by simp
    ultimately show ?thesis using True merging_nth_pair(1) [OF C 1] by (auto simp: merged_def intro: order_trans)
  next
    case 2
    have "fibn (cs ! i + 2) \<le> weight w ys" "fibn (cs ! i + 1) \<le> weight w xs"
      using merging_fib [OF C mem(2) 2] mem(1,3) by auto
    then show ?thesis using True merging_nth_pair(2) [OF C 2] wt(2) by (auto simp: merged_def intro: order_trans)
  qed
next
  case False
  then have zF: "zs \<in> F - {xs, ys}" using z by (auto simp: merged_def)
  then have zF': "zs \<in> F" "xs \<noteq> zs" by auto
  have "fibn (cs ! i + 1) \<le> weight w (xs @ ys)"
    using merging_fib(2) [OF C zF'(1) i merging_mem(1) [OF C] zF'(2)] by (simp del: fibn.simps)
  then show ?thesis
    using merging_fib [OF C zF'(1) i] unfolding merging_nth_other [OF C zF i] merged_def by blast
qed

lemma sizes_merge:
  assumes C: "merging w n F cs xs ys cs'"
  shows "sizes_ok w (merged F xs ys) cs'"
proof -
  have "length cs' = 257" using C by (simp add: merging_def sizes_ok_def)
  then show ?thesis unfolding sizes_ok_def using kraft_merge [OF C] fib_merge [OF C] by blast
qed

lemma tbeats_trans: "tbeats w xs ys \<Longrightarrow> tbeats w ys zs \<Longrightarrow> tbeats w xs zs"
  by (auto simp: tbeats_def)

lemma pseudo_merge:
  assumes C: "merging w n F cs xs ys cs'" and p: "pseudo_ok w n F cs" and n: "0 < n"
  shows "pseudo_ok w n (merged F xs ys) cs'"
proof -
  note mem = merging_mem [OF C] and wt = merging_weights [OF C]
  have f: "forest n F" using C by (simp add: merging_def)
  have b: "tbeats w ys zs" if "zs \<in> F - {xs, ys}" for zs using C that by (auto simp: merging_def merge_pair_def)
  have hdxy: "hd (xs @ ys) = hd xs" using f mem(1) by (auto simp: forest_def)
  have pm: "n - 1 < n" using n by simp
  have max: "\<And>i. i < n \<Longrightarrow> cs ! i \<le> cs ! (n - 1)" using p by (simp add: pseudo_ok_def)
  obtain tp where tp: "tp \<in> F" "n - 1 \<in> set tp" using f pm unfolding forest_def by blast
  have uniq: "t = tp" if "t \<in> F" "n - 1 \<in> set t" for t using f tp that by (auto simp: forest_def)
  have I2: "\<And>t i. t \<in> F \<Longrightarrow> t \<noteq> tp \<Longrightarrow> tbeats w t tp \<Longrightarrow> i \<in> set t \<Longrightarrow> cs ! i < cs ! (n - 1)"
    and I3: "\<And>d e. d \<in> F \<Longrightarrow> d \<noteq> tp \<Longrightarrow> e \<in> F \<Longrightarrow> e \<noteq> tp \<Longrightarrow> d \<noteq> e \<Longrightarrow> weight w tp < weight w d + weight w e
          \<or> weight w tp = weight w d + weight w e \<and> hd d < hd tp \<and> hd e < hd tp"
    using p tp unfolding pseudo_ok_def by (blast, fastforce)
  show ?thesis
  proof (cases "tp = xs \<or> tp = ys")
    case True
    then have pin: "n - 1 \<in> set xs \<union> set ys" using tp by auto
    then have cP: "cs' ! (n - 1) = Suc (cs ! (n - 1))" using merging_nth [OF C pm] by simp
    have tp': "t = xs @ ys" if "t \<in> merged F xs ys" "n - 1 \<in> set t" for t
      using that True uniq [of t] by (auto simp: merged_def)
    have i1: "cs' ! i \<le> cs' ! (n - 1)" if "i < n" for i using merging_nth [OF C that] max [OF that] cP by simp
    have i2: "cs' ! i < cs' ! (n - 1)" if "t \<in> F - {xs, ys}" "i \<in> set t" for t i
      using merging_nth_other [OF C that] max [of i] merging_range [OF C _ that(2)] that(1) cP by auto
    have i3: "weight w (xs @ ys) < weight w d + weight w e
          \<or> weight w (xs @ ys) = weight w d + weight w e \<and> hd d < hd (xs @ ys) \<and> hd e < hd (xs @ ys)"
      if d: "d \<in> F - {xs, ys}" and e: "e \<in> F - {xs, ys}" and ne: "d \<noteq> e" for d e
    proof (cases "weight w (xs @ ys) < weight w d + weight w e")
      case False
      have eq: "weight w xs = weight w ys" "weight w d = weight w ys" "weight w e = weight w ys"
        using wt(1) wt(2) [OF d] wt(2) [OF e] False by auto
      have "hd ys < hd xs" "hd d < hd ys" "hd e < hd ys"
        using mem(4) b [OF d] b [OF e] eq by (auto simp: tbeats_def)
      then show ?thesis using eq hdxy by simp
    qed simp
    have rest: "u \<in> F - {xs, ys}" if "u \<in> merged F xs ys - {xs @ ys}" for u using that by (auto simp: merged_def)
    show ?thesis
      unfolding pseudo_ok_def
    proof (intro conjI ballI impI allI)
      fix i
      assume "i < n"
      then show "cs' ! i \<le> cs' ! (n - 1)" by (rule i1)
    next
      fix t u i
      assume a: "t \<in> merged F xs ys" "n - 1 \<in> set t" "u \<in> merged F xs ys - {t}" "tbeats w u t" "i \<in> set u"
      then have "u \<in> merged F xs ys - {xs @ ys}" using tp' [OF a(1,2)] by simp
      then show "cs' ! i < cs' ! (n - 1)" using i2 [OF rest] a(5) by blast
    next
      fix t d e
      assume a: "t \<in> merged F xs ys" "n - 1 \<in> set t" "d \<in> merged F xs ys - {t}" "e \<in> merged F xs ys - {t}" "d \<noteq> e"
      have t: "t = xs @ ys" using tp' [OF a(1,2)] .
      show "weight w t < weight w d + weight w e \<or> weight w t = weight w d + weight w e \<and> hd d < hd t \<and> hd e < hd t"
        using i3 [OF rest rest a(5)] a(3,4) unfolding t by blast
    qed
  next
    case False
    then have tpo: "tp \<in> F - {xs, ys}" using tp by auto
    have bx: "tbeats w xs tp" "tbeats w ys tp" using tbeats_trans [OF mem(4)] b [OF tpo] by auto
    have cP: "cs' ! (n - 1) = cs ! (n - 1)" using merging_nth_other [OF C tpo tp(2)] .
    have tp': "t = tp" if "t \<in> merged F xs ys" "n - 1 \<in> set t" for t
      using that False uniq [of t] uniq [OF mem(1)] uniq [OF mem(2)] by (auto simp: merged_def)
    have xy: "cs ! i < cs ! (n - 1)" if "i \<in> set xs \<union> set ys" for i
      using that I2 [OF mem(1) _ bx(1)] I2 [OF mem(2) _ bx(2)] False by auto
    have i1: "cs' ! i \<le> cs' ! (n - 1)" if "i < n" for i
      using merging_nth [OF C that] max [OF that] xy [of i] cP by auto
    have new: "weight w tp \<le> weight w (xs @ ys)" "weight w tp = weight w (xs @ ys) \<Longrightarrow> hd xs < hd tp"
      using I3 [OF mem(1) _ mem(2) _ mem(3)] False by auto
    have i2: "cs' ! i < cs' ! (n - 1)" if t: "t \<in> merged F xs ys - {tp}" "tbeats w t tp" "i \<in> set t" for t i
    proof (cases "t = xs @ ys")
      case True
      then show ?thesis using t(2) new hdxy by (auto simp: tbeats_def)
    next
      case no: False
      then have t': "t \<in> F - {xs, ys}" "t \<noteq> tp" using t by (auto simp: merged_def)
      then show ?thesis using I2 [of t i] t(2,3) merging_nth_other [OF C t'(1) t(3)] cP by auto
    qed
    have pos: "0 < weight w zs" if "zs \<in> F" for zs using merging_pos [OF C that] .
    have i3: "weight w tp < weight w d + weight w e
          \<or> weight w tp = weight w d + weight w e \<and> hd d < hd tp \<and> hd e < hd tp"
      if d: "d \<in> merged F xs ys - {tp}" and e: "e \<in> merged F xs ys - {tp}" and ne: "d \<noteq> e" for d e
    proof (cases "d = xs @ ys \<or> e = xs @ ys")
      case True
      then have "0 < weight w d + weight w e - weight w (xs @ ys)"
        using d e ne pos by (auto simp: merged_def)
      then show ?thesis using new(1) by simp
    next
      case no: False
      then have "d \<in> F" "e \<in> F" "d \<noteq> tp" "e \<noteq> tp" using d e by (auto simp: merged_def)
      then show ?thesis using I3 ne by blast
    qed
    show ?thesis
      unfolding pseudo_ok_def
    proof (intro conjI ballI impI allI)
      fix i
      assume "i < n"
      then show "cs' ! i \<le> cs' ! (n - 1)" by (rule i1)
    next
      fix t u i
      assume a: "t \<in> merged F xs ys" "n - 1 \<in> set t" "u \<in> merged F xs ys - {t}" "tbeats w u t" "i \<in> set u"
      then show "cs' ! i < cs' ! (n - 1)" using i2 tp' [OF a(1,2)] by auto
    next
      fix t d e
      assume a: "t \<in> merged F xs ys" "n - 1 \<in> set t" "d \<in> merged F xs ys - {t}" "e \<in> merged F xs ys - {t}" "d \<noteq> e"
      then show "weight w t < weight w d + weight w e \<or> weight w t = weight w d + weight w e \<and> hd d < hd t \<and> hd e < hd t"
        using i3 tp' [OF a(1,2)] by auto
    qed
  qed
qed

section \<open>The procedure\<close>

lemma smallest_pair:
  assumes f: "forest n F" and a: "arrays_ok w n F freq oth" and tot: "(\<Sum>i < n. w ! i) \<le> 1000000000"
    and ne: "\<nexists>xs. F = {xs}"
  obtains xs ys where "find_smallest freq n = (int (hd xs), int (hd ys))" "merge_pair w F xs ys"
proof -
  have act: "active freq n = hd ` F" using arrays_active [OF f a tot] .
  obtain x0 where x0: "x0 \<in> F" using f by (auto simp: forest_def)
  then obtain y0 where y0: "y0 \<in> F" "y0 \<noteq> x0" using ne by auto
  have hne: "hd y0 \<noteq> hd x0" using forest_hd_inj [OF f y0(1) x0] y0(2) by auto
  have "\<nexists>b. active freq n = {b}" "active freq n \<noteq> {}"
    unfolding act using x0 y0 hne by (auto, metis imageI singletonD)
  then obtain p q where pq: "p \<in> hd ` F" "q \<in> hd ` F" "p \<noteq> q" "find_smallest freq n = (int p, int q)"
    "beats freq p q" "\<forall>c \<in> hd ` F - {p, q}. beats freq q c"
    using find_smallest_result [of freq n] unfolding smallest_inv_def act by (cases "find_smallest freq n") auto
  then obtain xs ys where xy: "xs \<in> F" "ys \<in> F" "p = hd xs" "q = hd ys" by auto
  have wt: "freq ! hd zs = weight w zs" if "zs \<in> F" for zs using a that by (simp add: arrays_ok_def)
  have "tbeats w xs ys" using pq(5) xy wt by (simp add: beats_def tbeats_def)
  moreover have "tbeats w ys zs" if z: "zs \<in> F - {xs, ys}" for zs
  proof -
    have "hd zs \<noteq> p" "hd zs \<noteq> q" using z xy forest_hd_inj [OF f] by auto
    then have "beats freq q (hd zs)" using pq(6) z by auto
    then show ?thesis using z xy wt by (simp add: beats_def tbeats_def)
  qed
  ultimately have "merge_pair w F xs ys" using xy pq(3) by (auto simp: merge_pair_def)
  with that pq(4) xy show thesis by blast
qed

lemma smallest_single:
  assumes f: "forest n {xs}" and a: "arrays_ok w n {xs} freq oth" and tot: "(\<Sum>i < n. w ! i) \<le> 1000000000"
  shows "snd (find_smallest freq n) = -1"
  using find_smallest_result [of freq n] arrays_active [OF f a tot]
  by (auto simp: smallest_inv_def)

lemma huff_merge_run:
  assumes "forest n F" "arrays_ok w n F freq oth" "sizes_ok w F cs" "pseudo_ok w n F cs"
    and "0 < n" "n \<le> 257" "(\<Sum>i < n. w ! i) \<le> 1000000000" "card F \<le> fuel"
  shows "\<exists>cs' oth' xs. huff_merge fuel n freq cs oth = Some (cs', oth') \<and> forest n {xs} \<and> sizes_ok w {xs} cs'
    \<and> pseudo_ok w n {xs} cs'"
  using assms(1-4,8)
proof (induction fuel arbitrary: F freq oth cs)
  case 0
  then show ?case by (auto simp: forest_def)
next
  case (Suc fuel)
  show ?case
  proof (cases "\<exists>xs. F = {xs}")
    case True
    then obtain xs where F: "F = {xs}" by blast
    have "snd (find_smallest freq n) = -1" using smallest_single Suc.prems(1,2) assms(7) unfolding F by blast
    then have "huff_merge (Suc fuel) n freq cs oth = Some (cs, oth)" by (cases "find_smallest freq n") simp
    then show ?thesis using Suc.prems F by blast
  next
    case False
    obtain xs ys where xy: "find_smallest freq n = (int (hd xs), int (hd ys))" "merge_pair w F xs ys"
      using smallest_pair [OF Suc.prems(1,2) assms(7) False] .
    define cs' where "cs' = bump ys (bump xs cs)"
    have C: "merging w n F cs xs ys cs'"
      using Suc.prems xy(2) assms(6) by (simp add: merging_def cs'_def)
    note mem = merging_mem [OF C]
    have len: "length xs \<le> 257" "length ys \<le> 257"
      using forest_length [OF Suc.prems(1) mem(1)] forest_length [OF Suc.prems(1) mem(2)] assms(6) by simp_all
    have ch: "chain oth xs" "chain oth ys" using Suc.prems(2) mem by (simp_all add: arrays_ok_def)
    have "last xs \<in> set xs" using chain_nonempty [OF ch(1)] by simp
    then have "chain (oth[last xs := int (hd ys)]) ys" using mem(5) ch(2) by (intro chain_update_other) auto
    then have br: "branch 257 oth (hd xs) cs = Some (last xs, bump xs cs)"
      "branch 257 (oth[last xs := int (hd ys)]) (hd ys) (bump xs cs) = Some (last ys, cs')"
      using branch_chain [OF ch(1) len(1)] branch_chain [OF _ len(2)] by (simp_all add: cs'_def)
    let ?freq = "freq[hd xs := freq ! hd xs + freq ! hd ys, hd ys := FREQ_DONE]"
    let ?oth = "oth[last xs := int (hd ys)]"
    have step: "huff_merge (Suc fuel) n freq cs oth = huff_merge fuel n ?freq cs' ?oth"
      using br by (simp add: xy(1) Let_def)
    have fin: "finite F" using Suc.prems(1) by (simp add: forest_def)
    have "card (merged F xs ys) = Suc (card (F - {xs, ys}))"
      using merged_new [OF Suc.prems(1) mem(1-3)] fin by (simp add: merged_def)
    also have "card (F - {xs, ys}) = card F - 2"
      using fin mem(1-3) by (subst card_Diff_subset) auto
    finally have "card (merged F xs ys) \<le> fuel"
      using Suc.prems(5) card_mono [OF fin, of "{xs, ys}"] mem(1-3) by simp
    moreover have "forest n (merged F xs ys)" "arrays_ok w n (merged F xs ys) ?freq ?oth"
      using forest_merge [OF Suc.prems(1) mem(1-3)] arrays_merge [OF Suc.prems(1,2) mem(1-3) assms(6)]
      by (simp_all add: merged_def)
    ultimately show ?thesis
      unfolding step using Suc.IH sizes_merge [OF C] pseudo_merge [OF C Suc.prems(4) assms(5)] by blast
  qed
qed

text \<open>The code sizes of the procedure: it terminates, the sizes are those of a complete code, they grow
  at most as fast as the Fibonacci numbers allow, and the pseudo-symbol has the longest code.\<close>

lemma huff_merge_result:
  assumes "length w = 257" "0 < n" "n \<le> 257" "\<And>i. i < n \<Longrightarrow> 0 < w ! i" "w ! (n - 1) = 1" "(\<Sum>i < n. w ! i) \<le> 1000000000"
  obtains cs oth where "huff_merge 257 n w (replicate 257 0) (replicate 257 (-1)) = Some (cs, oth)" "length cs = 257"
    "(\<Sum>i < n. (1 / 2 :: real) ^ (cs ! i)) = 1" "\<And>i. i < n \<Longrightarrow> fibn (cs ! i + 2) \<le> (\<Sum>i < n. w ! i)"
    "\<And>i. i < n \<Longrightarrow> cs ! i \<le> cs ! (n - 1)"
proof -
  let ?F = "(\<lambda>i. [i]) ` {..<n}"
  have f: "forest n ?F" using assms(2) by (auto simp: forest_def)
  moreover have "arrays_ok w n ?F w (replicate 257 (-1))"
    using assms(1,3) by (auto simp: arrays_ok_def weight_def image_image)
  moreover have "sizes_ok w ?F (replicate 257 0)"
  proof -
    have z: "replicate 257 0 ! i = (0 :: nat)" if "i < n" for i using that assms(3) by simp
    have "fibn (0 + 2) = 1" by (simp add: numeral_2_eq_2)
    moreover have "1 \<le> w ! i" if "i < n" for i using assms(4) [OF that] by simp
    ultimately show ?thesis
      unfolding sizes_ok_def using z by (auto simp: weight_def simp del: nth_replicate)
  qed
  moreover have "pseudo_ok w n ?F (replicate 257 0)"
  proof -
    have nb: "i = n - Suc 0" if "tbeats w [i] [n - Suc 0]" "i < n" for i
      using assms(4) [OF that(2)] that assms(5) by (auto simp: tbeats_def weight_def)
    have pr: "w ! (n - 1) < w ! i + w ! j" if "i < n" "j < n" for i j
      using assms(4) [OF that(1)] assms(4) [OF that(2)] assms(5) by simp
    show ?thesis
      unfolding pseudo_ok_def
    proof (intro conjI ballI impI allI)
      fix t u i
      assume "t \<in> ?F" "n - 1 \<in> set t" "u \<in> ?F - {t}" "tbeats w u t" "i \<in> set u"
      then show "replicate 257 0 ! i < replicate 257 0 ! (n - 1)" by (auto dest: nb)
    next
      fix t d e
      assume "t \<in> ?F" "n - 1 \<in> set t" "d \<in> ?F - {t}" "e \<in> ?F - {t}"
      then show "weight w t < weight w d + weight w e \<or> weight w t = weight w d + weight w e \<and> hd d < hd t \<and> hd e < hd t"
        using pr by (auto simp: weight_def)
    qed (use assms(3) in simp)
  qed
  moreover have "card ?F \<le> 257" using assms(3) card_image_le [of "{..<n}" "\<lambda>i. [i]"] by simp
  ultimately obtain cs oth xs where r: "huff_merge 257 n w (replicate 257 0) (replicate 257 (-1)) = Some (cs, oth)"
    "forest n {xs}" "sizes_ok w {xs} cs" "pseudo_ok w n {xs} cs"
    using huff_merge_run [of n ?F w w "replicate 257 (-1)" "replicate 257 0" 257] assms(2,3,6) by blast
  have set: "set xs = {..<n}" using r(2) by (simp add: forest_def)
  have "(\<Sum>i < n. (1 / 2 :: real) ^ (cs ! i)) = 1" using r(3) by (simp add: sizes_ok_def set)
  moreover have "fibn (cs ! i + 2) \<le> (\<Sum>i < n. w ! i)" if "i < n" for i
    using r(3) that forest_weight [OF r(2), of xs w] unfolding sizes_ok_def by (auto simp: set intro: order_trans)
  moreover have "cs ! i \<le> cs ! (n - 1)" if "i < n" for i using r(4) that by (simp add: pseudo_ok_def)
  moreover have "length cs = 257" using r(3) by (simp add: sizes_ok_def)
  ultimately show thesis using that r(1) by blast
qed

end
