(* ===== verification/Huff_Limit.thy ===== *)
theory Huff_Limit
  imports Huff_Forest
begin

text \<open>
  The second half of \<open>gen_optimal_table\<close>: counts per length, the limiting of the lengths to sixteen bits
  and the symbol list, and what a generated table promises the derivation of its codes.
\<close>

section \<open>Counts\<close>

lemma kraft_sum: "kraft b l = (\<Sum>k \<in> {1..l}. b k * 2 ^ (l - k))"
proof (induction l)
  case (Suc l)
  have "2 * (\<Sum>k \<in> {1..l}. b k * 2 ^ (l - k)) = (\<Sum>k \<in> {1..l}. b k * 2 ^ (Suc l - k))"
    unfolding sum_distrib_left by (rule sum.cong) (auto simp: Suc_diff_le)
  then show ?case using Suc by simp
qed simp

lemma kraft_cong: "(\<And>k. 0 < k \<Longrightarrow> k \<le> l \<Longrightarrow> b k = c k) \<Longrightarrow> kraft b l = kraft c l"
  unfolding kraft_sum by (rule sum.cong) auto

lemma kraft_add: "0 < l \<Longrightarrow> l \<le> m \<Longrightarrow> kraft (b(l := b l + d)) m = kraft b m + d * 2 ^ (m - l)"
proof (induction m)
  case (Suc m)
  have low: "kraft (b(Suc m := v)) m = kraft b m" for v
    by (rule kraft_cong) simp
  show ?case
  proof (cases "l = Suc m")
    case True
    then show ?thesis using low by (simp add: fun_upd_def)
  next
    case False
    then show ?thesis using Suc by (simp add: Suc_diff_le algebra_simps)
  qed
qed simp

lemma cnt_add: "0 < l \<Longrightarrow> l \<le> m \<Longrightarrow> cnt (b(l := b l + d)) m = cnt b m + d"
proof -
  assume l: "0 < l" "l \<le> m"
  then have i: "l \<in> {1..m}" by simp
  have "(\<Sum>k \<in> {1..m}. (b(l := b l + d)) k) = (b l + d) + (\<Sum>k \<in> {1..m} - {l}. b k)"
    by (subst sum.remove [OF _ i]) auto
  moreover have "(\<Sum>k \<in> {1..m}. b k) = b l + (\<Sum>k \<in> {1..m} - {l}. b k)"
    by (subst sum.remove [OF _ i]) auto
  ultimately show ?thesis by (simp add: cnt_def)
qed

lemma kraft_zeros: "l \<le> l' \<Longrightarrow> (\<And>k. l < k \<Longrightarrow> k \<le> l' \<Longrightarrow> b k = 0) \<Longrightarrow> kraft b l' = kraft b l * 2 ^ (l' - l) \<and> cnt b l' = cnt b l"
  by (induction l' rule: dec_induct) (auto simp: Suc_diff_le)

lemma member_cnt: "0 < k \<Longrightarrow> k \<le> l \<Longrightarrow> b k \<le> cnt b l"
  unfolding cnt_def by (rule member_le_sum) auto

lemma bcount_update: "l < length bts \<Longrightarrow> bcount (bts[l := v]) = (bcount bts)(l := unat v)"
  by (auto simp: bcount_def nth_list_update)

definition size_count :: "nat list \<Rightarrow> nat \<Rightarrow> nat \<Rightarrow> nat" where
  "size_count cs n l = card {i. i < n \<and> cs ! i = l}"

lemma size_count_Suc: "size_count cs (Suc n) l = size_count cs n l + (if cs ! n = l then 1 else 0)"
proof (cases "cs ! n = l")
  case True
  have "{i. i < Suc n \<and> cs ! i = l} = insert n {i. i < n \<and> cs ! i = l}" using True by (auto simp: less_Suc_eq)
  then show ?thesis using True by (simp add: size_count_def)
next
  case False
  have "{i. i < Suc n \<and> cs ! i = l} = {i. i < n \<and> cs ! i = l}" using False by (auto simp: less_Suc_eq)
  then show ?thesis using False by (simp add: size_count_def)
qed

lemma size_count_le: "size_count cs n l \<le> n"
proof -
  have "card {i. i < n \<and> cs ! i = l} \<le> card {..<n}" by (rule card_mono) auto
  then show ?thesis by (simp add: size_count_def)
qed

lemma count_sizes_run:
  assumes "n \<le> 255" "\<And>i. i < n \<Longrightarrow> cs ! i \<le> 32"
  shows "\<exists>bts. count_sizes cs n = Some bts \<and> length bts = 33 \<and> (\<forall>l \<le> 32. bcount bts l = size_count cs n l)"
  unfolding count_sizes_def MAX_C_LEN_def using assms
proof (induction n)
  case 0
  show ?case by (simp add: bcount_def size_count_def)
next
  case (Suc n)
  then obtain bts where h: "fold (\<lambda>i st. case st of None \<Rightarrow> None
             | Some bts \<Rightarrow> if cs ! i > 32 then None else Some (bts[cs ! i := bts ! (cs ! i) + 1]))
       [0 ..< n] (Some (replicate (32 + 1) 0)) = Some bts" "length bts = 33" "\<forall>l \<le> 32. bcount bts l = size_count cs n l"
    by auto
  have c: "cs ! n \<le> 32" using Suc.prems(2) by simp
  have "unat (bts ! (cs ! n)) \<le> 254" using h(3) c size_count_le [of cs n "cs ! n"] Suc.prems(1) by (simp add: bcount_def)
  then have u: "unat (bts ! (cs ! n) + 1) = size_count cs n (cs ! n) + 1"
    using h(3) c by (subst unat_add_no_wrap) (auto simp: bcount_def)
  have "bcount (bts[cs ! n := bts ! (cs ! n) + 1]) l = size_count cs (Suc n) l" if "l \<le> 32" for l
    using that h(2,3) c u by (auto simp: bcount_update size_count_Suc)
  moreover have "fold (\<lambda>i st. case st of None \<Rightarrow> None
             | Some bts \<Rightarrow> if cs ! i > 32 then None else Some (bts[cs ! i := bts ! (cs ! i) + 1]))
       [0 ..< Suc n] (Some (replicate (32 + 1) 0)) = Some (bts[cs ! n := bts ! (cs ! n) + 1])"
    using c unfolding upt_Suc_append [OF le0] fold_append comp_apply h(1) by simp
  ultimately show ?case using h(2) by simp
qed


section \<open>Limiting the lengths\<close>

lemma find_prefix_result:
  assumes "0 < bcount bts k" "k \<le> j"
  shows "\<exists>i. find_prefix bts j = Some i \<and> i \<le> j \<and> k \<le> i \<and> 0 < bcount bts i \<and> (\<forall>l. i < l \<longrightarrow> l \<le> j \<longrightarrow> bcount bts l = 0)"
  using assms
proof (induction j)
  case 0
  then have "bts ! 0 \<noteq> 0" by (auto simp: bcount_def)
  then show ?case using 0 by (auto simp: find_prefix.simps [of bts 0])
next
  case (Suc j)
  show ?case
  proof (cases "bts ! Suc j = 0")
    case True
    then have "k \<noteq> Suc j" using Suc.prems(1) by (auto simp: bcount_def)
    then have "k \<le> j" using Suc.prems(2) by simp
    from Suc.IH [OF Suc.prems(1) this] True show ?thesis
      by (auto simp: find_prefix.simps [of bts "Suc j"] bcount_def le_Suc_eq)
  next
    case False
    then show ?thesis using Suc.prems by (auto simp: find_prefix.simps [of bts "Suc j"] bcount_def unat_gt_0)
  qed
qed

text \<open>A complete code on \<open>n\<close> symbols with lengths up to \<open>m\<close>.\<close>

definition complete :: "(nat \<Rightarrow> nat) \<Rightarrow> nat \<Rightarrow> nat \<Rightarrow> bool" where
  "complete b n m \<longleftrightarrow> kraft b 32 = 2 ^ 32 \<and> cnt b 32 = n \<and> b 0 = 0 \<and> (\<forall>l. m < l \<longrightarrow> l \<le> 32 \<longrightarrow> b l = 0)"

lemma complete_top:
  assumes "complete b n m" "m \<le> 32"
  shows "kraft b m = 2 ^ m \<and> cnt b m = n"
proof -
  have "kraft b 32 = kraft b m * 2 ^ (32 - m) \<and> cnt b 32 = cnt b m"
    by (rule kraft_zeros) (use assms in \<open>auto simp: complete_def\<close>)
  then have "kraft b m * 2 ^ (32 - m) = 2 ^ m * 2 ^ (32 - m)" "cnt b m = n"
    using assms by (simp_all add: complete_def power_add [symmetric])
  then show ?thesis by simp
qed

text \<open>The move of one step: two leaves leave length \<open>i\<close>, one moves up, and a leaf at \<open>j\<close> becomes their parent.\<close>

definition move :: "nat \<Rightarrow> nat \<Rightarrow> (nat \<Rightarrow> nat) \<Rightarrow> nat \<Rightarrow> nat" where
  "move i j b =
     (let b = b(i := b i - 2); b = b(i - 1 := b (i - 1) + 1); b = b(j + 1 := b (j + 1) + 2) in b(j := b j - 1))"

lemma move_sums:
  assumes "2 \<le> b i" "1 \<le> b j" "0 < j" "j + 2 \<le> i" "i \<le> m"
  shows "kraft (move i j b) m = kraft b m" "cnt (move i j b) m = cnt b m"
proof -
  define c where "c = (b(i := b i - 2))(j := b j - 1)"
  have b: "b = (c(i := c i + 2))(j := (c(i := c i + 2)) j + 1)"
    using assms(1,2,4) by (auto simp: c_def fun_eq_iff)
  have ms: "move i j b = (c(i - 1 := c (i - 1) + 1))(j + 1 := (c(i - 1 := c (i - 1) + 1)) (j + 1) + 2)"
    using assms(4) by (auto simp: c_def move_def Let_def fun_eq_iff)
  have "i = Suc (Suc (j + (i - j - 2)))" using assms(4) by simp
  then obtain d where d: "i = Suc (Suc (j + d))" by blast
  obtain e where e: "m = i + e" using assms(5) le_Suc_ex by blast
  have ij: "0 < i" "i \<le> m" "j \<le> m" "0 < i - 1" "i - 1 \<le> m" "0 < j + 1" "j + 1 \<le> m" using assms by simp_all
  have kb: "kraft b m = kraft c m + 2 * 2 ^ (m - i) + 1 * 2 ^ (m - j)"
    using kraft_add [OF assms(3) ij(3), of "c(i := c i + 2)" 1] kraft_add [OF ij(1,2), of c 2]
    unfolding b [symmetric] by simp
  have km: "kraft (move i j b) m = kraft c m + 1 * 2 ^ (m - (i - 1)) + 2 * 2 ^ (m - (j + 1))"
    using kraft_add [OF ij(6,7), of "c(i - 1 := c (i - 1) + 1)" 2] kraft_add [OF ij(4,5), of c 1]
    unfolding ms [symmetric] by simp
  show "kraft (move i j b) m = kraft b m"
    unfolding kb km by (simp add: d e power_add)
  show "cnt (move i j b) m = cnt b m"
    using cnt_add [OF assms(3) ij(3), of "c(i := c i + 2)" 1] cnt_add [OF ij(1,2), of c 2]
      cnt_add [OF ij(6,7), of "c(i - 1 := c (i - 1) + 1)" 2] cnt_add [OF ij(4,5), of c 1]
    unfolding b [symmetric] ms [symmetric] by simp
qed

lemma complete_even:
  assumes "complete b n i" "0 < b i" "17 \<le> i" "i \<le> 32" "n \<le> 255"
  shows "2 \<le> b i" "\<exists>k. 0 < k \<and> k \<le> i - 2 \<and> 0 < b k"
proof -
  have "i = Suc (Suc (i - 2))" using assms(3) by simp
  then obtain j where i: "i = Suc (Suc j)" by blast
  have k: "2 * kraft b (Suc j) + b (Suc (Suc j)) = 2 * (2 * 2 ^ j)" and c: "cnt b (Suc (Suc j)) = n"
    using complete_top [OF assms(1,4)] by (simp_all add: i)
  then have "even (b i)" unfolding i by presburger
  then show "2 \<le> b i" using assms(2) by presburger
  show "\<exists>k. 0 < k \<and> k \<le> i - 2 \<and> 0 < b k"
  proof (rule ccontr)
    assume "\<not> ?thesis"
    then have "kraft b j = 0" using kraft_zero [of j b] by (auto simp: i)
    then have "2 * b (Suc j) + b (Suc (Suc j)) = 2 ^ i" using k by (simp add: i)
    moreover have "b (Suc j) + b (Suc (Suc j)) \<le> 255" using c assms(5) by simp
    moreover have "(2 :: nat) ^ 17 \<le> 2 ^ i" using assms(3) by (intro power_increasing) auto
    ultimately show False by simp
  qed
qed

lemma step_move:
  fixes bts :: "u8 list"
  assumes "length bts = 33" "2 \<le> bcount bts i" "1 \<le> bcount bts j" "j + 2 \<le> i" "i \<le> 32" "cnt (bcount bts) 32 \<le> 255"
    "0 < j"
  defines "b1 \<equiv> bts[i := bts ! i - 2]"
  defines "b2 \<equiv> b1[i - 1 := b1 ! (i - 1) + 1]"
  defines "b3 \<equiv> b2[j + 1 := b2 ! (j + 1) + 2]"
  defines "b4 \<equiv> b3[j := b3 ! j - 1]"
  shows "bcount b4 = move i j (bcount bts)"
proof -
  let ?b = "bcount bts"
  have sum3: "?b i + ?b j + ?b k \<le> 255" if "k \<noteq> i" "k \<noteq> j" "0 < k" "k \<le> 32" for k
  proof -
    have "(\<Sum>l \<in> {i, j, k}. ?b l) \<le> cnt ?b 32"
      unfolding cnt_def by (rule sum_mono2) (use assms that in auto)
    then show ?thesis using that assms(4,6) by simp
  qed
  have u1: "unat (bts ! i - 2) = ?b i - 2"
    using assms(2) by (subst unat_sub_le) (simp_all add: bcount_def)
  have l: "length b1 = 33" "length b2 = 33" "length b3 = 33" by (simp_all add: b1_def b2_def b3_def assms(1))
  have c1: "bcount b1 = ?b(i := ?b i - 2)"
    unfolding b1_def using assms(1,5) u1 by (simp add: bcount_update)
  have n1: "i - 1 \<noteq> i" "i - 1 \<noteq> j" "0 < i - 1" "i - 1 \<le> 32" "j + 1 \<noteq> i" "j + 1 \<noteq> j" using assms(4,5) by simp_all
  have v1: "unat (b1 ! (i - 1)) = ?b (i - 1)" using c1 n1 by (simp add: bcount_def fun_eq_iff)
  have u2: "unat (b1 ! (i - 1) + 1) = ?b (i - 1) + 1"
    using sum3 [OF n1(1-4)] assms(2) v1 by (subst unat_add_no_wrap) simp_all
  have c2: "bcount b2 = (?b(i := ?b i - 2))(i - 1 := ?b (i - 1) + 1)"
    unfolding b2_def using assms(5) u2 c1 l by (simp add: bcount_update)
  have v2: "unat (b2 ! (j + 1)) = ((?b(i := ?b i - 2))(i - 1 := ?b (i - 1) + 1)) (j + 1)"
    unfolding c2 [symmetric] by (simp add: bcount_def)
  have "?b (j + 1) + 3 \<le> 255" using sum3 [of "j + 1"] assms(2-5) n1 by simp
  then have b253: "unat (b2 ! (j + 1)) \<le> 253" unfolding v2 using n1 by auto
  have u3: "unat (b2 ! (j + 1) + 2) = unat (b2 ! (j + 1)) + 2"
    using b253 by (subst unat_add_no_wrap) simp_all
  have c3: "bcount b3 = ((?b(i := ?b i - 2))(i - 1 := ?b (i - 1) + 1))(j + 1 := ((?b(i := ?b i - 2))(i - 1 := ?b (i - 1) + 1)) (j + 1) + 2)"
    unfolding b3_def using assms(4,5) l u3 v2 c2 by (simp add: bcount_update)
  have v3: "unat (b3 ! j) = ?b j"
  proof -
    have "bcount b3 j = ?b j" unfolding c3 using assms(4) by simp
    then show ?thesis by (simp add: bcount_def)
  qed
  have u4: "unat (b3 ! j - 1) = ?b j - 1"
    using assms(3) v3 by (subst unat_sub_le) simp_all
  have "bcount b4 = (bcount b3)(j := ?b j - 1)"
    unfolding b4_def using assms(4,5) l u4 by (simp add: bcount_update)
  then show ?thesis
    unfolding c3 move_def Let_def using assms(4) by (auto simp: fun_eq_iff)
qed

lemma move_complete:
  assumes "complete b n i" "2 \<le> b i" "1 \<le> b j" "0 < j" "j + 2 \<le> i" "i \<le> 32"
  shows "complete (move i j b) n i" "move i j b i = b i - 2"
  using assms move_sums [OF assms(2-5), of 32] by (auto simp: complete_def move_def Let_def)

lemma limit_len_run:
  assumes "complete (bcount bts) n i" "length bts = 33" "17 \<le> i" "i \<le> 32" "n \<le> 255" "bcount bts i < fuel"
  shows "\<exists>bts'. limit_len fuel i bts = Some bts' \<and> length bts' = 33 \<and> complete (bcount bts') n (i - 1)"
  using assms(1,2,6)
proof (induction fuel arbitrary: bts)
  case (Suc fuel)
  show ?case
  proof (cases "bts ! i > 0")
    case False
    then have z: "bcount bts i = 0" by (auto simp: bcount_def word_gt_0)
    have "bcount bts l = 0" if "i - 1 < l" "l \<le> 32" for l
      using that z Suc.prems(1) by (cases "l = i") (auto simp: complete_def)
    then have "complete (bcount bts) n (i - 1)" using Suc.prems(1) by (simp add: complete_def)
    then show ?thesis using False Suc.prems(2) by simp
  next
    case True
    then have pos: "0 < bcount bts i" by (simp add: bcount_def unat_gt_0)
    note ev = complete_even [OF Suc.prems(1) pos assms(3-5)]
    from ev(2) obtain k where k: "0 < k" "k \<le> i - 2" "0 < bcount bts k" by blast
    from find_prefix_result [OF k(3,2)] obtain j where
      j: "find_prefix bts (i - 2) = Some j" "j \<le> i - 2" "k \<le> j" "0 < bcount bts j" by blast
    have jp: "0 < j" "j + 2 \<le> i" "1 \<le> bcount bts j" using j k assms(3) by simp_all
    let ?b1 = "bts[i := bts ! i - 2]"
    let ?b2 = "?b1[i - 1 := ?b1 ! (i - 1) + 1]"
    let ?b3 = "?b2[j + 1 := ?b2 ! (j + 1) + 2]"
    let ?b4 = "?b3[j := ?b3 ! j - 1]"
    have "cnt (bcount bts) 32 \<le> 255" using Suc.prems(1) assms(5) by (simp add: complete_def)
    from step_move [OF Suc.prems(2) ev(1) jp(3,2) assms(4) this jp(1)]
    have mv: "bcount ?b4 = move i j (bcount bts)" .
    note mc = move_complete [OF Suc.prems(1) ev(1) jp(3,1,2) assms(4)]
    have "complete (bcount ?b4) n i" "bcount ?b4 i < fuel"
      unfolding mv using mc Suc.prems(3) ev(1) by simp_all
    moreover have "length ?b4 = 33" using Suc.prems(2) by simp
    ultimately obtain bts' where "limit_len fuel i ?b4 = Some bts'" "length bts' = 33" "complete (bcount bts') n (i - 1)"
      using Suc.IH by blast
    moreover have "limit_len (Suc fuel) i bts = limit_len fuel i ?b4"
      using True j(1) by (simp only: limit_len.simps if_True option.case Let_def)
    ultimately show ?thesis by simp
  qed
qed simp

text \<open>The bound of 257 rounds per length is enough, and sixteen bits are reached.\<close>

lemma limit_lens_run:
  assumes "complete (bcount bts) n 32" "length bts = 33" "n \<le> 255"
  shows "\<exists>bts'. limit_lens bts = Some bts' \<and> length bts' = 33 \<and> complete (bcount bts') n 16"
proof -
  let ?f = "\<lambda>i st. case st of None \<Rightarrow> None | Some bts \<Rightarrow> limit_len 257 i bts"
  have "\<exists>bts'. fold ?f (rev [17 + k ..< 33]) (Some bts) = Some bts' \<and> length bts' = 33 \<and> complete (bcount bts') n (16 + k)"
    if "k \<le> 16" for k using that
  proof (induction k rule: inc_induct)
    case base
    show ?case using assms by simp
  next
    case (step k)
    then obtain bts' where h: "fold ?f (rev [17 + Suc k ..< 33]) (Some bts) = Some bts'" "length bts' = 33"
      "complete (bcount bts') n (16 + Suc k)" by blast
    have k: "17 \<le> 16 + Suc k" "16 + Suc k \<le> 32" using step.hyps by simp_all
    have "bcount bts' (16 + Suc k) < 257" using unat_less_exp [of "bts' ! (16 + Suc k)"] by (simp add: bcount_def)
    from limit_len_run [OF h(3,2) k assms(3) this] obtain b2 where
      b2: "limit_len 257 (16 + Suc k) bts' = Some b2" "length b2 = 33" "complete (bcount b2) n (16 + k)" by auto
    have "[17 + k ..< 33] = (17 + k) # [17 + Suc k ..< 33]" using step.hyps by (simp add: upt_conv_Cons)
    then show ?case using h(1) b2 by simp
  qed
  from this [of 0] show ?thesis by (simp add: limit_lens_def MAX_C_LEN_def)
qed

section \<open>The symbol list\<close>

definition below :: "nat list \<Rightarrow> nat \<Rightarrow> nat \<Rightarrow> nat" where
  "below cs n l = (\<Sum>k < l. size_count cs n k)"

lemma below_Suc: "below cs n (Suc l) = below cs n l + size_count cs n l"
  by (simp add: below_def)

lemma below_mono: "l \<le> l' \<Longrightarrow> below cs n l \<le> below cs n l'"
  by (induction l' rule: dec_induct) (auto simp: below_Suc)

lemma size_count_fold:
  fixes f :: "nat \<Rightarrow> real"
  shows "(\<And>i. i < n \<Longrightarrow> cs ! i < L) \<Longrightarrow> (\<Sum>k < L. real (size_count cs n k) * f k) = (\<Sum>i < n. f (cs ! i))"
proof (induction n)
  case 0
  show ?case by (simp add: size_count_def)
next
  case (Suc n)
  have "(\<Sum>k < L. real (size_count cs (Suc n) k) * f k)
      = (\<Sum>k < L. real (size_count cs n k) * f k + (if k = cs ! n then f k else 0))"
    by (rule sum.cong) (auto simp: size_count_Suc algebra_simps)
  also have "\<dots> = (\<Sum>k < L. real (size_count cs n k) * f k) + f (cs ! n)"
    using Suc.prems by (simp add: sum.distrib)
  finally show ?case using Suc by simp
qed

lemma below_all: "(\<And>i. i < n \<Longrightarrow> cs ! i < L) \<Longrightarrow> below cs n L = n"
proof -
  assume a: "\<And>i. i < n \<Longrightarrow> cs ! i < L"
  from size_count_fold [of n cs L "\<lambda>_. 1", OF a] have "real (\<Sum>k < L. size_count cs n k) = real n" by simp
  then show ?thesis unfolding below_def by linarith
qed

lemma size_count_mono: "i \<le> n \<Longrightarrow> size_count cs i l \<le> size_count cs n l"
  by (induction n rule: dec_induct) (auto simp: size_count_Suc)

lemma size_count_less: "i < n \<Longrightarrow> size_count cs i (cs ! i) < size_count cs n (cs ! i)"
  using size_count_mono [of "Suc i" n cs "cs ! i"] by (simp add: size_count_Suc)

definition target :: "nat list \<Rightarrow> nat \<Rightarrow> nat \<Rightarrow> nat" where
  "target cs n i = below cs n (cs ! i) + size_count cs i (cs ! i)"

lemma target_less: "i < n \<Longrightarrow> target cs n i < below cs n (Suc (cs ! i))"
  using size_count_less [of i n cs] by (simp add: target_def below_Suc)

lemma target_inj: "i < j \<Longrightarrow> j < n \<Longrightarrow> target cs n i \<noteq> target cs n j"
proof (cases "cs ! i = cs ! j")
  case True
  assume "i < j" "j < n"
  then show ?thesis using size_count_less [of i j cs] True by (simp add: target_def)
next
  case False
  assume a: "i < j" "j < n"
  consider "cs ! i < cs ! j" | "cs ! j < cs ! i" using False by linarith
  then show ?thesis
  proof cases
    case 1
    have "target cs n i < below cs n (Suc (cs ! i))" using a by (intro target_less) simp
    also have "\<dots> \<le> below cs n (cs ! j)" using 1 by (intro below_mono) simp
    finally show ?thesis by (simp add: target_def [of cs n j])
  next
    case 2
    have "target cs n j < below cs n (Suc (cs ! j))" using a by (intro target_less) simp
    also have "\<dots> \<le> below cs n (cs ! i)" using 2 by (intro below_mono) simp
    finally show ?thesis by (simp add: target_def [of cs n i])
  qed
qed

lemma target_last:
  assumes "0 < n" "\<And>i. i < n \<Longrightarrow> cs ! i \<le> cs ! (n - 1)"
  shows "target cs n (n - 1) = n - 1"
proof -
  obtain k where n: "n = Suc k" using assms(1) by (cases n) auto
  have "below cs n (Suc (cs ! k)) = n" by (rule below_all) (use assms(2) n in \<open>auto simp: less_Suc_eq_le\<close>)
  then show ?thesis by (simp add: n target_def below_Suc size_count_Suc)
qed

lemma target_bij:
  assumes "0 < n" "\<And>i. i < n \<Longrightarrow> cs ! i \<le> cs ! (n - 1)"
  shows "bij_betw (target cs n) {..<n - 1} {..<n - 1}"
proof -
  have inj: "inj_on (target cs n) {..<n}"
    by (rule inj_onI) (metis lessThan_iff linorder_neqE_nat target_inj)
  have "target cs n i < n - 1" if i: "i < n - 1" for i
  proof -
    have "below cs n (Suc (cs ! i)) \<le> below cs n (Suc (cs ! (n - 1)))" using assms(2) [of i] i by (intro below_mono) simp
    also have "\<dots> = n" by (rule below_all) (use assms(2) in \<open>auto simp: less_Suc_eq_le\<close>)
    finally have le: "below cs n (Suc (cs ! i)) \<le> n" .
    have "i < n" using i by simp
    from less_le_trans [OF target_less [OF this, of cs] le] have "target cs n i < n" .
    moreover have "target cs n i \<noteq> n - 1"
      using target_inj [of i "n - 1" n cs] target_last [OF assms] i assms(1) by simp
    ultimately show ?thesis by simp
  qed
  then have sub: "target cs n ` {..<n - 1} \<subseteq> {..<n - 1}" by auto
  have inj': "inj_on (target cs n) {..<n - 1}" using inj by (rule inj_on_subset) auto
  have "card (target cs n ` {..<n - 1}) = card {..<n - 1}" using card_image [OF inj'] .
  then have "target cs n ` {..<n - 1} = {..<n - 1}" using sub by (intro card_subset_eq) auto
  with inj' show ?thesis by (simp add: bij_betw_def)
qed

lemma bit_positions_nth:
  assumes "\<And>l. l \<le> 32 \<Longrightarrow> bcount bts l = size_count cs n l"
  shows "length (bit_positions bts) = 33 \<and> (\<forall>l \<le> 32. bit_positions bts ! l = below cs n l)"
proof -
  have "length (fst (fold (\<lambda>i (pos, p). (pos[i := p], p + unat (bts ! i))) [0 ..< m] (replicate 33 0, 0))) = 33
    \<and> snd (fold (\<lambda>i (pos, p). (pos[i := p], p + unat (bts ! i))) [0 ..< m] (replicate 33 (0 :: nat), 0)) = below cs n m
    \<and> (\<forall>l < m. fst (fold (\<lambda>i (pos, p). (pos[i := p], p + unat (bts ! i))) [0 ..< m] (replicate 33 0, 0)) ! l = below cs n l)"
    if "m \<le> 33" for m using that
  proof (induction m)
    case 0
    show ?case by (simp add: below_def)
  next
    case (Suc m)
    let ?r = "fold (\<lambda>i (pos, p). (pos[i := p], p + unat (bts ! i))) [0 ..< m] (replicate 33 (0 :: nat), 0)"
    obtain pos p where r: "?r = (pos, p)" by fastforce
    have h: "length pos = 33" "p = below cs n m" "\<forall>l < m. pos ! l = below cs n l" using Suc r by simp_all
    have "unat (bts ! m) = size_count cs n m" using assms [of m] Suc.prems by (simp add: bcount_def)
    then show ?case using r h Suc.prems by (auto simp: below_Suc less_Suc_eq)
  qed
  from this [of 33] show ?thesis by (simp add: bit_positions_def MAX_C_LEN_def less_Suc_eq_le)
qed

lemma place_run:
  fixes nz :: "nat list" and vals :: "u8 list"
  assumes "length pos = 33" "\<And>l. l \<le> 32 \<Longrightarrow> pos ! l = below cs n l" "\<And>i. i < n \<Longrightarrow> cs ! i \<le> 32" "k < n" "n \<le> 257"
    "length vals = 256" "\<And>i. i < k \<Longrightarrow> target cs n i < 256"
  defines "r \<equiv> fold (\<lambda>i (vals, pos). (vals[pos ! (cs ! i) := of_nat (nz ! i)],
                                 pos[cs ! i := pos ! (cs ! i) + 1])) [0 ..< k] (vals, pos)"
  shows "length (fst r) = 256 \<and> length (snd r) = 33 \<and> (\<forall>l \<le> 32. snd r ! l = below cs n l + size_count cs k l)
    \<and> (\<forall>i < k. fst r ! target cs n i = of_nat (nz ! i))"
  unfolding r_def using assms(4,7)
proof (induction k)
  case 0
  show ?case using assms by (simp add: size_count_def)
next
  case (Suc k)
  let ?r = "fold (\<lambda>i (vals, pos). (vals[pos ! (cs ! i) := of_nat (nz ! i)], pos[cs ! i := pos ! (cs ! i) + 1])) [0 ..< k] (vals, pos)"
  obtain v q where r: "?r = (v, q)" by fastforce
  have h: "length v = 256" "length q = 33" "\<forall>l \<le> 32. q ! l = below cs n l + size_count cs k l"
    "\<forall>i < k. v ! target cs n i = of_nat (nz ! i)" using Suc r by simp_all
  have c: "cs ! k \<le> 32" using assms(3) Suc.prems(1) by simp
  have t: "q ! (cs ! k) = target cs n k" using h(3) c by (simp add: target_def)
  have ne: "target cs n i \<noteq> target cs n k" if "i < k" for i using target_inj [OF that] Suc.prems(1) by simp
  have "target cs n k < 256" using Suc.prems(2) by simp
  then show ?case using r h c ne by (auto simp: t size_count_Suc nth_list_update less_Suc_eq)
qed

lemma place_symbols_result:
  assumes "length pos = 33" "\<And>l. l \<le> 32 \<Longrightarrow> pos ! l = below cs n l" "\<And>i. i < n \<Longrightarrow> cs ! i \<le> 32" "0 < n" "n \<le> 257"
    "length vals = 256" "\<And>i. i < n \<Longrightarrow> cs ! i \<le> cs ! (n - 1)" "\<And>i. i < n - 1 \<Longrightarrow> nz ! i < 256"
    "\<And>i j. i < j \<Longrightarrow> j < n - 1 \<Longrightarrow> nz ! i \<noteq> nz ! j"
  defines "v \<equiv> place_symbols cs nz n pos vals"
  shows "length v = 256 \<and> distinct (take (n - 1) v) \<and> set (take (n - 1) v) = (\<lambda>i. of_nat (nz ! i)) ` {..<n - 1}"
proof -
  have bij: "bij_betw (target cs n) {..<n - 1} {..<n - 1}" using target_bij [OF assms(4,7)] .
  have lt: "target cs n i < n - 1" if "i < n - 1" for i using bij that by (auto simp: bij_betw_def)
  have lt': "target cs n i < 256" if "i < n - 1" for i using lt [OF that] assms(5) by simp
  have n1: "n - 1 < n" using assms(4) by simp
  from place_run [OF assms(1-3) n1 assms(5,6) lt', of nz]
  have r: "length v = 256" "\<And>i. i < n - 1 \<Longrightarrow> v ! target cs n i = of_nat (nz ! i)"
    by (simp_all add: v_def place_symbols_def)
  have inv: "\<exists>i < n - 1. p = target cs n i" if "p < n - 1" for p
    using bij that by (auto simp: bij_betw_def image_def)
  have len: "length (take (n - 1) v) = n - 1" using r(1) assms(5) by simp
  have "distinct (take (n - 1) v)"
    unfolding distinct_conv_nth len
  proof (intro allI impI)
    fix p q
    assume a: "p < n - 1" "q < n - 1" "p \<noteq> q"
    obtain i j where ij: "i < n - 1" "p = target cs n i" "j < n - 1" "q = target cs n j" using inv a(1,2) by blast
    then have "i \<noteq> j" using a(3) by auto
    then have "nz ! i \<noteq> nz ! j" using assms(9) [of i j] assms(9) [of j i] ij by (metis linorder_neqE_nat)
    then have "(of_nat (nz ! i) :: u8) \<noteq> of_nat (nz ! j)"
      using assms(8) [OF ij(1)] assms(8) [OF ij(3)] unat_of_nat_small [of "nz ! i", where 'a = 8]
        unat_of_nat_small [of "nz ! j", where 'a = 8] by auto
    then show "take (n - 1) v ! p \<noteq> take (n - 1) v ! q" using r(2) ij a(1,2) by simp
  qed
  moreover have "set (take (n - 1) v) = (\<lambda>i. of_nat (nz ! i)) ` {..<n - 1}"
  proof (intro equalityI subsetI)
    fix x
    assume "x \<in> set (take (n - 1) v)"
    then obtain p where p: "p < n - 1" "x = v ! p" using len by (auto simp: in_set_conv_nth)
    obtain i where "i < n - 1" "p = target cs n i" using inv [OF p(1)] by blast
    then show "x \<in> (\<lambda>i. of_nat (nz ! i)) ` {..<n - 1}" using r(2) p by auto
  next
    fix x :: u8
    assume "x \<in> (\<lambda>i. of_nat (nz ! i)) ` {..<n - 1}"
    then obtain i where i: "i < n - 1" "x = of_nat (nz ! i)" by auto
    then have "take (n - 1) v ! target cs n i = x" using r(2) lt by simp
    then show "x \<in> set (take (n - 1) v)" using lt [OF i(1)] len nth_mem by metis
  qed
  ultimately show ?thesis using r(1) by blast
qed

section \<open>Generated tables\<close>

lemma kraft_from_sizes:
  assumes "(\<Sum>i < n. (1 / 2 :: real) ^ (cs ! i)) = 1" "\<And>i. i < n \<Longrightarrow> cs ! i \<le> 32" "1 < n"
    "\<And>l. l \<le> 32 \<Longrightarrow> b l = size_count cs n l"
  shows "complete b n 32"
proof -
  have lt: "cs ! i < 33" if "i < n" for i using assms(2) [OF that] by simp
  have nz: "cs ! i \<noteq> 0" if i: "i < n" for i
  proof
    assume z: "cs ! i = 0"
    define j where "j = (if i = 0 then 1 else 0 :: nat)"
    have j: "j < n" "j \<noteq> i" using assms(3) by (auto simp: j_def)
    have "(\<Sum>k \<in> {i, j}. (1 / 2 :: real) ^ (cs ! k)) \<le> (\<Sum>k < n. (1 / 2) ^ (cs ! k))"
      by (rule sum_mono2) (use i j in auto)
    moreover have "0 < (1 / 2 :: real) ^ (cs ! j)" by simp
    ultimately show False using assms(1) j(2) z by simp
  qed
  have b0: "b 0 = 0" using nz assms(4) [of 0] by (auto simp: size_count_def)
  have set: "{..<33 :: nat} = insert 0 {1..32}" by auto
  have "(\<Sum>k < 33. real (size_count cs n k) * (1 / 2) ^ k) = 1"
    using size_count_fold [of n cs 33 "\<lambda>k. (1 / 2) ^ k", OF lt] assms(1) by simp
  then have k1: "(\<Sum>k \<in> {1..32}. real (b k) * (1 / 2) ^ k) = 1"
    unfolding set using b0 assms(4) by simp
  have "real (kraft b 32) = (\<Sum>k \<in> {1..32}. real (b k) * 2 ^ (32 - k))"
    unfolding kraft_sum by simp
  also have "\<dots> = (\<Sum>k \<in> {1..32}. 2 ^ 32 * (real (b k) * (1 / 2) ^ k))"
  proof (rule sum.cong [OF refl])
    fix k :: nat
    assume "k \<in> {1..32}"
    then have "(2 :: real) ^ 32 = 2 ^ (32 - k) * 2 ^ k" by (simp add: power_add [symmetric] del: power_numeral)
    then have "(2 :: real) ^ 32 * (1 / 2) ^ k = 2 ^ (32 - k)" by (simp add: power_one_over del: power_numeral)
    then show "real (b k) * 2 ^ (32 - k) = 2 ^ 32 * (real (b k) * (1 / 2) ^ k)" by (metis mult.assoc mult.commute)
  qed
  also have "\<dots> = 2 ^ 32 * (\<Sum>k \<in> {1..32}. real (b k) * (1 / 2) ^ k)" by (rule sum_distrib_left [symmetric])
  also have "\<dots> = 2 ^ 32" unfolding k1 by simp
  finally have "real (kraft b 32) = real (2 ^ 32)" by simp
  then have "kraft b 32 = 2 ^ 32" by (simp only: of_nat_eq_iff)
  moreover have "cnt b 32 = n"
  proof -
    have "below cs n 33 = n" by (rule below_all) (rule lt)
    moreover have "below cs n 33 = cnt b 32" unfolding below_def set cnt_def using b0 assms(4) by simp
    ultimately show ?thesis by simp
  qed
  ultimately show ?thesis using b0 by (simp add: complete_def)
qed

definition symbols :: "nat list \<Rightarrow> nat list" where
  "symbols freq = filter (\<lambda>i. freq ! i > 0) [0 ..< 256]"

lemma fibn_iter:
  "fibn n = a \<Longrightarrow> fibn (Suc n) = b \<Longrightarrow> fibn (n + 5) = 3 * a + 5 * b \<and> fibn (Suc (n + 5)) = 5 * a + 8 * b"
  by (simp add: eval_nat_numeral)

lemma fibn_35: "fibn 35 = 9227465"
proof -
  have f0: "fibn 0 = 0 \<and> fibn (Suc 0) = 1" by simp
  have f5: "fibn 5 = 5 \<and> fibn (Suc 5) = 8"
    using fibn_iter [OF conjunct1 [OF f0] conjunct2 [OF f0]] by (simp del: fibn.simps)
  have f10: "fibn 10 = 55 \<and> fibn (Suc 10) = 89"
    using fibn_iter [OF conjunct1 [OF f5] conjunct2 [OF f5]] by (simp del: fibn.simps)
  have f15: "fibn 15 = 610 \<and> fibn (Suc 15) = 987"
    using fibn_iter [OF conjunct1 [OF f10] conjunct2 [OF f10]] by (simp del: fibn.simps)
  have f20: "fibn 20 = 6765 \<and> fibn (Suc 20) = 10946"
    using fibn_iter [OF conjunct1 [OF f15] conjunct2 [OF f15]] by (simp del: fibn.simps)
  have f25: "fibn 25 = 75025 \<and> fibn (Suc 25) = 121393"
    using fibn_iter [OF conjunct1 [OF f20] conjunct2 [OF f20]] by (simp del: fibn.simps)
  have f30: "fibn 30 = 832040 \<and> fibn (Suc 30) = 1346269"
    using fibn_iter [OF conjunct1 [OF f25] conjunct2 [OF f25]] by (simp del: fibn.simps)
  have f35: "fibn 35 = 9227465 \<and> fibn (Suc 35) = 14930352"
    using fibn_iter [OF conjunct1 [OF f30] conjunct2 [OF f30]] by (simp del: fibn.simps)
  show ?thesis using f35 ..
qed

lemma cnt_cong: "(\<And>k. 0 < k \<Longrightarrow> k \<le> l \<Longrightarrow> b k = c k) \<Longrightarrow> cnt b l = cnt c l"
  unfolding cnt_def by (rule sum.cong) auto

lemma drop_pseudo:
  assumes "complete (bcount bts) n 16" "length bts = 33" "0 < n"
  obtains i where "find_prefix bts 16 = Some i" "i \<le> 16"
    "kraft (bcount (take 17 (bts[i := bts ! i - 1]))) 16 < 2 ^ 16" "cnt (bcount (take 17 (bts[i := bts ! i - 1]))) 16 = n - 1"
proof -
  have top: "kraft (bcount bts) 16 = 2 ^ 16" "cnt (bcount bts) 16 = n" using complete_top [OF assms(1)] by auto
  have "0 < cnt (bcount bts) 16" using top assms(3) by simp
  then obtain l j where l: "l < 16" "j < bcount bts (Suc l)" by (rule cnt_split)
  have "0 < bcount bts (Suc l)" "Suc l \<le> 16" using l by simp_all
  from find_prefix_result [OF this] obtain i where i: "find_prefix bts 16 = Some i" "i \<le> 16" "Suc l \<le> i" "0 < bcount bts i"
    by blast
  let ?c = "(bcount bts)(i := bcount bts i - 1)"
  have "unat (bts ! i - 1) = bcount bts i - 1" using i(4) by (subst unat_sub_le) (simp_all add: bcount_def)
  then have c: "bcount (bts[i := bts ! i - 1]) = ?c" using i(2) assms(2) by (simp add: bcount_update)
  have tk: "bcount (take 17 (bts[i := bts ! i - 1])) k = ?c k" if "k \<le> 16" for k
    using that unfolding c [symmetric] by (simp add: bcount_def)
  have b: "bcount bts = ?c(i := ?c i + 1)" using i(4) by (auto simp: fun_eq_iff)
  have ip: "0 < i" using i(3) by simp
  have "kraft ?c 16 + 1 * 2 ^ (16 - i) = 2 ^ 16" using kraft_add [OF ip i(2), of ?c 1] top(1) unfolding b [symmetric] by simp
  then have k: "kraft ?c 16 < 2 ^ 16" by (metis less_add_same_cancel1 mult_1 pos2 zero_less_power)
  have n: "cnt ?c 16 = n - 1" using cnt_add [OF ip i(2), of ?c 1] top(2) unfolding b [symmetric] by simp
  have "kraft (bcount (take 17 (bts[i := bts ! i - 1]))) 16 = kraft ?c 16" by (rule kraft_cong) (rule tk)
  moreover have "cnt (bcount (take 17 (bts[i := bts ! i - 1]))) 16 = cnt ?c 16" by (rule cnt_cong) (rule tk)
  ultimately show thesis using that [OF i(1,2)] k n by simp
qed

lemma weights_grouped:
  assumes "length freq = 257" "group_nonzero (freq[256 := 1]) = (w, nz, n)"
  shows "n = length (symbols freq) + 1 \<and> length w = 257 \<and> (\<forall>i < n. 0 < w ! i) \<and> w ! (n - 1) = 1
    \<and> (\<forall>i < n - 1. nz ! i = symbols freq ! i) \<and> (\<Sum>i < n. w ! i) = (\<Sum>s < 256. freq ! s) + 1"
proof -
  let ?S = "symbols freq"
  have split: "nz_symbols freq = ?S @ [256]" using nz_symbols_split [OF assms(1)] by (simp add: symbols_def)
  obtain w' nz' where g: "group_nonzero (freq[256 := 1]) = (w', nz', length (nz_symbols freq))" "length w' = 257" "length nz' = 257"
    "length (nz_symbols freq) \<le> 257" "\<And>k. k < length (nz_symbols freq) \<Longrightarrow> w' ! k = freq[256 := 1] ! (nz_symbols freq ! k)"
    "\<And>k. k < length (nz_symbols freq) \<Longrightarrow> nz' ! k = nz_symbols freq ! k"
    using group_result [OF assms(1)] by blast
  have e: "w = w'" "nz = nz'" "n = length ?S + 1" using g(1) assms(2) split by simp_all
  have S: "?S ! i < 256 \<and> 0 < freq ! (?S ! i)" if "i < length ?S" for i
    using nth_mem [OF that] by (auto simp: symbols_def)
  have w: "w ! i = (if i < length ?S then freq ! (?S ! i) else 1)" if "i < n" for i
    using g(5) [of i] that S [of i] assms(1) by (auto simp: e split nth_append less_Suc_eq)
  have "(\<Sum>i < n. w ! i) = (\<Sum>i < length ?S. w ! i) + w ! length ?S" unfolding e(3) by simp
  also have "\<dots> = (\<Sum>i < length ?S. freq ! (?S ! i)) + 1" using w by (simp add: e(3))
  also have "(\<Sum>i < length ?S. freq ! (?S ! i)) = (\<Sum>s \<in> set ?S. freq ! s)"
    using sum_list_distinct_conv_sum_set [of ?S "\<lambda>s. freq ! s"]
    by (simp add: symbols_def sum_list_sum_nth atLeast0LessThan)
  also have "\<dots> = (\<Sum>s < 256. freq ! s)"
    by (rule sum.mono_neutral_left) (auto simp: symbols_def)
  finally show ?thesis
    using w S g(2,6) by (auto simp: e split nth_append)
qed

lemma gen_optimal_table_run:
  assumes "length freq = 257" "length (huff_vals tbl) = 256" "0 < length (symbols freq)" "length (symbols freq) \<le> 254"
    "(\<Sum>s < 256. freq ! s) + 1 < 9227465"
  obtains t where "gen_optimal_table tbl freq = Some t" "length (huff_vals t) = 256"
    "cnt (bcount (tbits t)) 16 = length (symbols freq)" "kraft (bcount (tbits t)) 16 < 2 ^ 16"
    "distinct (take (length (symbols freq)) (huff_vals t))"
    "set (take (length (symbols freq)) (huff_vals t)) = of_nat ` set (symbols freq)"
proof -
  let ?S = "symbols freq"
  obtain w nz n where g: "group_nonzero (freq[256 := 1]) = (w, nz, n)" by (metis prod_cases3)
  have wg: "n = length ?S + 1" "length w = 257" "\<And>i. i < n \<Longrightarrow> 0 < w ! i" "w ! (n - 1) = 1"
    "\<And>i. i < n - 1 \<Longrightarrow> nz ! i = ?S ! i" "(\<Sum>i < n. w ! i) = (\<Sum>s < 256. freq ! s) + 1"
    using weights_grouped [OF assms(1) g] by blast+
  have n: "0 < n" "1 < n" "n \<le> 255" "n \<le> 257" using wg(1) assms(3,4) by simp_all
  have tot: "(\<Sum>i < n. w ! i) \<le> 1000000000" using wg(6) assms(5) by simp
  have "\<exists>cs oth. huff_merge 257 n w (replicate 257 0) (replicate 257 (-1)) = Some (cs, oth)
    \<and> (\<Sum>i < n. (1 / 2 :: real) ^ (cs ! i)) = 1 \<and> (\<forall>i < n. fibn (cs ! i + 2) \<le> (\<Sum>i < n. w ! i))
    \<and> (\<forall>i < n. cs ! i \<le> cs ! (n - 1))"
  proof (rule huff_merge_result [of w n])
    fix cs oth
    assume "huff_merge 257 n w (replicate 257 0) (replicate 257 (-1)) = Some (cs, oth)"
      "(\<Sum>i < n. (1 / 2 :: real) ^ (cs ! i)) = 1" "\<And>i. i < n \<Longrightarrow> fibn (cs ! i + 2) \<le> (\<Sum>i < n. w ! i)"
      "\<And>i. i < n \<Longrightarrow> cs ! i \<le> cs ! (n - 1)"
    then show ?thesis by blast
  qed (use wg(2-4) n tot in simp_all)
  then obtain cs oth where h: "huff_merge 257 n w (replicate 257 0) (replicate 257 (-1)) = Some (cs, oth)"
    "(\<Sum>i < n. (1 / 2 :: real) ^ (cs ! i)) = 1" "\<And>i. i < n \<Longrightarrow> fibn (cs ! i + 2) \<le> (\<Sum>i < n. w ! i)"
    "\<And>i. i < n \<Longrightarrow> cs ! i \<le> cs ! (n - 1)" by blast
  have c32: "cs ! i \<le> 32" if "i < n" for i
  proof (rule ccontr)
    assume "\<not> cs ! i \<le> 32"
    then have "fibn 35 \<le> fibn (cs ! i + 2)" by (intro fibn_mono) simp
    then show False using h(3) [OF that] wg(6) assms(5) fibn_35 by simp
  qed
  obtain bts where b: "count_sizes cs n = Some bts" "length bts = 33" "\<And>l. l \<le> 32 \<Longrightarrow> bcount bts l = size_count cs n l"
    using count_sizes_run [of n cs] n(3) c32 by blast
  have pos: "length (bit_positions bts) = 33" "\<And>l. l \<le> 32 \<Longrightarrow> bit_positions bts ! l = below cs n l"
    using bit_positions_nth [of bts cs n] b(3) by blast+
  have "complete (bcount bts) n 32" using kraft_from_sizes [OF h(2) c32 n(2) b(3)] .
  then obtain b2 where b2: "limit_lens bts = Some b2" "length b2 = 33" "complete (bcount b2) n 16"
    using limit_lens_run [OF _ b(2) n(3)] by blast
  obtain i where i: "find_prefix b2 16 = Some i" "i \<le> 16" "kraft (bcount (take 17 (b2[i := b2 ! i - 1]))) 16 < 2 ^ 16"
    "cnt (bcount (take 17 (b2[i := b2 ! i - 1]))) 16 = n - 1" using drop_pseudo [OF b2(3,2) n(1)] .
  have S: "?S ! k < 256" if "k < length ?S" for k using nth_mem [OF that] by (auto simp: symbols_def)
  have dS: "distinct ?S" by (simp add: symbols_def)
  let ?v = "place_symbols cs nz n (bit_positions bts) (huff_vals tbl)"
  have v: "length ?v = 256 \<and> distinct (take (n - 1) ?v) \<and> set (take (n - 1) ?v) = (\<lambda>i. of_nat (nz ! i)) ` {..<n - 1}"
  proof (rule place_symbols_result [OF pos c32 n(1,4) assms(2) h(4)])
    show "nz ! i < 256" if "i < n - 1" for i using wg(5) [OF that] S [of i] that wg(1) by simp
    show "nz ! i \<noteq> nz ! j" if "i < j" "j < n - 1" for i j
      using wg(5) [of i] wg(5) [of j] that wg(1) dS by (simp add: nth_eq_iff_index_eq)
  qed
  have img: "(\<lambda>i. of_nat (nz ! i) :: u8) ` {..<n - 1} = of_nat ` set ?S"
  proof -
    have "(\<lambda>i. of_nat (nz ! i) :: u8) ` {..<n - 1} = (\<lambda>i. of_nat (?S ! i)) ` {..<length ?S}"
      using wg(1,5) by (intro image_cong) auto
    also have "\<dots> = of_nat ` set ?S" by (auto simp: set_conv_nth image_def)
    finally show ?thesis .
  qed
  let ?t = "\<lparr>tbits = take 17 (b2[i := b2 ! i - 1]), huff_vals = ?v\<rparr>"
  have "gen_optimal_table tbl freq = Some ?t"
    by (simp only: gen_optimal_table_def Let_def g prod.case option.case h(1) b(1) b2(1) i(1))
  with that [of ?t] v img i(3,4) wg(1) show thesis by simp
qed

text \<open>C6: a generated table is a complete description of its symbols. For every frequency table with one
  to 254 symbols and a sum below the Fibonacci number that forces code words of 33 bits, the generation
  neither panics nor runs forever; the derivation of codes accepts the result; and exactly the symbols
  of nonzero frequency have a code.\<close>
theorem gen_table_derives:
  assumes "length freq = 257" "length (huff_vals tbl) = 256" "0 < length (symbols freq)" "length (symbols freq) \<le> 254"
    and "(\<Sum>s < 256. freq ! s) + 1 < 9227465" and "\<forall>s \<in> set (symbols freq). of_nat s \<le> mx"
  shows "\<exists>t d. gen_optimal_table tbl freq = Some t \<and> do_set_derived_tbl t mx = Some d
     \<and> (\<forall>s < 256. (0 < freq ! s \<longleftrightarrow> 0 < ehufsi d ! s))"
proof -
  let ?S = "symbols freq"
  obtain t where t: "gen_optimal_table tbl freq = Some t" "length (huff_vals t) = 256"
    "cnt (bcount (tbits t)) 16 = length ?S" "kraft (bcount (tbits t)) 16 < 2 ^ 16"
    "distinct (take (length ?S) (huff_vals t))" "set (take (length ?S) (huff_vals t)) = of_nat ` set ?S"
    using gen_optimal_table_run [OF assms(1-5)] by blast
  let ?b = "bcount (tbits t)"
  have ok: "counts_ok ?b" using counts_ok_kraft [of ?b] t(3,4) assms(4) by simp
  have le: "huff_vals t ! p \<le> mx" if "p < length ?S" for p
  proof -
    have "huff_vals t ! p \<in> set (take (length ?S) (huff_vals t))"
      using that t(2) assms(4) by (auto simp: in_set_conv_nth intro!: exI [of _ p])
    then show ?thesis using t(6) assms(6) by auto
  qed
  have "derived_ok t mx" using ok t(3,5) le by (simp add: derived_ok_def Let_def)
  moreover have c0: "0 < cnt ?b 16" using t(3) assms(3) by simp
  ultimately obtain d hc where d: "do_set_derived_tbl t mx = Some d" "codes_upto ?b 16 hc"
    "filled (sizes_upto ?b 16) hc (huff_vals t) (cnt ?b 16) d"
    using do_set_derived_result [OF c0 t(2), of mx] by (cases "do_set_derived_tbl t mx") auto
  have "0 < freq ! s \<longleftrightarrow> 0 < ehufsi d ! s" if s: "s < 256" for s
  proof
    assume "0 < freq ! s"
    then have "s \<in> set ?S" using s by (simp add: symbols_def)
    then have "of_nat s \<in> set (take (cnt ?b 16) (huff_vals t))" using t(3,6) by auto
    then obtain p where p: "p < cnt ?b 16" "huff_vals t ! p = of_nat s" using t(2,3) by (auto simp: in_set_conv_nth)
    have us: "unat (of_nat s :: u8) = s" using s by (simp add: unat_of_nat_small)
    have "ehufsi d ! s = of_nat (sizes_upto ?b 16 ! p)"
      using d(3) p us unfolding filled_def by metis
    moreover have "0 < sizes_upto ?b 16 ! p" "sizes_upto ?b 16 ! p < 256" using sizes_bounds [OF p(1)] by simp_all
    moreover from this have "unat (of_nat (sizes_upto ?b 16 ! p) :: u8) \<noteq> 0" by (simp add: unat_of_nat_small)
    ultimately show "0 < ehufsi d ! s" by (metis unat_0 word_gt_0)
  next
    assume p: "0 < ehufsi d ! s"
    show "0 < freq ! s"
    proof (rule ccontr)
      assume "\<not> 0 < freq ! s"
      then have ns: "s \<notin> set ?S" by (simp add: symbols_def)
      have "of_nat s \<notin> set (take (cnt ?b 16) (huff_vals t))"
      proof
        assume "of_nat s \<in> set (take (cnt ?b 16) (huff_vals t))"
        then obtain s' where s': "s' \<in> set ?S" "(of_nat s :: u8) = of_nat s'" using t(3,6) by auto
        have "s' < 256" using s'(1) by (simp add: symbols_def)
        then have "unat (of_nat s :: u8) = s" "unat (of_nat s' :: u8) = s'" using s by (simp_all add: unat_of_nat_small)
        then have "s = s'" using s'(2) by metis
        then show False using ns s'(1) by simp
      qed
      then have "ehufsi d ! s = 0" using d(3) s unfolding filled_def by blast
      then show False using p by simp
    qed
  qed
  then show ?thesis using t(1) d(1) by blast
qed

lemma dc_dq_freq_nth: "s < 257 \<Longrightarrow> dc_dq_freq ! s = (if s \<le> 12 then 13 - s else 0)"
  by (simp add: dc_dq_freq_def)

lemma dc_dq_freq_facts:
  "length dc_dq_freq = 257" "symbols dc_dq_freq = [0 ..< 13]" "(\<Sum>s < 256. dc_dq_freq ! s) = 91"
proof -
  show "length dc_dq_freq = 257" by (simp add: dc_dq_freq_def)
  have "symbols dc_dq_freq = filter (\<lambda>i. i \<le> 12) [0 ..< 256]"
    unfolding symbols_def by (rule filter_cong) (auto simp: dc_dq_freq_nth)
  also have "[0 ..< 256] = [0 ..< 13] @ [13 ..< 256 :: nat]" using upt_add_eq_append [of 0 13 243] by simp
  also have "filter (\<lambda>i. i \<le> 12) ([0 ..< 13] @ [13 ..< 256]) = [0 ..< 13 :: nat]"
    by (simp only: filter_append) (subst filter_True, auto)
  finally show "symbols dc_dq_freq = [0 ..< 13]" .
  have "(\<Sum>s < 256. dc_dq_freq ! s) = (\<Sum>s < 13. dc_dq_freq ! s)"
    by (rule sum.mono_neutral_right) (auto simp: dc_dq_freq_nth)
  also have "\<dots> = (\<Sum>s < 13. 13 - s)" by (rule sum.cong) (auto simp: dc_dq_freq_nth)
  also have "\<dots> = 91" by (simp add: lessThan_nat_numeral lessThan_Suc)
  finally show "(\<Sum>s < 256. dc_dq_freq ! s) = 91" .
qed

theorem gen_table_derives_witness:
  "\<exists>t d. gen_optimal_table empty_huff_tbl dc_dq_freq = Some t \<and> do_set_derived_tbl t 16 = Some d \<and> 0 < ehufsi d ! 12"
proof -
  have "length (huff_vals empty_huff_tbl) = 256" by (simp add: empty_huff_tbl_def)
  moreover have "0 < length (symbols dc_dq_freq)" "length (symbols dc_dq_freq) \<le> 254"
    "(\<Sum>s < 256. dc_dq_freq ! s) + 1 < 9227465" by (simp_all add: dc_dq_freq_facts)
  moreover have "\<forall>s \<in> set (symbols dc_dq_freq). of_nat s \<le> (16 :: u8)"
    by (auto simp: dc_dq_freq_facts word_le_nat_alt unat_of_nat_small)
  ultimately obtain t d where "gen_optimal_table empty_huff_tbl dc_dq_freq = Some t" "do_set_derived_tbl t 16 = Some d"
    "\<forall>s < 256. (0 < dc_dq_freq ! s \<longleftrightarrow> 0 < ehufsi d ! s)"
    using gen_table_derives [OF dc_dq_freq_facts(1)] by blast
  moreover have "0 < dc_dq_freq ! 12" by (simp add: dc_dq_freq_nth)
  ultimately show ?thesis by (metis numeral_less_iff semiring_norm(76,78,81))
qed

end
