(* ===== verification/Huff_Decode.thy ===== *)
theory Huff_Decode
  imports Bit_Encoder Quantizer Huffman
begin

text \<open>
  A reference decoder for Huffman-coded blocks, written from the JPEG standard and independent of the
  encoder: the meaning of a bit stream. A symbol is found by its word, a coefficient of category
  \<open>n\<close> is given by \<open>n\<close> more bits (\<open>extend_bits\<close>), and a block is a difference for the first
  coefficient followed by run/category symbols for the others.
\<close>

section \<open>Bits as numbers\<close>

definition bits_val :: "bool list \<Rightarrow> nat" where
  "bits_val xs = foldl (\<lambda>a b. 2 * a + of_bool b) 0 xs"

definition extend_bits :: "bool list \<Rightarrow> int" where
  "extend_bits xs =
     (if xs = [] then 0
      else if hd xs then int (bits_val xs) else int (bits_val xs) - 2 ^ length xs + 1)"

definition dec_sym :: "derived_tbl \<Rightarrow> bool list \<Rightarrow> (nat \<times> bool list) option" where
  "dec_sym t bs =
     (case find (\<lambda>s. ehufsi t ! s > 0
               \<and> take (unat (ehufsi t ! s)) bs = word_bits (ehufco t ! s) (unat (ehufsi t ! s))) [0 ..< 256] of
        None \<Rightarrow> None
      | Some s \<Rightarrow> Some (s, drop (unat (ehufsi t ! s)) bs))"

text \<open>The remaining \<open>n\<close> coefficients of a block, in zigzag order.\<close>

function dec_ac :: "derived_tbl \<Rightarrow> nat \<Rightarrow> bool list \<Rightarrow> (int list \<times> bool list) option" where
  "dec_ac t n bs =
     (if n = 0 then Some ([], bs)
      else case dec_sym t bs of None \<Rightarrow> None
         | Some (rs, bs) \<Rightarrow>
             let r = rs div 16; s = rs mod 16
             in if s = 0 then
                  if r = 15 then if n < 16 then None
                    else map_option (\<lambda>(vs, bs). (replicate 16 0 @ vs, bs)) (dec_ac t (n - 16) bs)
                  else Some (replicate n 0, bs)
                else if n \<le> r then None
                else map_option (\<lambda>(vs, bs'). (replicate r 0 @ extend_bits (take s bs) # vs, bs'))
                       (dec_ac t (n - Suc r) (drop s bs)))"
  by pat_completeness auto
termination by (relation "measure (\<lambda>(_, n, _). n)") auto

declare dec_ac.simps [simp del]

definition dec_zigzag :: "derived_tbl \<Rightarrow> derived_tbl \<Rightarrow> int \<Rightarrow> bool list \<Rightarrow> (int list \<times> bool list) option" where
  "dec_zigzag dc ac pred bs =
     (case dec_sym dc bs of None \<Rightarrow> None
      | Some (s, bs) \<Rightarrow>
          map_option (\<lambda>(vs, bs'). ((pred + extend_bits (take s bs)) # vs, bs')) (dec_ac ac 63 (drop s bs)))"

section \<open>Lemmas\<close>

lemma bits_val_Nil [simp]: "bits_val [] = 0" by (simp add: bits_val_def)

lemma bits_val_snoc [simp]: "bits_val (xs @ [b]) = 2 * bits_val xs + of_bool b"
  by (simp add: bits_val_def)

lemma word_bits_Suc: "word_bits w (Suc n) = bit w n # word_bits w n"
  by (simp add: word_bits_def)

lemma bits_val_foldl: "foldl (\<lambda>a b. 2 * a + of_bool b) k xs = k * 2 ^ length xs + bits_val xs"
proof (induction xs arbitrary: k)
  case (Cons x xs)
  have "bits_val (x # xs) = (2 * 0 + of_bool x) * 2 ^ length xs + bits_val xs"
    unfolding bits_val_def foldl_Cons by (simp only: Cons bits_val_def [symmetric])
  then show ?case
    by (simp only: foldl_Cons Cons length_Cons power_Suc) (simp add: algebra_simps)
qed (simp add: bits_val_def)

lemma bits_val_Cons: "bits_val (b # bs) = of_bool b * 2 ^ length bs + bits_val bs"
proof -
  have "bits_val (b # bs) = (2 * 0 + of_bool b) * 2 ^ length bs + bits_val bs"
    unfolding bits_val_def [of "b # bs"] foldl_Cons by (rule bits_val_foldl)
  then show ?thesis by simp
qed

lemma bits_val_less: "bits_val xs < 2 ^ length xs"
proof (induction xs)
  case (Cons x xs)
  then show ?case by (cases x) (simp_all add: bits_val_Cons)
qed simp

lemma bits_val_word_bits: "bits_val (word_bits w n) = unat w mod 2 ^ n"
proof (induction n)
  case (Suc n)
  have "bits_val (word_bits w (Suc n)) = of_bool (bit w n) * 2 ^ n + unat w mod 2 ^ n"
    by (simp add: word_bits_Suc bits_val_Cons Suc)
  also have "\<dots> = unat w mod 2 ^ Suc n"
    using take_bit_Suc_from_most [of n "unat w"]
    by (simp add: take_bit_eq_mod bit_unsigned_iff bit_imp_le_length mult.commute)
  finally show ?case .
qed simp

lemma extend_word_bits:
  fixes w :: i32
  assumes "0 < n" "n \<le> 31"
    and "v = (if 0 \<le> sint w then sint w else sint w + 1)"
    and "2 ^ (n - 1) \<le> \<bar>v\<bar>" "\<bar>v\<bar> < 2 ^ n"
  shows "extend_bits (word_bits w n) = v"
proof -
  let ?u = "unat w mod 2 ^ n"
  have p2: "(2 :: int) ^ n = 2 * 2 ^ (n - 1)" using assms(1) by (cases n) simp_all
  have u: "int ?u = sint w mod 2 ^ n"
  proof -
    have "int ?u = uint w mod 2 ^ n" by (simp add: zmod_int)
    also have "\<dots> = take_bit n (signed_take_bit 31 (uint w))"
      using assms(2) by (simp add: take_bit_eq_mod [symmetric] take_bit_signed_take_bit)
    finally show ?thesis by (simp add: sint_uint take_bit_eq_mod)
  qed
  have ne: "word_bits w n \<noteq> []" using assms(1) by (metis length_word_bits list.size(3) less_irrefl)
  have hd: "hd (word_bits w n) \<longleftrightarrow> 2 ^ (n - 1) \<le> ?u"
  proof -
    obtain m where n: "n = Suc m" using assms(1) by (cases n) auto
    define q where "q = unat w mod 2 ^ m"
    have "?u = of_bool (bit w m) * 2 ^ m + q"
      using bits_val_word_bits [of w n] by (simp add: n word_bits_Suc bits_val_Cons bits_val_word_bits q_def)
    moreover have "q < 2 ^ m" by (simp add: q_def)
    ultimately have "bit w m \<longleftrightarrow> 2 ^ m \<le> ?u" by (cases "bit w m") simp_all
    then show ?thesis by (simp add: n word_bits_Suc)
  qed
  show ?thesis
  proof (cases "0 \<le> sint w")
    case True
    then have "int ?u = v" using assms u by simp
    then have "2 ^ (n - 1) \<le> ?u"
      using assms(3,4) True by (metis abs_of_nonneg of_nat_le_iff of_nat_numeral of_nat_power)
    then show ?thesis using \<open>int ?u = v\<close> hd ne by (simp add: extend_bits_def bits_val_word_bits)
  next
    case False
    then have v: "v = sint w + 1" "v \<le> 0" using assms(3) by auto
    have b: "0 \<le> sint w + 2 ^ n" "sint w + 2 ^ n < 2 ^ n"
      using assms(5) v False by linarith+
    have "sint w mod 2 ^ n = (sint w + 2 ^ n) mod 2 ^ n" by simp
    also have "\<dots> = sint w + 2 ^ n" using b by (rule mod_pos_pos_trivial)
    finally have iu: "int ?u = v - 1 + 2 ^ n" using u v by simp
    then have "int ?u < 2 ^ (n - 1)" using assms(4) v p2 by linarith
    then have "\<not> 2 ^ (n - 1) \<le> ?u" by (metis not_le of_nat_less_iff of_nat_numeral of_nat_power)
    then show ?thesis using iu hd ne by (simp add: extend_bits_def bits_val_word_bits)
  qed
qed

text \<open>Symbols decode because the words are a prefix code.\<close>

lemma word_bits_inj:
  assumes "word_bits (v :: u32) n = word_bits w n" "unat v < 2 ^ n" "unat w < 2 ^ n"
  shows "v = w"
proof -
  have "unat v mod 2 ^ n = unat w mod 2 ^ n"
    using assms(1) by (metis bits_val_word_bits)
  then show ?thesis using assms(2,3) by (simp add: word_unat_eq_iff)
qed

lemma take_word_bits:
  fixes w :: u32
  assumes "n \<le> m" "m \<le> 32"
  shows "take n (word_bits w m) = word_bits (drop_bit (m - n) w) n"
  using word_bits_split [of n m w] assms by simp

lemma prefix_code_unique:
  assumes p: "prefix_code t" and r: "r < 256" "ehufsi t ! r > 0" and s: "s < 256" "ehufsi t ! s > 0"
    and le: "ehufsi t ! r \<le> ehufsi t ! s"
    and tk: "take (unat (ehufsi t ! r)) (word_bits (ehufco t ! s) (unat (ehufsi t ! s)))
       = word_bits (ehufco t ! r) (unat (ehufsi t ! r))"
  shows "r = s"
proof (rule ccontr)
  assume ne: "r \<noteq> s"
  let ?m = "unat (ehufsi t ! s)" and ?n = "unat (ehufsi t ! r)"
  have b: "?m \<le> 16" "unat (ehufco t ! s) + 1 < 2 ^ ?m" "unat (ehufco t ! r) + 1 < 2 ^ ?n"
    using p r s by (auto simp: prefix_code_def)
  have nm: "?n \<le> ?m" using le by (simp add: word_le_nat_alt)
  have "word_bits (drop_bit (?m - ?n) (ehufco t ! s)) ?n = word_bits (ehufco t ! r) ?n"
    using tk take_word_bits [OF nm, of "ehufco t ! s"] b by simp
  moreover have "unat (drop_bit (?m - ?n) (ehufco t ! s)) < 2 ^ ?n"
  proof -
    have "unat (ehufco t ! s) < 2 ^ (?m - ?n) * 2 ^ ?n"
      using b(2) nm by (simp add: power_add [symmetric])
    then show ?thesis by (simp add: unat_drop_bit less_mult_imp_div_less mult.commute)
  qed
  ultimately have "drop_bit (?m - ?n) (ehufco t ! s) = ehufco t ! r"
    using word_bits_inj b(3) by force
  then have "unat (ehufco t ! s) div 2 ^ (?m - ?n) = unat (ehufco t ! r)"
    by (metis unat_drop_bit)
  then show False using p r s le ne by (auto simp: prefix_code_def)
qed

lemma dec_sym_word:
  assumes p: "prefix_code t" and s: "s < 256" "ehufsi t ! s > 0"
  shows "dec_sym t (word_bits (ehufco t ! s) (unat (ehufsi t ! s)) @ bs) = Some (s, bs)"
proof -
  let ?m = "unat (ehufsi t ! s)"
  let ?ws = "word_bits (ehufco t ! s) ?m"
  let ?P = "\<lambda>r. ehufsi t ! r > 0 \<and> take (unat (ehufsi t ! r)) (?ws @ bs)
      = word_bits (ehufco t ! r) (unat (ehufsi t ! r))"
  have u: "r = s" if r: "r < 256" "?P r" for r
  proof (cases "ehufsi t ! r \<le> ehufsi t ! s")
    case True
    then have "unat (ehufsi t ! r) \<le> ?m" by (simp add: word_le_nat_alt)
    then show ?thesis using prefix_code_unique [OF p r(1) _ s True] r(2) by simp
  next
    case False
    then have "?m \<le> unat (ehufsi t ! r)" and le: "ehufsi t ! s \<le> ehufsi t ! r"
      by (simp_all add: word_le_nat_alt)
    then have "take ?m (take (unat (ehufsi t ! r)) (?ws @ bs)) = ?ws" by simp
    then have "take ?m (word_bits (ehufco t ! r) (unat (ehufsi t ! r))) = ?ws"
      unfolding conjunct2 [OF r(2)] .
    then show ?thesis using prefix_code_unique [OF p s r(1) conjunct1 [OF r(2)] le] by simp
  qed
  have f: "find ?P [0 ..< 256] = Some s"
  proof (cases "find ?P [0 ..< 256]")
    case None
    moreover have "s \<in> set [0 ..< 256]" using s(1) by simp
    moreover have "?P s" using s(2) by simp
    ultimately show ?thesis unfolding find_None_iff by blast
  next
    case (Some r)
    then obtain i where "i < length [0 ..< 256]" "?P ([0 ..< 256] ! i)" "r = [0 ..< 256] ! i"
      unfolding find_Some_iff by blast
    then have "r < 256" "?P r" by simp_all
    then have "r = s" by (rule u)
    with Some show ?thesis by simp
  qed
  show ?thesis unfolding dec_sym_def f option.case by simp
qed

end
