(* ===== verification/Comp_Info.thy ===== *)
theory Comp_Info
  imports Ranged Pixels
begin

text \<open>
  \<^verbatim>\<open>encoder/vars.rs\<close>: the components of the image with their sampling factors and table numbers
  (\<open>CompInfo\<close>, \<open>CompInfos\<close>), for the three chroma subsamplings.
\<close>

record comp_info =
  component_id :: u8
  h_samp_factor :: u8
  v_samp_factor :: u8
  h_samp_exp :: u8
  v_samp_exp :: u8
  quant_tbl_no :: u8
  dc_tbl_no :: u8
  ac_tbl_no :: u8

type_synonym comp_infos = "comp_info list"

definition set_comp :: "nat \<Rightarrow> u8 \<Rightarrow> u8 \<Rightarrow> u8 \<Rightarrow> u8 \<Rightarrow> u8 \<Rightarrow> u8 \<Rightarrow> comp_infos \<Rightarrow> comp_infos" where
  "set_comp i cid hse vse quant dctbl actbl infos =
     infos[i := (infos ! i)\<lparr>component_id := cid, h_samp_exp := hse, v_samp_exp := vse,
        h_samp_factor := push_bit (unat hse) 1, v_samp_factor := push_bit (unat vse) 1,
        quant_tbl_no := quant, dc_tbl_no := dctbl, ac_tbl_no := actbl\<rparr>]"

definition set_color_space_ycb_cr_420 :: "comp_infos \<Rightarrow> comp_infos" where
  "set_color_space_ycb_cr_420 infos =
     set_comp 2 3 0 0 1 1 1 (set_comp 1 2 0 0 1 1 1 (set_comp 0 1 1 1 0 0 0 infos))"

definition set_color_space_ycb_cr_422 :: "comp_infos \<Rightarrow> comp_infos" where
  "set_color_space_ycb_cr_422 infos =
     set_comp 2 3 0 0 1 1 1 (set_comp 1 2 0 0 1 1 1 (set_comp 0 1 1 0 0 0 0 infos))"

definition set_color_space_ycb_cr_444 :: "comp_infos \<Rightarrow> comp_infos" where
  "set_color_space_ycb_cr_444 infos =
     set_comp 2 3 0 0 1 1 1 (set_comp 1 2 0 0 1 1 1 (set_comp 0 1 0 0 0 0 0 infos))"

definition zero_comp :: comp_info where
  "zero_comp = \<lparr>component_id = 0, h_samp_factor = 0, v_samp_factor = 0, h_samp_exp = 0,
     v_samp_exp = 0, quant_tbl_no = 0, dc_tbl_no = 0, ac_tbl_no = 0\<rparr>"

text \<open>Blocks of one MCU, in coding order: the index of the component of every block.\<close>

definition mcu_comps :: "comp_infos \<Rightarrow> nat list" where
  "mcu_comps infos = concat (map (\<lambda>ci. replicate
     (unat (v_samp_factor (infos ! ci)) * unat (h_samp_factor (infos ! ci))) ci) [0 ..< MAX_COMPONENTS])"

lemma color_spaces:
  assumes "length infos = 3"
  shows "set_color_space_ycb_cr_420 infos =
      [\<lparr>component_id = 1, h_samp_factor = 2, v_samp_factor = 2, h_samp_exp = 1, v_samp_exp = 1,
        quant_tbl_no = 0, dc_tbl_no = 0, ac_tbl_no = 0\<rparr>,
       \<lparr>component_id = 2, h_samp_factor = 1, v_samp_factor = 1, h_samp_exp = 0, v_samp_exp = 0,
        quant_tbl_no = 1, dc_tbl_no = 1, ac_tbl_no = 1\<rparr>,
       \<lparr>component_id = 3, h_samp_factor = 1, v_samp_factor = 1, h_samp_exp = 0, v_samp_exp = 0,
        quant_tbl_no = 1, dc_tbl_no = 1, ac_tbl_no = 1\<rparr>]"
    and "mcu_comps (set_color_space_ycb_cr_420 infos) = [0, 0, 0, 0, 1, 2]"
    and "mcu_comps (set_color_space_ycb_cr_422 infos) = [0, 0, 1, 2]"
    and "mcu_comps (set_color_space_ycb_cr_444 infos) = [0, 1, 2]"
proof -
  obtain a b c where i: "infos = [a, b, c]"
    using assms by (auto simp: numeral_3_eq_3 length_Suc_conv)
  show "set_color_space_ycb_cr_420 infos =
      [\<lparr>component_id = 1, h_samp_factor = 2, v_samp_factor = 2, h_samp_exp = 1, v_samp_exp = 1,
        quant_tbl_no = 0, dc_tbl_no = 0, ac_tbl_no = 0\<rparr>,
       \<lparr>component_id = 2, h_samp_factor = 1, v_samp_factor = 1, h_samp_exp = 0, v_samp_exp = 0,
        quant_tbl_no = 1, dc_tbl_no = 1, ac_tbl_no = 1\<rparr>,
       \<lparr>component_id = 3, h_samp_factor = 1, v_samp_factor = 1, h_samp_exp = 0, v_samp_exp = 0,
        quant_tbl_no = 1, dc_tbl_no = 1, ac_tbl_no = 1\<rparr>]"
    by (simp add: i set_color_space_ycb_cr_420_def set_comp_def)
  have u: "[0 ..< MAX_COMPONENTS] = [0, 1, 2]" by (simp add: MAX_COMPONENTS_def upt_rec)
  have r: "replicate 4 (0 :: nat) = [0, 0, 0, 0]" "replicate 2 (0 :: nat) = [0, 0]"
    by (simp_all add: numeral_eq_Suc)
  show "mcu_comps (set_color_space_ycb_cr_420 infos) = [0, 0, 0, 0, 1, 2]"
    "mcu_comps (set_color_space_ycb_cr_422 infos) = [0, 0, 1, 2]"
    "mcu_comps (set_color_space_ycb_cr_444 infos) = [0, 1, 2]"
    by (simp_all add: i mcu_comps_def u set_comp_def set_color_space_ycb_cr_420_def
        set_color_space_ycb_cr_422_def set_color_space_ycb_cr_444_def r)
qed

end
