(* ===== verification/Block_Encode.thy ===== *)
theory Block_Encode
  imports Huff_Decode Comp_Info
begin

text \<open>
  Entropy coding of blocks (\<open>encode_one_block\<close>, \<open>encode_mcu\<close> of \<^verbatim>\<open>encoder/encode/compress.rs\<close>): the
  difference of the first coefficient to that of the previous block of the component, then runs of
  zeros and values in zigzag order. The run \<open>r\<close> of the code, a small non-negative \<open>i32\<close>, is a
  natural number here; the local array of a block lies at the address \<open>la\<close>.
\<close>

definition JPEG_NATURAL_ORDER :: "nat list" where
  "JPEG_NATURAL_ORDER = [
     0, 1, 8, 16, 9, 2, 3, 10, 17, 24, 32, 25, 18, 11, 4, 5, 12, 19, 26, 33, 40, 48, 41, 34, 27, 20,
     13, 6, 7, 14, 21, 28, 35, 42, 49, 56, 57, 50, 43, 36, 29, 22, 15, 23, 30, 37, 44, 51, 58, 59,
     52, 45, 38, 31, 39, 46, 53, 60, 61, 54, 47, 55, 62, 63]"

definition coef_val :: "i32 \<Rightarrow> i32 \<times> nat" where
  "coef_val val =
     (let sign1 = signed_drop_bit 31 val;
          val1 = val + sign1;
          abs = val1 XOR sign1
      in (val1, jpeg_nbits_nonzero abs))"

fun put_zrl :: "derived_tbl \<Rightarrow> nat \<Rightarrow> encode_buffer \<Rightarrow> nat \<times> encode_buffer" where
  "put_zrl t r eb =
     (if 16 * 16 \<le> r
      then put_zrl t (r - 16 * 16) (put_bits (ehufco t ! 0xf0) (ehufsi t ! 0xf0) eb)
      else (r, eb))"

declare put_zrl.simps [simp del]

definition encode_coef :: "derived_tbl \<Rightarrow> i16 list \<Rightarrow> nat \<times> encode_buffer \<Rightarrow> nat \<Rightarrow> nat \<times> encode_buffer" where
  "encode_coef ac blk s k =
     (case s of (r, eb) \<Rightarrow>
        let val = (scast (blk ! k) :: i32)
        in if val = 0 then (r + 16, eb)
           else
             let (val1, nbits) = coef_val val;
                 (r, eb) = put_zrl ac r eb;
                 r = r + nbits
             in (0, put_code (ehufco ac ! r) (ehufsi ac ! r) val1 (of_nat nbits) eb))"

definition BLOCK_BUFSIZE :: nat where "BLOCK_BUFSIZE = DCTSIZE2 * 8"

definition encode_one_block ::
  "worker_dst \<Rightarrow> bit_state \<Rightarrow> i16 list \<Rightarrow> i16 \<Rightarrow> derived_tbl \<Rightarrow> derived_tbl \<Rightarrow> nat \<Rightarrow> nwm_world
     \<Rightarrow> i16 \<times> bit_state \<times> worker_dst \<times> nwm_world" where
  "encode_one_block d st blk last_dc dc ac la W =
     (let d = d\<lparr>wd_blkn := wd_blkn d + 1\<rparr>;
          eb = eb_init BLOCK_BUFSIZE st d la (wd_rel_stream d) W;
          (val1, nbits) = coef_val (scast (blk ! 0) - scast last_dc);
          eb = put_code (ehufco dc ! nbits) (ehufsi dc ! nbits) val1 (of_nat nbits) eb;
          (r, eb) = foldl (encode_coef ac blk) (0, eb) (drop 1 JPEG_NATURAL_ORDER);
          eb = (if 0 < r then put_bits (ehufco ac ! 0) (ehufsi ac ! 0) eb else eb);
          eb = eb_store eb
      in (blk ! 0, eb_state eb, eb_dst eb, eb_world eb))"

text \<open>The state of an encoding thread: sink, bit state, last values of the first coefficients.\<close>

record jpeg_enc =
  je_bits :: bit_state
  je_dst :: worker_dst
  je_world :: nwm_world
  je_last :: "i16 list"

record encode_tbls =
  et_huff_tbls :: huff_tbls
  et_entropy_tbls :: entropy_tbls
  et_dq_huff_tbls :: huff_tbls
  et_dq_entropy_tbls :: entropy_tbls

definition encode_next :: "nat \<Rightarrow> derived_tbl \<Rightarrow> derived_tbl \<Rightarrow> nat \<Rightarrow> i16 list list
    \<Rightarrow> nat \<times> jpeg_enc \<Rightarrow> nat \<times> jpeg_enc" where
  "encode_next ci dc ac la mcu s =
     (case s of (blkn, je) \<Rightarrow>
        let last_dc = je_last je ! ci;
            (v, st, d, W) = encode_one_block (je_dst je) (je_bits je) (mcu ! blkn) last_dc dc ac la (je_world je)
        in (blkn + 1, \<lparr>je_bits = st, je_dst = d, je_world = W, je_last = (je_last je)[ci := v]\<rparr>))"

definition encode_mcu :: "bool \<Rightarrow> encode_tbls \<Rightarrow> comp_infos \<Rightarrow> nat \<Rightarrow> i16 list list \<Rightarrow> jpeg_enc \<Rightarrow> jpeg_enc" where
  "encode_mcu delta_prog tbls infos la mcu je =
     snd (fold (\<lambda>ci s.
            let comp = infos ! ci;
                t = (if delta_prog then et_dq_entropy_tbls tbls else et_entropy_tbls tbls);
                dc = dc_derived_tbls t ! unat (dc_tbl_no comp);
                ac = ac_derived_tbls t ! unat (ac_tbl_no comp)
            in fold (\<lambda>_. fold (\<lambda>_. encode_next ci dc ac la mcu) [0 ..< unat (h_samp_factor comp)])
                 [0 ..< unat (v_samp_factor comp)] s)
          [0 ..< MAX_COMPONENTS] (0, je))"

definition reset_mcu :: "jpeg_enc \<Rightarrow> jpeg_enc" where
  "reset_mcu je = je\<lparr>je_bits := bs_reset, je_last := replicate MAX_COMPONENTS 0\<rparr>"

definition flush_mcu :: "bool \<Rightarrow> nat \<Rightarrow> jpeg_enc \<Rightarrow> jpeg_enc" where
  "flush_mcu rel_stream la je =
     (let (d, W) = bs_flush (je_bits je) (je_dst je) la rel_stream (je_world je)
      in je\<lparr>je_dst := d, je_world := W\<rparr>)"

section \<open>Categories\<close>

lemma bit_len_0 [simp]: "bit_len 0 = 0"
  by (subst bit_len.simps) simp

lemma sint_nonzero: "v \<noteq> 0 \<Longrightarrow> sint (v :: 'a::len word) \<noteq> 0"
  by (metis of_int_0 of_int_sint scast_id)

lemma coef_val_abs:
  assumes "\<bar>sint v\<bar> < 2 ^ 30"
  shows "sint (fst (coef_val v)) = (if 0 \<le> sint v then sint v else sint v - 1)"
    and "snd (coef_val v) = bit_len (nat \<bar>sint v\<bar>)"
proof -
  have ds: "signed_drop_bit 31 v = (if 0 \<le> sint v then 0 else - 1)"
  proof -
    have b: "- (2 ^ 31) \<le> sint v" "sint v < 2 ^ 31" using sint_ge [of v] sint_lt [of v] by simp_all
    have "sint (signed_drop_bit 31 v) = sint v div 2 ^ 31"
      by (simp add: sint_signed_drop_bit_eq drop_bit_eq_div)
    also have "\<dots> = (if 0 \<le> sint v then 0 else - 1)"
    proof (cases "0 \<le> sint v")
      case False
      then have "(sint v + 2 ^ 31) div 2 ^ 31 = 0" using b by (intro div_pos_pos_trivial) auto
      then show ?thesis using False by simp
    qed (use b in simp)
    finally have "word_of_int (sint (signed_drop_bit 31 v)) = (word_of_int (if 0 \<le> sint v then 0 else - 1) :: i32)"
      by (rule arg_cong)
    then show ?thesis by simp
  qed
  have i: "sint (word_of_int k :: i32) = k" if "\<bar>k\<bar> < 2 ^ 31" for k
    using that by (simp add: signed_of_int signed_take_bit_int_eq_self abs_less_iff)
  have vi: "v = word_of_int (sint v)" by simp
  show "sint (fst (coef_val v)) = (if 0 \<le> sint v then sint v else sint v - 1)"
  proof (cases "0 \<le> sint v")
    case False
    have "v + - 1 = word_of_int (sint v - 1)" by simp
    then show ?thesis using False i [of "sint v - 1"] assms by (simp add: coef_val_def ds Let_def)
  qed (simp add: coef_val_def ds)
  have nb: "jpeg_nbits_nonzero (word_of_int k) = bit_len (nat k)" if k: "0 \<le> k" "k < 2 ^ 30" for k
  proof -
    have "unat (word_of_int k :: i32) = nat k"
      using k by (simp add: unat_eq_nat_uint uint_word_of_int take_bit_int_eq_self)
    moreover have "bit_len (nat k) \<le> 32"
    proof (cases "nat k = 0")
      case False
      have "(2 :: nat) ^ (bit_len (nat k) - 1) \<le> nat k" using bit_len_bounds [OF False] by simp
      also have "nat k < 2 ^ 30" using k by (simp add: nat_less_iff)
      finally have "bit_len (nat k) - 1 < 30" by (rule power_less_imp_less_exp [rotated]) simp
      then show ?thesis by simp
    qed simp
    ultimately show ?thesis by (simp add: jpeg_nbits_nonzero_def leading_zeros_def)
  qed
  show "snd (coef_val v) = bit_len (nat \<bar>sint v\<bar>)"
  proof (cases "0 \<le> sint v")
    case True
    then show ?thesis using nb [of "sint v"] assms by (simp add: coef_val_def ds)
  next
    case False
    have "(v + - 1) XOR - 1 = - v" by (simp add: bit.xor_one_right not_eq_complement)
    also have "\<dots> = word_of_int (- sint v)" by simp
    finally show ?thesis using False nb [of "- sint v"] assms by (simp add: coef_val_def ds)
  qed
qed

definition val_sym :: "i32 \<Rightarrow> nat" where "val_sym v = snd (coef_val v)"

lemma val_sym_bound:
  assumes "\<bar>sint v\<bar> < 2 ^ n" "n \<le> 30"
  shows "val_sym v \<le> n"
proof (cases "sint v = 0")
  case True
  then show ?thesis using coef_val_abs(2) [of v] by (simp add: val_sym_def)
next
  case False
  have "(2 :: int) ^ n \<le> 2 ^ 30" using assms(2) by (intro power_increasing) simp_all
  then have s: "val_sym v = bit_len (nat \<bar>sint v\<bar>)" using assms(1) coef_val_abs(2) [of v] by (simp add: val_sym_def)
  have "2 ^ (val_sym v - 1) \<le> nat \<bar>sint v\<bar>" unfolding s using False by (intro bit_len_bounds [THEN conjunct1]) simp
  then have "(2 :: int) ^ (val_sym v - 1) \<le> \<bar>sint v\<bar>" by (simp add: le_nat_iff)
  then have "(2 :: int) ^ (val_sym v - 1) < 2 ^ n" using assms(1) by (rule le_less_trans)
  then have "val_sym v - 1 < n" by (rule power_less_imp_less_exp [rotated]) simp
  then show ?thesis by simp
qed

lemma val_sym_0:
  assumes that: "\<bar>sint v\<bar> < 2 ^ 30"
  shows "val_sym v = 0 \<longleftrightarrow> v = 0"
proof (cases "v = 0")
  case False
  then have "nat \<bar>sint v\<bar> \<noteq> 0" using sint_nonzero [of v] by simp
  then have "0 < bit_len (nat \<bar>sint v\<bar>)" using bit_len_bounds by blast
  then show ?thesis using False coef_val_abs(2) [OF that] by (simp add: val_sym_def)
next
  case True
  then show ?thesis using coef_val_abs(2) [OF that] by (simp add: val_sym_def)
qed

text \<open>The value bits of a coefficient mean the coefficient.\<close>

lemma extend_coef:
  assumes "\<bar>sint v\<bar> < 2 ^ 30"
  shows "extend_bits (word_bits (fst (coef_val v)) (val_sym v)) = sint v"
proof (cases "v = 0")
  case True
  then show ?thesis using val_sym_0 [OF assms] by (simp add: extend_bits_def)
next
  case False
  then have nz: "nat \<bar>sint v\<bar> \<noteq> 0" using sint_nonzero [of v] by simp
  have s: "val_sym v = bit_len (nat \<bar>sint v\<bar>)" using coef_val_abs(2) [OF assms] by (simp add: val_sym_def)
  note b = bit_len_bounds [OF nz, folded s]
  have l: "2 ^ (val_sym v - 1) \<le> \<bar>sint v\<bar>" "\<bar>sint v\<bar> < 2 ^ val_sym v"
    using b by (auto simp: nat_less_iff le_nat_iff)
  show ?thesis
    using extend_word_bits [of "val_sym v" "sint v" "fst (coef_val v)"] b l val_sym_bound [OF assms]
      coef_val_abs(1) [OF assms] by auto
qed

section \<open>The codes of a block\<close>

definition sym_code :: "derived_tbl \<Rightarrow> nat \<Rightarrow> u32 \<times> u8" where
  "sym_code t s = (ehufco t ! s, ehufsi t ! s)"

definition val_code :: "derived_tbl \<Rightarrow> nat \<Rightarrow> i32 \<Rightarrow> u32 \<times> u8" where
  "val_code t r v =
     (let (val1, nbits) = coef_val v
      in ((val1 AND (push_bit nbits 1 - 1)) OR push_bit nbits (ehufco t ! (r + nbits)),
          ucast (of_nat nbits + ucast (ehufsi t ! (r + nbits)) :: i32)))"

fun ac_codes :: "derived_tbl \<Rightarrow> nat \<Rightarrow> i16 list \<Rightarrow> (u32 \<times> u8) list" where
  "ac_codes t r [] = (if 0 < r then [sym_code t 0] else [])"
| "ac_codes t r (v # vs) =
     (if v = 0 then ac_codes t (r + 16) vs
      else replicate (r div 256) (sym_code t 0xf0) @ val_code t (r mod 256) (scast v) # ac_codes t 0 vs)"

definition zigzag_ac :: "i16 list \<Rightarrow> i16 list" where
  "zigzag_ac blk = map (\<lambda>k. blk ! k) (drop 1 JPEG_NATURAL_ORDER)"

definition block_codes :: "derived_tbl \<Rightarrow> derived_tbl \<Rightarrow> i16 \<Rightarrow> i16 list \<Rightarrow> (u32 \<times> u8) list" where
  "block_codes dc ac last_dc blk =
     val_code dc 0 (scast (blk ! 0) - scast last_dc) # ac_codes ac 0 (zigzag_ac blk)"

lemma puts_code_simps [simp]:
  "puts_code [] eb = eb" "puts_code ((c, n) # cs) eb = puts_code cs (put_bits c n eb)"
  "puts_code (as @ bs) eb = puts_code bs (puts_code as eb)"
  by (simp_all add: puts_code_def)

lemma put_zrl_eq: "put_zrl t r eb = (r mod 256, puts_code (replicate (r div 256) (sym_code t 0xf0)) eb)"
proof (induction t r eb rule: put_zrl.induct)
  case (1 t r eb)
  show ?case
  proof (cases "256 \<le> r")
    case True
    then have "r div 256 = Suc ((r - 256) div 256)" "r mod 256 = (r - 256) mod 256"
      by (simp_all add: le_div_geq le_mod_geq)
    then show ?thesis using True 1 by (simp add: put_zrl.simps [of t r] sym_code_def)
  next
    case False
    then show ?thesis by (simp add: put_zrl.simps [of t r])
  qed
qed

lemma put_code_val:
  assumes "nbits < 2 ^ 32"
  shows "put_code code sz val1 (of_nat nbits) eb =
    put_bits ((val1 AND (push_bit nbits 1 - 1)) OR push_bit nbits code) (ucast (of_nat nbits + ucast sz :: i32)) eb"
  using assms by (simp add: put_code_def Let_def unat_of_nat_small)

lemma nbits_small: "snd (coef_val v) < 2 ^ 32"
proof -
  have "jpeg_nbits_nonzero x \<le> 32" for x by (simp add: jpeg_nbits_nonzero_def leading_zeros_def)
  then have "snd (coef_val v) \<le> 32" by (simp add: coef_val_def Let_def)
  then show ?thesis by (rule le_less_trans) simp
qed

lemma put_code_coef:
  "coef_val v = (val1, nbits) \<Longrightarrow>
   put_code (ehufco t ! (r + nbits)) (ehufsi t ! (r + nbits)) val1 (of_nat nbits) eb
     = puts_code [val_code t r v] eb"
  using nbits_small [of v] by (simp add: put_code_val val_code_def puts_code_def)

definition put_eob :: "derived_tbl \<Rightarrow> nat \<times> encode_buffer \<Rightarrow> encode_buffer" where
  "put_eob ac s = (case s of (r, eb) \<Rightarrow> if 0 < r then put_bits (ehufco ac ! 0) (ehufsi ac ! 0) eb else eb)"

lemma scast_zero: "(scast (v :: i16) :: i32) = 0 \<longleftrightarrow> v = 0"
proof
  assume "(scast v :: i32) = 0"
  then have "sint (scast v :: i32) = 0" by simp
  moreover have "sint (scast v :: i32) = sint v" by (simp add: sint_up_scast is_up)
  ultimately show "v = 0" using sint_nonzero by metis
qed simp

lemma encode_coefs:
  "put_eob ac (foldl (encode_coef ac blk) (r, eb) ks) = puts_code (ac_codes ac r (map (\<lambda>k. blk ! k) ks)) eb"
proof (induction ks arbitrary: r eb)
  case Nil
  then show ?case by (simp add: put_eob_def sym_code_def)
next
  case (Cons k ks)
  show ?case
  proof (cases "blk ! k = 0")
    case True
    then show ?thesis using Cons by (simp add: encode_coef_def)
  next
    case False
    obtain val1 nbits where v: "coef_val (scast (blk ! k)) = (val1, nbits)" by (cases "coef_val (scast (blk ! k))")
    have "encode_coef ac blk (r, eb) k =
        (0, puts_code (replicate (r div 256) (sym_code ac 0xf0) @ [val_code ac (r mod 256) (scast (blk ! k))]) eb)"
      using False by (simp add: encode_coef_def scast_zero v put_zrl_eq put_code_coef [OF v])
    then show ?thesis
      using False Cons by (cases "val_code ac (r mod 256) (scast (blk ! k))") simp
  qed
qed

lemma encode_one_block_session:
  "encode_one_block d st blk last_dc dc ac la W =
     (blk ! 0, enc_session BLOCK_BUFSIZE la (wd_rel_stream d) (block_codes dc ac last_dc blk)
                 (st, d\<lparr>wd_blkn := wd_blkn d + 1\<rparr>, W))"
proof -
  obtain val1 nbits where v: "coef_val (scast (blk ! 0) - scast last_dc) = (val1, nbits)" by fastforce
  let ?i = "eb_init BLOCK_BUFSIZE st (d\<lparr>wd_blkn := wd_blkn d + 1\<rparr>) la (wd_rel_stream d) W"
  let ?e = "put_code (ehufco dc ! nbits) (ehufsi dc ! nbits) val1 (of_nat nbits) ?i"
  have "?e = puts_code [val_code dc 0 (scast (blk ! 0) - scast last_dc)] ?i"
    using put_code_coef [OF v, of dc 0] by simp
  moreover have "put_eob ac (foldl (encode_coef ac blk) (0, ?e) (drop 1 JPEG_NATURAL_ORDER)) =
      puts_code (ac_codes ac 0 (zigzag_ac blk)) ?e"
    by (simp only: encode_coefs zigzag_ac_def)
  ultimately have p: "put_eob ac (foldl (encode_coef ac blk) (0, ?e) (drop 1 JPEG_NATURAL_ORDER)) =
      puts_code (block_codes dc ac last_dc blk) ?i"
    by (simp add: block_codes_def puts_code_def)
  obtain r eb where f: "foldl (encode_coef ac blk) (0, ?e) (drop 1 JPEG_NATURAL_ORDER) = (r, eb)" by fastforce
  have "(if 0 < r then put_bits (ehufco ac ! 0) (ehufsi ac ! 0) eb else eb) = puts_code (block_codes dc ac last_dc blk) ?i"
    using p by (simp only: f put_eob_def prod.case)
  moreover have "wd_rel_stream (d\<lparr>wd_blkn := wd_blkn d + 1\<rparr>) = wd_rel_stream d" by simp
  ultimately show ?thesis
    unfolding encode_one_block_def enc_session_def eb_session_def Let_def v by (simp only: prod.case f)
qed

section \<open>Decoding the codes\<close>

lemma code_bits_simps [simp]:
  "code_bits [] = []" "code_bits ((c, n) # cs) = word_bits c (unat n) @ code_bits cs"
  "code_bits (as @ bs) = code_bits as @ code_bits bs"
  by (simp_all add: code_bits_def)

lemma val_code_bits:
  assumes s_def: "s = r + val_sym v" and "unat (ehufsi t ! s) + val_sym v \<le> 31" "unat (ehufco t ! s) < 2 ^ unat (ehufsi t ! s)"
  shows "code_bits [val_code t r v] =
      word_bits (ehufco t ! s) (unat (ehufsi t ! s)) @ word_bits (fst (coef_val v)) (val_sym v)
    \<and> code_ok (val_code t r v)"
proof -
  let ?n = "val_sym v" and ?z = "unat (ehufsi t ! s)"
  define m where "m = fst (coef_val v) AND (push_bit ?n 1 - 1)"
  let ?w = "m OR push_bit ?n (ehufco t ! s)"
  let ?l = "ucast (of_nat ?n + ucast (ehufsi t ! s) :: i32) :: u8"
  have vc: "val_code t r v = (?w, ?l)"
    by (simp add: val_code_def val_sym_def s_def split_beta m_def)
  have "unat (of_nat ?n :: i32) = ?n" using assms(2) by (simp add: unat_of_nat_small)
  moreover have "unat (ucast (ehufsi t ! s) :: i32) = ?z" by (simp add: unat_ucast_up)
  ultimately have "unat (of_nat ?n + ucast (ehufsi t ! s) :: i32) = ?n + ?z"
    using assms(2) by (simp add: unat_add_no_wrap)
  then have l: "unat ?l = ?z + ?n" using assms(2) by (simp add: unsigned_ucast_eq take_bit_nat_eq_self)
  have mk: "m = take_bit ?n (fst (coef_val v))"
    by (simp add: m_def take_bit_eq_mask mask_eq_exp_minus_1)
  then have mb: "\<not> bit m k" if "?n \<le> k" for k using that by (simp add: bit_take_bit_iff)
  have cb: "\<not> bit (ehufco t ! s) j" if "?z \<le> j" for j
  proof -
    have "(2 :: nat) ^ ?z \<le> 2 ^ j" using that by simp
    with assms(3) have "unat (ehufco t ! s) < 2 ^ j" by (rule less_le_trans)
    then show ?thesis by (simp add: bit_unat)
  qed
  have "word_bits (push_bit ?n (ehufco t ! s) OR m) (?z + ?n) = word_bits (ehufco t ! s) ?z @ word_bits m ?n"
    using word_bits_append [of ?z ?n m "ehufco t ! s"] assms(2) mb by simp
  moreover have "word_bits m ?n = word_bits (fst (coef_val v)) ?n"
    unfolding mk by (simp add: word_bits_def bit_take_bit_iff)
  ultimately have b: "word_bits ?w (?z + ?n) = word_bits (ehufco t ! s) ?z @ word_bits (fst (coef_val v)) ?n"
    by (simp add: or.commute)
  have tb: "take_bit (?z + ?n) ?w = ?w"
  proof (rule bit_word_eqI)
    fix k assume "k < LENGTH(32)"
    show "bit (take_bit (?z + ?n) ?w) k = bit ?w k"
    proof (cases "?z + ?n \<le> k")
      case True
      then show ?thesis using mb [of k] cb [of "k - ?n"] by (simp add: bit_take_bit_iff bit_or_iff bit_push_bit_iff)
    qed (auto simp only: bit_take_bit_iff)
  qed
  have "unat (take_bit (?z + ?n) ?w) = unat ?w mod 2 ^ (?z + ?n)"
    unfolding unsigned_take_bit_eq by (rule take_bit_eq_mod)
  also have "\<dots> < 2 ^ (?z + ?n)" by simp
  finally have "unat ?w < 2 ^ (?z + ?n)" unfolding tb .
  moreover have "(2 :: nat) ^ (?z + ?n) < 2 ^ 32" using assms(2) by (intro power_strict_increasing) simp_all
  ultimately have "?w < 2 ^ (?z + ?n)"
    using unat_of_nat_small [where 'a = 32, of "2 ^ (?z + ?n)"] by (simp add: word_less_nat_alt)
  then have "code_ok (?w, ?l)" using assms(2) by (simp only: code_ok_def l fst_conv snd_conv)
  then show ?thesis using b l by (simp only: vc code_bits_simps append_Nil2)
qed

text \<open>The symbols a block uses.\<close>

fun ac_syms :: "nat \<Rightarrow> i16 list \<Rightarrow> nat list" where
  "ac_syms r [] = (if 0 < r then [0] else [])"
| "ac_syms r (v # vs) =
     (if v = 0 then ac_syms (r + 16) vs
      else (if 256 \<le> r then [0xf0] else []) @ (r mod 256 + val_sym (scast v)) # ac_syms 0 vs)"

definition block_coded :: "derived_tbl \<Rightarrow> derived_tbl \<Rightarrow> i16 \<Rightarrow> i16 list \<Rightarrow> bool" where
  "block_coded dc ac last_dc blk \<longleftrightarrow>
     (let s = val_sym (scast (blk ! 0) - scast last_dc)
      in ehufsi dc ! s > 0 \<and> unat (ehufsi dc ! s) + s \<le> 31)
   \<and> (\<forall>v \<in> set (zigzag_ac blk). v \<noteq> 0x8000)
   \<and> (\<forall>s \<in> set (ac_syms 0 (zigzag_ac blk)). ehufsi ac ! s > 0)"

lemma sint_scast_i16: "sint (scast (v :: i16) :: i32) = sint v"
  by (simp add: sint_up_scast is_up)

lemma sint_i16_bounds: "- 32768 \<le> sint (v :: i16)" "sint (v :: i16) < 32768"
  using sint_ge [of v] sint_lt [of v] by simp_all

lemma val_sym_i16:
  assumes "v \<noteq> 0x8000"
  shows "val_sym (scast (v :: i16)) \<le> 15"
proof -
  have "sint v \<noteq> - 32768"
  proof
    assume "sint v = - 32768"
    then have "v = word_of_int (- 32768)" by (metis of_int_sint scast_id)
    with assms show False by simp
  qed
  then have "\<bar>sint (scast v :: i32)\<bar> < 2 ^ 15" using sint_i16_bounds [of v] by (simp add: sint_scast_i16)
  then show ?thesis by (rule val_sym_bound) simp
qed

lemma prefix_code_entry:
  assumes "prefix_code t" "s < 256" "ehufsi t ! s > 0"
  shows "unat (ehufsi t ! s) \<le> 16" "unat (ehufco t ! s) < 2 ^ unat (ehufsi t ! s)"
proof -
  have "unat (ehufsi t ! s) \<le> 16 \<and> unat (ehufco t ! s) + 1 < 2 ^ unat (ehufsi t ! s)"
    using assms unfolding prefix_code_def by blast
  then show "unat (ehufsi t ! s) \<le> 16" "unat (ehufco t ! s) < 2 ^ unat (ehufsi t ! s)" by linarith+
qed

lemma dec_zrls:
  assumes "prefix_code t" "ehufsi t ! 0xf0 > 0"
  shows "dec_ac t (n + 16 * q) (code_bits (replicate q (sym_code t 0xf0)) @ bs) =
    map_option (\<lambda>(vs, bs). (replicate (16 * q) 0 @ vs, bs)) (dec_ac t n bs)"
proof (induction q)
  case 0
  show ?case by (simp add: option.map_ident split_beta)
next
  case (Suc q)
  have "dec_ac t (n + 16 * Suc q) (code_bits (replicate (Suc q) (sym_code t 0xf0)) @ bs) =
      map_option (\<lambda>(vs, bs). (replicate 16 0 @ vs, bs))
        (dec_ac t (n + 16 * q) (code_bits (replicate q (sym_code t 0xf0)) @ bs))"
    unfolding dec_ac.simps [of t "n + 16 * Suc q"]
    by (simp add: sym_code_def dec_sym_word [OF assms(1) _ assms(2)])
  then show ?case
    by (simp add: Suc option.map_comp comp_def split_beta replicate_add)
qed

lemma dec_ac_codes:
  assumes p: "prefix_code t" and "\<forall>s \<in> set (ac_syms x vs). ehufsi t ! s > 0"
    and "\<forall>v \<in> set vs. v \<noteq> 0x8000" "x = 16 * z"
  shows "dec_ac t (length vs + z) (code_bits (ac_codes t x vs) @ bs) = Some (replicate z 0 @ map sint vs, bs)"
  using assms(2-4)
proof (induction vs arbitrary: z x)
  case Nil
  show ?case
  proof (cases "z = 0")
    case True
    then show ?thesis using Nil by (simp add: dec_ac.simps)
  next
    case False
    then have "ehufsi t ! 0 > 0" using Nil by simp
    with False Nil show ?thesis
      by (simp add: dec_ac.simps [of t z] sym_code_def dec_sym_word [OF p])
  qed
next
  case (Cons v vs)
  show ?case
  proof (cases "v = 0")
    case True
    with Cons.IH [of "x + 16" "Suc z"] Cons.prems show ?thesis
      by (simp add: replicate_app_Cons_same)
  next
    case False
    define n where "n = val_sym (scast v)"
    define q where "q = z div 16"
    define r where "r = z mod 16"
    have z: "z = 16 * q + r" "r < 16" by (simp_all add: q_def r_def)
    have d: "x div 256 = q" "x mod 256 = 16 * r"
      using mult_mod_right [of 16 z 16] by (simp_all add: q_def r_def Cons.prems(3))
    let ?s = "16 * r + n"
    have ab: "\<bar>sint (scast v :: i32)\<bar> < 2 ^ 30" using sint_i16_bounds [of v] by (simp add: sint_scast_i16)
    have n: "n \<le> 15" "n \<noteq> 0"
      using val_sym_i16 [of v] val_sym_0 [OF ab] False Cons.prems by (simp_all add: n_def scast_zero)
    have s: "ehufsi t ! ?s > 0" "?s < 256" "?s div 16 = r" "?s mod 16 = n"
      using Cons.prems False n z by (simp_all add: d n_def [symmetric])
    have sz: "unat (ehufsi t ! ?s) \<le> 16" "unat (ehufco t ! ?s) < 2 ^ unat (ehufsi t ! ?s)"
      using prefix_code_entry [OF p s(2,1)] .
    have vb: "code_bits [val_code t (16 * r) (scast v)] = word_bits (ehufco t ! ?s) (unat (ehufsi t ! ?s))
        @ word_bits (fst (coef_val (scast v))) n"
      using val_code_bits [of ?s "16 * r" "scast v" t] sz n by (simp add: n_def)
    have ih: "dec_ac t (length vs + 0) (code_bits (ac_codes t 0 vs) @ bs) = Some (replicate 0 0 @ map sint vs, bs)"
      using Cons.prems False by (intro Cons.IH) simp_all
    let ?rest = "code_bits (ac_codes t 0 vs) @ bs"
    have R: "dec_ac t (Suc (length vs) + r) (code_bits [val_code t (16 * r) (scast v)] @ ?rest) =
        Some (replicate r 0 @ sint v # map sint vs, bs)"
    proof -
      have "dec_sym t (code_bits [val_code t (16 * r) (scast v)] @ ?rest) =
          Some (?s, word_bits (fst (coef_val (scast v))) n @ ?rest)"
        unfolding vb append_assoc by (rule dec_sym_word [OF p s(2,1)])
      moreover have "extend_bits (word_bits (fst (coef_val (scast v))) n) = sint v"
        using extend_coef [OF ab] by (simp add: n_def sint_scast_i16)
      ultimately show ?thesis
        using ih n by (simp add: dec_ac.simps [of t "Suc (length vs + r)"] s)
    qed
    have Q: "q = 0 \<or> ehufsi t ! 0xf0 > 0" using Cons.prems False z by (auto split: if_splits)
    have C: "code_bits (ac_codes t x (v # vs)) =
        code_bits (replicate q (sym_code t 0xf0)) @ code_bits [val_code t (16 * r) (scast v)] @ code_bits (ac_codes t 0 vs)"
      using False by (cases "val_code t (16 * r) (scast v)") (simp add: d)
    have L: "length (v # vs) + z = (Suc (length vs) + r) + 16 * q" using z by simp
    have "dec_ac t ((Suc (length vs) + r) + 16 * q)
        (code_bits (replicate q (sym_code t 0xf0)) @ code_bits [val_code t (16 * r) (scast v)] @ ?rest)
      = Some (replicate (16 * q) 0 @ replicate r 0 @ sint v # map sint vs, bs)"
    proof (cases "q = 0")
      case False
      with Q have "ehufsi t ! 0xf0 > 0" by simp
      from dec_zrls [OF p this, of "Suc (length vs) + r" q "code_bits [val_code t (16 * r) (scast v)] @ ?rest"] R
      show ?thesis by simp
    qed (use R in simp)
    then show ?thesis unfolding L C append_assoc by (simp add: z(1) replicate_add)
  qed
qed

text \<open>The codes fit the bit encoder and the local array.\<close>

lemma ac_codes_ok:
  assumes p: "prefix_code t" and "\<forall>s \<in> set (ac_syms x vs). ehufsi t ! s > 0"
    and "\<forall>v \<in> set vs. v \<noteq> 0x8000" "16 dvd x"
  shows "(\<forall>c \<in> set (ac_codes t x vs). code_ok c) \<and> length (code_bits (ac_codes t x vs)) \<le> 31 * length vs + x"
  using assms(2-4)
proof (induction vs arbitrary: x)
  have sym: "code_ok (sym_code t s) \<and> length (code_bits [sym_code t s]) \<le> 16" if "ehufsi t ! s > 0" "s < 256" for s
  proof -
    have z: "unat (ehufsi t ! s) \<le> 16" "unat (ehufco t ! s) < 2 ^ unat (ehufsi t ! s)"
      using prefix_code_entry [OF p] that by simp_all
    have "unat (2 ^ unat (ehufsi t ! s) :: u32) = 2 ^ unat (ehufsi t ! s)"
    proof -
      have "(2 :: nat) ^ unat (ehufsi t ! s) < 2 ^ 32" using z by (intro power_strict_increasing) simp_all
      then show ?thesis using unat_of_nat_small [where 'a = 32, of "2 ^ unat (ehufsi t ! s)"] by simp
    qed
    then show ?thesis using z by (simp add: sym_code_def code_ok_def word_less_nat_alt)
  qed
  {
    case Nil
    then have "x = 0 \<or> 16 \<le> x" by (auto elim: dvdE)
    then show ?case using Nil sym [of 0] by auto
  next
    case (Cons v vs)
    show ?case
    proof (cases "v = 0")
      case True
      then show ?thesis using Cons.IH [of "x + 16"] Cons.prems by simp
    next
      case False
      define n where "n = val_sym (scast v)"
      have n: "n \<le> 15" using val_sym_i16 [of v] Cons.prems by (simp add: n_def)
      let ?s = "x mod 256 + n"
      have m: "x mod 256 \<le> 240"
      proof -
        obtain k where "x = 16 * k" using Cons.prems(3) by (elim dvdE)
        then have "x mod 256 = 16 * (k mod 16)" using mult_mod_right [of 16 k 16] by simp
        moreover have "k mod 16 < 16" by simp
        ultimately show ?thesis by linarith
      qed
      have s: "ehufsi t ! ?s > 0" using Cons.prems False by (simp add: n_def)
      have z: "unat (ehufsi t ! ?s) \<le> 16" "unat (ehufco t ! ?s) < 2 ^ unat (ehufsi t ! ?s)"
        using prefix_code_entry [OF p, of ?s] s m n by simp_all
      have vb: "length (code_bits [val_code t (x mod 256) (scast v)]) \<le> 31"
        "code_ok (val_code t (x mod 256) (scast v))"
        using val_code_bits [of ?s "x mod 256" "scast v" t] z n by (simp_all add: n_def)
      have zr: "x div 256 = 0 \<or> ehufsi t ! 0xf0 > 0"
        using Cons.prems False by (cases "256 \<le> x") simp_all
      have rep: "length (code_bits (replicate k (sym_code t 0xf0))) = k * unat (ehufsi t ! 0xf0)" for k
        by (induction k) (simp_all add: sym_code_def)
      have L1: "length (code_bits (replicate (x div 256) (sym_code t 0xf0))) \<le> x"
      proof (cases "x div 256 = 0")
        case False
        then have "unat (ehufsi t ! 0xf0) \<le> 16" using zr prefix_code_entry(1) [OF p] by simp
        then have "x div 256 * unat (ehufsi t ! 0xf0) \<le> x div 256 * 16" by (intro mult_le_mono2)
        also have "\<dots> \<le> x" by simp
        finally show ?thesis unfolding rep .
      qed simp
      have ih: "length (code_bits (ac_codes t 0 vs)) \<le> 31 * length vs" "\<forall>c \<in> set (ac_codes t 0 vs). code_ok c"
        using Cons.IH [of 0] Cons.prems False by simp_all
      have zs: "\<forall>c \<in> set (replicate (x div 256) (sym_code t 0xf0)). code_ok c"
        using zr sym [of "0xf0"] by (cases "x div 256 = 0") simp_all
      have bound: "l = a + b + c \<Longrightarrow> a \<le> x \<Longrightarrow> c \<le> 31 * n \<Longrightarrow> b \<le> 31 \<Longrightarrow> l \<le> 31 * Suc n + x"
        for l a b c n :: nat by simp
      have L: "length (code_bits (ac_codes t x (v # vs))) =
          length (code_bits (replicate (x div 256) (sym_code t 0xf0)))
          + length (code_bits [val_code t (x mod 256) (scast v)]) + length (code_bits (ac_codes t 0 vs))"
        using False by (cases "val_code t (x mod 256) (scast v)") simp
      have "length (code_bits (ac_codes t x (v # vs))) \<le> 31 * length (v # vs) + x"
        unfolding length_Cons by (rule bound [OF L L1 ih(1) vb(1)])
      moreover have "ac_codes t x (v # vs) = replicate (x div 256) (sym_code t 0xf0)
          @ val_code t (x mod 256) (scast v) # ac_codes t 0 vs"
        using False by simp
      ultimately show ?thesis
        using zs ih(2) vb(2) by (simp only: set_append list.set ball_Un ball_simps simp_thms)
    qed
  }
qed

section \<open>Encoding keeps the kind of the sink\<close>

lemma send_rel [simp]: "wd_rel_stream (fst (snd (rp_send_buffer d term rel W))) = wd_rel_stream d"
  by (auto simp: rp_send_buffer_def Let_def split: prod.splits bool.splits option.splits)

lemma flush_rel [simp]: "wd_rel_stream (fst (snd (Worker_Dst.flush d W))) = wd_rel_stream d"
  by (simp add: Worker_Dst.flush_def Let_def)

lemma write_byte_rel [simp]: "wd_rel_stream (fst (snd (write_byte b d W))) = wd_rel_stream d"
proof (cases "wd_free d = 0")
  case True
  obtain r d' W' where "Worker_Dst.flush d W = (r, d', W')" by (cases "Worker_Dst.flush d W")
  with flush_rel [of d W] True show ?thesis by (cases r) (simp_all add: write_byte_def)
qed (simp add: write_byte_def)

lemma copy_tail_rel [simp]: "wd_rel_stream (fst (snd (copy_tail bs n d W))) = wd_rel_stream d"
  by (simp add: copy_tail_def)

lemma flush_then_copy_rel:
  "wd_rel_stream (fst (snd (case Worker_Dst.flush d W of (False, d, W) \<Rightarrow> (False, d, W)
     | (True, d, W) \<Rightarrow> copy_tail bs n d W))) = wd_rel_stream d"
proof -
  obtain r d' W' where "Worker_Dst.flush d W = (r, d', W')" by (cases "Worker_Dst.flush d W")
  with flush_rel [of d W] show ?thesis by (cases r) simp_all
qed

lemma write_bytes_rel [simp]: "wd_rel_stream (fst (snd (write_bytes bs d W))) = wd_rel_stream d"
  by (simp add: write_bytes_def Let_def flush_then_copy_rel)

definition eb_rel :: "encode_buffer \<Rightarrow> bool" where "eb_rel eb = wd_rel_stream (eb_dst eb)"

lemma eb_rel_simps [simp]:
  "eb_rel (eb\<lparr>eb_buf := x\<rparr>) = eb_rel eb" "eb_rel (eb\<lparr>eb_state := st\<rparr>) = eb_rel eb"
  "eb_rel (poke q b eb) = eb_rel eb" "eb_rel (eb_write_byte b eb) = eb_rel eb"
  by (simp_all add: eb_rel_def poke_def eb_write_byte_def split_beta)

lemma emit_byte_rel [simp]: "eb_rel (emit_byte b eb) = eb_rel eb"
  by (simp add: emit_byte_def Let_def)

lemma put_bits_rel [simp]: "eb_rel (put_bits c n eb) = eb_rel eb"
proof -
  have "eb_rel (eb_flush e) = eb_rel e" for e by (simp add: eb_flush_def Let_def)
  then show ?thesis by (simp add: put_bits_def put_and_flush_def Let_def)
qed

lemma puts_code_rel [simp]: "eb_rel (puts_code cs eb) = eb_rel eb"
  by (induction cs arbitrary: eb) (auto simp del: puts_code_simps(3) simp: split_paired_all)

lemma eb_store_rel [simp]: "eb_rel (eb_store eb) = eb_rel eb"
  by (auto simp: eb_store_def eb_rel_def split_beta advance_to_def split: encode_buffer_base.splits)

lemma enc_session_rel:
  "enc_session n la ne cs (st, d, W) = (st', d', W') \<Longrightarrow> wd_rel_stream d' = wd_rel_stream d"
proof -
  assume "enc_session n la ne cs (st, d, W) = (st', d', W')"
  then have "d' = eb_dst (eb_store (puts_code cs (eb_init n st d la ne W)))"
    by (simp add: enc_session_def eb_session_def Let_def)
  moreover have "eb_rel (eb_store (puts_code cs (eb_init n st d la ne W))) = eb_rel (eb_init n st d la ne W)"
    by (simp only: eb_store_rel puts_code_rel)
  moreover have "eb_rel (eb_init n st d la ne W) = wd_rel_stream d"
    by (simp add: eb_rel_def eb_init_def)
  ultimately show ?thesis by (simp only: eb_rel_def)
qed

section \<open>Blocks as units\<close>

text \<open>A block with the index of its component and its two tables.\<close>

type_synonym block_unit = "nat \<times> derived_tbl \<times> derived_tbl \<times> i16 list"

definition enc_unit :: "nat \<Rightarrow> block_unit \<Rightarrow> jpeg_enc \<Rightarrow> jpeg_enc" where
  "enc_unit la u je = (case u of (ci, dc, ac, blk) \<Rightarrow> snd (encode_next ci dc ac la [blk] (0, je)))"

fun units_coded :: "i16 list \<Rightarrow> block_unit list \<Rightarrow> bool" where
  "units_coded lasts [] = True"
| "units_coded lasts ((ci, dc, ac, blk) # us) \<longleftrightarrow>
     ci < length lasts \<and> length blk = DCTSIZE2 \<and> block_coded dc ac (lasts ! ci) blk
   \<and> units_coded (lasts[ci := blk ! 0]) us"

fun units_apart :: "nat \<Rightarrow> block_unit list \<Rightarrow> jpeg_enc \<Rightarrow> bool" where
  "units_apart la [] je \<longleftrightarrow> apart la 16 (je_dst je) (je_world je)"
| "units_apart la (u # us) je \<longleftrightarrow>
     apart la BLOCK_BUFSIZE (je_dst je) (je_world je) \<and> units_apart la us (enc_unit la u je)"

text \<open>The meaning of a bit stream as a sequence of blocks.\<close>

definition dezigzag :: "int list \<Rightarrow> int list" where
  "dezigzag zz = map (\<lambda>i. the (map_of (zip JPEG_NATURAL_ORDER zz) i)) [0 ..< DCTSIZE2]"

fun dec_units :: "(nat \<times> derived_tbl \<times> derived_tbl) list \<Rightarrow> int list \<Rightarrow> bool list
    \<Rightarrow> (int list list \<times> bool list) option" where
  "dec_units [] preds bs = Some ([], bs)"
| "dec_units ((ci, dc, ac) # us) preds bs =
     (case dec_zigzag dc ac (preds ! ci) bs of None \<Rightarrow> None
      | Some (zz, bs) \<Rightarrow> map_option (\<lambda>(blks, bs). (dezigzag zz # blks, bs))
           (dec_units us (preds[ci := hd zz]) bs))"

lemma natural_order: "set JPEG_NATURAL_ORDER = {..<64}" "length JPEG_NATURAL_ORDER = 64"
  "JPEG_NATURAL_ORDER = 0 # drop 1 JPEG_NATURAL_ORDER"
proof -
  have "set JPEG_NATURAL_ORDER = set [0 ..< 64]" by code_simp
  then show "set JPEG_NATURAL_ORDER = {..<64}" by (simp add: atLeast0LessThan)
qed (simp_all add: JPEG_NATURAL_ORDER_def)

lemma dezigzag_zigzag:
  assumes "length blk = DCTSIZE2"
  shows "dezigzag (map (\<lambda>k. sint (blk ! k)) JPEG_NATURAL_ORDER) = map sint blk"
proof -
  have "map_of (zip JPEG_NATURAL_ORDER (map (\<lambda>k. sint (blk ! k)) JPEG_NATURAL_ORDER)) i = Some (sint (blk ! i))"
    if "i < 64" for i
    using that natural_order(1) by (simp add: map_of_zip_map)
  then show ?thesis
    using assms by (intro nth_equalityI) (simp_all add: dezigzag_def DCTSIZE2_def)
qed

lemma sint_diff_i16: "sint (scast a - scast b :: i32) = sint a - sint (b :: i16)" for a :: i16
proof -
  have sc: "(scast w :: i32) = word_of_int (sint w)" for w :: i16 by (rule scast_eq)
  have "scast a - scast b = (word_of_int (sint a - sint b) :: i32)" by (simp only: sc of_int_diff)
  then show ?thesis
    using sint_i16_bounds [of a] sint_i16_bounds [of b]
    by (simp only: signed_of_int) (simp add: signed_take_bit_int_eq_self)
qed

lemma dec_block:
  assumes "prefix_code dc" "prefix_code ac" "block_coded dc ac lst blk"
  shows "dec_zigzag dc ac (sint lst) (code_bits (block_codes dc ac lst blk) @ bs) =
      Some (map (\<lambda>k. sint (blk ! k)) JPEG_NATURAL_ORDER, bs)
    \<and> (\<forall>c \<in> set (block_codes dc ac lst blk). code_ok c)
    \<and> length (code_bits (block_codes dc ac lst blk)) \<le> 1984"
proof -
  define v where "v = (scast (blk ! 0) - scast lst :: i32)"
  let ?s = "val_sym v"
  have sv: "sint v = sint (blk ! 0) - sint lst" unfolding v_def by (rule sint_diff_i16)
  have b: "\<bar>sint v\<bar> < 2 ^ 17"
    using sv sint_i16_bounds [of "blk ! 0"] sint_i16_bounds [of lst] by simp
  then have "?s \<le> 17" by (rule val_sym_bound) simp
  then have s: "?s < 256" "ehufsi dc ! ?s > 0" "unat (ehufsi dc ! ?s) + ?s \<le> 31"
    using assms(3) by (simp_all add: block_coded_def Let_def v_def [symmetric])
  have ext: "extend_bits (word_bits (fst (coef_val v)) ?s) = sint (blk ! 0) - sint lst"
    using extend_coef [of v] b sv by simp
  note z = prefix_code_entry [OF assms(1) s(1,2)]
  note vc = val_code_bits [OF add_0 [symmetric] s(3) z(2)]
  have vb: "code_bits [val_code dc 0 v] = word_bits (ehufco dc ! ?s) (unat (ehufsi dc ! ?s)) @ word_bits (fst (coef_val v)) ?s"
    "code_ok (val_code dc 0 v)"
    using conjunct1 [OF vc] conjunct2 [OF vc] .
  have lz: "length (zigzag_ac blk) = 63" by (simp add: zigzag_ac_def natural_order(2))
  have ac: "\<forall>s \<in> set (ac_syms 0 (zigzag_ac blk)). ehufsi ac ! s > 0" "\<forall>v \<in> set (zigzag_ac blk). v \<noteq> 0x8000"
    using assms(3) by (simp_all add: block_coded_def)
  have d: "dec_ac ac 63 (code_bits (ac_codes ac 0 (zigzag_ac blk)) @ bs) = Some (map sint (zigzag_ac blk), bs)"
    using dec_ac_codes [OF assms(2) ac, of 0 bs] lz by simp
  have bc: "code_bits (block_codes dc ac lst blk) =
      code_bits [val_code dc 0 v] @ code_bits (ac_codes ac 0 (zigzag_ac blk))"
    by (cases "val_code dc 0 v") (simp add: block_codes_def v_def [symmetric])
  have "map (\<lambda>k. sint (blk ! k)) JPEG_NATURAL_ORDER = sint (blk ! 0) # map sint (zigzag_ac blk)"
    by (subst natural_order(3)) (simp add: zigzag_ac_def)
  moreover have "dec_sym dc (code_bits (block_codes dc ac lst blk) @ bs) =
      Some (?s, word_bits (fst (coef_val v)) ?s @ code_bits (ac_codes ac 0 (zigzag_ac blk)) @ bs)"
    unfolding bc vb(1) append_assoc by (rule dec_sym_word [OF assms(1) s(1,2)])
  ultimately have "dec_zigzag dc ac (sint lst) (code_bits (block_codes dc ac lst blk) @ bs) =
      Some (map (\<lambda>k. sint (blk ! k)) JPEG_NATURAL_ORDER, bs)"
    using d ext by (simp add: dec_zigzag_def)
  moreover have "\<forall>c \<in> set (block_codes dc ac lst blk). code_ok c"
    using vb(2) ac_codes_ok [OF assms(2) ac] by (simp add: block_codes_def v_def [symmetric])
  moreover have "length (code_bits (block_codes dc ac lst blk)) \<le> 1984"
    unfolding bc using ac_codes_ok [OF assms(2) ac] s(3) lz by (simp add: vb(1))
  ultimately show ?thesis by blast
qed

section \<open>Runs of blocks\<close>

lemma blkn_irrelevant [simp]:
  "wd_out (d\<lparr>wd_blkn := b\<rparr>) W = wd_out d W" "wd_inv (d\<lparr>wd_blkn := b\<rparr>) W = wd_inv d W"
  "wd_live (d\<lparr>wd_blkn := b\<rparr>, W) = wd_live (d, W)" "wd_kind (d\<lparr>wd_blkn := b\<rparr>) = wd_kind d"
  "apart la n (d\<lparr>wd_blkn := b\<rparr>) W = apart la n d W"
  by (cases "wd_user d"; simp add: wd_out_def wd_inv_def wd_live_def wd_room_def wd_kind_def apart_def
      wd_start_def wd_base_def)+

lemma encoded_blkn [simp]:
  "encoded ne (st, d\<lparr>wd_blkn := b\<rparr>, W) xs s = encoded ne (st, d, W) xs s"
  by (cases s) (simp add: encoded_def)

definition je_state :: "jpeg_enc \<Rightarrow> bit_state \<times> worker_dst \<times> nwm_world" where
  "je_state je = (je_bits je, je_dst je, je_world je)"

definition je_live :: "jpeg_enc \<Rightarrow> bool" where
  "je_live je = wd_live (je_dst je, je_world je)"

lemma enc_unit_eq:
  "je_state (enc_unit la (ci, dc, ac, blk) je) =
     enc_session BLOCK_BUFSIZE la (wd_rel_stream (je_dst je)) (block_codes dc ac (je_last je ! ci) blk)
       (je_bits je, (je_dst je)\<lparr>wd_blkn := wd_blkn (je_dst je) + 1\<rparr>, je_world je)"
  "je_last (enc_unit la (ci, dc, ac, blk) je) = (je_last je)[ci := blk ! 0]"
  by (simp_all add: enc_unit_def encode_next_def encode_one_block_session je_state_def split_beta Let_def)

definition unit_tables :: "block_unit \<Rightarrow> bool" where
  "unit_tables u = (case u of (ci, dc, ac, blk) \<Rightarrow> prefix_code dc \<and> prefix_code ac)"

definition unit_shape :: "block_unit \<Rightarrow> nat \<times> derived_tbl \<times> derived_tbl" where
  "unit_shape u = (case u of (ci, dc, ac, blk) \<Rightarrow> (ci, dc, ac))"

definition unit_block :: "block_unit \<Rightarrow> i16 list" where
  "unit_block u = (case u of (ci, dc, ac, blk) \<Rightarrow> blk)"

lemma enc_unit_back:
  assumes "wd_kind (je_dst je)" "bs_wf (je_bits je)" "unit_tables (ci, dc, ac, blk)"
    "block_coded dc ac (je_last je ! ci) blk"
  shows "wd_kind (je_dst (enc_unit la (ci, dc, ac, blk) je)) \<and> bs_wf (je_bits (enc_unit la (ci, dc, ac, blk) je))
    \<and> w_pds (je_world (enc_unit la (ci, dc, ac, blk) je)) = w_pds (je_world je)
    \<and> wd_rel_stream (je_dst (enc_unit la (ci, dc, ac, blk) je)) = wd_rel_stream (je_dst je)
    \<and> (je_live (enc_unit la (ci, dc, ac, blk) je) \<longrightarrow> je_live je)"
proof -
  let ?e = "enc_unit la (ci, dc, ac, blk) je"
  have r: "enc_session BLOCK_BUFSIZE la (wd_rel_stream (je_dst je)) (block_codes dc ac (je_last je ! ci) blk)
       (je_bits je, (je_dst je)\<lparr>wd_blkn := wd_blkn (je_dst je) + 1\<rparr>, je_world je)
     = (je_bits ?e, je_dst ?e, je_world ?e)"
    unfolding enc_unit_eq(1) [symmetric] by (simp add: je_state_def)
  have ok: "\<forall>c \<in> set (block_codes dc ac (je_last je ! ci) blk). code_ok c"
    using dec_block [of dc ac "je_last je ! ci" blk] assms(3,4) by (simp add: unit_tables_def)
  from enc_session_back [OF r _ assms(2) ok] enc_session_rel [OF r] assms(1)
  show ?thesis by (simp add: je_live_def)
qed

lemma enc_units_back:
  assumes "wd_kind (je_dst je)" "bs_wf (je_bits je)" "\<forall>u \<in> set us. unit_tables u"
    "units_coded (je_last je) us" "je_live (fold (enc_unit la) us je)"
  shows "je_live je"
  using assms
proof (induction us arbitrary: je)
  case (Cons u us)
  obtain ci dc ac blk where u: "u = (ci, dc, ac, blk)" by (cases u)
  have c: "unit_tables (ci, dc, ac, blk)" "block_coded dc ac (je_last je ! ci) blk"
    using Cons.prems(3,4) by (simp_all add: u)
  note b = enc_unit_back [OF Cons.prems(1,2) c, of la]
  have "je_live (enc_unit la (ci, dc, ac, blk) je)"
  proof (rule Cons.IH)
    show "\<forall>u \<in> set us. unit_tables u" using Cons.prems(3) by simp
    show "units_coded (je_last (enc_unit la (ci, dc, ac, blk) je)) us"
      using Cons.prems(4) by (simp only: u units_coded.simps enc_unit_eq)
    show "je_live (fold (enc_unit la) us (enc_unit la (ci, dc, ac, blk) je))"
      using Cons.prems(5) by (simp only: u fold_simps)
  qed (use b in blast)+
  then show ?case using b by blast
qed simp

lemma enc_units_kind:
  assumes "wd_kind (je_dst je)" "bs_wf (je_bits je)" "\<forall>u \<in> set us. unit_tables u"
    "units_coded (je_last je) us"
  shows "wd_kind (je_dst (fold (enc_unit la) us je)) \<and> bs_wf (je_bits (fold (enc_unit la) us je))"
  using assms
proof (induction us arbitrary: je)
  case (Cons u us)
  obtain ci dc ac blk where u: "u = (ci, dc, ac, blk)" by (cases u)
  have c: "unit_tables (ci, dc, ac, blk)" "block_coded dc ac (je_last je ! ci) blk"
    using Cons.prems(3,4) by (simp_all add: u)
  note b = enc_unit_back [OF Cons.prems(1,2) c, of la]
  have "units_coded (je_last (enc_unit la (ci, dc, ac, blk) je)) us"
    using Cons.prems(4) by (simp only: u units_coded.simps enc_unit_eq)
  then show ?case
    using Cons.IH [of "enc_unit la (ci, dc, ac, blk) je"] b Cons.prems(3) by (simp add: u)
qed simp

lemma enc_unit_encoded:
  assumes "wd_inv (je_dst je) (je_world je)" "bs_wf (je_bits je)" "BLOCK_BUFSIZE \<le> w_pds (je_world je)"
    "unit_tables (ci, dc, ac, blk)" "block_coded dc ac (je_last je ! ci) blk"
    "apart la BLOCK_BUFSIZE (je_dst je) (je_world je)" "je_live (enc_unit la (ci, dc, ac, blk) je)"
  shows "encoded (wd_rel_stream (je_dst je)) (je_state je)
    (code_bits (block_codes dc ac (je_last je ! ci) blk)) (je_state (enc_unit la (ci, dc, ac, blk) je))"
proof -
  let ?e = "enc_unit la (ci, dc, ac, blk) je" and ?cs = "block_codes dc ac (je_last je ! ci) blk"
  have r: "enc_session BLOCK_BUFSIZE la (wd_rel_stream (je_dst je)) ?cs
       (je_bits je, (je_dst je)\<lparr>wd_blkn := wd_blkn (je_dst je) + 1\<rparr>, je_world je)
     = (je_bits ?e, je_dst ?e, je_world ?e)"
    unfolding enc_unit_eq(1) [symmetric] by (simp add: je_state_def)
  have ok: "\<forall>c \<in> set ?cs. code_ok c" "length (code_bits ?cs) \<le> 1984"
    using dec_block [of dc ac "je_last je ! ci" blk] assms(4,5) by (simp_all add: unit_tables_def)
  have "(32 + length (code_bits ?cs)) div 32 \<le> (32 + 1984) div 32"
    using ok(2) by (intro div_le_mono) simp
  then have "8 * ((32 + length (code_bits ?cs)) div 32) \<le> BLOCK_BUFSIZE"
    by (simp add: BLOCK_BUFSIZE_def DCTSIZE2_def)
  with enc_session_encoded [OF r _ assms(2) ok(1)] assms(1,3,6,7)
  show ?thesis by (simp add: je_live_def je_state_def)
qed

lemma enc_units_encoded:
  assumes "wd_inv (je_dst je) (je_world je)" "bs_wf (je_bits je)" "BLOCK_BUFSIZE \<le> w_pds (je_world je)"
    "\<forall>u \<in> set us. unit_tables u" "units_coded (je_last je) us" "units_apart la us je"
    "je_live (fold (enc_unit la) us je)"
  shows "\<exists>xs. encoded (wd_rel_stream (je_dst je)) (je_state je) xs (je_state (fold (enc_unit la) us je))
    \<and> (\<forall>bs. dec_units (map unit_shape us) (map sint (je_last je)) (xs @ bs) = Some (map (map sint \<circ> unit_block) us, bs))
    \<and> w_pds (je_world (fold (enc_unit la) us je)) = w_pds (je_world je)
    \<and> wd_rel_stream (je_dst (fold (enc_unit la) us je)) = wd_rel_stream (je_dst je)
    \<and> apart la 16 (je_dst (fold (enc_unit la) us je)) (je_world (fold (enc_unit la) us je))"
  using assms
proof (induction us arbitrary: je)
  case Nil
  have "encoded (wd_rel_stream (je_dst je)) (je_state je) [] (je_state je)"
    using Nil by (auto simp: encoded_def je_state_def je_live_def intro: exI [of _ "[]"])
  then show ?case using Nil by auto
next
  case (Cons u us)
  obtain ci dc ac blk where u: "u = (ci, dc, ac, blk)" by (cases u)
  let ?e = "enc_unit la (ci, dc, ac, blk) je" and ?xs = "code_bits (block_codes dc ac (je_last je ! ci) blk)"
  have c: "unit_tables (ci, dc, ac, blk)" "block_coded dc ac (je_last je ! ci) blk"
    "length blk = DCTSIZE2" "ci < length (je_last je)"
    using Cons.prems(4,5) by (simp_all add: u)
  note b = enc_unit_back [OF wd_inv_kind [OF Cons.prems(1)] Cons.prems(2) c(1,2), of la]
  have uc: "units_coded (je_last ?e) us" using Cons.prems(5) by (simp add: u enc_unit_eq)
  have live: "je_live ?e"
  proof (rule enc_units_back)
    show "\<forall>u \<in> set us. unit_tables u" using Cons.prems(4) by simp
    show "je_live (fold (enc_unit la) us ?e)" using Cons.prems(7) by (simp only: u fold_simps)
  qed (use b uc in blast)+
  have e1: "encoded (wd_rel_stream (je_dst je)) (je_state je) ?xs (je_state ?e)"
    using Cons.prems(6) by (intro enc_unit_encoded [OF Cons.prems(1-3) c(1,2) _ live]) (simp add: u)
  then have inv: "wd_inv (je_dst ?e) (je_world ?e)" by (simp add: encoded_def je_state_def)
  obtain ys where ys: "encoded (wd_rel_stream (je_dst ?e)) (je_state ?e) ys (je_state (fold (enc_unit la) us ?e))"
    "\<forall>bs. dec_units (map unit_shape us) (map sint (je_last ?e)) (ys @ bs) = Some (map (map sint \<circ> unit_block) us, bs)"
    "w_pds (je_world (fold (enc_unit la) us ?e)) = w_pds (je_world ?e)"
    "wd_rel_stream (je_dst (fold (enc_unit la) us ?e)) = wd_rel_stream (je_dst ?e)"
    "apart la 16 (je_dst (fold (enc_unit la) us ?e)) (je_world (fold (enc_unit la) us ?e))"
  proof -
    have "bs_wf (je_bits ?e)" "BLOCK_BUFSIZE \<le> w_pds (je_world ?e)" "\<forall>u \<in> set us. unit_tables u"
      "units_apart la us ?e" "je_live (fold (enc_unit la) us ?e)"
      using b Cons.prems(3,4,6,7) by (simp_all add: u)
    from Cons.IH [OF inv this(1-3) uc this(4,5)] show thesis using that by blast
  qed
  have "encoded (wd_rel_stream (je_dst je)) (je_state je) (?xs @ ys) (je_state (fold (enc_unit la) us ?e))"
    using encoded_trans [OF e1] ys(1) b by simp
  moreover have "dec_units (map unit_shape (u # us)) (map sint (je_last je)) ((?xs @ ys) @ bs) =
      Some (map (map sint \<circ> unit_block) (u # us), bs)" for bs
  proof -
    let ?zz = "map (\<lambda>k. sint (blk ! k)) JPEG_NATURAL_ORDER"
    have "dec_zigzag dc ac (sint (je_last je ! ci)) (?xs @ ys @ bs) = Some (?zz, ys @ bs)"
      using dec_block [of dc ac "je_last je ! ci" blk "ys @ bs"] c by (simp add: unit_tables_def)
    moreover have "hd ?zz = sint (blk ! 0)" by (simp add: JPEG_NATURAL_ORDER_def)
    moreover have "dezigzag ?zz = map sint blk" using c(3) by (rule dezigzag_zigzag)
    ultimately show ?thesis
      using ys(2) c(4) by (simp add: u unit_shape_def unit_block_def enc_unit_eq map_update)
  qed
  ultimately show ?case using ys(3-5) b by (intro exI [of _ "?xs @ ys"]) (simp add: u)
qed

section \<open>MCUs\<close>

definition comp_unit :: "bool \<Rightarrow> encode_tbls \<Rightarrow> comp_infos \<Rightarrow> nat \<Rightarrow> i16 list \<Rightarrow> block_unit" where
  "comp_unit delta_prog tbls infos ci blk =
     (let t = (if delta_prog then et_dq_entropy_tbls tbls else et_entropy_tbls tbls)
      in (ci, dc_derived_tbls t ! unat (dc_tbl_no (infos ! ci)),
          ac_derived_tbls t ! unat (ac_tbl_no (infos ! ci)), blk))"

definition mcu_units :: "bool \<Rightarrow> encode_tbls \<Rightarrow> comp_infos \<Rightarrow> i16 list list \<Rightarrow> block_unit list" where
  "mcu_units delta_prog tbls infos mcu = map2 (comp_unit delta_prog tbls infos) (mcu_comps infos) mcu"

lemma fold_const: "fold (\<lambda>_. f) xs = f ^^ length xs"
  by (induction xs) (simp_all add: funpow_swap1 fun_eq_iff)

lemma encode_next_run:
  assumes "b + n \<le> length mcu"
  shows "(encode_next ci dc ac la mcu ^^ n) (b, je) =
    (b + n, fold (enc_unit la) (map (\<lambda>blk. (ci, dc, ac, blk)) (take n (drop b mcu))) je)"
  using assms
proof (induction n)
  case (Suc n)
  let ?je = "fold (enc_unit la) (map (\<lambda>blk. (ci, dc, ac, blk)) (take n (drop b mcu))) je"
  have "take (Suc n) (drop b mcu) = take n (drop b mcu) @ [mcu ! (b + n)]"
    using Suc.prems by (simp add: take_Suc_conv_app_nth)
  moreover have "encode_next ci dc ac la mcu (b + n, ?je) = (Suc (b + n), enc_unit la (ci, dc, ac, mcu ! (b + n)) ?je)"
    by (simp add: encode_next_def enc_unit_def split_beta Let_def)
  ultimately show ?case using Suc by simp
qed simp

lemma map2_replicate: "length ys = n \<Longrightarrow> map2 f (replicate n x) ys = map (f x) ys"
  by (simp add: zip_replicate1)

lemma encode_comps_run:
  assumes "length mcu = b + length (concat (map (\<lambda>ci. replicate (k ci) ci) cis))"
    and F: "\<And>ci s. F ci s = (encode_next ci (dc ci) (ac ci) la mcu ^^ k ci) s"
  shows "snd (fold F cis (b, je)) =
    fold (enc_unit la) (map2 (\<lambda>ci blk. (ci, dc ci, ac ci, blk))
      (concat (map (\<lambda>ci. replicate (k ci) ci) cis)) (drop b mcu)) je"
  using assms(1)
proof (induction cis arbitrary: b je)
  case (Cons ci cis)
  let ?us = "map (\<lambda>blk. (ci, dc ci, ac ci, blk)) (take (k ci) (drop b mcu))"
  have "F ci (b, je) = (b + k ci, fold (enc_unit la) ?us je)"
    unfolding F using Cons.prems by (intro encode_next_run) simp
  moreover have "drop (b + k ci) mcu = drop (k ci) (drop b mcu)" by (simp add: add.commute)
  then have "drop b mcu = take (k ci) (drop b mcu) @ drop (b + k ci) mcu" by (simp only: append_take_drop_id)
  then have "map2 (\<lambda>ci blk. (ci, dc ci, ac ci, blk)) (concat (map (\<lambda>ci. replicate (k ci) ci) (ci # cis))) (drop b mcu) =
      ?us @ map2 (\<lambda>ci blk. (ci, dc ci, ac ci, blk)) (concat (map (\<lambda>ci. replicate (k ci) ci) cis)) (drop (b + k ci) mcu)"
    using Cons.prems by (simp add: zip_append1 zip_replicate1 drop_drop add.commute)
  ultimately show ?case
    using Cons.IH [of "b + k ci" "fold (enc_unit la) ?us je"] Cons.prems by simp
qed simp

lemma encode_mcu_units:
  assumes "length mcu = length (mcu_comps infos)"
  shows "encode_mcu delta_prog tbls infos la mcu je = fold (enc_unit la) (mcu_units delta_prog tbls infos mcu) je"
proof -
  let ?t = "if delta_prog then et_dq_entropy_tbls tbls else et_entropy_tbls tbls"
  let ?dc = "\<lambda>ci. dc_derived_tbls ?t ! unat (dc_tbl_no (infos ! ci))"
  let ?ac = "\<lambda>ci. ac_derived_tbls ?t ! unat (ac_tbl_no (infos ! ci))"
  let ?k = "\<lambda>ci. unat (v_samp_factor (infos ! ci)) * unat (h_samp_factor (infos ! ci))"
  define F where "F = (\<lambda>ci. fold (\<lambda>_. fold (\<lambda>_. encode_next ci (?dc ci) (?ac ci) la mcu)
      [0 ..< unat (h_samp_factor (infos ! ci))]) [0 ..< unat (v_samp_factor (infos ! ci))])"
  have "F ci s = (encode_next ci (?dc ci) (?ac ci) la mcu ^^ ?k ci) s" for ci s
    by (simp add: F_def fold_const funpow_mult mult.commute)
  then have "snd (fold F [0 ..< MAX_COMPONENTS] (0, je)) =
      fold (enc_unit la) (map2 (\<lambda>ci blk. (ci, ?dc ci, ?ac ci, blk))
        (concat (map (\<lambda>ci. replicate (?k ci) ci) [0 ..< MAX_COMPONENTS])) (drop 0 mcu)) je"
    using assms by (intro encode_comps_run) (simp_all add: mcu_comps_def)
  moreover have "encode_mcu delta_prog tbls infos la mcu je = snd (fold F [0 ..< MAX_COMPONENTS] (0, je))"
    by (simp add: encode_mcu_def F_def Let_def)
  ultimately show ?thesis
    by (simp add: mcu_units_def mcu_comps_def comp_unit_def Let_def)
qed

text \<open>All MCUs an encoding thread codes between two resets.\<close>

definition encode_mcus :: "bool \<Rightarrow> encode_tbls \<Rightarrow> comp_infos \<Rightarrow> nat \<Rightarrow> i16 list list list \<Rightarrow> jpeg_enc \<Rightarrow> jpeg_enc" where
  "encode_mcus delta_prog tbls infos la mcus je = fold (encode_mcu delta_prog tbls infos la) mcus je"

definition scan_units :: "bool \<Rightarrow> encode_tbls \<Rightarrow> comp_infos \<Rightarrow> i16 list list list \<Rightarrow> block_unit list" where
  "scan_units delta_prog tbls infos mcus = concat (map (mcu_units delta_prog tbls infos) mcus)"

lemma encode_mcus_units:
  assumes "\<forall>mcu \<in> set mcus. length mcu = length (mcu_comps infos)"
  shows "encode_mcus delta_prog tbls infos la mcus je = fold (enc_unit la) (scan_units delta_prog tbls infos mcus) je"
  using assms
proof (induction mcus arbitrary: je)
  case (Cons mcu mcus)
  then show ?case by (simp add: encode_mcus_def scan_units_def encode_mcu_units)
qed (simp add: encode_mcus_def scan_units_def)

lemma scan_unit_blocks:
  assumes "\<forall>mcu \<in> set mcus. length mcu = length (mcu_comps infos)"
  shows "map unit_block (scan_units delta_prog tbls infos mcus) = concat mcus"
  using assms
proof (induction mcus)
  case (Cons mcu mcus)
  have "map unit_block (mcu_units delta_prog tbls infos mcu) = mcu"
    using Cons.prems by (intro nth_equalityI) (simp_all add: mcu_units_def comp_unit_def unit_block_def Let_def)
  with Cons show ?case by (simp add: scan_units_def)
qed (simp add: scan_units_def)

definition scan_shape :: "bool \<Rightarrow> encode_tbls \<Rightarrow> comp_infos \<Rightarrow> nat \<Rightarrow> (nat \<times> derived_tbl \<times> derived_tbl) list" where
  "scan_shape delta_prog tbls infos n =
     concat (replicate n (map (\<lambda>ci. unit_shape (comp_unit delta_prog tbls infos ci [])) (mcu_comps infos)))"

lemma scan_unit_shapes:
  assumes "\<forall>mcu \<in> set mcus. length mcu = length (mcu_comps infos)"
  shows "map unit_shape (scan_units delta_prog tbls infos mcus) = scan_shape delta_prog tbls infos (length mcus)"
  using assms
proof (induction mcus)
  case (Cons mcu mcus)
  have "map unit_shape (mcu_units delta_prog tbls infos mcu) =
      map (\<lambda>ci. unit_shape (comp_unit delta_prog tbls infos ci [])) (mcu_comps infos)"
    using Cons.prems by (intro nth_equalityI) (simp_all add: mcu_units_def comp_unit_def unit_shape_def Let_def)
  with Cons show ?case by (simp add: scan_units_def scan_shape_def)
qed (simp add: scan_units_def scan_shape_def)

definition from_table :: "derived_tbl \<Rightarrow> bool" where
  "from_table t \<longleftrightarrow> (\<exists>h mx. do_set_derived_tbl h mx = Some t
     \<and> 0 < cnt (bcount (tbits h)) 16 \<and> length (huff_vals h) = 256)"

definition tables_derived :: "bool \<Rightarrow> encode_tbls \<Rightarrow> comp_infos \<Rightarrow> bool" where
  "tables_derived delta_prog tbls infos \<longleftrightarrow>
     (\<forall>ci < MAX_COMPONENTS. case unit_shape (comp_unit delta_prog tbls infos ci []) of
        (_, dc, ac) \<Rightarrow> from_table dc \<and> from_table ac)"

lemma from_table_prefix: "from_table t \<Longrightarrow> prefix_code t"
  unfolding from_table_def using derived_prefix_code by blast

lemma scan_unit_tables:
  assumes "tables_derived delta_prog tbls infos" "u \<in> set (scan_units delta_prog tbls infos mcus)"
  shows "unit_tables u"
proof -
  obtain mcu where "u \<in> set (mcu_units delta_prog tbls infos mcu)"
    using assms(2) by (auto simp: scan_units_def)
  then obtain ci blk where u: "u = comp_unit delta_prog tbls infos ci blk" "ci \<in> set (mcu_comps infos)"
    by (auto simp: mcu_units_def set_zip)
  then have c: "ci < MAX_COMPONENTS" by (auto simp: mcu_comps_def)
  obtain dc ac where d: "\<And>blk. comp_unit delta_prog tbls infos ci blk = (ci, dc, ac, blk)"
    by (simp add: comp_unit_def Let_def)
  have "from_table dc" "from_table ac"
    using assms(1) c by (auto simp: tables_derived_def unit_shape_def d)
  then show ?thesis using from_table_prefix by (simp add: u(1) d unit_tables_def)
qed

text \<open>C1: what an encoding thread writes for its MCUs is a Huffman-coded scan that decodes to exactly
  the quantised coefficients. After a reset, any number of MCUs is encoded and the bits are flushed; whatever
  the packet boundaries, the bytes appended to the sink are the (possibly escaped) bytes of a bit stream from
  which a decoder, written from the standard and given the derived tables and the order of the components,
  recovers every block, and behind which fewer than eight ones remain.\<close>
theorem scan_decodes:
  assumes "wd_inv (je_dst je) (je_world je)" "BLOCK_BUFSIZE \<le> w_pds (je_world je)"
    and "tables_derived delta_prog tbls infos"
    and "\<forall>mcu \<in> set mcus. length mcu = length (mcu_comps infos)"
    and "units_coded [0, 0, 0] (scan_units delta_prog tbls infos mcus)"
    and "units_apart la (scan_units delta_prog tbls infos mcus) (reset_mcu je)"
    and "je' = flush_mcu (wd_rel_stream (je_dst je)) la (encode_mcus delta_prog tbls infos la mcus (reset_mcu je))"
    and "je_live je'"
  shows "\<exists>bs k. wd_out (je_dst je') (je_world je') =
        wd_out (je_dst je) (je_world je) @ esc (wd_rel_stream (je_dst je)) bs
    \<and> dec_units (scan_shape delta_prog tbls infos (length mcus)) [0, 0, 0] (byte_bits bs)
      = Some (map (map sint) (concat mcus), replicate k True) \<and> k < 8"
proof -
  let ?us = "scan_units delta_prog tbls infos mcus" and ?r = "reset_mcu je"
  define e where "e = fold (enc_unit la) ?us ?r"
  have r: "je_dst ?r = je_dst je" "je_world ?r = je_world je" "bs_wf (je_bits ?r)" "pend (je_bits ?r) = []"
    "je_last ?r = [0, 0, 0]"
    by (simp_all add: reset_mcu_def bs_wf_def bs_reset_def pend_def BIT_BUF_SIZE_def MAX_COMPONENTS_def numeral_3_eq_3)
  have t: "\<forall>u \<in> set ?us. unit_tables u" using scan_unit_tables [OF assms(3)] by blast
  have e: "encode_mcus delta_prog tbls infos la mcus ?r = e"
    unfolding e_def by (rule encode_mcus_units [OF assms(4)])
  obtain d' W' where fl: "bs_flush (je_bits e) (je_dst e) la (wd_rel_stream (je_dst je)) (je_world e) = (d', W')"
    by fastforce
  have je': "je_dst je' = d'" "je_world je' = W'"
    using assms(7) by (simp_all add: e flush_mcu_def fl)
  have live': "wd_live (d', W')" using assms(8) je' by (simp add: je_live_def)
  have "wd_kind (je_dst e) \<and> bs_wf (je_bits e)"
    unfolding e_def using r assms(1,5) t by (intro enc_units_kind) (simp_all add: wd_inv_kind)
  then have live: "je_live e"
    using bs_flush_back [OF fl live'] by (simp add: je_live_def)
  obtain xs where xs: "encoded (wd_rel_stream (je_dst je)) (je_state ?r) xs (je_state e)"
    "\<forall>bs. dec_units (map unit_shape ?us) (map sint [0, 0, 0 :: i16]) (xs @ bs) = Some (map (map sint \<circ> unit_block) ?us, bs)"
    "w_pds (je_world e) = w_pds (je_world je)" "apart la 16 (je_dst e) (je_world e)"
    using enc_units_encoded [of ?r ?us la] r assms(1,2,5,6) t live unfolding e_def by auto
  then obtain as where as: "wd_inv (je_dst e) (je_world e)" "bs_wf (je_bits e)"
    "wd_out (je_dst e) (je_world e) = wd_out (je_dst je) (je_world je) @ esc (wd_rel_stream (je_dst je)) as"
    "xs = byte_bits as @ pend (je_bits e)"
    using r by (auto simp: encoded_def je_state_def)
  have "16 \<le> w_pds (je_world e)" using assms(2) xs(3) by (simp add: BLOCK_BUFSIZE_def DCTSIZE2_def)
  from bs_flush_spec [OF fl live' as(2,1) this xs(4)] obtain bs k where
    b: "wd_out d' W' = wd_out (je_dst e) (je_world e) @ esc (wd_rel_stream (je_dst je)) bs"
      "byte_bits bs = pend (je_bits e) @ replicate k True" "k < 8" by blast
  have "byte_bits (as @ bs) = xs @ replicate k True" using as(4) b(2) by simp
  moreover have "map (map sint \<circ> unit_block) ?us = map (map sint) (concat mcus)"
    using scan_unit_blocks [OF assms(4)] by (simp only: map_map [symmetric])
  ultimately have "dec_units (scan_shape delta_prog tbls infos (length mcus)) [0, 0, 0] (byte_bits (as @ bs))
      = Some (map (map sint) (concat mcus), replicate k True)"
    using xs(2) scan_unit_shapes [OF assms(4)] by simp
  then show ?thesis using as(3) b je' by (intro exI [of _ "as @ bs"] exI [of _ k]) simp
qed

section \<open>Encoding in a packet with room\<close>

text \<open>While the packet has room for a block, the encoder writes directly into it and nothing else of
  the state changes.\<close>

definition eb_frame :: "encode_buffer \<Rightarrow> nat \<times> encode_buffer_base \<times> worker_dst \<times> nwm_world" where
  "eb_frame eb = (eb_n eb, eb_base eb, eb_dst eb, (eb_world eb)\<lparr>w_mem := \<lambda>_. 0\<rparr>)"

definition eb_steps :: "nat \<Rightarrow> encode_buffer \<Rightarrow> encode_buffer \<Rightarrow> bool" where
  "eb_steps k eb eb' \<longleftrightarrow> eb_frame eb' = eb_frame eb \<and> eb_buf eb \<le> eb_buf eb' \<and> eb_buf eb' \<le> eb_buf eb + k"

lemma eb_steps_trans: "eb_steps k eb eb' \<Longrightarrow> eb_steps l eb' eb'' \<Longrightarrow> eb_steps (k + l) eb eb''"
  by (simp add: eb_steps_def)

lemma eb_frame_simps [simp]:
  "eb_frame (eb\<lparr>eb_buf := x\<rparr>) = eb_frame eb" "eb_frame (eb\<lparr>eb_state := st\<rparr>) = eb_frame eb"
  "eb_frame (poke q b eb) = eb_frame eb" "eb_buf (poke q b eb) = eb_buf eb" "eb_n (poke q b eb) = eb_n eb"
  "eb_no_escape (poke q b eb) = eb_no_escape eb"
  by (simp_all add: eb_frame_def poke_def)

lemma emit_byte_steps: "eb_n eb \<noteq> 0 \<Longrightarrow> eb_steps 2 eb (emit_byte b eb)"
  by (simp add: emit_byte_def Let_def eb_steps_def)

lemma emit_byte_n: "eb_n eb \<noteq> 0 \<Longrightarrow> eb_n (emit_byte b eb) = eb_n eb"
  by (simp add: emit_byte_def Let_def)

lemma eb_flush_steps:
  assumes "eb_n eb \<noteq> 0"
  shows "eb_steps 8 eb (eb_flush eb)"
proof -
  have four: "eb_steps 8 eb (emit_byte b0 (emit_byte b1 (emit_byte b2 (emit_byte b3 eb))))" for b0 b1 b2 b3
    using eb_steps_trans [OF eb_steps_trans [OF eb_steps_trans [OF emit_byte_steps emit_byte_steps] emit_byte_steps]
        emit_byte_steps, of eb b3 b2 b1 b0] assms
    by (simp add: emit_byte_n)
  show ?thesis
    unfolding eb_flush_def Let_def
  proof (split if_split, intro conjI impI)
    show "eb_steps 8 eb (if eb_n eb = 0 then x else
       (poke (eb_buf eb + 3) b0 (poke (eb_buf eb + 2) b1 (poke (eb_buf eb + 1) b2 (poke (eb_buf eb) b3 eb))))
         \<lparr>eb_buf := eb_buf eb + 4\<rparr>)" for x b0 b1 b2 b3
      using assms by (simp add: eb_steps_def)
  qed (rule four)
qed

lemma put_bits_steps:
  assumes "eb_n eb \<noteq> 0"
  shows "eb_steps 8 eb (put_bits c n eb)"
proof -
  have fl: "eb_frame (eb_flush (eb\<lparr>eb_state := x\<rparr>)) = eb_frame eb"
    "eb_buf eb \<le> eb_buf (eb_flush (eb\<lparr>eb_state := x\<rparr>))"
    "eb_buf (eb_flush (eb\<lparr>eb_state := x\<rparr>)) \<le> eb_buf eb + 8" for x
    using eb_flush_steps [of "eb\<lparr>eb_state := x\<rparr>"] assms by (simp_all add: eb_steps_def)
  show ?thesis
    by (simp add: put_bits_def put_and_flush_def Let_def eb_steps_def fl)
qed

lemma eb_steps_n: "eb_steps k eb eb' \<Longrightarrow> eb_n eb' = eb_n eb"
  by (simp add: eb_steps_def eb_frame_def)

lemma puts_code_steps: "eb_n eb \<noteq> 0 \<Longrightarrow> eb_steps (8 * length cs) eb (puts_code cs eb)"
proof (induction cs arbitrary: eb)
  case Nil
  show ?case by (simp add: eb_steps_def)
next
  case (Cons c cs)
  obtain code n where c: "c = (code, n)" by (cases c)
  have s: "eb_steps 8 eb (put_bits code n eb)" using Cons.prems by (rule put_bits_steps)
  then have "eb_steps (8 * length cs) (put_bits code n eb) (puts_code cs (put_bits code n eb))"
    using Cons.prems by (intro Cons.IH) (simp add: eb_steps_n)
  from eb_steps_trans [OF s this] show ?case by (simp add: c)
qed

text \<open>A session that leaves the sink where it was, up to \<open>k\<close> bytes further.\<close>

definition advanced :: "nat \<Rightarrow> worker_dst \<times> nwm_world \<Rightarrow> worker_dst \<times> nwm_world \<Rightarrow> bool" where
  "advanced k s s' \<longleftrightarrow> (case (s, s') of ((d, W), (d', W')) \<Rightarrow>
     d' = advance_to (wd_dst d') d \<and> wd_dst d \<le> wd_dst d' \<and> wd_dst d' \<le> wd_dst d + k
   \<and> W'\<lparr>w_mem := \<lambda>_. 0\<rparr> = W\<lparr>w_mem := \<lambda>_. 0\<rparr>)"

lemma store_advanced:
  assumes "eb_steps k (eb_init n st d la ne W) eb" "n \<noteq> 0" "of_nat n \<le> wd_free d"
  shows "advanced k (d, W) (eb_dst (eb_store eb), eb_world (eb_store eb))"
proof -
  have "eb_n eb = n" "eb_base eb = Dst" "eb_dst eb = d" "(eb_world eb)\<lparr>w_mem := \<lambda>_. 0\<rparr> = W\<lparr>w_mem := \<lambda>_. 0\<rparr>"
    "wd_dst d \<le> eb_buf eb" "eb_buf eb \<le> wd_dst d + k"
    using assms by (auto simp: eb_steps_def eb_frame_def eb_init_def not_less split: if_splits)
  then show ?thesis using assms(2) by (simp add: eb_store_def advanced_def advance_to_def)
qed

definition roomy :: "nat \<Rightarrow> nat \<Rightarrow> worker_dst \<times> nwm_world \<Rightarrow> bool" where
  "roomy la r s \<longleftrightarrow> r \<le> unat (wd_free (fst s)) \<and> wd_dst (fst s) + r \<le> la
   \<and> (\<exists>w t. wd_user (fst s) = Ninfo w t) \<and> wd_live s"

lemma advanced_roomy:
  assumes "advanced k (d, W) (d', W')" "roomy la (k + r) (d, W)"
  shows "roomy la r (d', W')"
proof -
  define j where "j = wd_dst d' - wd_dst d"
  have j: "wd_dst d' = wd_dst d + j" "j \<le> k" "wd_free d' = wd_free d - of_nat j" "wd_user d' = wd_user d"
  proof -
    have e: "d' = advance_to (wd_dst d') d" "wd_dst d \<le> wd_dst d'" "wd_dst d' \<le> wd_dst d + k"
      using assms(1) by (simp_all add: advanced_def)
    from arg_cong [OF e(1), of wd_free] arg_cong [OF e(1), of wd_user] e(2,3)
    show "wd_dst d' = wd_dst d + j" "j \<le> k" "wd_free d' = wd_free d - of_nat j" "wd_user d' = wd_user d"
      by (simp_all add: advance_to_def j_def)
  qed
  have f: "k + r \<le> unat (wd_free d)" using assms(2) by (simp add: roomy_def)
  then have "unat (of_nat j :: u16) = j"
    using j(2) unat_less_exp [of "wd_free d"] by (intro unat_of_nat_small) simp
  then have "unat (wd_free d') = unat (wd_free d) - j" using j f by (simp add: unat_sub_le)
  moreover have "W'\<lparr>w_mem := \<lambda>_. 0\<rparr> = W\<lparr>w_mem := \<lambda>_. 0\<rparr>" using assms(1) by (simp add: advanced_def)
  then have "w_reset W' = w_reset W" "w_ninfo W' = w_ninfo W"
    by (auto dest: arg_cong [of _ _ w_reset] arg_cong [of _ _ w_ninfo])
  ultimately show ?thesis using assms(2) j f
    by (auto simp: roomy_def wd_live_def wd_room_def)
qed

lemma length_ac_codes: "16 dvd r \<Longrightarrow> length (ac_codes t r vs) \<le> length vs + r div 16"
proof (induction vs arbitrary: r)
  case Nil
  then show ?case by (auto elim!: dvdE)
next
  case (Cons v vs)
  have "r div 256 \<le> r div 16" by (intro div_le_mono2) simp_all
  with Cons.IH [of 0] Cons.IH [of "r + 16"] Cons.prems show ?case by auto
qed

lemma enc_unit_roomy:
  assumes "roomy la (BLOCK_BUFSIZE + r) (je_dst je, je_world je)"
  shows "roomy la r (je_dst (enc_unit la u je), je_world (enc_unit la u je))
    \<and> apart la BLOCK_BUFSIZE (je_dst je) (je_world je)"
proof -
  obtain ci dc ac blk where u: "u = (ci, dc, ac, blk)" by (cases u)
  let ?e = "enc_unit la u je" and ?cs = "block_codes dc ac (je_last je ! ci) blk"
  let ?d = "(je_dst je)\<lparr>wd_blkn := wd_blkn (je_dst je) + 1\<rparr>"
  let ?i = "eb_init BLOCK_BUFSIZE (je_bits je) ?d la (wd_rel_stream (je_dst je)) (je_world je)"
  have n: "BLOCK_BUFSIZE \<noteq> 0" "eb_n ?i = BLOCK_BUFSIZE"
    by (simp_all add: BLOCK_BUFSIZE_def DCTSIZE2_def eb_init_def)
  have f: "BLOCK_BUFSIZE \<le> unat (wd_free ?d)" using assms by (simp add: roomy_def)
  then have "of_nat BLOCK_BUFSIZE \<le> wd_free ?d"
    by (simp add: word_le_nat_alt BLOCK_BUFSIZE_def DCTSIZE2_def)
  moreover have "eb_steps (8 * length ?cs) ?i (puts_code ?cs ?i)" using n by (intro puts_code_steps) simp
  ultimately have a: "advanced (8 * length ?cs) (?d, je_world je)
      (eb_dst (eb_store (puts_code ?cs ?i)), eb_world (eb_store (puts_code ?cs ?i)))"
    using n(1) by (intro store_advanced)
  have "length ?cs \<le> 64"
    using length_ac_codes [of 0 ac "zigzag_ac blk"]
    by (simp add: block_codes_def zigzag_ac_def natural_order(2))
  then have "8 * length ?cs \<le> BLOCK_BUFSIZE" by (simp add: BLOCK_BUFSIZE_def DCTSIZE2_def)
  then have "roomy la (8 * length ?cs + r) (?d, je_world je)"
    using assms by (auto simp: roomy_def)
  from advanced_roomy [OF a this]
  have "roomy la r (eb_dst (eb_store (puts_code ?cs ?i)), eb_world (eb_store (puts_code ?cs ?i)))" .
  moreover have "je_state ?e = (eb_state (eb_store (puts_code ?cs ?i)), eb_dst (eb_store (puts_code ?cs ?i)),
      eb_world (eb_store (puts_code ?cs ?i)))"
    unfolding u enc_unit_eq(1) by (simp add: enc_session_def eb_session_def Let_def)
  ultimately show ?thesis using assms by (simp add: je_state_def roomy_def apart_def)
qed

lemma units_roomy:
  assumes "roomy la (BLOCK_BUFSIZE * length us + r) (je_dst je, je_world je)"
  shows "roomy la r (je_dst (fold (enc_unit la) us je), je_world (fold (enc_unit la) us je))
    \<and> units_apart la us je"
  using assms
proof (induction us arbitrary: je)
  case Nil
  then show ?case by (simp add: apart_def roomy_def)
next
  case (Cons u us)
  have "roomy la (BLOCK_BUFSIZE + (BLOCK_BUFSIZE * length us + r)) (je_dst je, je_world je)"
    using Cons.prems by (simp add: add.assoc)
  from enc_unit_roomy [OF this, of u] Cons.IH [of "enc_unit la u je"] show ?case by simp
qed

lemma flush_work_steps:
  assumes "eb_n eb \<noteq> 0"
  shows "\<exists>k. eb_steps k eb (flush_work st eb)"
proof -
  have f: "\<exists>k. eb_steps k eb (snd (flush_bytes n c eb))" if "eb_n eb \<noteq> 0" for n c eb
    using that
  proof (induction n c eb rule: flush_bytes.induct)
    case (1 n c eb)
    show ?case
    proof (cases "8 \<le> n")
      case True
      let ?e = "emit_byte (ucast (drop_bit (n - 8) c)) eb"
      obtain k where "eb_steps k ?e (snd (flush_bytes (n - 8) c ?e))"
        using 1 True by (auto simp: emit_byte_n)
      from eb_steps_trans [OF emit_byte_steps [OF 1(2)] this] True show ?thesis
        by (subst flush_bytes.simps) auto
    next
      case False
      then have "eb_steps 0 eb (snd (flush_bytes n c eb))" by (subst flush_bytes.simps) (simp add: eb_steps_def)
      then show ?thesis ..
    qed
  qed
  obtain m e where fb: "flush_bytes (nat (BIT_BUF_SIZE - bs_free st)) (bs_c st) eb = (m, e)" by fastforce
  with f [OF assms, of "nat (BIT_BUF_SIZE - bs_free st)" "bs_c st"] obtain k where k: "eb_steps k eb e" by auto
  have "eb_n e \<noteq> 0" using assms eb_steps_n [OF k] by simp
  from eb_steps_trans [OF k emit_byte_steps [OF this]] k show ?thesis
    by (simp add: flush_work_def fb) blast
qed

lemma flush_roomy:
  assumes "roomy la 16 (je_dst je, je_world je)"
  shows "je_live (flush_mcu ne la je)"
proof -
  let ?i = "eb_init 16 (je_bits je) (je_dst je) la ne (je_world je)"
  have "eb_n ?i \<noteq> 0" by (simp add: eb_init_def)
  then obtain k where k: "eb_steps k ?i (flush_work (je_bits je) ?i)" using flush_work_steps by blast
  have "of_nat 16 \<le> wd_free (je_dst je)" using assms by (simp add: roomy_def word_le_nat_alt)
  from store_advanced [OF k _ this]
  have a: "advanced k (je_dst je, je_world je) (eb_dst (eb_store (flush_work (je_bits je) ?i)),
      eb_world (eb_store (flush_work (je_bits je) ?i)))" by simp
  define W' where "W' = eb_world (eb_store (flush_work (je_bits je) ?i))"
  define d' where "d' = eb_dst (eb_store (flush_work (je_bits je) ?i))"
  have "W'\<lparr>w_mem := \<lambda>_. 0\<rparr> = (je_world je)\<lparr>w_mem := \<lambda>_. 0\<rparr>" "d' = advance_to (wd_dst d') (je_dst je)"
    using a by (simp_all add: advanced_def W'_def d'_def)
  then have "w_reset W' = w_reset (je_world je)" "w_ninfo W' = w_ninfo (je_world je)" "wd_user d' = wd_user (je_dst je)"
    by (auto dest: arg_cong [of _ _ w_reset] arg_cong [of _ _ w_ninfo] arg_cong [of _ _ wd_user] simp: advance_to_def)
  then have "wd_live (d', W')" using assms by (auto simp: roomy_def wd_live_def wd_room_def)
  moreover have "je_dst (flush_mcu ne la je) = d'" "je_world (flush_mcu ne la je) = W'"
    by (simp_all add: flush_mcu_def bs_flush_session W'_def d'_def eb_session_def)
  ultimately show ?thesis by (simp add: je_live_def)
qed

section \<open>Example\<close>

definition ex_huff_tbl :: "u8 list \<Rightarrow> u8 list \<Rightarrow> huff_tbl" where
  "ex_huff_tbl counts vals = \<lparr>tbits = counts @ replicate (17 - length counts) 0,
     huff_vals = vals @ replicate (256 - length vals) 0\<rparr>"

definition ex_dc :: derived_tbl where
  "ex_dc = \<lparr>ehufco = [0, 1, 2, 6] @ replicate 252 0, ehufsi = [2, 2, 2, 3] @ replicate 252 0\<rparr>"

definition ex_ac :: derived_tbl where
  "ex_ac = \<lparr>ehufco = [0, 1] @ replicate 223 0 @ [6] @ replicate 14 0 @ [2] @ replicate 15 0,
     ehufsi = [2, 2] @ replicate 223 0 @ [3] @ replicate 14 0 @ [2] @ replicate 15 0\<rparr>"

lemma ex_derived:
  "do_set_derived_tbl (ex_huff_tbl [0, 0, 3, 1] [0, 1, 2, 3]) 15 = Some ex_dc"
  "do_set_derived_tbl (ex_huff_tbl [0, 0, 3, 1] [0, 1, 0xf0, 0xe1]) 255 = Some ex_ac"
  by code_simp+

definition ex_entropy :: entropy_tbls where
  "ex_entropy = \<lparr>dc_derived_tbls = [ex_dc, ex_dc], ac_derived_tbls = [ex_ac, ex_ac]\<rparr>"

definition ex_tbls :: encode_tbls where
  "ex_tbls = \<lparr>et_huff_tbls = \<lparr>dc_huff_tbls = [], ac_huff_tbls = []\<rparr>, et_entropy_tbls = ex_entropy,
     et_dq_huff_tbls = \<lparr>dc_huff_tbls = [], ac_huff_tbls = []\<rparr>, et_dq_entropy_tbls = ex_entropy\<rparr>"

definition ex_mcus :: "i16 list list list" where
  "ex_mcus = [[5 # 1 # replicate 62 0, (- 3) # replicate 63 0, 0 # replicate 62 0 @ [- 1]]]"

definition ex_je :: jpeg_enc where
  "ex_je = \<lparr>je_bits = bs_reset, je_dst = (ex_dst False)\<lparr>wd_free := 3000\<rparr>,
     je_world = ex_world\<lparr>w_pds := 3000, w_ninfo := (\<lambda>_ _. \<lparr>ni_buf = 100, buf_packet_last = 9000,
        ni_info = \<lparr>send_pos = 100, pos = 100, flag = 0\<rparr>\<rparr>)\<rparr>, je_last = []\<rparr>"

definition ex_infos :: comp_infos where
  "ex_infos = set_color_space_ycb_cr_444 (replicate 3 zero_comp)"

definition ex_je' :: jpeg_enc where
  "ex_je' = flush_mcu False 20000 (encode_mcus False ex_tbls ex_infos 20000 ex_mcus (reset_mcu ex_je))"

lemma ex_units:
  "units_coded [0, 0, 0] (scan_units False ex_tbls ex_infos ex_mcus)"
  "length (scan_units False ex_tbls ex_infos ex_mcus) = 3"
  "\<forall>mcu \<in> set ex_mcus. length mcu = length (mcu_comps ex_infos)"
  by code_simp+

lemma ex_tables: "tables_derived False ex_tbls ex_infos"
proof -
  have "from_table ex_dc" "from_table ex_ac"
    unfolding from_table_def
    by (rule exI conjI ex_derived | code_simp)+
  moreover have "ci < MAX_COMPONENTS \<Longrightarrow> unit_shape (comp_unit False ex_tbls ex_infos ci []) = (ci, ex_dc, ex_ac)" for ci
    by (cases ci; cases "ci - 1"; cases "ci - 2")
      (simp_all add: MAX_COMPONENTS_def comp_unit_def unit_shape_def ex_tbls_def ex_entropy_def ex_infos_def
        set_color_space_ycb_cr_444_def set_comp_def numeral_eq_Suc zero_comp_def)
  ultimately show ?thesis by (simp add: tables_derived_def)
qed

lemma ex_room: "roomy 20000 (BLOCK_BUFSIZE * length (scan_units False ex_tbls ex_infos ex_mcus) + 16)
   (je_dst (reset_mcu ex_je), je_world (reset_mcu ex_je))"
  by (simp add: ex_units(2) roomy_def ex_je_def ex_dst_def ex_world_def BLOCK_BUFSIZE_def DCTSIZE2_def
      wd_live_def wd_room_def reset_mcu_def)

theorem scan_decodes_witness:
  "\<exists>bs k. wd_out (je_dst ex_je') (je_world ex_je') = esc False bs
    \<and> dec_units (scan_shape False ex_tbls ex_infos 1) [0, 0, 0] (byte_bits bs)
      = Some ([5 # 1 # replicate 62 0, (- 3) # replicate 63 0, 0 # replicate 62 0 @ [- 1]], replicate k True) \<and> k < 8"
proof -
  have w: "wd_inv (je_dst ex_je) (je_world ex_je)" "BLOCK_BUFSIZE \<le> w_pds (je_world ex_je)"
    "wd_rel_stream (je_dst ex_je) = False" "wd_out (je_dst ex_je) (je_world ex_je) = []"
    by (simp_all add: ex_je_def ex_dst_def ex_world_def BLOCK_BUFSIZE_def DCTSIZE2_def wd_inv_def wd_room_def wd_out_def)
  have "ex_je' = flush_mcu (wd_rel_stream (je_dst ex_je)) 20000
      (encode_mcus False ex_tbls ex_infos 20000 ex_mcus (reset_mcu ex_je))"
    by (simp only: ex_je'_def w(3))
  moreover have "je_live ex_je'"
    unfolding ex_je'_def encode_mcus_units [OF ex_units(3)]
    by (rule flush_roomy [OF conjunct1 [OF units_roomy [OF ex_room]]])
  ultimately show ?thesis
    using scan_decodes [OF w(1,2) ex_tables ex_units(3,1) conjunct2 [OF units_roomy [OF ex_room]]] w(3,4)
    by (simp add: ex_mcus_def)
qed

end
