(* ===== verification/Scan_Tables.thy ===== *)
theory Scan_Tables
  imports Block_Encode
begin

text \<open>
  The standard tables have a code for every symbol a baseline block can use, so with them the
  hypothesis of \<open>scan_decodes\<close> on the symbols holds for all blocks in the baseline range.
\<close>

lemma derived_symbol:
  assumes "do_set_derived_tbl h mx = Some t" "0 < cnt (bcount (tbits h)) 16" "length (huff_vals h) = 256"
    "v \<in> set (take (cnt (bcount (tbits h)) 16) (huff_vals h))"
  shows "ehufsi t ! unat v > 0"
proof -
  let ?n = "cnt (bcount (tbits h)) 16"
  obtain hc where f: "filled (sizes_upto (bcount (tbits h)) 16) hc (huff_vals h) ?n t"
    using do_set_derived_result [OF assms(2,3), of mx] assms(1) by auto
  obtain p where p: "p < ?n" "huff_vals h ! p = v" using assms(4) by (auto simp: in_set_conv_nth)
  have "ehufsi t ! unat v = of_nat (sizes_upto (bcount (tbits h)) 16 ! p)"
    using f p unfolding filled_def by blast
  moreover note sizes_bounds [OF p(1)]
  moreover have "unat (of_nat k :: u8) = k" if "k < 256" for k using that by (simp add: unat_of_nat_small)
  ultimately show ?thesis by (simp add: word_less_nat_alt)
qed

definition ac_baseline :: "nat list" where
  "ac_baseline = 0 # 0xf0 # concat (map (\<lambda>r. map (\<lambda>s. 16 * r + s) [1 ..< 11]) [0 ..< 16])"

lemma ac_baselineI:
  assumes "s = 0 \<or> s = 0xf0 \<or> s < 256 \<and> 1 \<le> s mod 16 \<and> s mod 16 \<le> 10"
  shows "s \<in> set ac_baseline"
proof -
  have "s \<in> set ac_baseline" if "s < 256" "1 \<le> s mod 16" "s mod 16 \<le> 10"
  proof -
    have "s = 16 * (s div 16) + s mod 16" by simp
    then have "Suc (16 * (s div 16)) \<le> s" "s < 11 + 16 * (s div 16)" using that(2,3) by linarith+
    moreover have "s div 16 < 16" using that(1) by (simp add: less_mult_imp_div_less)
    ultimately have "\<exists>x \<in> {0 ..< 16}. Suc (16 * x) \<le> s \<and> s < 11 + 16 * x"
      by (intro bexI [of _ "s div 16"] conjI) simp_all
    then show ?thesis by (simp add: ac_baseline_def)
  qed
  with assms show ?thesis by (auto simp: ac_baseline_def)
qed

lemma std_ac_values:
  "\<forall>v \<in> set VAL_AC_LUMINANCE. unat v = 0 \<or> unat v = 0xf0 \<or> 1 \<le> unat v mod 16 \<and> unat v mod 16 \<le> 10"
  "\<forall>v \<in> set VAL_AC_CHROMINANCE. unat v = 0 \<or> unat v = 0xf0 \<or> 1 \<le> unat v mod 16 \<and> unat v mod 16 \<le> 10"
  by (simp_all add: VAL_AC_LUMINANCE_def VAL_AC_CHROMINANCE_def)

lemma ac_symbols_complete:
  assumes "distinct vals" "length vals = 162"
    "\<forall>v \<in> set vals. unat (v :: u8) = 0 \<or> unat v = 0xf0 \<or> 1 \<le> unat v mod 16 \<and> unat v mod 16 \<le> 10"
  shows "unat ` set vals = set ac_baseline"
proof (rule card_seteq)
  show "unat ` set vals \<subseteq> set ac_baseline"
  proof
    fix s assume "s \<in> unat ` set vals"
    then obtain v where "v \<in> set vals" "s = unat v" by blast
    then show "s \<in> set ac_baseline" using assms(3) u8_lt [of v] by (intro ac_baselineI) auto
  qed
  have "card (unat ` set vals) = 162"
    using assms(1,2) by (subst card_image) (auto simp: inj_on_def distinct_card word_unat_eq_iff)
  moreover have "length ac_baseline = 162" by code_simp
  ultimately show "card (set ac_baseline) \<le> card (unat ` set vals)"
    using card_length [of ac_baseline] by simp
qed simp

lemma std_dc_symbols:
  assumes "s < 12"
  shows "s \<in> unat ` set VAL_DC_LUMINANCE \<and> s \<in> unat ` set VAL_DC_CHROMINANCE"
proof -
  have "s \<in> set [0 ..< 12]" using assms by simp
  moreover have "map unat VAL_DC_LUMINANCE = [0 ..< 12]" "map unat VAL_DC_CHROMINANCE = [0 ..< 12]"
    by (simp_all add: VAL_DC_LUMINANCE_def VAL_DC_CHROMINANCE_def upt_rec)
  ultimately show ?thesis by (simp only: set_map [symmetric] conj_absorb)
qed

text \<open>A derived table with codes for the baseline symbols of its kind.\<close>

definition codes_for :: "nat list \<Rightarrow> derived_tbl \<Rightarrow> bool" where
  "codes_for syms t \<longleftrightarrow> from_table t \<and> (\<forall>s \<in> set syms. ehufsi t ! s > 0)"

lemma install_codes:
  assumes "do_set_derived_tbl h mx = Some t" "tbits h = bts" "huff_vals h = val @ replicate (256 - length val) 0"
    "cnt (bcount bts) 16 = length val" "0 < length val" "length val \<le> 256" "\<forall>s \<in> set syms. s \<in> unat ` set val"
  shows "codes_for syms t"
proof -
  have l: "0 < cnt (bcount (tbits h)) 16" "length (huff_vals h) = 256"
    "take (cnt (bcount (tbits h)) 16) (huff_vals h) = val"
    unfolding assms(2,3,4) using assms(5,6) by simp_all
  have "ehufsi t ! s > 0" if "s \<in> set syms" for s
  proof -
    from assms(7) that have "s \<in> unat ` set val" by (rule bspec)
    then obtain v where "s = unat v" "v \<in> set val" by (rule imageE)
    then show ?thesis using derived_symbol [OF assms(1) l(1,2), of v] l(3) by simp
  qed
  then show ?thesis using assms(1) l(1,2) unfolding codes_for_def from_table_def by blast
qed

text \<open>What \<open>HuffTbls::once\<close> and \<open>set_entropy_tbls\<close> leave.\<close>

definition std_ready :: "entropy_tbls \<Rightarrow> bool" where
  "std_ready t \<longleftrightarrow> (\<exists>h e. huff_once \<lparr>dc_huff_tbls = replicate 2 empty_huff_tbl, ac_huff_tbls = replicate 2 empty_huff_tbl\<rparr> = Some h
     \<and> length (dc_derived_tbls e) = 2 \<and> length (ac_derived_tbls e) = 2 \<and> set_entropy_tbls h False e = Some t)"

lemma std_codes:
  assumes "std_ready t" "i < 2"
  shows "codes_for [0 ..< 12] (dc_derived_tbls t ! i) \<and> codes_for ac_baseline (ac_derived_tbls t ! i)"
proof -
  note c = std_counts std_vals_length
  let ?t = "\<lambda>bts val. \<lparr>tbits = bts, huff_vals = val @ replicate (256 - length val) (0 :: u8)\<rparr>"
  obtain h e where h: "huff_once \<lparr>dc_huff_tbls = replicate 2 empty_huff_tbl, ac_huff_tbls = replicate 2 empty_huff_tbl\<rparr> = Some h"
    "length (dc_derived_tbls e) = 2" "length (ac_derived_tbls e) = 2" "set_entropy_tbls h False e = Some t"
    using assms(1) unfolding std_ready_def by blast
  have r: "replicate 2 x = [x, x]" for x :: huff_tbl by (simp add: numeral_eq_Suc)
  have hh: "h = \<lparr>dc_huff_tbls = [?t BITS_DC_LUMINANCE VAL_DC_LUMINANCE, ?t BITS_DC_CHROMINANCE VAL_DC_CHROMINANCE],
            ac_huff_tbls = [?t BITS_AC_LUMINANCE VAL_AC_LUMINANCE, ?t BITS_AC_CHROMINANCE VAL_AC_CHROMINANCE]\<rparr>"
    using h(1) c by (simp add: r huff_once_def add_huff_table_ok)
  have n: "[0 ..< NUM_HUFF_TBLS] = [0, 1]" by (simp add: NUM_HUFF_TBLS_def upt_rec)
  obtain d0 d1 a0 a1 where d: "do_set_derived_tbl (?t BITS_DC_LUMINANCE VAL_DC_LUMINANCE) 15 = Some d0"
    "do_set_derived_tbl (?t BITS_DC_CHROMINANCE VAL_DC_CHROMINANCE) 15 = Some d1"
    "do_set_derived_tbl (?t BITS_AC_LUMINANCE VAL_AC_LUMINANCE) 255 = Some a0"
    "do_set_derived_tbl (?t BITS_AC_CHROMINANCE VAL_AC_CHROMINANCE) 255 = Some a1"
    "dc_derived_tbls t = (dc_derived_tbls e)[0 := d0, 1 := d1]" "ac_derived_tbls t = (ac_derived_tbls e)[0 := a0, 1 := a1]"
    using h(4) by (auto simp: hh set_entropy_tbls_def set_derived_tbl_def n split: option.splits)
  have dc: "codes_for [0 ..< 12] d0" "codes_for [0 ..< 12] d1"
    using install_codes [OF d(1) huff_tbl.select_convs(1,2), of "[0 ..< 12]"]
      install_codes [OF d(2) huff_tbl.select_convs(1,2), of "[0 ..< 12]"] c std_dc_symbols by simp_all
  have ac: "codes_for ac_baseline a0" "codes_for ac_baseline a1"
    using install_codes [OF d(3) huff_tbl.select_convs(1,2), of ac_baseline]
      install_codes [OF d(4) huff_tbl.select_convs(1,2), of ac_baseline] c
      ac_symbols_complete [OF std_vals_distinct(3) _ std_ac_values(1)]
      ac_symbols_complete [OF std_vals_distinct(4) _ std_ac_values(2)] by simp_all
  have "i = 0 \<or> i = 1" using assms(2) by auto
  then show ?thesis using dc ac h(2,3) by (auto simp: d(5,6))
qed

lemma ac_syms_baseline:
  assumes "\<forall>v \<in> set vs. \<bar>sint v\<bar> < 1024" "16 dvd r"
  shows "set (ac_syms r vs) \<subseteq> set ac_baseline"
  using assms
proof (induction vs arbitrary: r)
  case Nil
  then show ?case by (auto intro: ac_baselineI)
next
  case (Cons v vs)
  show ?case
  proof (cases "v = 0")
    case True
    then show ?thesis using Cons by simp
  next
    case False
    let ?n = "val_sym (scast v)"
    have ab: "\<bar>sint (scast v :: i32)\<bar> < 2 ^ 10" using Cons.prems by (simp add: sint_scast_i16)
    then have "?n \<le> 10" by (rule val_sym_bound) simp
    moreover have "?n \<noteq> 0" using val_sym_0 [of "scast v"] ab False by (simp add: scast_zero)
    moreover obtain k where "r = 16 * k" using Cons.prems(2) by (elim dvdE)
    then have "r mod 256 = 16 * (k mod 16)" using mult_mod_right [of 16 k 16] by simp
    ultimately have "r mod 256 + ?n \<in> set ac_baseline" by (intro ac_baselineI) auto
    moreover have "0xf0 \<in> set ac_baseline" by (simp add: ac_baseline_def)
    ultimately show ?thesis using False Cons.IH [of 0] Cons.prems by auto
  qed
qed

text \<open>C14: the standard tables leave no baseline block without a code. After the installation of the
  standard tables and the derivation of both table numbers, every block whose first coefficient differs by
  less than 2048 from the last one and whose other coefficients are below 1024 in magnitude can be coded with
  either table number, and the derived tables are the result of an accepted derivation.\<close>
theorem std_tables_code_baseline:
  assumes "std_ready t" "i < 2" "j < 2"
    and "\<bar>sint (blk ! 0) - sint lst\<bar> < 2048"
    and "\<forall>k \<in> {1 ..< DCTSIZE2}. \<bar>sint (blk ! k)\<bar> < 1024"
  shows "block_coded (dc_derived_tbls t ! i) (ac_derived_tbls t ! j) lst blk
    \<and> from_table (dc_derived_tbls t ! i) \<and> from_table (ac_derived_tbls t ! j)"
proof -
  have dc: "codes_for [0 ..< 12] (dc_derived_tbls t ! i)" using std_codes [OF assms(1,2)] by blast
  have ac: "codes_for ac_baseline (ac_derived_tbls t ! j)" using std_codes [OF assms(1,3)] by blast
  define v where "v = (scast (blk ! 0) - scast lst :: i32)"
  have "sint v = sint (blk ! 0) - sint lst" unfolding v_def by (rule sint_diff_i16)
  then have "\<bar>sint v\<bar> < 2 ^ 11" using assms(4) by simp
  then have s: "val_sym v \<le> 11" by (rule val_sym_bound) simp
  then have p: "ehufsi (dc_derived_tbls t ! i) ! val_sym v > 0" using dc by (simp add: codes_for_def)
  then have "unat (ehufsi (dc_derived_tbls t ! i) ! val_sym v) \<le> 16"
    using dc s prefix_code_entry(1) [OF from_table_prefix] by (simp add: codes_for_def)
  then have z: "unat (ehufsi (dc_derived_tbls t ! i) ! val_sym v) + val_sym v \<le> 31" using s by linarith
  have small: "\<bar>sint w\<bar> < 1024" if w: "w \<in> set (zigzag_ac blk)" for w
  proof -
    have "\<forall>k \<in> set (drop 1 JPEG_NATURAL_ORDER). 1 \<le> k \<and> k < 64"
      by (simp add: JPEG_NATURAL_ORDER_def)
    moreover obtain k where "k \<in> set (drop 1 JPEG_NATURAL_ORDER)" "w = blk ! k"
      using w unfolding zigzag_ac_def set_map by blast
    ultimately show ?thesis using assms(5) by (simp add: DCTSIZE2_def)
  qed
  have "w \<noteq> 0x8000" if "w \<in> set (zigzag_ac blk)" for w using small [OF that] by auto
  moreover have "\<forall>s \<in> set (ac_syms 0 (zigzag_ac blk)). ehufsi (ac_derived_tbls t ! j) ! s > 0"
    using ac_syms_baseline [of "zigzag_ac blk" 0] small ac unfolding codes_for_def by auto
  ultimately show ?thesis using dc ac p z by (simp add: block_coded_def Let_def v_def codes_for_def)
qed

theorem std_tables_code_baseline_witness:
  "\<exists>t. std_ready t \<and> block_coded (dc_derived_tbls t ! 0) (ac_derived_tbls t ! 1) 0 (5 # replicate 63 1)"
proof -
  let ?e = "\<lparr>dc_derived_tbls = [ex_dc, ex_dc], ac_derived_tbls = [ex_dc, ex_dc]\<rparr>"
  have "replicate 2 empty_huff_tbl = [empty_huff_tbl, empty_huff_tbl]" by (simp add: numeral_eq_Suc)
  then obtain t where t: "std_ready t"
    using std_tables_exist [of ?e] unfolding std_ready_def by fastforce
  have "nth (5 # replicate 63 1) k = (1 :: i16)" if "k \<in> {1 ..< DCTSIZE2}" for k
    using that by (cases k) (simp_all add: DCTSIZE2_def)
  then have "block_coded (dc_derived_tbls t ! 0) (ac_derived_tbls t ! 1) 0 (5 # replicate 63 1)"
    using std_tables_code_baseline [OF t, of 0 1 "5 # replicate 63 1" 0] by simp
  with t show ?thesis by blast
qed

end
