(* ===== verification/Jpeg_Headers.thy ===== *)
theory Jpeg_Headers
  imports Scan_Tables
begin

text \<open>
  The marker segments of a frame (\<^verbatim>\<open>encoder/encode/write.rs\<close>), written byte by byte into the packet
  sink, and a reference parser for them.
\<close>

definition M_SOI :: u8 where "M_SOI = 0xd8"
definition M_APP0 :: u8 where "M_APP0 = 0xe0"
definition M_DQT :: u8 where "M_DQT = 0xdb"
definition M_SOF0 :: u8 where "M_SOF0 = 0xc0"
definition M_DHT :: u8 where "M_DHT = 0xc4"
definition M_DRI :: u8 where "M_DRI = 0xdd"
definition M_SOS :: u8 where "M_SOS = 0xda"
definition M_EOI :: u8 where "M_EOI = 0xd9"
definition M_RST0 :: u8 where "M_RST0 = 0xd0"

text \<open>What the header writer reads: the tables and dimensions of the screen, and the work.\<close>

record header_params =
  hp_quant_tbls :: "quant_tbl list"
  hp_huff_tbls :: huff_tbls
  hp_comp_infos :: comp_infos
  hp_height :: u16
  hp_width :: u16
  hp_core_count :: u32
  hp_restart_interval :: u16

definition NUM_QUANT_TBLS :: nat where "NUM_QUANT_TBLS = 2"

definition jw_byte :: "u8 \<Rightarrow> jpeg_enc \<Rightarrow> jpeg_enc" where
  "jw_byte v je = (let (_, d, W) = write_byte v (je_dst je) (je_world je) in je\<lparr>je_dst := d, je_world := W\<rparr>)"

definition write_marker :: "u8 \<Rightarrow> jpeg_enc \<Rightarrow> jpeg_enc" where
  "write_marker mark je = jw_byte mark (jw_byte 0xFF je)"

definition write_2bytes :: "u16 \<Rightarrow> jpeg_enc \<Rightarrow> jpeg_enc" where
  "write_2bytes v je = jw_byte (ucast (v AND 0xFF)) (jw_byte (ucast (drop_bit 8 v AND 0xFF)) je)"

definition write_jfif_app0 :: "jpeg_enc \<Rightarrow> jpeg_enc" where
  "write_jfif_app0 je =
     (let je = write_marker M_APP0 je;
          je = write_2bytes (2 + 4 + 1 + 2 + 1 + 2 + 2 + 1 + 1) je;
          je = jw_byte 0x4A je; je = jw_byte 0x46 je; je = jw_byte 0x49 je; je = jw_byte 0x46 je;
          je = jw_byte 0 je;
          je = jw_byte 1 je; je = jw_byte 1 je;
          je = jw_byte 0 je;
          je = write_2bytes 1 je; je = write_2bytes 1 je;
          je = jw_byte 0 je
      in jw_byte 0 je)"

definition write_dqt :: "header_params \<Rightarrow> nat \<Rightarrow> jpeg_enc \<Rightarrow> jpeg_enc" where
  "write_dqt hp i je =
     (let qtbl = hp_quant_tbls hp ! i;
          je = write_marker M_DQT je;
          je = write_2bytes (of_nat (DCTSIZE2 + 1 + 2)) je;
          je = jw_byte (of_nat i) je
      in fold (\<lambda>k. jw_byte (qtbl ! (JPEG_NATURAL_ORDER ! k))) [0 ..< DCTSIZE2] je)"

definition write_dht :: "header_params \<Rightarrow> nat \<Rightarrow> bool \<Rightarrow> jpeg_enc \<Rightarrow> jpeg_enc" where
  "write_dht hp i is_ac je =
     (let tbl = (if is_ac then ac_huff_tbls (hp_huff_tbls hp) ! i else dc_huff_tbls (hp_huff_tbls hp) ! i);
          i = (if is_ac then i OR 0x10 else i);
          je = write_marker M_DHT je;
          len = fold (\<lambda>k len. len + ucast (tbits tbl ! k)) [1 ..< 17] (0 :: u16);
          je = write_2bytes (len + 2 + 1 + 16) je;
          je = jw_byte (of_nat i) je;
          je = fold (\<lambda>k. jw_byte (tbits tbl ! k)) [1 ..< 17] je
      in fold (\<lambda>k. jw_byte (huff_vals tbl ! k)) [0 ..< unat (ucast len :: u8)] je)"

definition write_dri :: "header_params \<Rightarrow> jpeg_enc \<Rightarrow> jpeg_enc" where
  "write_dri hp je =
     (let je = write_marker M_DRI je; je = write_2bytes 4 je
      in write_2bytes (hp_restart_interval hp) je)"

definition write_sos :: "header_params \<Rightarrow> jpeg_enc \<Rightarrow> jpeg_enc" where
  "write_sos hp je =
     (let je = write_marker M_SOS je;
          je = write_2bytes (of_nat (2 * MAX_COMPONENTS + 2 + 1 + 3)) je;
          je = jw_byte (of_nat MAX_COMPONENTS) je;
          je = fold (\<lambda>i je.
                 let comp = hp_comp_infos hp ! i;
                     je = jw_byte (component_id comp) je;
                     td = dc_tbl_no comp; ta = ac_tbl_no comp
                 in jw_byte (push_bit 4 td + ta) je) [0 ..< MAX_COMPONENTS] je;
          je = jw_byte 0 je;
          je = jw_byte (of_nat (DCTSIZE2 - 1)) je
      in jw_byte 0 je)"

definition write_sof :: "header_params \<Rightarrow> u8 \<Rightarrow> jpeg_enc \<Rightarrow> jpeg_enc" where
  "write_sof hp code je =
     (let je = write_marker code je;
          je = write_2bytes (of_nat (3 * MAX_COMPONENTS + 2 + 5 + 1)) je;
          je = jw_byte 8 je;
          je = write_2bytes (hp_height hp) je;
          je = write_2bytes (hp_width hp) je;
          je = jw_byte (of_nat MAX_COMPONENTS) je
      in fold (\<lambda>info je.
           let je = jw_byte (component_id info) je;
               je = jw_byte (push_bit 4 (h_samp_factor info) + v_samp_factor info) je
           in jw_byte (quant_tbl_no info) je) (hp_comp_infos hp) je)"

definition write_headers :: "header_params \<Rightarrow> jpeg_enc \<Rightarrow> jpeg_enc" where
  "write_headers hp je =
     (let je = write_marker M_SOI je;
          je = write_jfif_app0 je;
          je = fold (write_dqt hp) [0 ..< NUM_QUANT_TBLS] je;
          je = write_sof hp M_SOF0 je;
          je = fold (\<lambda>i je. write_dht hp i True (write_dht hp i False je)) [0 ..< NUM_HUFF_TBLS] je;
          je = (if 1 < hp_core_count hp then write_dri hp je else je)
      in write_sos hp je)"

definition write_rst :: "u32 \<Rightarrow> jpeg_enc \<Rightarrow> jpeg_enc" where
  "write_rst thread_index je = write_marker (M_RST0 + ucast thread_index) je"

definition write_trailer :: "jpeg_enc \<Rightarrow> jpeg_enc" where
  "write_trailer je = write_marker M_EOI je"

definition write_term :: "jpeg_enc \<Rightarrow> jpeg_enc" where
  "write_term je = (let (_, d, W) = term_dst (je_dst je) (je_world je) in je\<lparr>je_dst := d, je_world := W\<rparr>)"

section \<open>The bytes written\<close>

definition jw_bytes :: "u8 list \<Rightarrow> jpeg_enc \<Rightarrow> jpeg_enc" where
  "jw_bytes bs je = fold jw_byte bs je"

lemma jw_bytes_simps [simp]:
  "jw_bytes [] je = je" "jw_bytes (b # bs) je = jw_bytes bs (jw_byte b je)"
  "jw_bytes (as @ bs) je = jw_bytes bs (jw_bytes as je)"
  by (simp_all add: jw_bytes_def)

definition seg :: "u8 \<Rightarrow> u8 list \<Rightarrow> u8 list" where
  "seg mark payload = 0xFF # mark # be16 (of_nat (length payload + 2)) @ payload"

definition dqt_payload :: "header_params \<Rightarrow> nat \<Rightarrow> u8 list" where
  "dqt_payload hp i = of_nat i # map (\<lambda>k. hp_quant_tbls hp ! i ! k) JPEG_NATURAL_ORDER"

definition dht_payload :: "header_params \<Rightarrow> nat \<Rightarrow> bool \<Rightarrow> u8 list" where
  "dht_payload hp i is_ac =
     (let tbl = (if is_ac then ac_huff_tbls (hp_huff_tbls hp) ! i else dc_huff_tbls (hp_huff_tbls hp) ! i)
      in of_nat (if is_ac then i OR 0x10 else i) # map (\<lambda>k. tbits tbl ! k) [1 ..< 17]
         @ take (cnt (bcount (tbits tbl)) 16) (huff_vals tbl))"

definition sof_payload :: "header_params \<Rightarrow> u8 list" where
  "sof_payload hp = 8 # be16 (hp_height hp) @ be16 (hp_width hp) @ 3 #
     concat (map (\<lambda>c. [component_id c, push_bit 4 (h_samp_factor c) + v_samp_factor c, quant_tbl_no c]) (hp_comp_infos hp))"

definition sos_payload :: "header_params \<Rightarrow> u8 list" where
  "sos_payload hp = 3 # concat (map (\<lambda>c. [component_id c, push_bit 4 (dc_tbl_no c) + ac_tbl_no c]) (hp_comp_infos hp))
     @ [0, 63, 0]"

definition app0_payload :: "u8 list" where
  "app0_payload = [0x4A, 0x46, 0x49, 0x46, 0, 1, 1, 0, 0, 1, 0, 1, 0, 0]"

text \<open>The segments of a header, in order.\<close>

definition header_segs :: "header_params \<Rightarrow> (u8 \<times> u8 list) list" where
  "header_segs hp =
     [(M_APP0, app0_payload), (M_DQT, dqt_payload hp 0), (M_DQT, dqt_payload hp 1), (M_SOF0, sof_payload hp),
      (M_DHT, dht_payload hp 0 False), (M_DHT, dht_payload hp 0 True),
      (M_DHT, dht_payload hp 1 False), (M_DHT, dht_payload hp 1 True)]
     @ (if 1 < hp_core_count hp then [(M_DRI, be16 (hp_restart_interval hp))] else [])
     @ [(M_SOS, sos_payload hp)]"

definition header_bytes :: "header_params \<Rightarrow> u8 list" where
  "header_bytes hp = 0xFF # M_SOI # concat (map (\<lambda>(m, p). seg m p) (header_segs hp))"

text \<open>Tables of the right size, so that every length fits.\<close>

definition hp_ok :: "header_params \<Rightarrow> bool" where
  "hp_ok hp \<longleftrightarrow>
     length (hp_quant_tbls hp) = 2 \<and> (\<forall>q \<in> set (hp_quant_tbls hp). length q = DCTSIZE2)
   \<and> length (dc_huff_tbls (hp_huff_tbls hp)) = 2 \<and> length (ac_huff_tbls (hp_huff_tbls hp)) = 2
   \<and> (\<forall>t \<in> set (dc_huff_tbls (hp_huff_tbls hp)) \<union> set (ac_huff_tbls (hp_huff_tbls hp)).
        length (tbits t) = 17 \<and> length (huff_vals t) = 256 \<and> cnt (bcount (tbits t)) 16 < 256
      \<and> tbits t ! 0 = 0 \<and> (\<forall>k. cnt (bcount (tbits t)) 16 \<le> k \<and> k < 256 \<longrightarrow> huff_vals t ! k = 0))
   \<and> length (hp_comp_infos hp) = 3
   \<and> (\<forall>c \<in> set (hp_comp_infos hp). h_samp_factor c < 16 \<and> v_samp_factor c < 16
        \<and> dc_tbl_no c < 16 \<and> ac_tbl_no c < 16)"

lemma fold_jw: "fold (\<lambda>x. jw_byte (f x)) xs je = jw_bytes (map f xs) je"
  by (induction xs arbitrary: je) simp_all

lemma jw2: "write_2bytes v je = jw_bytes (be16 v) je"
proof -
  have "ucast (drop_bit 8 v AND 0xFF) = (ucast (drop_bit 8 v) :: u8)" "ucast (v AND 0xFF) = (ucast v :: u8)"
    by (rule bit_word_eqI; simp add: bit_simps; auto simp: bit_numeral_rec less_Suc_eq numeral_eq_Suc)+
  then show ?thesis by (simp add: write_2bytes_def be16_def)
qed

lemma dht_len:
  assumes "cnt (bcount (tbits t)) 16 < 256"
  shows "fold (\<lambda>k len. len + ucast (tbits t ! k)) [1 ..< 17] (0 :: u16) = of_nat (cnt (bcount (tbits t)) 16)"
proof -
  have "fold (\<lambda>k len. len + ucast (tbits t ! k)) [1 ..< Suc n] (0 :: u16) = of_nat (cnt (bcount (tbits t)) n)" for n
    by (induction n) (simp_all add: bcount_def)
  from this [of 16] show ?thesis by (simp only: Suc_numeral Suc_1 [symmetric] add_One) simp
qed

lemma jw_marker: "write_marker m je = jw_bytes [0xFF, m] je"
  by (simp add: write_marker_def)

lemmas jw_eqs = jw2 jw_marker fold_jw

lemma app0_bytes: "write_jfif_app0 je = jw_bytes (seg M_APP0 app0_payload) je"
  by (simp add: write_jfif_app0_def jw_eqs seg_def app0_payload_def be16_def Let_def)

lemma dqt_bytes: "write_dqt hp i je = jw_bytes (seg M_DQT (dqt_payload hp i)) je"
proof -
  have "map (\<lambda>k. hp_quant_tbls hp ! i ! (JPEG_NATURAL_ORDER ! k)) [0 ..< DCTSIZE2] =
      map (\<lambda>k. hp_quant_tbls hp ! i ! k) JPEG_NATURAL_ORDER"
    by (intro nth_equalityI) (simp_all add: DCTSIZE2_def natural_order(2))
  then show ?thesis
    by (simp add: write_dqt_def jw_eqs seg_def dqt_payload_def Let_def DCTSIZE2_def natural_order(2))
qed

lemma dht_bytes:
  assumes "hp_ok hp" "i < 2"
  shows "write_dht hp i is_ac je = jw_bytes (seg M_DHT (dht_payload hp i is_ac)) je"
proof -
  define t where "t = (if is_ac then ac_huff_tbls (hp_huff_tbls hp) ! i else dc_huff_tbls (hp_huff_tbls hp) ! i)"
  let ?n = "cnt (bcount (tbits t)) 16"
  have t: "length (tbits t) = 17" "length (huff_vals t) = 256" "?n < 256"
    using assms by (auto simp: hp_ok_def t_def)
  have u: "unat (ucast (of_nat ?n :: u16) :: u8) = ?n"
    using t(3) by (simp add: unsigned_ucast_eq unat_of_nat_small take_bit_nat_eq_self)
  have v: "map (\<lambda>k. huff_vals t ! k) [0 ..< ?n] = take ?n (huff_vals t)"
    using t by (intro nth_equalityI) simp_all
  have l: "(of_nat ?n + 2 + 1 + 16 :: u16) = of_nat (?n + 19)" by simp
  have lp: "length (dht_payload hp i is_ac) + 2 = ?n + 19"
    using t by (simp add: dht_payload_def Let_def t_def [symmetric])
  have "write_dht hp i is_ac je = jw_bytes (0xFF # M_DHT # be16 (of_nat (?n + 19)) @ of_nat (if is_ac then i OR 0x10 else i)
      # map (\<lambda>k. tbits t ! k) [1 ..< 17] @ take ?n (huff_vals t)) je"
    unfolding write_dht_def t_def [symmetric] Let_def dht_len [OF t(3)] u jw_eqs v l by simp
  also have "\<dots> = jw_bytes (seg M_DHT (dht_payload hp i is_ac)) je"
    unfolding seg_def lp by (simp add: dht_payload_def Let_def t_def [symmetric])
  finally show ?thesis .
qed

lemma dri_bytes: "write_dri hp je = jw_bytes (seg M_DRI (be16 (hp_restart_interval hp))) je"
  by (simp add: write_dri_def jw_eqs seg_def Let_def)

lemma sof_bytes: "length (hp_comp_infos hp) = 3 \<Longrightarrow> write_sof hp code je = jw_bytes (seg code (sof_payload hp)) je"
  by (auto simp: write_sof_def jw_eqs seg_def sof_payload_def Let_def MAX_COMPONENTS_def numeral_3_eq_3
      length_Suc_conv)

lemma sos_bytes: "length (hp_comp_infos hp) = 3 \<Longrightarrow> write_sos hp je = jw_bytes (seg M_SOS (sos_payload hp)) je"
proof -
  assume "length (hp_comp_infos hp) = 3"
  then obtain a b c where i: "hp_comp_infos hp = [a, b, c]" by (auto simp: numeral_3_eq_3 length_Suc_conv)
  have u: "[0 ..< MAX_COMPONENTS] = [0, 1, 2]" by (simp add: MAX_COMPONENTS_def upt_rec)
  show ?thesis
    unfolding write_sos_def u
    by (simp add: jw_eqs seg_def sos_payload_def i Let_def MAX_COMPONENTS_def DCTSIZE2_def)
qed

lemma write_headers_bytes:
  assumes "hp_ok hp"
  shows "write_headers hp je = jw_bytes (header_bytes hp) je"
proof -
  have u: "[0 ..< NUM_QUANT_TBLS] = [0, 1]" "[0 ..< NUM_HUFF_TBLS] = [0, 1]"
    by (simp_all add: NUM_QUANT_TBLS_def NUM_HUFF_TBLS_def upt_rec)
  have l: "length (hp_comp_infos hp) = 3" using assms by (simp add: hp_ok_def)
  have d: "\<And>a je. write_dht hp 0 a je = jw_bytes (seg M_DHT (dht_payload hp 0 a)) je"
    "\<And>a je. write_dht hp (Suc 0) a je = jw_bytes (seg M_DHT (dht_payload hp (Suc 0) a)) je"
    using dht_bytes [OF assms] by simp_all
  show ?thesis
    by (simp add: write_headers_def u jw_marker app0_bytes dqt_bytes sof_bytes [OF l] sos_bytes [OF l] d
        dri_bytes header_bytes_def header_segs_def Let_def)
qed

section \<open>Byte-wise writing is a byte sink\<close>

definition put_each :: "u8 list \<Rightarrow> worker_dst \<times> nwm_world \<Rightarrow> bool \<times> worker_dst \<times> nwm_world" where
  "put_each bs s = (True, fold (\<lambda>b s. snd (sink_put1 b s)) bs s)"

lemma put1_facts:
  assumes k: "wd_kind (fst s)"
  shows "wd_kind (fst (snd (sink_put1 b s))) \<and> w_pds (snd (snd (sink_put1 b s))) = w_pds (snd s)"
    and "wd_live (snd (sink_put1 b s)) \<Longrightarrow> wd_live s"
    and "wd_inv (fst s) (snd s) \<Longrightarrow> wd_live (snd (sink_put1 b s)) \<Longrightarrow>
      wd_inv (fst (snd (sink_put1 b s))) (snd (snd (sink_put1 b s)))
      \<and> wd_out (fst (snd (sink_put1 b s))) (snd (snd (sink_put1 b s))) = wd_out (fst s) (snd s) @ [b]
      \<and> wd_grows s (snd (sink_put1 b s))"
proof -
  obtain d W where s: "s = (d, W)" by (cases s)
  obtain r d' W' where p: "write_byte b d W = (r, d', W')" by (cases "write_byte b d W")
  have k': "wd_kind d" using k by (simp add: s)
  have rule: "wd_rule d W (r, d', W')" using write_byte_rule [OF k', of W b] p by simp
  note w = wd_rule_sink [OF k' rule]
  show "wd_kind (fst (snd (sink_put1 b s))) \<and> w_pds (snd (snd (sink_put1 b s))) = w_pds (snd s)"
    using w p by (simp add: s sink_put1_def)
  show "wd_live (snd (sink_put1 b s)) \<Longrightarrow> wd_live s" using w p by (simp add: s sink_put1_def)
  assume "wd_inv (fst s) (snd s)" "wd_live (snd (sink_put1 b s))"
  then have i: "wd_inv d W" "wd_live (d', W')" by (simp_all add: s sink_put1_def p)
  then have "stored [b] (d, W) (d', W')" using w(4) p by (intro write_byte_stored) simp_all
  then show "wd_inv (fst (snd (sink_put1 b s))) (snd (snd (sink_put1 b s)))
      \<and> wd_out (fst (snd (sink_put1 b s))) (snd (snd (sink_put1 b s))) = wd_out (fst s) (snd s) @ [b]
      \<and> wd_grows s (snd (sink_put1 b s))"
    using i(2) p by (simp add: s sink_put1_def stored_def wd_live_def wd_grows_def)
qed

lemma put_each_simps:
  "snd (put_each [] s) = s" "snd (put_each (b # bs) s) = snd (put_each bs (snd (sink_put1 b s)))" "fst (put_each bs s)"
  by (simp_all add: put_each_def)

lemma put_each_kind:
  "wd_kind (fst s) \<Longrightarrow> wd_kind (fst (snd (put_each bs s))) \<and> w_pds (snd (snd (put_each bs s))) = w_pds (snd s)"
  by (induction bs arbitrary: s) (simp_all add: put_each_simps put1_facts(1))

lemma put_each_live: "wd_kind (fst s) \<Longrightarrow> wd_live (snd (put_each bs s)) \<Longrightarrow> wd_live s"
proof (induction bs arbitrary: s)
  case (Cons b bs)
  then show ?case using put1_facts(1,2) [OF Cons.prems(1), of b] by (simp add: put_each_simps)
qed (simp add: put_each_simps)

interpretation each_sink: byte_sink put_each "\<lambda>s. wd_inv (fst s) (snd s)" wd_live
    "\<lambda>s. wd_out (fst s) (snd s)" "\<lambda>s. w_pds (snd s)" "\<lambda>s. wd_kind (fst s)" wd_grows
proof
  fix s :: "worker_dst \<times> nwm_world" and bs :: "u8 list"
  assume k: "wd_kind (fst s)"
  show "wd_kind (fst (snd (put_each bs s))) \<and> w_pds (snd (snd (put_each bs s))) = w_pds (snd s)"
    using k by (rule put_each_kind)
  show "wd_live (snd (put_each bs s)) \<Longrightarrow> wd_live s" using k by (rule put_each_live)
  assume i: "wd_inv (fst s) (snd s)" and l: "wd_live (snd (put_each bs s))"
  show "fst (put_each bs s) \<and> wd_inv (fst (snd (put_each bs s))) (snd (snd (put_each bs s)))
      \<and> wd_out (fst (snd (put_each bs s))) (snd (snd (put_each bs s))) = wd_out (fst s) (snd s) @ bs
      \<and> wd_grows s (snd (put_each bs s))"
    using k i l
  proof (induction bs arbitrary: s)
    case Nil
    then show ?case by (simp add: put_each_simps wd_grows_def)
  next
    case (Cons b bs)
    let ?s = "snd (sink_put1 b s)"
    have k: "wd_kind (fst ?s)" using put1_facts(1) [OF Cons.prems(1)] by simp
    have "wd_live ?s" using put_each_live [OF k] Cons.prems(3) by (simp add: put_each_simps)
    with put1_facts(3) [OF Cons.prems(1,2)] have o: "wd_inv (fst ?s) (snd ?s)"
      "wd_out (fst ?s) (snd ?s) = wd_out (fst s) (snd s) @ [b]" "wd_grows s ?s" by auto
    from Cons.IH [OF k o(1)] Cons.prems(3) o(2,3) show ?case
      using dst_sink.grows_trans [OF o(3)] by (simp add: put_each_simps)
  qed
qed (auto intro: dst_sink.grows_refl dst_sink.grows_trans)

lemma jw_bytes_each:
  "(je_dst (jw_bytes bs je), je_world (jw_bytes bs je)) = snd (put_each bs (je_dst je, je_world je))
   \<and> je_bits (jw_bytes bs je) = je_bits je \<and> je_last (jw_bytes bs je) = je_last je"
proof (induction bs arbitrary: je)
  case (Cons b bs)
  have "snd (sink_put1 b (je_dst je, je_world je)) = (je_dst (jw_byte b je), je_world (jw_byte b je))"
    "je_bits (jw_byte b je) = je_bits je" "je_last (jw_byte b je) = je_last je"
    by (simp_all add: jw_byte_def sink_put1_def split_beta)
  then show ?case using Cons [of "jw_byte b je"] by (simp add: put_each_simps)
qed (simp add: put_each_simps)

lemma puts_singles: "each_sink.puts (map (\<lambda>b. [b]) bs) s = snd (put_each bs s)"
  by (induction bs arbitrary: s) (simp_all add: put_each_simps)

lemma jw_bytes_ok:
  assumes "wd_inv (je_dst je) (je_world je)" "je_live (jw_bytes bs je)"
  shows "wd_inv (je_dst (jw_bytes bs je)) (je_world (jw_bytes bs je))"
    and "wd_out (je_dst (jw_bytes bs je)) (je_world (jw_bytes bs je)) = wd_out (je_dst je) (je_world je) @ bs"
    and "w_pds (je_world (jw_bytes bs je)) = w_pds (je_world je)"
    and "wd_user (je_dst (jw_bytes bs je)) = wd_user (je_dst je)"
proof -
  let ?s = "(je_dst je, je_world je)"
  have e: "each_sink.puts (map (\<lambda>b. [b]) bs) ?s = (je_dst (jw_bytes bs je), je_world (jw_bytes bs je))"
    using jw_bytes_each [of bs je] by (simp add: puts_singles)
  have k: "wd_kind (fst ?s)" using wd_inv_kind [OF assms(1)] by simp
  have "0 < w_pds (je_world je)" using assms(1) by (simp add: wd_inv_def)
  with each_sink.puts_ok [of ?s "map (\<lambda>b. [b]) bs"] each_sink.puts_kind [OF k] assms k e
  show "wd_inv (je_dst (jw_bytes bs je)) (je_world (jw_bytes bs je))"
    "wd_out (je_dst (jw_bytes bs je)) (je_world (jw_bytes bs je)) = wd_out (je_dst je) (je_world je) @ bs"
    "w_pds (je_world (jw_bytes bs je)) = w_pds (je_world je)"
    "wd_user (je_dst (jw_bytes bs je)) = wd_user (je_dst je)"
    by (auto simp: je_live_def wd_grows_def)
qed

lemma jw_bytes_live: "wd_kind (je_dst je) \<Longrightarrow> je_live (jw_bytes bs je) \<Longrightarrow> je_live je"
  using put_each_live [of "(je_dst je, je_world je)" bs] jw_bytes_each [of bs je] by (simp add: je_live_def)

lemma jw_bytes_kind: "wd_kind (je_dst je) \<Longrightarrow> wd_kind (je_dst (jw_bytes bs je))"
  using put_each_kind [of "(je_dst je, je_world je)" bs] jw_bytes_each [of bs je] by (metis fst_conv)

section \<open>A reference parser\<close>

definition rd_be16 :: "u8 \<Rightarrow> u8 \<Rightarrow> u16" where
  "rd_be16 h l = push_bit 8 (ucast h) OR ucast l"

text \<open>Marker segments up to and including the start of the scan.\<close>

function parse_segs :: "u8 list \<Rightarrow> ((u8 \<times> u8 list) list \<times> u8 list) option" where
  "parse_segs bs =
     (if length bs < 4 \<or> bs ! 0 \<noteq> 0xFF then None
      else let m = bs ! 1; n = unat (rd_be16 (bs ! 2) (bs ! 3)) - 2; bs = drop 4 bs
           in if length bs < n then None
              else if m = M_SOS then Some ([(m, take n bs)], drop n bs)
              else map_option (apfst (Cons (m, take n bs))) (parse_segs (drop n bs)))"
  by pat_completeness auto
termination by (relation "measure length") auto

declare parse_segs.simps [simp del]

record jpeg_info =
  ji_quant :: "nat \<Rightarrow> u8 list option"
  ji_dc :: "nat \<Rightarrow> huff_tbl option"
  ji_ac :: "nat \<Rightarrow> huff_tbl option"
  ji_size :: "(u16 \<times> u16) option"
  ji_comps :: "(u8 \<times> u8 \<times> u8 \<times> u8) list"
  ji_scan :: "(u8 \<times> u8 \<times> u8) list"
  ji_dri :: u16

definition ji_empty :: jpeg_info where
  "ji_empty = \<lparr>ji_quant = \<lambda>_. None, ji_dc = \<lambda>_. None, ji_ac = \<lambda>_. None, ji_size = None,
     ji_comps = [], ji_scan = [], ji_dri = 0\<rparr>"

definition unzigzag8 :: "u8 list \<Rightarrow> u8 list" where
  "unzigzag8 zz = map (\<lambda>i. the (map_of (zip JPEG_NATURAL_ORDER zz) i)) [0 ..< DCTSIZE2]"

fun parse_sof_comps :: "u8 list \<Rightarrow> (u8 \<times> u8 \<times> u8 \<times> u8) list" where
  "parse_sof_comps (i # hv # q # bs) = (i, drop_bit 4 hv, hv AND 15, q) # parse_sof_comps bs"
| "parse_sof_comps _ = []"

fun parse_sos_comps :: "nat \<Rightarrow> u8 list \<Rightarrow> (u8 \<times> u8 \<times> u8) list" where
  "parse_sos_comps (Suc n) (i # t # bs) = (i, drop_bit 4 t, t AND 15) # parse_sos_comps n bs"
| "parse_sos_comps _ _ = []"

definition parse_dht :: "u8 list \<Rightarrow> huff_tbl" where
  "parse_dht p = \<lparr>tbits = 0 # take 16 p, huff_vals = drop 16 p @ replicate (256 - length (drop 16 p)) 0\<rparr>"

definition apply_seg :: "u8 \<times> u8 list \<Rightarrow> jpeg_info \<Rightarrow> jpeg_info option" where
  "apply_seg s J =
     (case s of (m, p) \<Rightarrow>
        if m = M_APP0 then Some J
        else if m = M_DQT then
          if length p \<noteq> 65 then None
          else Some (J\<lparr>ji_quant := (ji_quant J)(unat (hd p) \<mapsto> unzigzag8 (tl p))\<rparr>)
        else if m = M_DHT then
          if length p < 17 \<or> length p \<noteq> 17 + (\<Sum>k \<in> {1..16}. unat (p ! k)) then None
          else let i = unat (hd p AND 15) in
            if bit (hd p) 4 then Some (J\<lparr>ji_ac := (ji_ac J)(i \<mapsto> parse_dht (tl p))\<rparr>)
            else Some (J\<lparr>ji_dc := (ji_dc J)(i \<mapsto> parse_dht (tl p))\<rparr>)
        else if m = M_SOF0 then
          if length p < 6 then None
          else Some (J\<lparr>ji_size := Some (rd_be16 (p ! 1) (p ! 2), rd_be16 (p ! 3) (p ! 4)),
                       ji_comps := parse_sof_comps (drop 6 p)\<rparr>)
        else if m = M_DRI then
          if length p \<noteq> 2 then None else Some (J\<lparr>ji_dri := rd_be16 (p ! 0) (p ! 1)\<rparr>)
        else if m = M_SOS then
          if p = [] then None else Some (J\<lparr>ji_scan := parse_sos_comps (unat (hd p)) (tl p)\<rparr>)
        else None)"

definition apply_segs :: "(u8 \<times> u8 list) list \<Rightarrow> jpeg_info option" where
  "apply_segs segs = fold (\<lambda>s J. Option.bind J (apply_seg s)) segs (Some ji_empty)"

definition parse_headers :: "u8 list \<Rightarrow> (jpeg_info \<times> u8 list) option" where
  "parse_headers bs =
     (if take 2 bs = [0xFF, M_SOI] then
        case parse_segs (drop 2 bs) of None \<Rightarrow> None
        | Some (segs, rest) \<Rightarrow> map_option (\<lambda>J. (J, rest)) (apply_segs segs)
      else None)"

text \<open>What the header is meant to say.\<close>

definition info_of :: "header_params \<Rightarrow> jpeg_info" where
  "info_of hp = \<lparr>
     ji_quant = [0 \<mapsto> hp_quant_tbls hp ! 0, 1 \<mapsto> hp_quant_tbls hp ! 1],
     ji_dc = [0 \<mapsto> dc_huff_tbls (hp_huff_tbls hp) ! 0, 1 \<mapsto> dc_huff_tbls (hp_huff_tbls hp) ! 1],
     ji_ac = [0 \<mapsto> ac_huff_tbls (hp_huff_tbls hp) ! 0, 1 \<mapsto> ac_huff_tbls (hp_huff_tbls hp) ! 1],
     ji_size = Some (hp_height hp, hp_width hp),
     ji_comps = map (\<lambda>c. (component_id c, h_samp_factor c, v_samp_factor c, quant_tbl_no c)) (hp_comp_infos hp),
     ji_scan = map (\<lambda>c. (component_id c, dc_tbl_no c, ac_tbl_no c)) (hp_comp_infos hp),
     ji_dri = (if 1 < hp_core_count hp then hp_restart_interval hp else 0)\<rparr>"

section \<open>The parser recovers the header\<close>

lemma be16_list: "be16 v = [be16 v ! 0, be16 v ! 1]"
  by (simp add: be16_def)

lemma rd_be16 [simp]: "rd_be16 (be16 v ! 0) (be16 v ! 1) = v"
proof (rule bit_word_eqI)
  fix n assume "n < LENGTH(16)"
  then show "bit (rd_be16 (be16 v ! 0) (be16 v ! 1)) n = bit v n"
    by (cases "n < 8") (auto simp: rd_be16_def be16_def bit_simps)
qed

lemma parse_seg:
  assumes "length p + 2 < 2 ^ 16"
  shows "parse_segs (seg m p @ rest) =
    (if m = M_SOS then Some ([(m, p)], rest) else map_option (apfst (Cons (m, p))) (parse_segs rest))"
proof -
  let ?v = "of_nat (length p + 2) :: u16"
  have s: "seg m p @ rest = 0xFF # m # be16 ?v ! 0 # be16 ?v ! 1 # p @ rest"
    unfolding seg_def by (subst be16_list) simp
  have n: "unat (rd_be16 (be16 ?v ! 0) (be16 ?v ! 1)) - 2 = length p"
    unfolding rd_be16 using unat_of_nat_small [where 'a = 16, of "length p + 2"] assms by simp
  show ?thesis
    unfolding s parse_segs.simps [of "0xFF # m # be16 ?v ! 0 # be16 ?v ! 1 # p @ rest"]
    using n by (simp add: numeral_2_eq_2 numeral_3_eq_3)
qed

lemma nibbles:
  assumes "a < 16" "b < 16"
  shows "drop_bit 4 (push_bit 4 a + b :: u8) = a" "(push_bit 4 a + b) AND 15 = b"
proof -
  have m: "(15 :: u8) = mask 4" by (simp add: mask_eq_exp_minus_1)
  have b: "\<not> bit w k" if "w < 16" "4 \<le> k" for w :: u8 and k
  proof -
    have "unat w < 2 ^ 4" using that(1) by (simp add: word_less_nat_alt)
    also have "\<dots> \<le> (2 :: nat) ^ k" using that(2) by (intro power_increasing) simp_all
    finally show ?thesis by (simp add: bit_unat)
  qed
  have "push_bit 4 a AND b = 0"
    using b [OF assms(2)] by (intro bit_word_eqI) (auto simp: bit_simps)
  then have o: "push_bit 4 a + b = push_bit 4 a OR b" by (simp add: disjunctive_add_eq_or)
  show "drop_bit 4 (push_bit 4 a + b) = a"
  proof (rule bit_word_eqI)
    fix n assume "n < LENGTH(8)"
    then show "bit (drop_bit 4 (push_bit 4 a + b)) n = bit a n"
      unfolding o using b [OF assms(1), of n] b [OF assms(2), of "n + 4"]
      by (cases "n < 4") (simp_all add: bit_simps add.commute)
  qed
  show "(push_bit 4 a + b) AND 15 = b"
  proof (rule bit_word_eqI)
    fix n assume "n < LENGTH(8)"
    then show "bit ((push_bit 4 a + b) AND 15) n = bit b n"
      unfolding o m using b [OF assms(2), of n] by (cases "n < 4") (simp_all add: bit_simps bit_mask_iff)
  qed
qed

lemma unzigzag8: "length q = DCTSIZE2 \<Longrightarrow> unzigzag8 (map (\<lambda>k. q ! k) JPEG_NATURAL_ORDER) = q"
proof -
  assume "length q = DCTSIZE2"
  moreover have "map_of (zip JPEG_NATURAL_ORDER (map (\<lambda>k. q ! k) JPEG_NATURAL_ORDER)) i = Some (q ! i)"
    if "i < 64" for i
    using that natural_order(1) by (simp add: map_of_zip_map)
  ultimately show ?thesis by (intro nth_equalityI) (simp_all add: unzigzag8_def DCTSIZE2_def)
qed

lemmas marker_defs = M_SOI_def M_APP0_def M_DQT_def M_SOF0_def M_DHT_def M_DRI_def M_SOS_def M_EOI_def M_RST0_def

lemma apply_dqt:
  assumes "hp_ok hp" "i < 2"
  shows "apply_seg (M_DQT, dqt_payload hp i) J = Some (J\<lparr>ji_quant := (ji_quant J)(i \<mapsto> hp_quant_tbls hp ! i)\<rparr>)"
proof -
  have "length (hp_quant_tbls hp ! i) = DCTSIZE2" using assms by (auto simp: hp_ok_def)
  moreover have "unat (of_nat i :: u8) = i" using assms(2) by (simp add: unat_of_nat_small)
  ultimately show ?thesis
    by (simp add: apply_seg_def marker_defs dqt_payload_def natural_order(2) unzigzag8)
qed

lemma apply_dht:
  assumes "hp_ok hp" "i < 2"
  shows "apply_seg (M_DHT, dht_payload hp i False) J =
      Some (J\<lparr>ji_dc := (ji_dc J)(i \<mapsto> dc_huff_tbls (hp_huff_tbls hp) ! i)\<rparr>)"
    and "apply_seg (M_DHT, dht_payload hp i True) J =
      Some (J\<lparr>ji_ac := (ji_ac J)(i \<mapsto> ac_huff_tbls (hp_huff_tbls hp) ! i)\<rparr>)"
proof -
  have gen: "length (dht_payload hp i a) = 17 + (\<Sum>k \<in> {1..16}. unat (dht_payload hp i a ! k))
      \<and> 17 \<le> length (dht_payload hp i a) \<and> parse_dht (tl (dht_payload hp i a)) = t"
    if t: "t = (if a then ac_huff_tbls (hp_huff_tbls hp) ! i else dc_huff_tbls (hp_huff_tbls hp) ! i)" for a t
  proof -
    let ?n = "cnt (bcount (tbits t)) 16"
    have o: "length (tbits t) = 17" "length (huff_vals t) = 256" "?n < 256" "tbits t ! 0 = 0"
      "\<And>k. ?n \<le> k \<Longrightarrow> k < 256 \<Longrightarrow> huff_vals t ! k = 0"
      using assms t by (auto simp: hp_ok_def)
    have p: "dht_payload hp i a = of_nat (if a then i OR 0x10 else i) # map (\<lambda>k. tbits t ! k) [1 ..< 17]
        @ take ?n (huff_vals t)"
      by (simp add: dht_payload_def t Let_def)
    have l: "length (dht_payload hp i a) = 17 + ?n" using o by (simp add: p)
    have s: "unat (dht_payload hp i a ! k) = bcount (tbits t) k" if "k \<in> {1..16}" for k
      using that by (auto simp: p bcount_def nth_Cons' nth_append)
    have tb: "0 # map (\<lambda>k. tbits t ! k) [1 ..< 17] = tbits t"
      using o(1,4) by (intro nth_equalityI) (auto simp: nth_Cons')
    have hv: "take ?n (huff_vals t) @ replicate (256 - ?n) 0 = huff_vals t"
      using o by (intro nth_equalityI) (auto simp: nth_append)
    have "parse_dht (tl (dht_payload hp i a)) = t"
      using tb hv o by (simp add: p parse_dht_def)
    then show ?thesis using l s by (simp add: cnt_def)
  qed
  have "i = 0 \<or> i = 1" using assms(2) by auto
  then have f: "hd (dht_payload hp i False) AND 15 = of_nat i" "\<not> bit (hd (dht_payload hp i False)) 4"
    "hd (dht_payload hp i True) AND 15 = of_nat i" "bit (hd (dht_payload hp i True)) 4"
    by (auto simp: dht_payload_def Let_def bit_numeral_rec)
  have u: "unat (of_nat i :: u8) = i" using assms(2) by (simp add: unat_of_nat_small)
  show "apply_seg (M_DHT, dht_payload hp i False) J =
      Some (J\<lparr>ji_dc := (ji_dc J)(i \<mapsto> dc_huff_tbls (hp_huff_tbls hp) ! i)\<rparr>)"
    using gen [of "dc_huff_tbls (hp_huff_tbls hp) ! i" False] f u by (simp add: apply_seg_def marker_defs)
  show "apply_seg (M_DHT, dht_payload hp i True) J =
      Some (J\<lparr>ji_ac := (ji_ac J)(i \<mapsto> ac_huff_tbls (hp_huff_tbls hp) ! i)\<rparr>)"
    using gen [of "ac_huff_tbls (hp_huff_tbls hp) ! i" True] f u by (simp add: apply_seg_def marker_defs)
qed

lemma parse_sof_comps_map:
  "\<forall>c \<in> set cs. h_samp_factor c < 16 \<and> v_samp_factor c < 16 \<Longrightarrow>
   parse_sof_comps (concat (map (\<lambda>c. [component_id c, push_bit 4 (h_samp_factor c) + v_samp_factor c, quant_tbl_no c]) cs))
     = map (\<lambda>c. (component_id c, h_samp_factor c, v_samp_factor c, quant_tbl_no c)) cs"
  by (induction cs) (simp_all add: nibbles)

lemma parse_sos_comps_map:
  "\<forall>c \<in> set cs. dc_tbl_no c < 16 \<and> ac_tbl_no c < 16 \<Longrightarrow>
   parse_sos_comps (length cs) (concat (map (\<lambda>c. [component_id c, push_bit 4 (dc_tbl_no c) + ac_tbl_no c]) cs) @ xs)
     = map (\<lambda>c. (component_id c, dc_tbl_no c, ac_tbl_no c)) cs"
proof (induction cs)
  case Nil
  show ?case by (cases xs; simp)
qed (simp add: nibbles)

lemma apply_sof:
  assumes "hp_ok hp"
  shows "apply_seg (M_SOF0, sof_payload hp) J = Some (J\<lparr>ji_size := Some (hp_height hp, hp_width hp),
     ji_comps := map (\<lambda>c. (component_id c, h_samp_factor c, v_samp_factor c, quant_tbl_no c)) (hp_comp_infos hp)\<rparr>)"
proof -
  define cs where "cs = concat (map (\<lambda>c. [component_id c, push_bit 4 (h_samp_factor c) + v_samp_factor c, quant_tbl_no c])
    (hp_comp_infos hp))"
  have "sof_payload hp = [8, be16 (hp_height hp) ! 0, be16 (hp_height hp) ! 1, be16 (hp_width hp) ! 0,
      be16 (hp_width hp) ! 1, 3] @ cs"
    unfolding sof_payload_def cs_def
    by (subst be16_list [of "hp_height hp"], subst be16_list [of "hp_width hp"]) simp
  moreover have "parse_sof_comps cs = map (\<lambda>c. (component_id c, h_samp_factor c, v_samp_factor c, quant_tbl_no c)) (hp_comp_infos hp)"
    unfolding cs_def using assms by (intro parse_sof_comps_map) (simp add: hp_ok_def)
  ultimately show ?thesis
    using rd_be16 [of "hp_height hp"] rd_be16 [of "hp_width hp"] by (simp add: apply_seg_def marker_defs)
qed

lemma apply_sos:
  assumes "hp_ok hp"
  shows "apply_seg (M_SOS, sos_payload hp) J =
    Some (J\<lparr>ji_scan := map (\<lambda>c. (component_id c, dc_tbl_no c, ac_tbl_no c)) (hp_comp_infos hp)\<rparr>)"
  using assms parse_sos_comps_map [of "hp_comp_infos hp" "[0, 63, 0]"]
  by (simp add: apply_seg_def marker_defs sos_payload_def hp_ok_def)

lemma apply_dri: "apply_seg (M_DRI, be16 v) J = Some (J\<lparr>ji_dri := v\<rparr>)"
  using rd_be16 [of v] by (simp add: apply_seg_def marker_defs)

lemma length_dht_payload:
  assumes "hp_ok hp" "i < 2"
  shows "length (dht_payload hp i a) + 2 < 2 ^ 16"
proof -
  define t where "t = (if a then ac_huff_tbls (hp_huff_tbls hp) ! i else dc_huff_tbls (hp_huff_tbls hp) ! i)"
  have "cnt (bcount (tbits t)) 16 < 256" using assms by (auto simp: hp_ok_def t_def)
  then show ?thesis by (simp add: dht_payload_def Let_def t_def [symmetric])
qed

lemma parse_header_bytes:
  assumes "hp_ok hp"
  shows "parse_headers (header_bytes hp @ rest) = Some (info_of hp, rest)"
proof -
  have i: "length (hp_comp_infos hp) = 3" using assms by (simp add: hp_ok_def)
  have l: "length app0_payload + 2 < 2 ^ 16" "length (dqt_payload hp k) + 2 < 2 ^ 16"
    "length (sof_payload hp) + 2 < 2 ^ 16" "length (sos_payload hp) + 2 < 2 ^ 16" "length (be16 v) + 2 < 2 ^ 16" for k v
    using i by (simp_all add: app0_payload_def dqt_payload_def natural_order(2) sof_payload_def sos_payload_def
        length_concat comp_def sum_list_triv)
  note d = length_dht_payload [OF assms, of 0] length_dht_payload [OF assms, of 1]
  have ne: "M_APP0 \<noteq> M_SOS" "M_DQT \<noteq> M_SOS" "M_SOF0 \<noteq> M_SOS" "M_DHT \<noteq> M_SOS" "M_DRI \<noteq> M_SOS"
    by (simp_all add: marker_defs)
  have s: "parse_segs (concat (map (\<lambda>(m, p). seg m p) (header_segs hp)) @ rest) = Some (header_segs hp, rest)"
    unfolding header_segs_def using d ne by (simp add: parse_seg [OF l(1)] parse_seg [OF l(2)] parse_seg [OF l(3)]
        parse_seg [OF l(4)] parse_seg [OF l(5)] parse_seg)
  have m: "(ji_quant ji_empty)(0 \<mapsto> x, 1 \<mapsto> y) = [0 \<mapsto> x, 1 \<mapsto> y]" for x y :: "u8 list"
    by (simp add: ji_empty_def)
  have j: "apply_segs (header_segs hp) = Some (info_of hp)"
    using assms
    by (simp add: apply_segs_def header_segs_def apply_seg_def [of "(M_APP0, _)"] apply_dqt apply_dht apply_sof
        apply_dri apply_sos info_of_def ji_empty_def)
  show ?thesis
    by (simp add: parse_headers_def header_bytes_def s j)
qed

text \<open>C8: the marker segments of a frame say what they should. Written byte by byte through any packets
  of the sink, they append to it bytes from which a parser written from the standard recovers, whatever
  follows them, both quantisation tables, all four Huffman tables, the dimensions, the sampling factors and
  table numbers of the three components and, with more than one core, the restart interval.\<close>
theorem headers_roundtrip:
  assumes "hp_ok hp" "wd_inv (je_dst je) (je_world je)" "je_live (write_headers hp je)"
  shows "\<exists>hs. wd_out (je_dst (write_headers hp je)) (je_world (write_headers hp je)) =
        wd_out (je_dst je) (je_world je) @ hs
    \<and> (\<forall>rest. parse_headers (hs @ rest) = Some (info_of hp, rest))"
  using jw_bytes_ok(2) [OF assms(2), of "header_bytes hp"] assms(3) parse_header_bytes [OF assms(1)]
  unfolding write_headers_bytes [OF assms(1)] by blast

section \<open>Example\<close>

definition ex_hp :: header_params where
  "ex_hp = \<lparr>hp_quant_tbls = replicate 2 (replicate 64 7),
     hp_huff_tbls = \<lparr>dc_huff_tbls = replicate 2 (ex_huff_tbl [0, 0, 3, 1] [0, 1, 2, 3]),
       ac_huff_tbls = replicate 2 (ex_huff_tbl [0, 0, 3, 1] [0, 1, 0xf0, 0xe1])\<rparr>,
     hp_comp_infos = ex_infos, hp_height = 240, hp_width = 400, hp_core_count = 2, hp_restart_interval = 125\<rparr>"

lemma ex_tbl_ok:
  assumes "length v = 4"
  shows "cnt (bcount (tbits (ex_huff_tbl [0, 0, 3, 1] v))) 16 = 4"
    "length (tbits (ex_huff_tbl [0, 0, 3, 1] v)) = 17" "length (huff_vals (ex_huff_tbl [0, 0, 3, 1] v)) = 256"
    "tbits (ex_huff_tbl [0, 0, 3, 1] v) ! 0 = 0"
    "\<And>k. 4 \<le> k \<Longrightarrow> k < 256 \<Longrightarrow> huff_vals (ex_huff_tbl [0, 0, 3, 1] v) ! k = 0"
proof -
  have "cnt (bcount ([0, 0, 3, 1] @ replicate 13 0)) 16 = 4" by code_simp
  then show "cnt (bcount (tbits (ex_huff_tbl [0, 0, 3, 1] v))) 16 = 4"
    by (simp add: ex_huff_tbl_def)
qed (use assms in \<open>simp_all add: ex_huff_tbl_def nth_append\<close>)

lemma ex_infos_ok: "length ex_infos = 3" "\<forall>c \<in> set ex_infos. h_samp_factor c < 16 \<and> v_samp_factor c < 16
    \<and> dc_tbl_no c < 16 \<and> ac_tbl_no c < 16"
  by code_simp+

lemma ex_hp_ok: "hp_ok ex_hp"
  using ex_tbl_ok [of "[0, 1, 2, 3]"] ex_tbl_ok [of "[0, 1, 0xf0, 0xe1]"] ex_infos_ok
  by (simp add: hp_ok_def ex_hp_def DCTSIZE2_def)

lemma jw_bytes_roomy:
  assumes "roomy la (length bs + r) (je_dst je, je_world je)"
  shows "roomy la r (je_dst (jw_bytes bs je), je_world (jw_bytes bs je))"
  using assms
proof (induction bs arbitrary: je)
  case (Cons b bs)
  have f: "0 < unat (wd_free (je_dst je))" using Cons.prems by (simp add: roomy_def)
  then have "unat (wd_free (je_dst je) - 1) = unat (wd_free (je_dst je)) - 1" by (simp add: unat_sub_le)
  moreover have "jw_byte b je = je\<lparr>je_dst := (je_dst je)\<lparr>wd_free := wd_free (je_dst je) - 1,
      wd_dst := wd_dst (je_dst je) + 1\<rparr>, je_world := (je_world je)\<lparr>w_mem := (w_mem (je_world je))(wd_dst (je_dst je) := b)\<rparr>\<rparr>"
    using f by (auto simp: jw_byte_def write_byte_def)
  ultimately have "roomy la (length bs + r) (je_dst (jw_byte b je), je_world (jw_byte b je))"
    using Cons.prems by (auto simp: roomy_def wd_live_def wd_room_def)
  then show ?case using Cons.IH by simp
qed simp

theorem headers_roundtrip_witness:
  "\<exists>hs. wd_out (je_dst (write_headers ex_hp ex_je)) (je_world (write_headers ex_hp ex_je)) = hs
    \<and> (\<forall>rest. parse_headers (hs @ rest) = Some (info_of ex_hp, rest))"
proof -
  have w: "wd_inv (je_dst ex_je) (je_world ex_je)" "wd_out (je_dst ex_je) (je_world ex_je) = []"
    by (simp_all add: ex_je_def ex_dst_def ex_world_def wd_inv_def wd_room_def wd_out_def)
  have "roomy 20000 3000 (je_dst ex_je, je_world ex_je)"
    by (simp add: roomy_def ex_je_def ex_dst_def ex_world_def wd_live_def wd_room_def)
  moreover have "length (header_bytes ex_hp) \<le> 3000"
    by code_simp
  ultimately have "roomy 20000 (length (header_bytes ex_hp) + (3000 - length (header_bytes ex_hp))) (je_dst ex_je, je_world ex_je)"
    by simp
  from jw_bytes_roomy [OF this] have "je_live (write_headers ex_hp ex_je)"
    by (simp add: write_headers_bytes [OF ex_hp_ok] roomy_def je_live_def)
  from headers_roundtrip [OF ex_hp_ok w(1) this] w(2) show ?thesis by simp
qed

end
