(* ===== verification/Encoder_Init.thy ===== *)
theory Encoder_Init
  imports Comp_Info
begin

text \<open>
  \<^verbatim>\<open>encoder/init.rs\<close>: the geometry of the two screens (dimensions after downsampling, MCU sizes and
  counts, the rows of the checker layout) and the tables of the encoder. Screen dimensions of the
  graphics service are arguments: the width \<open>gw\<close> and the height \<open>hgt is_top\<close> that
  \<open>rp_screen_height!\<close> gives. A failing assertion or panic is \<open>None\<close>.
\<close>

section \<open>State\<close>

record screen_shared =
  max_h_samp_factor :: nat
  max_v_samp_factor :: nat
  sc_downsample :: u8
  sc_width :: u16
  sc_height :: u16

record mcu_row_params =
  mcu_col_start :: u16
  mcu_col_end :: u16

record checker_params =
  ck_mcus :: u16
  ck_mcu_rows :: u16
  ck_mcus_per_row :: u16
  ck_row_params :: "mcu_row_params list"

record jpeg_screen =
  max_blocks_in_mcu :: nat
  mcu_row_size :: nat
  mcu_col_size :: nat
  mcus_per_row :: nat
  mcu_rows :: u16
  js_mcus :: u16
  js_checker :: checker_params
  js_quant_tbls :: "quant_tbl list"
  js_divisors :: "(divisor_part \<times> nat) list list"

record jpeg_shared =
  jsh_quality :: "u32 list"
  jsh_screens :: "jpeg_screen list"
  div_delta_q_shifts :: "u8 list list list"
  delta_q_tbls :: "u8 list list list"

definition MAX_BLOCKS_IN_MCU :: nat where "MAX_BLOCKS_IN_MCU = SAMP_FACTOR * SAMP_FACTOR + 1 + 1"
definition RP_CHROMASS_420 :: u8 where "RP_CHROMASS_420 = 0"
definition RP_CHROMASS_422 :: u8 where "RP_CHROMASS_422 = 1"
definition RP_CHROMASS_444 :: u8 where "RP_CHROMASS_444 = 2"
definition RP_SCREEN_TOP :: nat where "RP_SCREEN_TOP = 0"
definition DELTA_Q_COUNT :: nat where "DELTA_Q_COUNT = 32"
definition MCU_STEP :: u16 where "MCU_STEP = 8"

section \<open>Screens\<close>

definition init_screen :: "nat \<Rightarrow> (bool \<Rightarrow> nat) \<Rightarrow> u32 \<Rightarrow> bool \<Rightarrow> screen_shared" where
  "init_screen gw hgt downsample is_top =
     (let ds = ucast downsample :: u8 in
      \<lparr>max_h_samp_factor = 1, max_v_samp_factor = 1, sc_downsample = ds,
       sc_width = (if ds = RP_DOWNSAMPLE_CHECKER then of_nat (downsample_checker_screen_dim gw (hgt is_top))
                   else of_nat (downsample_screen_width gw ds)),
       sc_height = (if ds = RP_DOWNSAMPLE_CHECKER then of_nat (downsample_checker_screen_dim gw (hgt is_top))
                    else of_nat (downsample_screen_height (hgt is_top) ds))\<rparr>)"

definition last_restart_range :: "bool \<Rightarrow> u32" where
  "last_restart_range delta_prog = (if delta_prog then 64 else 32)"

text \<open>The kernel: the results and handles of the coming creations, and the handles closed. A handle
  is only closed when there is one; it is zero while there is none.\<close>

record kernel =
  k_creates :: "(i32 \<times> u32) list"
  k_closed :: "u32 list"

definition svc_create :: "kernel \<Rightarrow> (i32 \<times> u32) \<times> kernel" where
  "svc_create K = (case k_creates K of [] \<Rightarrow> ((- 1, 0), K) | r # rs \<Rightarrow> (r, K\<lparr>k_creates := rs\<rparr>))"

definition renew_handle :: "u32 \<Rightarrow> kernel \<Rightarrow> bool \<times> u32 \<times> kernel" where
  "renew_handle h K =
     (let K = (if 0 < h then K\<lparr>k_closed := h # k_closed K\<rparr> else K);
          ((res, h), K) = svc_create K
      in (res = 0, h, K))"

text \<open>Renews the handles in order and stops at the first creation that fails.\<close>

fun renew_handles :: "u32 list \<Rightarrow> kernel \<Rightarrow> bool \<times> u32 list \<times> kernel" where
  "renew_handles [] K = (True, [], K)"
| "renew_handles (h # hs) K =
     (case renew_handle h K of (ok, h, K) \<Rightarrow>
        if ok then (case renew_handles hs K of (ok, hs, K) \<Rightarrow> (ok, h # hs, K)) else (False, h # hs, K))"

record encoder_shared =
  es_comp_infos :: "comp_infos list"
  es_rel_stream :: bool
  es_delta_prog :: bool
  es_core_count :: iranged
  es_screens :: "screen_shared list"
  es_last_restart_range :: u32
  es_work_sem :: "u32 list"
  es_screen_sem :: "u32 list"

definition encoder_shared_init ::
  "nat \<Rightarrow> (bool \<Rightarrow> nat) \<Rightarrow> u32 list \<Rightarrow> bool \<Rightarrow> bool \<Rightarrow> iranged \<Rightarrow> encoder_shared \<Rightarrow> kernel
    \<Rightarrow> bool \<times> encoder_shared \<times> kernel" where
  "encoder_shared_init gw hgt downsample rel_stream delta_prog core_count S K =
     (let S = S\<lparr>es_rel_stream := rel_stream, es_delta_prog := delta_prog, es_core_count := core_count\<rparr>;
          (ok, ws, K) = renew_handles (es_work_sem S) K;
          S = S\<lparr>es_work_sem := ws\<rparr>
      in if \<not> ok then (False, S, K)
         else let (ok, ss, K) = renew_handles (es_screen_sem S) K;
                  S = S\<lparr>es_screen_sem := ss\<rparr>
              in if \<not> ok then (False, S, K)
                 else (True, S\<lparr>es_last_restart_range := last_restart_range delta_prog,
                               es_screens := map (\<lambda>s. init_screen gw hgt (downsample ! s) (s = RP_SCREEN_TOP))
                                 [0 ..< 2]\<rparr>, K))"

section \<open>Geometry\<close>

definition comp_infos_for :: "u8 \<Rightarrow> comp_infos" where
  "comp_infos_for hq =
     (let zero = replicate MAX_COMPONENTS zero_comp
      in if hq = RP_CHROMASS_444 then set_color_space_ycb_cr_444 zero
         else if hq = RP_CHROMASS_422 then set_color_space_ycb_cr_422 zero
         else set_color_space_ycb_cr_420 zero)"

definition samp_step :: "comp_infos \<Rightarrow> nat \<Rightarrow> nat \<times> nat \<times> nat \<Rightarrow> nat \<times> nat \<times> nat" where
  "samp_step infos i acc =
     (case acc of (mh, mv, blocks) \<Rightarrow>
        let info = infos ! i
        in (max mh (unat (h_samp_factor info)), max mv (unat (v_samp_factor info)),
            blocks + unat (h_samp_factor info) * unat (v_samp_factor info)))"

text \<open>One row of the checker layout: the screen is turned by 45 degrees, and a row of MCUs spans the
  columns between its left and its right edge.\<close>

definition checker_row :: "nat \<Rightarrow> nat \<Rightarrow> u32 \<Rightarrow> u32 \<Rightarrow> u32 \<Rightarrow> mcu_row_params" where
  "checker_row row_size col_size scr_l scr_r y =
     (let csz = of_nat col_size :: u32;
          mcu_l_v = scr_l div csz; mcu_l_r = scr_l mod csz; mcu_l_w = (if mcu_l_r > 0 then 1 else 0);
          mcu_r_v = scr_r div csz; mcu_r_r = scr_r mod csz; mcu_r_w = (if mcu_r_r > 0 then 1 else 0);
          x_start = (if y < mcu_l_v then scr_l - (y + 1) * csz
                     else if y < mcu_l_v + mcu_l_w then 0
                     else (y - mcu_l_v) * csz - mcu_l_r);
          x_end = (if y < mcu_r_v then scr_l + (y + 1) * csz
                   else if y < mcu_r_v + mcu_r_w then scr_l + scr_r
                   else scr_l + (scr_r - ((y - mcu_r_v) * csz - mcu_r_r)))
      in \<lparr>mcu_col_start = ucast (x_start div of_nat row_size),
          mcu_col_end = of_nat (jdiv_round_up (unat x_end) row_size)\<rparr>)"

definition checker_zero :: "nat \<Rightarrow> checker_params" where
  "checker_zero n = \<lparr>ck_mcus = 0, ck_mcu_rows = 0, ck_mcus_per_row = 0,
     ck_row_params = replicate n \<lparr>mcu_col_start = 0, mcu_col_end = 0\<rparr>\<rparr>"

text \<open>The array has \<open>n\<close> rows; a row outside it is the bounds-check panic.\<close>

definition checker_init :: "nat \<Rightarrow> nat \<Rightarrow> nat \<Rightarrow> u32 \<Rightarrow> u32 \<Rightarrow> nat \<Rightarrow> checker_params option" where
  "checker_init n row_size col_size scr_l scr_r rows =
     (if n < rows then None
      else let ps = map (\<lambda>y. checker_row row_size col_size scr_l scr_r (of_nat y)) [0 ..< rows];
               total = sum_list (map (\<lambda>p. mcu_col_end p - mcu_col_start p) ps)
           in Some \<lparr>ck_mcus = total, ck_mcu_rows = of_nat (jdiv_round_up (unat total) (unat MCU_STEP)),
                    ck_mcus_per_row = MCU_STEP,
                    ck_row_params = ps @ drop rows (ck_row_params (checker_zero n))\<rparr>)"

definition set_comp_info ::
  "nat \<Rightarrow> (bool \<Rightarrow> nat) \<Rightarrow> nat \<Rightarrow> u8 \<Rightarrow> bool \<Rightarrow> screen_shared \<Rightarrow> jpeg_screen
    \<Rightarrow> (comp_infos \<times> screen_shared \<times> jpeg_screen) option" where
  "set_comp_info gw hgt checker_max hq is_top screen js =
     (let infos = comp_infos_for hq;
          (mh, mv, blocks) = fold (samp_step infos) [0 ..< MAX_COMPONENTS]
            (max_h_samp_factor screen, max_v_samp_factor screen, 0);
          screen = screen\<lparr>max_h_samp_factor := mh, max_v_samp_factor := mv\<rparr>
      in if MAX_BLOCKS_IN_MCU < blocks then None
         else let rs = DCTSIZE * mh; cs = DCTSIZE * mv;
                  per_row = jdiv_round_up (unat (sc_width screen)) rs;
                  rows = of_nat (jdiv_round_up (unat (sc_height screen)) cs) :: u16;
                  js = js\<lparr>max_blocks_in_mcu := blocks, mcu_row_size := rs, mcu_col_size := cs,
                          mcus_per_row := per_row, mcu_rows := rows, js_mcus := of_nat per_row * rows,
                          js_checker := checker_zero checker_max\<rparr>
              in if sc_downsample screen = RP_DOWNSAMPLE_CHECKER
                 then map_option (\<lambda>ck. (infos, screen, js\<lparr>js_checker := ck\<rparr>))
                        (checker_init checker_max rs cs (of_nat gw) (of_nat (hgt is_top)) (unat rows))
                 else Some (infos, screen, js))"

section \<open>Tables\<close>

definition set_quality_screen :: "u32 \<Rightarrow> jpeg_screen \<Rightarrow> jpeg_screen" where
  "set_quality_screen quality js =
     (let q = set_quality quality (js_quant_tbls js)
      in js\<lparr>js_quant_tbls := q, js_divisors := set_divisors q\<rparr>)"

definition delta_shifts :: "(divisor_part \<times> nat) list list \<Rightarrow> u8 list list \<Rightarrow> u8 list list" where
  "delta_shifts base ltbls = map2 (map2 (\<lambda>d l. of_nat (snd d) + l)) base ltbls"

text \<open>With the delta coder both screens use the tables of the top screen at full quality, and every
  quantiser level has its own shifts.\<close>

definition jpeg_tables_init :: "bool \<Rightarrow> u32 list \<Rightarrow> jpeg_shared \<Rightarrow> jpeg_shared" where
  "jpeg_tables_init delta_prog quality J =
     (let J = J\<lparr>jsh_quality := quality\<rparr> in
      if \<not> delta_prog
      then J\<lparr>jsh_screens := map (\<lambda>s. set_quality_screen (quality ! s) (jsh_screens J ! s)) [0 ..< 2]\<rparr>
      else let top = set_quality_screen 100 (jsh_screens J ! RP_SCREEN_TOP)
           in J\<lparr>jsh_screens := [top, (jsh_screens J ! 1)\<lparr>js_quant_tbls := js_quant_tbls top,
                                       js_divisors := js_divisors top\<rparr>],
                div_delta_q_shifts := map (\<lambda>q. delta_shifts (js_divisors top) (delta_q_tbls J ! q))
                                        [0 ..< DELTA_Q_COUNT]\<rparr>)"

section \<open>What the geometry promises\<close>

lemma jdiv_covers:
  assumes "0 < b"
  shows "a \<le> jdiv_round_up a b * b" "jdiv_round_up a b * b < a + b"
  using assms div_mult_mod_eq [of "a + b - 1" b] mod_less_divisor [of b "a + b - 1"]
  unfolding jdiv_round_up_def by linarith+

lemma jdiv_pos: "0 < a \<Longrightarrow> 0 < b \<Longrightarrow> 0 < jdiv_round_up a b"
  unfolding jdiv_round_up_def by (simp add: div_greater_zero_iff)

lemma comp_infos_for_cases:
  "comp_infos_for hq = (if hq = RP_CHROMASS_444 then set_color_space_ycb_cr_444 (replicate 3 zero_comp)
     else if hq = RP_CHROMASS_422 then set_color_space_ycb_cr_422 (replicate 3 zero_comp)
     else set_color_space_ycb_cr_420 (replicate 3 zero_comp))"
  by (simp add: comp_infos_for_def MAX_COMPONENTS_def)

lemma samp_factors:
  "fold (samp_step (comp_infos_for hq)) [0 ..< MAX_COMPONENTS] (1, 1, 0) =
    (if hq = RP_CHROMASS_444 then (1, 1, 3) else if hq = RP_CHROMASS_422 then (2, 1, 4) else (2, 2, 6))"
  unfolding comp_infos_for_cases MAX_COMPONENTS_def
  by (simp add: upt_rec samp_step_def Let_def set_color_space_ycb_cr_420_def set_color_space_ycb_cr_422_def
      set_color_space_ycb_cr_444_def set_comp_def numeral_3_eq_3 zero_comp_def)

text \<open>The geometry of a screen: its size in MCUs is the least that covers it.\<close>

lemma geometry_factors:
  assumes "set_comp_info gw hgt cm hq is_top (init_screen gw hgt d is_top) js0 = Some (infos, scr, js)"
  obtains mh mv where "mh \<in> {1, 2}" "mv \<in> {1, 2}" "mv \<le> mh"
    "mcu_row_size js = DCTSIZE * mh" "mcu_col_size js = DCTSIZE * mv"
    "max_h_samp_factor scr = mh" "max_v_samp_factor scr = mv"
    "sc_downsample scr = ucast d" "sc_width scr = sc_width (init_screen gw hgt d is_top)"
    "sc_height scr = sc_height (init_screen gw hgt d is_top)"
    "mcus_per_row js = jdiv_round_up (unat (sc_width scr)) (mcu_row_size js)"
    "mcu_rows js = of_nat (jdiv_round_up (unat (sc_height scr)) (mcu_col_size js))"
proof -
  let ?f = "if hq = RP_CHROMASS_444 then (1, 1, 3) else if hq = RP_CHROMASS_422 then (2, 1, 4) else (2, 2, 6) :: nat \<times> nat \<times> nat"
  have one: "max_h_samp_factor (init_screen gw hgt d is_top) = 1" "max_v_samp_factor (init_screen gw hgt d is_top) = 1"
    by (simp_all add: init_screen_def Let_def)
  obtain mh mv blocks where f: "?f = (mh, mv, blocks)" by (cases ?f)
  then have m: "mh \<in> {1, 2}" "mv \<in> {1, 2}" "mv \<le> mh" by (auto split: if_splits)
  note eq = assms [unfolded set_comp_info_def one samp_factors f Let_def prod.case]
  show thesis
    by (rule that [of mh mv])
       (use eq m in \<open>auto split: if_splits simp: init_screen_def Let_def\<close>)
qed

end
