(* ===== verification/Row_Split.thy ===== *)
theory Row_Split
  imports Encoder_Init
begin

text \<open>
  The division of a screen's rows among the encoding threads (\<open>init_work\<close> and the choice of the source
  in \<open>send_frame\<close>, \<^verbatim>\<open>entries/work_thread/vars.rs\<close>). The share of the last thread, which starts last, is
  adapted from frame to frame by a shared counter in \<open>1..range\<close>.
\<close>

section \<open>State\<close>

record blit_ctx =
  bc_format :: u32
  bc_src :: nat
  bc_frame_id :: u8
  bc_is_top :: bool
  bc_i_start :: "u32 list"
  bc_i_count :: "u32 list"
  bc_should_capture :: bool

record term_info =
  ti_is_top :: bool
  ti_core_count :: iranged
  ti_v_adjusted :: u32
  ti_v_last_adjusted :: u32
  ti_even_odd :: bool

record cinfo =
  cf_is_top :: bool
  cf_color_space :: color_space
  cf_restart_interval :: u16
  cf_work_index :: iranged
  cf_core_count :: iranged
  cf_even_odd :: bool

text \<open>The statics of the work threads, and the parts of the encoder that \<open>init_work\<close> reads and sets.\<close>

record work_state =
  ws_last_n :: u32
  ws_last_w :: u32
  ws_bctx :: "blit_ctx list"
  ws_term_infos :: "term_info list"
  ws_infos :: "cinfo list"
  ws_even_odd :: "bool list"
  ws_downsample :: "u32 list"
  ws_fsize :: "u32 list"

definition is_top_index :: "bool \<Rightarrow> nat" where
  "is_top_index is_top = (if is_top then 0 else 1)"

definition get_color_space_from_format :: "u32 \<Rightarrow> color_space option" where
  "get_color_space_from_format format =
     (if format = 0 then Some RGBA8 else if format = 1 then Some RGB8 else if format = 2 then Some RGB565
      else if format = 3 then Some RGB5A1 else if format = 4 then Some RGB4 else None)"

definition bctx_bpp :: "blit_ctx \<Rightarrow> u32" where
  "bctx_bpp b = (if bc_format b = 0 then 4 else if bc_format b = 1 then 3 else 2)"

definition bctx_pitch :: "nat \<Rightarrow> blit_ctx \<Rightarrow> u32" where
  "bctx_pitch gw b = bctx_bpp b * of_nat gw"

definition bctx_height :: "(bool \<Rightarrow> nat) \<Rightarrow> blit_ctx \<Rightarrow> u32" where
  "bctx_height hgt b = of_nat (hgt (bc_is_top b))"

definition bctx_src_len :: "nat \<Rightarrow> (bool \<Rightarrow> nat) \<Rightarrow> blit_ctx \<Rightarrow> u32" where
  "bctx_src_len gw hgt b = bctx_height hgt b * bctx_pitch gw b"

definition LOSSLESS_BLOCK_SIZE :: nat where "LOSSLESS_BLOCK_SIZE = 16"

section \<open>Shares\<close>

definition next_last_n :: "u32 \<Rightarrow> u32 \<Rightarrow> bool \<Rightarrow> u32 \<Rightarrow> u32" where
  "next_last_n rng core_count_other t_last cur =
     (if t_last then if cur < rng - core_count_other then cur + core_count_other else rng
      else if 1 < cur then cur - 1 else 1)"

text \<open>The compare-exchange loop: \<open>seen\<close> lists the values that failing exchanges read back.\<close>

fun last_n_loop :: "u32 \<Rightarrow> u32 \<Rightarrow> bool \<Rightarrow> u32 list \<Rightarrow> u32 \<Rightarrow> u32" where
  "last_n_loop rng other t_last [] cur = next_last_n rng other t_last cur"
| "last_n_loop rng other t_last (temp # seen) cur = last_n_loop rng other t_last seen temp"

text \<open>Rows of the other threads, rows of the last thread, and the counter afterwards.\<close>

definition split_rows :: "u32 \<Rightarrow> u32 \<Rightarrow> u32 \<Rightarrow> bool \<Rightarrow> u32 list \<Rightarrow> u32 \<Rightarrow> u32 \<times> u32 \<times> u32" where
  "split_rows nrows core_count rng t_last seen cur =
     (let other = core_count - 1;
          n = (nrows + core_count - 1) div core_count;
          n_last = nrows - n * other
      in if 0 < cur \<and> 1 < core_count
         then let nxt = last_n_loop rng other t_last seen cur;
                  rows_last = (n_last * nxt + rng - 1) div rng;
                  rows = (nrows - rows_last) div other;
                  rows_last = nrows - rows * other
              in (rows, rows_last, nxt)
         else (n, n_last, rng))"

definition work_rows :: "bool \<Rightarrow> (bool \<Rightarrow> nat) \<Rightarrow> blit_ctx \<Rightarrow> u8 \<Rightarrow> jpeg_screen \<Rightarrow> u32 \<times> u32" where
  "work_rows lossless hgt b downsample js =
     (if lossless then (1, bctx_height hgt b div of_nat LOSSLESS_BLOCK_SIZE)
      else if downsample = RP_DOWNSAMPLE_CHECKER
           then (ucast (ck_mcus_per_row (js_checker js)), ucast (ck_mcu_rows (js_checker js)))
           else (of_nat (mcus_per_row js), ucast (mcu_rows js)))"

definition row_starts :: "u32 \<Rightarrow> nat \<Rightarrow> u32 list \<Rightarrow> u32 list" where
  "row_starts v lst i_start = map (\<lambda>j. v * of_nat j) [0 ..< lst + 1] @ drop (lst + 1) i_start"

definition row_counts :: "u32 \<Rightarrow> u32 \<Rightarrow> nat \<Rightarrow> u32 list \<Rightarrow> u32 list" where
  "row_counts v v_last lst i_count = map (\<lambda>j. if j = lst then v_last else v) [0 ..< lst + 1] @ drop (lst + 1) i_count"

lemma nth_rows:
  "j < lst + 1 \<Longrightarrow> row_starts v lst xs ! j = v * of_nat j"
  "j < lst + 1 \<Longrightarrow> row_counts v v_last lst ys ! j = (if j = lst then v_last else v)"
  by (simp_all only: row_starts_def row_counts_def nth_append length_map length_upt nth_map nth_upt minus_nat.diff_0
      if_True add_0)

text \<open>Everything of \<open>init_work\<close>; \<open>None\<close> is the panic of an unknown pixel format.\<close>

definition init_work ::
  "bool \<Rightarrow> (bool \<Rightarrow> nat) \<Rightarrow> jpeg_screen list \<Rightarrow> u32 \<Rightarrow> iranged \<Rightarrow> iranged \<Rightarrow> u32 list \<Rightarrow> work_state
    \<Rightarrow> work_state option" where
  "init_work lossless hgt screens rng core_count w seen S =
     (let b = ws_bctx S ! unat (ri w);
          w_prev = prev_wrapped 0 1 w;
          s = is_top_index (bc_is_top b);
          downsample = ucast (ws_downsample S ! s) :: u8;
          (mcus_row, rows) = work_rows lossless hgt b downsample (screens ! s);
          t_last = (ws_last_w S = ri w_prev);
          (v, v_last, l) = split_rows rows (ri core_count) rng t_last seen (ws_last_n S);
          even_odd = ws_even_odd S ! s
      in case get_color_space_from_format (bc_format b) of None \<Rightarrow> None
         | Some cs \<Rightarrow>
           let S = S\<lparr>ws_last_n := l,
                     ws_even_odd := (if downsample = RP_DOWNSAMPLE_CHECKER \<or> downsample = RP_DOWNSAMPLE_EVEN_ODD
                                     then (ws_even_odd S)[s := \<not> even_odd] else ws_even_odd S),
                     ws_infos := (ws_infos S)[unat (ri w) :=
                       \<lparr>cf_is_top = bc_is_top b, cf_color_space = cs, cf_restart_interval = ucast (v * mcus_row),
                        cf_work_index = w, cf_core_count = core_count, cf_even_odd = even_odd\<rparr>]\<rparr>;
               lst = unat (ri core_count) - 1;
               b = b\<lparr>bc_i_start := row_starts v lst (bc_i_start b), bc_i_count := row_counts v v_last lst (bc_i_count b)\<rparr>
           in Some (S\<lparr>ws_bctx := (ws_bctx S)[unat (ri w) := b],
                      ws_term_infos := (ws_term_infos S)[unat (ri w) :=
                        \<lparr>ti_is_top = bc_is_top b, ti_core_count = core_count, ti_v_adjusted = v,
                         ti_v_last_adjusted = v_last, ti_even_odd = even_odd\<rparr>],
                      ws_fsize := (ws_fsize S)[unat (ri w) := 0]\<rparr>))"

text \<open>The rows a thread reads: start address and length of its slice.\<close>

definition thread_src ::
  "bool \<Rightarrow> nat \<Rightarrow> (bool \<Rightarrow> nat) \<Rightarrow> jpeg_screen list \<Rightarrow> work_state \<Rightarrow> iranged \<Rightarrow> nat \<Rightarrow> nat \<times> nat" where
  "thread_src lossless gw hgt screens S w t =
     (let b = ws_bctx S ! unat (ri w);
          s = is_top_index (bc_is_top b);
          downsample = ucast (ws_downsample S ! s) :: u8;
          src_len = unat (bctx_src_len gw hgt b)
      in if downsample = RP_DOWNSAMPLE_CHECKER then (bc_src b, src_len)
         else let (i_start, i_count) = (bc_i_start b ! t, bc_i_count b ! t);
                  (i_start, i_count) = (if downsample = RP_DOWNSAMPLE_QUARTER \<and> \<not> lossless
                    then (i_start * of_nat DOWNSAMPLE_FACTOR, i_count * of_nat DOWNSAMPLE_FACTOR)
                    else (i_start, i_count));
                  pitch = bctx_pitch gw b;
                  mcu_size = (if lossless then LOSSLESS_BLOCK_SIZE else mcu_col_size (screens ! s));
                  j_start = mcu_size * unat pitch * unat i_start;
                  j_count = mcu_size * unat pitch * unat i_count
              in (bc_src b + j_start, min (j_start + j_count) src_len - j_start))"

section \<open>Arithmetic of the shares\<close>

definition split_nat :: "nat \<Rightarrow> nat \<Rightarrow> nat \<Rightarrow> nat \<Rightarrow> nat \<times> nat" where
  "split_nat M c rng nxt =
     (let n = (M + c - 1) div c; n_last = M - n * (c - 1);
          rows_last = (n_last * nxt + rng - 1) div rng;
          rows = (M - rows_last) div (c - 1)
      in (rows, M - rows * (c - 1)))"

lemma n_last_bounds:
  fixes M c n :: nat
  assumes "c \<in> {2, 3}" "5 \<le> M" and n: "n = (M + c - 1) div c"
  shows "n * (c - 1) < M" "M - n * (c - 1) \<le> n" "1 \<le> n"
proof -
  have c0: "0 < c" using assms(1) by auto
  from jdiv_covers [OF c0, of M] have "M \<le> n * c" "n * c < M + c"
    unfolding n jdiv_round_up_def by auto
  with assms(1,2) show "n * (c - 1) < M" "M - n * (c - 1) \<le> n" "1 \<le> n" by auto
qed

lemma scaled_share:
  fixes l nxt rng :: nat
  assumes "1 \<le> l" "1 \<le> nxt" "nxt \<le> rng"
  shows "1 \<le> (l * nxt + rng - 1) div rng" "(l * nxt + rng - 1) div rng \<le> l"
proof -
  have r: "0 < rng" using assms by simp
  have "1 \<le> l * nxt" using assms by simp
  then have "rng \<le> l * nxt + rng - 1" by linarith
  then show "1 \<le> (l * nxt + rng - 1) div rng" using r by (simp add: div_greater_zero_iff Suc_leI)
  have "l * nxt \<le> l * rng" using assms by simp
  then have "l * nxt + rng - 1 \<le> l * rng + (rng - 1)" using r by linarith
  then have "(l * nxt + rng - 1) div rng \<le> (l * rng + (rng - 1)) div rng" by (rule div_le_mono)
  also have "\<dots> = l" using r by (subst div_mult_self3) simp_all
  finally show "(l * nxt + rng - 1) div rng \<le> l" .
qed

lemma split_nat_ok:
  assumes c: "c \<in> {2, 3}" and M: "5 \<le> M" and x: "1 \<le> nxt" "nxt \<le> rng"
    and s: "split_nat M c rng nxt = (v, v_last)"
  shows "v * (c - 1) + v_last = M" "1 \<le> v" "1 \<le> v_last" "v_last \<le> M"
proof -
  define n where "n = (M + c - 1) div c"
  define l where "l = M - n * (c - 1)"
  define rl where "rl = (l * nxt + rng - 1) div rng"
  note b = n_last_bounds [OF c M n_def]
  have l: "1 \<le> l" "l \<le> n" using b by (auto simp: l_def)
  note rl = scaled_share [OF l(1) x, folded rl_def]
  have v: "v = (M - rl) div (c - 1)" "v_last = M - v * (c - 1)"
    using s by (auto simp: split_nat_def Let_def n_def l_def rl_def)
  have c1: "0 < c - 1" using c by auto
  have m: "v * (c - 1) \<le> M - rl" unfolding v(1) by (rule div_times_less_eq_dividend)
  then show "v * (c - 1) + v_last = M" "v_last \<le> M" by (auto simp: v(2))
  show "1 \<le> v_last" using m rl M l by (simp add: v(2))
  have "n * (c - 1) \<le> M - rl" using rl(2) l_def b(1) by simp
  then have "n \<le> v" unfolding v(1) using c1 by (simp add: less_eq_div_iff_mult_less_eq)
  then show "1 \<le> v" using b(3) by simp
qed

lemma next_last_n_range:
  assumes "1 \<le> unat cur" "unat cur \<le> unat rng" "unat other \<le> 2" "2 < unat rng" "unat rng < 2 ^ 31"
  shows "1 \<le> unat (next_last_n rng other t_last cur) \<and> unat (next_last_n rng other t_last cur) \<le> unat rng"
proof -
  have d: "unat (rng - other) = unat rng - unat other" using assms by (simp add: unat_sub_le)
  have a: "unat (cur + other) = unat cur + unat other" using assms by (intro unat_add_no_wrap) simp
  have p: "1 < cur \<Longrightarrow> unat (cur - 1) = unat cur - 1" by (simp add: unat_sub_le word_less_nat_alt)
  show ?thesis using assms d a p unfolding next_last_n_def by (auto simp: word_less_nat_alt)
qed

lemma last_n_loop_range:
  assumes "\<forall>x \<in> set (cur # seen). 1 \<le> unat x \<and> unat x \<le> unat rng"
    and "unat other \<le> 2" "2 < unat rng" "unat rng < 2 ^ 31"
  shows "1 \<le> unat (last_n_loop rng other t_last seen cur)
    \<and> unat (last_n_loop rng other t_last seen cur) \<le> unat rng"
  using assms(1) by (induction seen arbitrary: cur) (use assms(2-4) next_last_n_range in auto)

lemma unat_core_minus: "1 \<le> unat c \<Longrightarrow> unat (c - 1 :: u32) = unat c - 1"
  by (subst unat_sub_le) auto

lemma split_rows_nat:
  fixes M c rng cur :: u32 and seen t_last
  defines "nxt \<equiv> last_n_loop rng (c - 1) t_last seen cur"
  assumes c: "unat c \<in> {2, 3}" and M: "5 \<le> unat M" "unat M < 2 ^ 16"
    and r: "unat rng < 2 ^ 15" and x: "1 \<le> unat nxt" "unat nxt \<le> unat rng" and cur: "0 < cur"
    and s: "split_rows M c rng t_last seen cur = (v, v_last, l)"
  shows "split_nat (unat M) (unat c) (unat rng) (unat nxt) = (unat v, unat v_last)" "l = nxt"
proof -
  define n where "n = (M + c - 1) div c"
  define n_last where "n_last = M - n * (c - 1)"
  define rl where "rl = (n_last * nxt + rng - 1) div rng"
  have c1: "unat (c - 1) = unat c - 1" using c by (intro unat_core_minus) auto
  have mc: "unat (M + c) = unat M + unat c" using c M by (intro unat_add_no_wrap) auto
  then have "unat (M + c - 1) = unat M + unat c - 1" using c by (subst unat_sub_le) auto
  then have n: "unat n = (unat M + unat c - 1) div unat c" by (simp add: n_def unat_div)
  note b = n_last_bounds [OF c M(1) n]
  have nm: "unat (n * (c - 1)) = unat n * (unat c - 1)"
    using b(1) M c1 by (subst unat_mult_no_wrap) auto
  have nl: "unat n_last = unat M - unat n * (unat c - 1)"
    unfolding n_last_def using b(1) nm by (subst unat_sub_le) auto
  have l1: "1 \<le> unat n_last" "unat n_last < 2 ^ 16" using nl b M by auto
  have pr: "unat n_last * unat nxt < 2 ^ 31"
  proof -
    have "unat n_last * unat nxt \<le> 2 ^ 16 * 2 ^ 14" if "unat nxt \<le> 2 ^ 14"
      using l1 that by (intro mult_mono) auto
    moreover have "unat n_last * unat nxt < 2 ^ 16 * 2 ^ 15"
      using l1 x r by (intro mult_strict_mono) auto
    ultimately show ?thesis by simp
  qed
  have m1: "unat (n_last * nxt) = unat n_last * unat nxt" using pr by (subst unat_mult_no_wrap) auto
  have "unat (n_last * nxt + rng) = unat n_last * unat nxt + unat rng"
    using pr r m1 by (subst unat_add_no_wrap) auto
  then have "unat (n_last * nxt + rng - 1) = unat n_last * unat nxt + unat rng - 1"
    using x by (subst unat_sub_le) auto
  then have rl: "unat rl = (unat n_last * unat nxt + unat rng - 1) div unat rng" by (simp add: rl_def unat_div)
  have rl_le: "unat rl \<le> unat n_last" using scaled_share(2) [OF l1(1) x] rl by simp
  have mr: "unat (M - rl) = unat M - unat rl" using rl_le nl by (intro unat_sub_le) simp
  have gt: "1 < c" using c by (auto simp: word_less_nat_alt)
  have v: "v = (M - rl) div (c - 1)" "v_last = M - v * (c - 1)" "l = nxt"
    using s cur gt by (auto simp: split_rows_def Let_def n_def n_last_def rl_def nxt_def)
  have uv: "unat v = (unat M - unat rl) div (unat c - 1)" using v(1) mr c1 by (simp add: unat_div)
  have vm: "unat v * (unat c - 1) \<le> unat M" unfolding uv
    by (rule le_trans [OF div_times_less_eq_dividend]) simp
  have "unat (v * (c - 1)) = unat v * (unat c - 1)" using vm M c1 by (subst unat_mult_no_wrap) auto
  then have ul: "unat v_last = unat M - unat v * (unat c - 1)" unfolding v(2) using vm by (subst unat_sub_le) auto
  show "split_nat (unat M) (unat c) (unat rng) (unat nxt) = (unat v, unat v_last)"
    unfolding split_nat_def Let_def by (simp only: n [symmetric] nl [symmetric] rl [symmetric] uv [symmetric] ul [symmetric])
  show "l = nxt" by (rule v(3))
qed

text \<open>The counter: unset before the first frame, in range afterwards.\<close>

definition last_n_ok :: "u32 \<Rightarrow> u32 list \<Rightarrow> u32 \<Rightarrow> bool" where
  "last_n_ok rng seen cur \<longleftrightarrow> unat cur \<le> unat rng \<and> (\<forall>x \<in> set seen. 1 \<le> unat x \<and> unat x \<le> unat rng)"

lemma split_rows_first:
  assumes "unat c \<in> {1, 2, 3}" "5 \<le> unat M" "unat M < 2 ^ 16" "\<not> (0 < cur \<and> 1 < c)"
    and s: "split_rows M c rng t_last seen cur = (v, v_last, l)"
  shows "unat v * (unat c - 1) + unat v_last = unat M \<and> 1 \<le> unat v \<and> 1 \<le> unat v_last \<and> l = rng
    \<and> unat v \<le> unat M"
proof -
  have v: "v = (M + c - 1) div c" "v_last = M - v * (c - 1)" "l = rng"
    using s assms(4) by (auto simp: split_rows_def Let_def)
  have c1: "unat (c - 1) = unat c - 1" using assms(1) by (intro unat_core_minus) auto
  have "unat (M + c) = unat M + unat c" using assms by (intro unat_add_no_wrap) auto
  then have "unat (M + c - 1) = unat M + unat c - 1" using assms by (subst unat_sub_le) auto
  then have n: "unat v = (unat M + unat c - 1) div unat c" by (simp add: v(1) unat_div)
  have b: "unat v * (unat c - 1) < unat M \<and> 1 \<le> unat v \<and> unat v \<le> unat M"
  proof (cases "unat c = 1")
    case True
    then show ?thesis using n assms(2) by simp
  next
    case False
    then have "unat c \<in> {2, 3}" using assms(1) by auto
    with n_last_bounds [OF this assms(2) n] show ?thesis by auto
  qed
  have "unat (v * (c - 1)) = unat v * (unat c - 1)" using b assms(3) c1 by (subst unat_mult_no_wrap) auto
  then have "unat v_last = unat M - unat v * (unat c - 1)" unfolding v(2) using b by (subst unat_sub_le) auto
  then show ?thesis using b v(3) by auto
qed

lemma split_rows_ok:
  assumes c: "unat c \<in> {1, 2, 3}" and M: "5 \<le> unat M" "unat M < 2 ^ 16" and r: "2 < unat rng" "unat rng < 2 ^ 15"
    and l: "last_n_ok rng seen cur"
    and s: "split_rows M c rng t_last seen cur = (v, v_last, l')"
  shows "unat v * (unat c - 1) + unat v_last = unat M \<and> 1 \<le> unat v \<and> 1 \<le> unat v_last
    \<and> 1 \<le> unat l' \<and> unat l' \<le> unat rng \<and> unat v \<le> unat M"
proof (cases "0 < cur \<and> 1 < c")
  case False
  from split_rows_first [OF c M False s] r show ?thesis by simp
next
  case True
  then have c': "unat c \<in> {2, 3}" using c by (auto simp: word_less_nat_alt)
  have o: "unat (c - 1) \<le> 2" using c' unat_core_minus [of c] by auto
  have "\<forall>x \<in> set (cur # seen). 1 \<le> unat x \<and> unat x \<le> unat rng"
    using l True by (auto simp: last_n_ok_def word_less_nat_alt Suc_leI)
  from last_n_loop_range [OF this o r(1), of t_last] r
  have x: "1 \<le> unat (last_n_loop rng (c - 1) t_last seen cur)"
    "unat (last_n_loop rng (c - 1) t_last seen cur) \<le> unat rng" by auto
  note w = split_rows_nat [OF c' M r(2) x conjunct1 [OF True] s]
  from split_nat_ok [OF c' M(1) x w(1)] w(2) x c' show ?thesis by auto
qed

section \<open>The slices\<close>

text \<open>Consecutive slices of \<open>v * u\<close> bytes, the last one up to the end.\<close>

lemma slices_cover:
  fixes u v v_last len c base :: nat
  assumes "1 \<le> c" and "v * (c - 1) * u \<le> len" and "len \<le> (v * (c - 1) + v_last) * u"
  shows "concat (map (\<lambda>t. rd m (base + u * (v * t)) (min (u * (v * t) + u * (if t = c - 1 then v_last else v)) len - u * (v * t)))
      [0 ..< c]) = rd m base len"
proof -
  let ?s = "\<lambda>t. rd m (base + u * (v * t)) (min (u * (v * t) + u * (if t = c - 1 then v_last else v)) len - u * (v * t))"
  have pre: "concat (map ?s [0 ..< k]) = rd m base (u * (v * k))" if "k \<le> c - 1" for k
    using that
  proof (induction k)
    case (Suc k)
    have "v * Suc k \<le> v * (c - 1)" by (rule mult_le_mono2) (use Suc.prems in simp)
    then have "v * Suc k * u \<le> v * (c - 1) * u" by (rule mult_le_mono1)
    with assms(2) have "v * Suc k * u \<le> len" by (rule le_trans [rotated])
    then have le: "u * (v * k) + u * v \<le> len" by (simp add: algebra_simps)
    have "?s k = rd m (base + u * (v * k)) (u * v)" using Suc.prems le by simp
    moreover have e: "u * (v * Suc k) = u * (v * k) + u * v" by (simp add: algebra_simps)
    ultimately show ?case unfolding e rd_add using Suc.IH Suc.prems by simp
  qed simp
  have c: "[0 ..< c] = [0 ..< c - 1] @ [c - 1]" using assms(1) by (metis Suc_diff_1 less_le_trans less_one upt_Suc_append zero_le)
  have le: "u * (v * (c - 1)) \<le> len" using assms(2) by (simp add: algebra_simps)
  have "len \<le> u * (v * (c - 1)) + u * v_last" using assms(3) by (simp add: algebra_simps)
  then have "?s (c - 1) = rd m (base + u * (v * (c - 1))) (len - u * (v * (c - 1)))" by simp
  then show ?thesis
    using pre [of "c - 1"] le rd_add [of m base "u * (v * (c - 1))" "len - u * (v * (c - 1))"] by (simp add: c)
qed

text \<open>What is assumed of a screen: the service's dimensions are 240 by 400, 800 or 320.\<close>

definition screen_dims :: "nat \<Rightarrow> nat \<Rightarrow> bool" where
  "screen_dims gw h \<longleftrightarrow> 0 < gw \<and> gw \<le> 1024 \<and> 160 \<le> h \<and> h \<le> 1024 \<and> 16 dvd h"

definition unit_rows :: "bool \<Rightarrow> u8 \<Rightarrow> jpeg_screen \<Rightarrow> nat" where
  "unit_rows lossless ds js = (if lossless then LOSSLESS_BLOCK_SIZE
     else mcu_col_size js * (if ds = RP_DOWNSAMPLE_QUARTER then DOWNSAMPLE_FACTOR else 1))"

lemma work_rows_cover:
  assumes g: "set_comp_info gw hgt cm hq (bc_is_top b) (init_screen gw hgt d (bc_is_top b)) js0 = Some (infos, scr, js)"
    and ok: "screen_dims gw (hgt (bc_is_top b))" and ds: "ucast d \<noteq> RP_DOWNSAMPLE_CHECKER"
    and wr: "work_rows lossless hgt b (ucast d) js = (mr, rows)"
  defines "h \<equiv> hgt (bc_is_top b)" and "u \<equiv> unit_rows lossless (ucast d) js"
  shows "5 \<le> unat rows" "unat rows < 2 ^ 16" "h \<le> unat rows * u" "unat rows * u < h + u" "u \<le> 32"
proof -
  have h: "160 \<le> h" "h \<le> 1024" "16 dvd h" using ok by (auto simp: screen_dims_def h_def)
  have "5 \<le> unat rows \<and> unat rows < 2 ^ 16 \<and> h \<le> unat rows * u \<and> unat rows * u < h + u \<and> u \<le> 32"
  proof (cases lossless)
    case True
    have uh: "unat (bctx_height hgt b) = h" using h(2) by (simp add: bctx_height_def h_def unat_of_nat_small)
    have r: "unat rows = h div 16" using True wr uh
      by (auto simp: work_rows_def LOSSLESS_BLOCK_SIZE_def unat_div)
    have "h div 16 * 16 = h" using h(3) by simp
    then show ?thesis using True r h by (auto simp: u_def unit_rows_def LOSSLESS_BLOCK_SIZE_def)
  next
    case False
    obtain mh mv where f: "mv \<in> {1, 2 :: nat}" "mcu_col_size js = DCTSIZE * mv"
      "sc_height scr = sc_height (init_screen gw hgt d (bc_is_top b))"
      "mcu_rows js = of_nat (jdiv_round_up (unat (sc_height scr)) (mcu_col_size js))"
      by (rule geometry_factors [OF g]) blast
    define k where "k = (if (ucast d :: u8) = RP_DOWNSAMPLE_QUARTER then 2 else 1 :: nat)"
    have k: "k \<in> {1, 2}" "h div k * k = h" using h(3) by (auto simp: k_def)
    have sh: "unat (sc_height scr) = h div k"
      using ds h(2) unfolding f(3)
      by (auto simp: init_screen_def Let_def downsample_screen_height_def DOWNSAMPLE_FACTOR_def h_def k_def
          intro!: unat_of_nat_small)
    define cs where "cs = mcu_col_size js"
    have cs: "cs \<in> {8, 16}" using f(1,2) by (auto simp: cs_def DCTSIZE_def)
    note j = jdiv_covers [of cs "h div k"]
    have c0: "0 < cs" using cs by auto
    have hk: "h div k \<le> 1024" using h(2) k(1) by auto
    have jl: "jdiv_round_up (h div k) cs < 2 ^ 16"
    proof -
      have "jdiv_round_up (h div k) cs \<le> jdiv_round_up (h div k) cs * cs" using c0 by simp
      then show ?thesis using j(2) [OF c0] hk cs by auto
    qed
    have r: "unat rows = jdiv_round_up (h div k) cs"
      using False wr ds f(4) sh jl
      by (auto simp: work_rows_def unat_ucast_up cs_def [symmetric] unat_of_nat_small)
    have u: "u = cs * k" using False by (auto simp: u_def unit_rows_def cs_def k_def DOWNSAMPLE_FACTOR_def)
    have a: "h div k \<le> unat rows * cs" "unat rows * cs < h div k + cs" using j [OF c0] r by auto
    have "h div k * k \<le> unat rows * cs * k" using a(1) by (rule mult_le_mono1)
    then have 1: "h \<le> unat rows * u" using k u by (simp add: mult.assoc)
    have "unat rows * cs * k < (h div k + cs) * k" using a(2) k(1) by auto
    then have 2: "unat rows * u < h + u" using k(2) u by (simp add: algebra_simps)
    have "80 \<le> h div k" using h(1) k(1) by auto
    then have "80 \<le> unat rows * cs" using a(1) by simp
    then have 3: "5 \<le> unat rows" using cs by auto
    show ?thesis using 1 2 3 r jl u cs k by auto
  qed
  then show "5 \<le> unat rows" "unat rows < 2 ^ 16" "h \<le> unat rows * u" "unat rows * u < h + u" "u \<le> 32" by auto
qed

definition thread_slice :: "mem \<Rightarrow> nat \<times> nat \<Rightarrow> u8 list" where
  "thread_slice m p = rd m (fst p) (snd p)"

lemma init_work_bctx:
  assumes i: "init_work lossless hgt screens rng core w seen S = Some S'"
    and w: "unat (ri w) < length (ws_bctx S)" and b: "ws_bctx S ! unat (ri w) = b"
    and wr: "work_rows lossless hgt b (ucast (ws_downsample S ! is_top_index (bc_is_top b)))
          (screens ! is_top_index (bc_is_top b)) = (mr, rows)"
    and sp: "split_rows rows (ri core) rng (ws_last_w S = ri (prev_wrapped 0 1 w)) seen (ws_last_n S) = (v, v_last, l)"
    and c: "0 < unat (ri core)" and j: "j < unat (ri core)"
  shows "bc_i_start (ws_bctx S' ! unat (ri w)) ! j = v * of_nat j"
    and "bc_i_count (ws_bctx S' ! unat (ri w)) ! j = (if j = unat (ri core) - 1 then v_last else v)"
    and "bc_src (ws_bctx S' ! unat (ri w)) = bc_src b" "bc_is_top (ws_bctx S' ! unat (ri w)) = bc_is_top b"
    and "bc_format (ws_bctx S' ! unat (ri w)) = bc_format b"
    and "ws_downsample S' = ws_downsample S" "ws_last_n S' = l"
  using i w j c wr sp
  by (auto simp: init_work_def Let_def b nth_rows split: option.splits)

lemma thread_src_slice:
  fixes v v_last :: u32 and c gw :: nat and hgt :: "bool \<Rightarrow> nat" and lossless :: bool
  assumes b: "ws_bctx S' ! unat (ri w) = b'" and s: "bc_is_top b' = tp" "bc_format b' = f"
    and ds: "ucast (ws_downsample S' ! is_top_index tp) = (ds :: u8)" "ds \<noteq> RP_DOWNSAMPLE_CHECKER"
    and js: "screens ! is_top_index tp = js"
    and r: "bc_i_start b' ! t = v * of_nat t" "bc_i_count b' ! t = (if t = c - 1 then v_last else v)"
    and small: "unat v * t < 2 ^ 20" "unat v < 2 ^ 20" "unat v_last < 2 ^ 20" and t: "t < 2 ^ 10"
  defines "len \<equiv> unat (bctx_src_len gw hgt b')" and "u \<equiv> unit_rows lossless ds js * unat (bctx_pitch gw b')"
  shows "thread_src lossless gw hgt screens S' w t =
    (bc_src b' + u * (unat v * t),
     min (u * (unat v * t) + u * (if t = c - 1 then unat v_last else unat v)) len - u * (unat v * t))"
proof -
  have ut: "unat (of_nat t :: u32) = t" using t by (intro unat_of_nat_small) simp
  have vt: "unat (v * of_nat t) = unat v * t" using small ut by (subst unat_mult_no_wrap) auto
  have x: "unat (v * of_nat t * 2) = unat v * t * 2" unfolding vt [symmetric]
    by (subst unat_mult_no_wrap) (use small vt small(1) [unfolded mult.commute [of "unat v" t]] in simp_all)
  have y: "unat ((if t = c - 1 then v_last else v) * 2) = (if t = c - 1 then unat v_last else unat v) * 2"
    using small by (subst unat_mult_no_wrap) auto
  show ?thesis
    unfolding thread_src_def Let_def b s ds(1) js r
    using ds(2) vt x y
    by (auto simp: u_def len_def unit_rows_def DOWNSAMPLE_FACTOR_def split: if_splits)
       (auto simp: algebra_simps)
qed

text \<open>The bytes the threads read, one after the other.\<close>

definition threads_input :: "bool \<Rightarrow> nat \<Rightarrow> (bool \<Rightarrow> nat) \<Rightarrow> jpeg_screen list \<Rightarrow> work_state \<Rightarrow> iranged \<Rightarrow> nat \<Rightarrow> mem \<Rightarrow> u8 list" where
  "threads_input lossless gw hgt screens S w c m =
     concat (map (\<lambda>t. thread_slice m (thread_src lossless gw hgt screens S w t)) [0 ..< c])"

lemma src_len_bounds:
  assumes "screen_dims gw (hgt (bc_is_top b))"
  shows "unat (bctx_src_len gw hgt b) = hgt (bc_is_top b) * unat (bctx_pitch gw b)"
    and "0 < unat (bctx_pitch gw b)"
proof -
  have h: "unat (bctx_height hgt b) = hgt (bc_is_top b)" "0 < gw" "gw \<le> 1024" "hgt (bc_is_top b) \<le> 1024"
    using assms by (auto simp: screen_dims_def bctx_height_def unat_of_nat_small)
  have bpp: "unat (bctx_bpp b) \<in> {2, 3, 4}" by (auto simp: bctx_bpp_def)
  have g: "unat (of_nat gw :: u32) = gw" using h by (simp add: unat_of_nat_small)
  have p: "unat (bctx_pitch gw b) = unat (bctx_bpp b) * gw"
    unfolding bctx_pitch_def using bpp h(3) g by (subst unat_mult_no_wrap) auto
  then show "0 < unat (bctx_pitch gw b)" using bpp h(2) by auto
  have "unat (bctx_pitch gw b) \<le> 4 * 1024" unfolding p using bpp h(3) by (intro mult_mono) auto
  then have "hgt (bc_is_top b) * unat (bctx_pitch gw b) \<le> 1024 * (4 * 1024)" using h(4) by (intro mult_mono) auto
  then show "unat (bctx_src_len gw hgt b) = hgt (bc_is_top b) * unat (bctx_pitch gw b)"
    unfolding bctx_src_len_def using h(1) by (subst unat_mult_no_wrap) auto
qed

text \<open>The situation of \<open>init_work\<close>: the screen was initialised, and the work's context belongs to it.\<close>

definition work_setup ::
  "bool \<Rightarrow> nat \<Rightarrow> (bool \<Rightarrow> nat) \<Rightarrow> jpeg_screen list \<Rightarrow> u32 \<Rightarrow> iranged \<Rightarrow> iranged \<Rightarrow> u32 list \<Rightarrow> work_state \<Rightarrow> blit_ctx \<Rightarrow> u32 \<Rightarrow> bool" where
  "work_setup delta_prog gw hgt screens d core w seen S b hq \<longleftrightarrow>
     (let tp = bc_is_top b; rng = last_restart_range delta_prog in
      unat (ri core) \<in> {1, 2, 3} \<and> unat (ri w) < length (ws_bctx S) \<and> ws_bctx S ! unat (ri w) = b
    \<and> ws_downsample S ! is_top_index tp = d \<and> (ucast d :: u8) \<noteq> RP_DOWNSAMPLE_CHECKER
    \<and> screen_dims gw (hgt tp) \<and> last_n_ok rng seen (ws_last_n S)
    \<and> (\<exists>cm infos scr js0. set_comp_info gw hgt cm (ucast hq) tp (init_screen gw hgt d tp) js0
          = Some (infos, scr, screens ! is_top_index tp)))"

lemma work_setup_split:
  assumes st: "work_setup delta_prog gw hgt screens d core w seen S b hq"
    and i: "init_work lossless hgt screens (last_restart_range delta_prog) core w seen S = Some S'"
  obtains v v_last mr rows l where
    "work_rows lossless hgt b (ucast d) (screens ! is_top_index (bc_is_top b)) = (mr, rows)"
    "split_rows rows (ri core) (last_restart_range delta_prog) (ws_last_w S = ri (prev_wrapped 0 1 w)) seen (ws_last_n S)
       = (v, v_last, l)"
    "unat v * (unat (ri core) - 1) + unat v_last = unat rows" "1 \<le> unat v" "1 \<le> unat v_last"
    "1 \<le> unat l" "unat l \<le> unat (last_restart_range delta_prog)" "unat rows < 2 ^ 16" "unat v \<le> unat rows"
    "hgt (bc_is_top b) \<le> unat rows * unit_rows lossless (ucast d) (screens ! is_top_index (bc_is_top b))"
    "unat rows * unit_rows lossless (ucast d) (screens ! is_top_index (bc_is_top b))
       < hgt (bc_is_top b) + unit_rows lossless (ucast d) (screens ! is_top_index (bc_is_top b))"
proof -
  let ?js = "screens ! is_top_index (bc_is_top b)" and ?r = "last_restart_range delta_prog"
  obtain mr rows where wr: "work_rows lossless hgt b (ucast d) ?js = (mr, rows)" by fastforce
  obtain v v_last l where sp: "split_rows rows (ri core) ?r (ws_last_w S = ri (prev_wrapped 0 1 w)) seen (ws_last_n S)
       = (v, v_last, l)" by (metis prod_cases3)
  from st obtain cm infos scr js0 where
    g: "set_comp_info gw hgt cm (ucast hq) (bc_is_top b) (init_screen gw hgt d (bc_is_top b)) js0 = Some (infos, scr, ?js)"
    and ok: "screen_dims gw (hgt (bc_is_top b))" "(ucast d :: u8) \<noteq> RP_DOWNSAMPLE_CHECKER"
    and c: "unat (ri core) \<in> {1, 2, 3}" and l: "last_n_ok ?r seen (ws_last_n S)"
    by (auto simp: work_setup_def Let_def)
  note cov = work_rows_cover [OF g ok wr]
  have r: "2 < unat ?r" "unat ?r < 2 ^ 15" by (auto simp: last_restart_range_def)
  note o = split_rows_ok [OF c cov(1,2) r l sp]
  show thesis by (rule that [OF wr sp]) (use o cov in auto)
qed


text \<open>C27: every thread gets at least one row of MCUs, the shares add up to the rows of the screen, and the
  counter that adapts the last share stays between 1 and its range, so the next frame finds it in order.\<close>

theorem row_shares_invariant:
  assumes st: "work_setup delta_prog gw hgt screens d core w seen S b hq"
    and i: "init_work lossless hgt screens (last_restart_range delta_prog) core w seen S = Some S'"
  shows "(\<forall>j < unat (ri core). 1 \<le> unat (bc_i_count (ws_bctx S' ! unat (ri w)) ! j))
    \<and> (\<Sum>j < unat (ri core). unat (bc_i_count (ws_bctx S' ! unat (ri w)) ! j))
        = unat (snd (work_rows lossless hgt b (ucast d) (screens ! is_top_index (bc_is_top b))))
    \<and> 1 \<le> unat (ws_last_n S') \<and> last_n_ok (last_restart_range delta_prog) [] (ws_last_n S')"
proof (rule work_setup_split [OF st i])
  fix v v_last mr rows l
  let ?c = "unat (ri core)" and ?b = "ws_bctx S' ! unat (ri w)"
  assume wr: "work_rows lossless hgt b (ucast d) (screens ! is_top_index (bc_is_top b)) = (mr, rows)"
    and sp: "split_rows rows (ri core) (last_restart_range delta_prog) (ws_last_w S = ri (prev_wrapped 0 1 w)) seen (ws_last_n S)
       = (v, v_last, l)"
    and sum: "unat v * (?c - 1) + unat v_last = unat rows" and pos: "1 \<le> unat v" "1 \<le> unat v_last"
    and l: "1 \<le> unat l" "unat l \<le> unat (last_restart_range delta_prog)"
  from st have c: "0 < ?c" and w: "unat (ri w) < length (ws_bctx S)" "ws_bctx S ! unat (ri w) = b"
    and d: "ws_downsample S ! is_top_index (bc_is_top b) = d"
    by (auto simp: work_setup_def Let_def)
  note iw = init_work_bctx [OF i w wr [folded d] sp c]
  have n: "unat (bc_i_count ?b ! j) = (if j = ?c - 1 then unat v_last else unat v)" if "j < ?c" for j
    using iw(2) [OF that] by simp
  obtain k where k: "?c = Suc k" using c by (cases ?c) auto
  have "(\<Sum>j < ?c. unat (bc_i_count ?b ! j)) = (\<Sum>j < ?c. if j = ?c - 1 then unat v_last else unat v)"
    by (rule sum.cong) (simp_all add: n)
  also have "\<dots> = unat v * (?c - 1) + unat v_last" unfolding k by simp
  finally show ?thesis using sum wr n pos l iw(7) [OF c] by (auto simp: last_n_ok_def)
qed

section \<open>Example\<close>

text \<open>The top screen, quarter size, 4:2:0, on three cores, with the last thread behind.\<close>

definition ex_hgt :: "bool \<Rightarrow> nat" where "ex_hgt tp = (if tp then 400 else 320)"

definition ex_screen :: jpeg_screen where
  "ex_screen = (case set_comp_info 240 ex_hgt 65 0 True (init_screen 240 ex_hgt 3 True)
      \<lparr>max_blocks_in_mcu = 0, mcu_row_size = 0, mcu_col_size = 0, mcus_per_row = 0, mcu_rows = 0, js_mcus = 0,
       js_checker = checker_zero 65, js_quant_tbls = [], js_divisors = []\<rparr> of Some (_, _, js) \<Rightarrow> js)"

definition ex_bctx :: blit_ctx where
  "ex_bctx = \<lparr>bc_format = 2, bc_src = 4096, bc_frame_id = 0, bc_is_top = True, bc_i_start = [0, 0, 0],
     bc_i_count = [0, 0, 0], bc_should_capture = False\<rparr>"

definition ex_work :: work_state where
  "ex_work = \<lparr>ws_last_n = 20, ws_last_w = 0, ws_bctx = [ex_bctx, ex_bctx],
     ws_term_infos = replicate 2 \<lparr>ti_is_top = False, ti_core_count = \<lparr>ri = 1\<rparr>, ti_v_adjusted = 0,
       ti_v_last_adjusted = 0, ti_even_odd = False\<rparr>,
     ws_infos = replicate 2 \<lparr>cf_is_top = False, cf_color_space = RGBA8, cf_restart_interval = 0,
       cf_work_index = \<lparr>ri = 0\<rparr>, cf_core_count = \<lparr>ri = 1\<rparr>, cf_even_odd = False\<rparr>,
     ws_even_odd = [False, False], ws_downsample = [3, 0], ws_fsize = [7, 7]\<rparr>"

definition ex_init :: "work_state option" where
  "ex_init = init_work False ex_hgt [ex_screen, ex_screen] 32 \<lparr>ri = 3\<rparr> \<lparr>ri = 0\<rparr> [] ex_work"

lemma ex_setup: "work_setup False 240 ex_hgt [ex_screen, ex_screen] 3 \<lparr>ri = 3\<rparr> \<lparr>ri = 0\<rparr> [] ex_work ex_bctx 0"
proof -
  let ?r = "set_comp_info 240 ex_hgt 65 0 True (init_screen 240 ex_hgt 3 True)
      \<lparr>max_blocks_in_mcu = 0, mcu_row_size = 0, mcu_col_size = 0, mcus_per_row = 0, mcu_rows = 0, js_mcus = 0,
       js_checker = checker_zero 65, js_quant_tbls = [], js_divisors = []\<rparr>"
  have "?r \<noteq> None" by code_simp
  then obtain infos scr js where r: "?r = Some (infos, scr, js)" by auto
  then have js: "ex_screen = js" by (simp add: ex_screen_def)
  show ?thesis
    unfolding work_setup_def Let_def
    by (intro conjI exI [of _ 65] exI [of _ infos] exI [of _ scr] exI)
       (use r in \<open>auto simp: ex_work_def ex_bctx_def is_top_index_def ex_hgt_def screen_dims_def last_n_ok_def
          last_restart_range_def RP_DOWNSAMPLE_CHECKER_def js\<close>)
qed

lemma ex_init_Some: "ex_init = Some (the ex_init)"
proof -
  have "ex_init \<noteq> None" by code_simp
  then show ?thesis by auto
qed

lemma ex_init_eq:
  "init_work False ex_hgt [ex_screen, ex_screen] (last_restart_range False) \<lparr>ri = 3\<rparr> \<lparr>ri = 0\<rparr> [] ex_work = Some (the ex_init)"
  using ex_init_Some by (simp add: ex_init_def last_restart_range_def)


theorem row_shares_invariant_witness:
  "1 \<le> unat (bc_i_count (ws_bctx (the ex_init) ! 0) ! 2) \<and> 1 \<le> unat (ws_last_n (the ex_init))"
  using row_shares_invariant [OF ex_setup ex_init_eq] by simp

end
