(* ===== verification/Work_Sync.thy ===== *)
theory Work_Sync
  imports Ranged
begin

text \<open>
  The synchronisation of the encoding threads of a delta-coded stream (\<open>screen_work_acquire\<close>,
  \<open>screen_work_release\<close>, \<open>empty_work_acquire\<close> in \<^verbatim>\<open>encoder/encode.rs\<close>) as a step relation. The \<open>c\<close> threads
  go through the frames \<open>0, 1, ...\<close> in order; frame \<open>i\<close> belongs to work \<open>i mod 2\<close>, shows the screen \<open>scr i\<close>
  with restart interval \<open>rint i\<close>, and thread \<open>t\<close> has no rows of it if \<open>emp i t\<close>. Every step is one atomic
  operation of one thread. That a work is taken up again only when all threads have finished its previous
  frame (\<open>frame_ready\<close>) is the task of the frame loop around these functions. A wait that fails (a reset)
  ends the threads and is not a step.
\<close>

section \<open>Shared state\<close>

record sync_vars =
  work_inited :: "nat \<Rightarrow> bool"
  work_sem_count :: "nat \<Rightarrow> nat"
  work_sem :: "nat \<Rightarrow> nat"
  screen_bool :: "nat \<Rightarrow> bool"
  screen_sem :: "nat \<Rightarrow> nat"
  last_restart_interval :: "nat \<Rightarrow> u16"
  led :: "nat list"

text \<open>Where a thread is in its frame. \<open>led\<close> records the frames whose leader has run its closure
  (\<open>compute_dq\<close> and the reset of the frame's size).\<close>

datatype phase =
    PStart | PDecide | PWait | PStore | PLead | PRel | PFollow | PWork
  | PLast | PReset | PScr | PScrStore | PScrSem | PDone

section \<open>Steps\<close>

inductive acquire_step :: "nat \<Rightarrow> u16 \<Rightarrow> nat \<Rightarrow> nat \<Rightarrow> nat \<Rightarrow> sync_vars \<Rightarrow> phase \<Rightarrow> sync_vars \<Rightarrow> phase \<Rightarrow> bool"
  for c r i w s where
  first: "\<not> work_inited v w \<Longrightarrow>
    acquire_step c r i w s v PStart (v\<lparr>work_inited := (work_inited v)(w := True)\<rparr>) PDecide"
| other: "work_inited v w \<Longrightarrow> acquire_step c r i w s v PStart v PFollow"
| solo: "c = 1 \<Longrightarrow> acquire_step c r i w s v PDecide v PLead"
| changed: "c \<noteq> 1 \<Longrightarrow> r \<noteq> last_restart_interval v s \<Longrightarrow> acquire_step c r i w s v PDecide v PWait"
| busy: "c \<noteq> 1 \<Longrightarrow> r = last_restart_interval v s \<Longrightarrow> screen_bool v s \<Longrightarrow>
    acquire_step c r i w s v PDecide v PWait"
| pass: "c \<noteq> 1 \<Longrightarrow> r = last_restart_interval v s \<Longrightarrow> \<not> screen_bool v s \<Longrightarrow>
    acquire_step c r i w s v PDecide (v\<lparr>screen_bool := (screen_bool v)(s := True)\<rparr>) PLead"
| take: "0 < screen_sem v s \<Longrightarrow>
    acquire_step c r i w s v PWait (v\<lparr>screen_sem := (screen_sem v)(s := screen_sem v s - 1)\<rparr>) PStore"
| store: "acquire_step c r i w s v PStore
    (v\<lparr>screen_bool := (screen_bool v)(s := False),
       last_restart_interval := (last_restart_interval v)(s := r)\<rparr>) PLead"
| lead: "acquire_step c r i w s v PLead (v\<lparr>led := i # led v\<rparr>) PRel"
| rel: "acquire_step c r i w s v PRel (v\<lparr>work_sem := (work_sem v)(w := work_sem v w + (c - 1))\<rparr>) PWork"
| follow: "0 < work_sem v w \<Longrightarrow>
    acquire_step c r i w s v PFollow (v\<lparr>work_sem := (work_sem v)(w := work_sem v w - 1)\<rparr>) PWork"

text \<open>A thread without rows waits like a follower, without asking who leads.\<close>

inductive empty_acquire_step :: "sync_vars \<Rightarrow> phase \<Rightarrow> sync_vars \<Rightarrow> phase \<Rightarrow> bool" where
  enter: "empty_acquire_step v PStart v PFollow"

inductive release_step :: "nat \<Rightarrow> nat \<Rightarrow> nat \<Rightarrow> sync_vars \<Rightarrow> phase \<Rightarrow> sync_vars \<Rightarrow> phase \<Rightarrow> bool"
  for c w s where
  finish: "work_sem_count v w \<noteq> 1 \<Longrightarrow>
    release_step c w s v PWork (v\<lparr>work_sem_count := (work_sem_count v)(w := work_sem_count v w - 1)\<rparr>) PDone"
| finish_last: "work_sem_count v w = 1 \<Longrightarrow>
    release_step c w s v PWork (v\<lparr>work_sem_count := (work_sem_count v)(w := 0)\<rparr>) PLast"
| reset_count: "release_step c w s v PLast (v\<lparr>work_sem_count := (work_sem_count v)(w := c)\<rparr>) PReset"
| reset_inited: "release_step c w s v PReset (v\<lparr>work_inited := (work_inited v)(w := False)\<rparr>)
    (if c = 1 then PDone else PScr)"
| handed: "screen_bool v s \<Longrightarrow> release_step c w s v PScr v PScrStore"
| free: "\<not> screen_bool v s \<Longrightarrow>
    release_step c w s v PScr (v\<lparr>screen_bool := (screen_bool v)(s := True)\<rparr>) PScrSem"
| clear: "release_step c w s v PScrStore (v\<lparr>screen_bool := (screen_bool v)(s := False)\<rparr>) PDone"
| signal: "release_step c w s v PScrSem (v\<lparr>screen_sem := (screen_sem v)(s := screen_sem v s + 1)\<rparr>) PDone"

type_synonym sync_state = "(nat \<Rightarrow> nat \<times> phase) \<times> sync_vars"

definition next_pc :: "nat \<Rightarrow> phase \<Rightarrow> nat \<times> phase" where
  "next_pc i ph = (if ph = PDone then (Suc i, PStart) else (i, ph))"

definition frame_ready :: "nat \<Rightarrow> (nat \<Rightarrow> nat \<times> phase) \<Rightarrow> nat \<Rightarrow> bool" where
  "frame_ready c p i \<longleftrightarrow> (\<forall>t < c. i < fst (p t) + 2)"

inductive sync_step ::
  "nat \<Rightarrow> (nat \<Rightarrow> nat) \<Rightarrow> (nat \<Rightarrow> u16) \<Rightarrow> (nat \<Rightarrow> nat \<Rightarrow> bool) \<Rightarrow> sync_state \<Rightarrow> sync_state \<Rightarrow> bool"
  for c scr rint emp where
  acquire: "t < c \<Longrightarrow> p t = (i, ph) \<Longrightarrow> (ph = PStart \<Longrightarrow> frame_ready c p i \<and> \<not> emp i t) \<Longrightarrow>
    acquire_step c (rint i) i (i mod 2) (scr i) v ph v' ph' \<Longrightarrow>
    sync_step c scr rint emp (p, v) (p(t := next_pc i ph'), v')"
| empty: "t < c \<Longrightarrow> p t = (i, ph) \<Longrightarrow> frame_ready c p i \<Longrightarrow> emp i t \<Longrightarrow>
    empty_acquire_step v ph v' ph' \<Longrightarrow>
    sync_step c scr rint emp (p, v) (p(t := next_pc i ph'), v')"
| release: "t < c \<Longrightarrow> p t = (i, ph) \<Longrightarrow> release_step c (i mod 2) (scr i) v ph v' ph' \<Longrightarrow>
    sync_step c scr rint emp (p, v) (p(t := next_pc i ph'), v')"

text \<open>The state after \<open>EncoderShared::init\<close> and \<open>CommonSharedMut::init\<close>.\<close>

definition sync_init :: "nat \<Rightarrow> sync_state" where
  "sync_init c = (\<lambda>t. (0, PStart),
     \<lparr>work_inited = \<lambda>w. False, work_sem_count = \<lambda>w. c, work_sem = \<lambda>w. 0, screen_bool = \<lambda>s. False,
      screen_sem = \<lambda>s. 1, last_restart_interval = \<lambda>s. 0, led = []\<rparr>)"

inductive sync_reach ::
  "nat \<Rightarrow> (nat \<Rightarrow> nat) \<Rightarrow> (nat \<Rightarrow> u16) \<Rightarrow> (nat \<Rightarrow> nat \<Rightarrow> bool) \<Rightarrow> sync_state \<Rightarrow> bool"
  for c scr rint emp where
  init: "sync_reach c scr rint emp (sync_init c)"
| step: "sync_reach c scr rint emp st \<Longrightarrow> sync_step c scr rint emp st st' \<Longrightarrow> sync_reach c scr rint emp st'"

section \<open>Counting threads\<close>

text \<open>Where a thread is, seen from frame \<open>i\<close>: not there yet, in one of its phases, or past it.\<close>

datatype kind = KS | KDec | KSto | KLd | KRel | KF | KW | KLast | KReset | KScr | KStore | KSem | KD

fun phase_kind :: "phase \<Rightarrow> kind" where
  "phase_kind PStart = KS"
| "phase_kind PDecide = KDec"
| "phase_kind PWait = KDec"
| "phase_kind PStore = KSto"
| "phase_kind PLead = KLd"
| "phase_kind PRel = KRel"
| "phase_kind PFollow = KF"
| "phase_kind PWork = KW"
| "phase_kind PLast = KLast"
| "phase_kind PReset = KReset"
| "phase_kind PScr = KScr"
| "phase_kind PScrStore = KStore"
| "phase_kind PScrSem = KSem"
| "phase_kind PDone = KD"

definition kind_at :: "nat \<Rightarrow> nat \<times> phase \<Rightarrow> kind" where
  "kind_at i x = (if fst x < i then KS else if i < fst x then KD else phase_kind (snd x))"

primrec tally :: "nat \<Rightarrow> nat \<Rightarrow> (nat \<Rightarrow> nat \<times> phase) \<Rightarrow> kind \<Rightarrow> nat" where
  "tally 0 i p k = 0"
| "tally (Suc c) i p k = tally c i p k + (if kind_at i (p c) = k then 1 else 0)"

definition tally_sum :: "(kind \<Rightarrow> nat) \<Rightarrow> nat" where
  "tally_sum n = n KS + n KDec + n KSto + n KLd + n KRel + n KF + n KW + n KLast + n KReset + n KScr + n KStore
     + n KSem + n KD"

lemma tally_sum_eq: "tally_sum (tally c i p) = c"
proof (induction c)
  case (Suc c)
  then show ?case by (cases "kind_at i (p c)") (simp_all add: tally_sum_def)
qed (simp add: tally_sum_def)

lemma tally_upd_beyond: "c \<le> t \<Longrightarrow> tally c i (p(t := x)) k = tally c i p k"
  by (induction c) auto

lemma tally_upd:
  "t < c \<Longrightarrow> tally c i (p(t := x)) k + (if kind_at i (p t) = k then 1 else 0)
     = tally c i p k + (if kind_at i x = k then 1 else 0)"
proof (induction c)
  case (Suc c)
  show ?case
  proof (cases "t = c")
    case True
    show ?thesis
      unfolding True tally.simps fun_upd_same tally_upd_beyond [OF le_refl] by simp
  next
    case False
    then show ?thesis using Suc by simp
  qed
qed simp

lemma tally_pos_iff: "0 < tally c i p k \<longleftrightarrow> (\<exists>t < c. kind_at i (p t) = k)"
  by (induction c) (auto simp: less_Suc_eq)

lemma tally_pos: "t < c \<Longrightarrow> kind_at i (p t) = k \<Longrightarrow> 0 < tally c i p k"
  by (auto simp: tally_pos_iff)

text \<open>The step of a thread inside its own frame moves one unit; other frames see no change.\<close>

definition moved :: "kind \<Rightarrow> kind \<Rightarrow> (kind \<Rightarrow> nat) \<Rightarrow> kind \<Rightarrow> nat" where
  "moved a b n = (if a = b then n else n(a := n a - 1, b := n b + 1))"

lemma tally_moved:
  assumes "t < c"
  shows "tally c i (p(t := x)) = moved (kind_at i (p t)) (kind_at i x) (tally c i p)"
proof
  fix k
  show "tally c i (p(t := x)) k = moved (kind_at i (p t)) (kind_at i x) (tally c i p) k"
    using tally_upd [OF assms, of i p x k] tally_pos [OF assms refl, of i p]
    by (auto simp: moved_def split: if_splits)
qed

lemma kind_at_own: "kind_at i (next_pc i ph) = phase_kind ph"
  by (simp add: kind_at_def next_pc_def)

lemma kind_at_other: "j \<noteq> i \<Longrightarrow> kind_at j (next_pc i ph') = kind_at j (i, ph)"
  by (auto simp: kind_at_def next_pc_def)

lemma tally_own:
  "t < c \<Longrightarrow> p t = (i, ph) \<Longrightarrow> tally c i (p(t := next_pc i ph')) = moved (phase_kind ph) (phase_kind ph') (tally c i p)"
  by (simp add: tally_moved kind_at_own) (simp add: kind_at_def)

lemma tally_other:
  "t < c \<Longrightarrow> p t = (i, ph) \<Longrightarrow> j \<noteq> i \<Longrightarrow> tally c j (p(t := next_pc i ph')) = tally c j p"
  using kind_at_other [of j i ph' ph] by (simp add: tally_moved moved_def)

section \<open>The invariant of a work\<close>

text \<open>The stage of the frame a work holds: not taken up, led by a thread of the given kind, released by
  its leader, or closed by its last thread.\<close>

datatype mode = MA | MC | MK kind

definition leader_kinds :: "kind set" where "leader_kinds = {KDec, KSto, KLd, KRel}"
definition last_kinds :: "kind set" where "last_kinds = {KLast, KReset, KScr, KStore, KSem}"

definition only :: "kind set \<Rightarrow> (kind \<Rightarrow> nat) \<Rightarrow> bool" where
  "only A n \<longleftrightarrow> (\<forall>k. k \<notin> A \<longrightarrow> n k = 0)"

fun work_inv :: "nat \<Rightarrow> bool \<Rightarrow> nat \<Rightarrow> nat \<Rightarrow> (kind \<Rightarrow> nat) \<Rightarrow> mode \<Rightarrow> bool" where
  "work_inv c ini wc ws n MA \<longleftrightarrow> \<not> ini \<and> wc = c \<and> ws = 0 \<and> only {KS, KF} n"
| "work_inv c ini wc ws n MC \<longleftrightarrow> ini \<and> ws = n KS + n KF \<and> wc = n KS + n KF + n KW \<and> 1 \<le> wc
     \<and> 1 \<le> n KW + n KD \<and> only {KS, KF, KW, KD} n"
| "work_inv c ini wc ws n (MK k) \<longleftrightarrow> n k = 1 \<and> ws = 0
     \<and> (k \<in> leader_kinds \<and> ini \<and> wc = c \<and> only {KS, KF, k} n
        \<or> k \<in> last_kinds \<and> only {k, KD} n \<and> (if k = KLast then wc = 0 else wc = c)
            \<and> (ini \<longleftrightarrow> k \<in> {KLast, KReset}))"

lemmas kinds_defs = leader_kinds_def last_kinds_def

lemma onlyD: "only A n \<Longrightarrow> 0 < n k \<Longrightarrow> k \<in> A"
  by (auto simp: only_def)

lemma mode_of:
  assumes "work_inv c ini wc ws n m"
  shows "k \<in> leader_kinds \<union> last_kinds \<Longrightarrow> 0 < n k \<Longrightarrow> m = MK k"
    and "0 < n KW \<Longrightarrow> m = MC"
    and "0 < n KS \<or> 0 < n KF \<Longrightarrow> ini \<Longrightarrow> m = MC \<or> (\<exists>k \<in> leader_kinds. m = MK k)"
    and "0 < n KS \<or> 0 < n KF \<Longrightarrow> \<not> ini \<Longrightarrow> m = MA"
proof -
  show "m = MK k" if k: "k \<in> leader_kinds \<union> last_kinds" "0 < n k"
  proof -
    have no: "\<not> only {KS, KF} n" "\<not> only {KS, KF, KW, KD} n"
      using onlyD [of _ n k] k by (auto simp: kinds_defs)
    have one: "only {KS, KF, j} n \<Longrightarrow> k = j" "only {j, KD} n \<Longrightarrow> k = j" for j
      using onlyD [of _ n k] k by (auto simp: kinds_defs)
    show ?thesis using assms no one by (cases m) auto
  qed
  show "m = MC" if k: "0 < n KW"
  proof -
    have no: "\<not> only {KS, KF} n" "j \<in> leader_kinds \<Longrightarrow> \<not> only {KS, KF, j} n"
      "j \<in> last_kinds \<Longrightarrow> \<not> only {j, KD} n" for j
      using onlyD [of _ n KW] k by (auto simp: kinds_defs)
    show ?thesis using assms no by (cases m) auto
  qed
  show "m = MC \<or> (\<exists>k \<in> leader_kinds. m = MK k)" if h: "0 < n KS \<or> 0 < n KF" ini
  proof (cases m)
    case (MK k)
    have False if "only {k, KD} n" "k \<in> last_kinds"
      using h(1) onlyD [OF that(1)] that(2) by (auto simp: kinds_defs)
    then show ?thesis using assms MK by auto
  qed (use assms h in auto)
  show "m = MA" if h: "0 < n KS \<or> 0 < n KF" "\<not> ini"
  proof (cases m)
    case (MK k)
    have False if "only {k, KD} n" "k \<in> last_kinds"
      using h(1) onlyD [OF that(1)] that(2) by (auto simp: kinds_defs)
    then show ?thesis using assms MK h(2) by auto
  qed (use assms h in auto)
qed

definition acq_mode :: "mode \<Rightarrow> phase \<Rightarrow> phase \<Rightarrow> mode" where
  "acq_mode m ph ph' = (if phase_kind ph' \<in> leader_kinds then MK (phase_kind ph') else if ph = PRel then MC else m)"

lemma only_moved:
  "only A n \<Longrightarrow> b \<in> B \<Longrightarrow> A - {a} \<subseteq> B \<Longrightarrow> a \<noteq> b \<Longrightarrow> n a = 1 \<Longrightarrow> only B (moved a b n)"
  "only A n \<Longrightarrow> a \<in> B \<Longrightarrow> b \<in> B \<Longrightarrow> A \<subseteq> B \<Longrightarrow> only B (moved a b n)"
  by (auto simp: only_def moved_def)

lemma moved_simps [simp]:
  "a \<noteq> b \<Longrightarrow> moved a b n a = n a - 1" "a \<noteq> b \<Longrightarrow> moved a b n b = n b + 1"
  "k \<noteq> a \<Longrightarrow> k \<noteq> b \<Longrightarrow> moved a b n k = n k" "moved a a n = n"
  by (simp_all add: moved_def)

lemma acquire_work:
  assumes s: "acquire_step c r i w s v ph v' ph'"
    and inv: "work_inv c (work_inited v w) (work_sem_count v w) (work_sem v w) n m"
    and n: "0 < n (phase_kind ph)" "tally_sum n = c"
  shows "work_inv c (work_inited v' w) (work_sem_count v' w) (work_sem v' w)
      (moved (phase_kind ph) (phase_kind ph') n) (acq_mode m ph ph')"
  using s
proof cases
  case first
  then have "m = MA" using mode_of(4) [OF inv] n by simp
  then show ?thesis using first inv n by (auto simp: acq_mode_def kinds_defs intro: only_moved(2)
      dest!: onlyD simp: only_def)
next
  case other
  then have "m = MC \<or> (\<exists>k \<in> leader_kinds. m = MK k)" using mode_of(3) [OF inv] n by simp
  then show ?thesis using other inv n by (auto simp: acq_mode_def kinds_defs intro: only_moved(2))
next
  case rel
  then have "m = MK KRel" using mode_of(1) [OF inv, of KRel] n by (simp add: kinds_defs)
  then show ?thesis using rel inv n
    by (auto simp: acq_mode_def kinds_defs only_def tally_sum_def moved_def)
next
  case follow
  then have "m = MC" using inv by (cases m) auto
  then show ?thesis using follow inv n by (auto simp: acq_mode_def kinds_defs intro: only_moved(2))
qed (use mode_of(1) [OF inv, of KDec] mode_of(1) [OF inv, of KSto] mode_of(1) [OF inv, of KLd] inv n
     in \<open>auto simp: acq_mode_def kinds_defs only_def moved_def\<close>)

definition rel_mode :: "mode \<Rightarrow> phase \<Rightarrow> mode" where
  "rel_mode m ph' = (if phase_kind ph' \<in> last_kinds then MK (phase_kind ph') else m)"

definition ends :: "phase \<Rightarrow> phase \<Rightarrow> bool" where
  "ends ph ph' \<longleftrightarrow> ph' = PDone \<and> ph \<noteq> PWork"

lemma release_work:
  assumes s: "release_step c w s v ph v' ph'"
    and inv: "work_inv c (work_inited v w) (work_sem_count v w) (work_sem v w) n m"
    and n: "0 < n (phase_kind ph)" "tally_sum n = c"
  shows "\<not> ends ph ph' \<Longrightarrow> work_inv c (work_inited v' w) (work_sem_count v' w) (work_sem v' w)
      (moved (phase_kind ph) (phase_kind ph') n) (rel_mode m ph')"
    and "ends ph ph' \<Longrightarrow> \<not> work_inited v' w \<and> work_sem_count v' w = c \<and> work_sem v' w = 0
      \<and> only {KD} (moved (phase_kind ph) KD n)"
proof -
  have one: "m = MK k" if "phase_kind ph = k" "k \<in> last_kinds" for k
    using mode_of(1) [OF inv, of k] n that by simp
  have mc: "m = MC" if "ph = PWork" using mode_of(2) [OF inv] n that by simp
  note simps = rel_mode_def ends_def kinds_defs only_def moved_def tally_sum_def
  show "work_inv c (work_inited v' w) (work_sem_count v' w) (work_sem v' w)
      (moved (phase_kind ph) (phase_kind ph') n) (rel_mode m ph')" if e: "\<not> ends ph ph'"
    using s
  proof cases
    case finish
    then show ?thesis using mc inv n by (auto simp: rel_mode_def kinds_defs intro: only_moved(2))
  next
    case finish_last
    then have m: "m = MC" "0 < n KW" "work_sem_count v w = 1" using mc n by auto
    then have z: "n KS = 0" "n KF = 0" "n KW = 1" "only {KS, KF, KW, KD} n" using inv by auto
    have "n k = 0" if "k \<notin> {KW, KD}" for k
      using z(1,2) z(4) [unfolded only_def, rule_format, of k] that by (cases "k = KS \<or> k = KF") auto
    then have "only {KW, KD} n" by (simp add: only_def)
    then show ?thesis using finish_last z inv m n
      by (auto simp: rel_mode_def kinds_defs only_def moved_def tally_sum_def)
  next
    case reset_count
    then show ?thesis using one [of KLast] inv n by (auto simp: simps)
  next
    case reset_inited
    then show ?thesis using one [of KReset] inv n e by (auto simp: simps split: if_splits)
  next
    case handed
    then show ?thesis using one [of KScr] inv n by (auto simp: simps)
  next
    case free
    then show ?thesis using one [of KScr] inv n by (auto simp: simps)
  qed (use e in \<open>simp_all add: ends_def\<close>)
  show "\<not> work_inited v' w \<and> work_sem_count v' w = c \<and> work_sem v' w = 0
      \<and> only {KD} (moved (phase_kind ph) KD n)" if e: "ends ph ph'"
    using s
  proof cases
    case reset_inited
    then show ?thesis using one [of KReset] inv n e by (auto simp: simps split: if_splits)
  next
    case clear
    then show ?thesis using one [of KStore] inv n by (auto simp: simps)
  next
    case signal
    then show ?thesis using one [of KSem] inv n by (auto simp: simps)
  qed (use e in \<open>simp_all add: ends_def\<close>)
qed

lemma empty_work:
  assumes "work_inv c ini wc ws n m" "0 < n KS"
  shows "work_inv c ini wc ws (moved KS KF n) m"
proof (cases m)
  case (MK k)
  have "\<not> only {k, KD} n" if "k \<in> last_kinds" using onlyD [of _ n KS] assms(2) that by (auto simp: kinds_defs)
  then show ?thesis using assms MK by (auto simp: kinds_defs intro: only_moved(2))
qed (use assms in \<open>auto intro: only_moved(2)\<close>)

section \<open>The invariant of a screen\<close>

text \<open>What the frame of a work means for its screen: no claim, taking the semaphore, running, or giving
  the screen up by clearing the flag or by signalling the semaphore.\<close>

datatype claim = Idle | Taking | Running | Clearing | Signalling

fun claim_of :: "mode \<Rightarrow> claim" where
  "claim_of MA = Idle"
| "claim_of MC = Running"
| "claim_of (MK k) = (if k = KDec then Idle else if k = KSto then Taking else if k = KStore then Clearing
     else if k = KSem then Signalling else Running)"

fun screen_ok :: "bool \<Rightarrow> nat \<Rightarrow> u16 \<Rightarrow> u16 \<Rightarrow> u16 \<Rightarrow> claim \<Rightarrow> claim \<Rightarrow> bool" where
  "screen_ok b sem l r0 r1 Idle Idle \<longleftrightarrow> sem = 1 \<and> (b \<or> l = 0)"
| "screen_ok b sem l r0 r1 Running Idle \<longleftrightarrow> sem = 0 \<and> \<not> b \<and> l = r0"
| "screen_ok b sem l r0 r1 Idle Running \<longleftrightarrow> sem = 0 \<and> \<not> b \<and> l = r1"
| "screen_ok b sem l r0 r1 Running Running \<longleftrightarrow> sem = 0 \<and> b \<and> l = r0 \<and> l = r1"
| "screen_ok b sem l r0 r1 Taking Idle \<longleftrightarrow> sem = 0"
| "screen_ok b sem l r0 r1 Idle Taking \<longleftrightarrow> sem = 0"
| "screen_ok b sem l r0 r1 Signalling Idle \<longleftrightarrow> sem = 0 \<and> b"
| "screen_ok b sem l r0 r1 Clearing Running \<longleftrightarrow> sem = 0 \<and> b \<and> l = r1"
| "screen_ok b sem l r0 r1 _ _ \<longleftrightarrow> False"

definition claim_on :: "(nat \<Rightarrow> nat) \<Rightarrow> nat \<Rightarrow> nat \<Rightarrow> mode \<Rightarrow> claim" where
  "claim_on scr s i m = (if scr i = s then claim_of m else Idle)"

definition screen_inv :: "(nat \<Rightarrow> nat) \<Rightarrow> (nat \<Rightarrow> u16) \<Rightarrow> nat \<Rightarrow> mode \<Rightarrow> mode \<Rightarrow> sync_vars \<Rightarrow> nat \<Rightarrow> bool" where
  "screen_inv scr rint lo m0 m1 v s \<longleftrightarrow>
     screen_ok (screen_bool v s) (screen_sem v s) (last_restart_interval v s) (rint lo) (rint (lo + 1))
       (claim_on scr s lo m0) (claim_on scr s (lo + 1) m1)"

text \<open>The leader's closure has run.\<close>

fun has_led :: "mode \<Rightarrow> bool" where
  "has_led MA = False"
| "has_led MC = True"
| "has_led (MK k) = (k = KRel \<or> k \<in> last_kinds)"

definition led_inv :: "nat \<Rightarrow> mode \<Rightarrow> mode \<Rightarrow> nat list \<Rightarrow> bool" where
  "led_inv lo m0 m1 l \<longleftrightarrow> distinct l
     \<and> (\<forall>j. j \<in> set l \<longleftrightarrow> j < lo \<or> j = lo \<and> has_led m0 \<or> j = lo + 1 \<and> has_led m1)"

definition frame_inv :: "nat \<Rightarrow> nat \<Rightarrow> (nat \<Rightarrow> nat \<times> phase) \<Rightarrow> sync_vars \<Rightarrow> mode \<Rightarrow> bool" where
  "frame_inv c i p v m \<longleftrightarrow>
     work_inv c (work_inited v (i mod 2)) (work_sem_count v (i mod 2)) (work_sem v (i mod 2)) (tally c i p) m"

definition near :: "nat \<Rightarrow> nat \<Rightarrow> (nat \<Rightarrow> nat \<times> phase) \<Rightarrow> bool" where
  "near c lo p \<longleftrightarrow> (\<exists>t < c. fst (p t) = lo)
     \<and> (\<forall>t < c. lo \<le> fst (p t) \<and> fst (p t) \<le> lo + 2 \<and> snd (p t) \<noteq> PDone \<and> (fst (p t) = lo + 2 \<longrightarrow> snd (p t) = PStart))"

definition sync_at :: "nat \<Rightarrow> (nat \<Rightarrow> nat) \<Rightarrow> (nat \<Rightarrow> u16) \<Rightarrow> nat \<Rightarrow> mode \<Rightarrow> mode \<Rightarrow> sync_state \<Rightarrow> bool" where
  "sync_at c scr rint lo m0 m1 st \<longleftrightarrow>
     near c lo (fst st) \<and> frame_inv c lo (fst st) (snd st) m0 \<and> frame_inv c (lo + 1) (fst st) (snd st) m1
   \<and> led_inv lo m0 m1 (led (snd st)) \<and> (c \<noteq> 1 \<longrightarrow> (\<forall>s. screen_inv scr rint lo m0 m1 (snd st) s))"

text \<open>Order: while the older frame has no released followers, nobody has begun the younger one; and the
  younger one cannot be closed before the older one.\<close>

lemma tally_start:
  assumes "\<forall>t < c. fst (p t) < i \<or> p t = (i, PStart)"
  shows "tally c i p k = (if k = KS then c else 0)"
proof -
  have "tally c i p k = 0" if "k \<noteq> KS" for k
    using tally_pos_iff [of c i p k] assms that by (force simp: kind_at_def)
  then show ?thesis using tally_sum_eq [of c i p] by (simp add: tally_sum_def)
qed

lemma frame_fresh:
  assumes f: "frame_inv c i p v m" and t: "\<forall>t < c. fst (p t) < i \<or> p t = (i, PStart)"
  shows "m = MA"
  using f tally_start [OF t] by (cases m) (auto simp: frame_inv_def kinds_defs split: if_splits)

lemma younger_fresh:
  assumes st: "sync_at c scr rint lo m0 m1 (p, v)" and m: "m0 = MA \<or> (\<exists>k \<in> leader_kinds. m0 = MK k)"
  shows "m1 = MA"
proof (rule frame_fresh)
  show "frame_inv c (lo + 1) p v m1" using st by (simp add: sync_at_def)
  have "tally c lo p KD = 0" using st m by (auto simp: sync_at_def frame_inv_def kinds_defs only_def)
  then have "\<forall>t < c. kind_at lo (p t) \<noteq> KD" using tally_pos_iff [of c lo p KD] by auto
  then show "\<forall>t < c. fst (p t) < lo + 1 \<or> p t = (lo + 1, PStart)" by (auto simp: kind_at_def split: if_splits)
qed

lemma younger_open:
  assumes st: "sync_at c scr rint lo m0 m1 (p, v)"
  shows "0 < tally c (lo + 1) p KS" and "k \<in> last_kinds \<Longrightarrow> m1 \<noteq> MK k"
    and "k \<in> last_kinds \<Longrightarrow> tally c (lo + 1) p k = 0"
proof -
  from st obtain t where t: "t < c" "fst (p t) = lo" by (auto simp: sync_at_def near_def)
  then show s: "0 < tally c (lo + 1) p KS" by (intro tally_pos [of t]) (auto simp: kind_at_def)
  have f: "frame_inv c (lo + 1) p v m1" using st by (simp add: sync_at_def)
  show m: "m1 \<noteq> MK k" if "k \<in> last_kinds" for k
    using f s that by (auto simp: frame_inv_def kinds_defs only_def)
  show "tally c (lo + 1) p k = 0" if "k \<in> last_kinds" for k
    using mode_of(1) [OF f [unfolded frame_inv_def], of k] m [OF that] that by auto
qed

section \<open>Preservation\<close>

lemma acquire_untouched:
  assumes "acquire_step c r i w s v ph v' ph'"
  shows "w' \<noteq> w \<Longrightarrow> work_inited v' w' = work_inited v w' \<and> work_sem_count v' w' = work_sem_count v w'
      \<and> work_sem v' w' = work_sem v w'"
    and "s' \<noteq> s \<Longrightarrow> screen_bool v' s' = screen_bool v s' \<and> screen_sem v' s' = screen_sem v s'
      \<and> last_restart_interval v' s' = last_restart_interval v s'"
    and "led v' = (if ph = PLead then i # led v else led v)" and "ph' \<noteq> PDone" and "ph \<noteq> ph'"
    and "ph' \<noteq> PStart"
  using assms by (auto elim!: acquire_step.cases)

lemma release_untouched:
  assumes "release_step c w s v ph v' ph'"
  shows "w' \<noteq> w \<Longrightarrow> work_inited v' w' = work_inited v w' \<and> work_sem_count v' w' = work_sem_count v w'
      \<and> work_sem v' w' = work_sem v w'"
    and "s' \<noteq> s \<Longrightarrow> screen_bool v' s' = screen_bool v s' \<and> screen_sem v' s' = screen_sem v s'
      \<and> last_restart_interval v' s' = last_restart_interval v s'"
    and "led v' = led v" and "ph \<noteq> PStart" and "ph' \<noteq> PStart"
  using assms by (auto elim!: release_step.cases split: if_splits)

text \<open>The mode that the phase of a stepping thread implies.\<close>

lemma acquire_mode:
  assumes s: "acquire_step c r i w s v ph v' ph'"
    and inv: "work_inv c (work_inited v w) (work_sem_count v w) (work_sem v w) n m"
    and n: "0 < n (phase_kind ph)"
  shows "phase_kind ph \<in> leader_kinds \<Longrightarrow> m = MK (phase_kind ph)" and "ph = PFollow \<Longrightarrow> m = MC"
    and "ph = PStart \<Longrightarrow> ph' = PDecide \<Longrightarrow> m = MA"
    and "phase_kind ph \<in> leader_kinds \<or> ph = PStart \<or> ph = PFollow"
proof -
  show "m = MK (phase_kind ph)" if "phase_kind ph \<in> leader_kinds" using mode_of(1) [OF inv] n that by simp
  show "m = MC" if "ph = PFollow"
  proof -
    have "0 < work_sem v w" using s that by (auto elim: acquire_step.cases)
    then show ?thesis using inv by (cases m) auto
  qed
  show "m = MA" if "ph = PStart" "ph' = PDecide"
  proof -
    have "\<not> work_inited v w" using s that by (auto elim: acquire_step.cases)
    then show ?thesis using mode_of(4) [OF inv] n that by simp
  qed
  show "phase_kind ph \<in> leader_kinds \<or> ph = PStart \<or> ph = PFollow"
    using s by (auto elim!: acquire_step.cases simp: kinds_defs)
qed

lemma acquire_screen_older:
  assumes s: "acquire_step c r i w s v ph v' ph'"
    and inv: "work_inv c (work_inited v w) (work_sem_count v w) (work_sem v w) n m"
    and n: "0 < n (phase_kind ph)" and c: "c \<noteq> 1" and r: "r \<noteq> 0"
    and ok: "screen_ok (screen_bool v s) (screen_sem v s) (last_restart_interval v s) r r1 (claim_of m) y"
    and y: "m = MA \<or> (\<exists>k \<in> leader_kinds. m = MK k) \<Longrightarrow> y = Idle"
  shows "screen_ok (screen_bool v' s) (screen_sem v' s) (last_restart_interval v' s) r r1 (claim_of (acq_mode m ph ph')) y"
proof -
  note md = acquire_mode [OF s inv n]
  show ?thesis
    using s
  proof cases
    case first
    then show ?thesis using md ok y by (auto simp: acq_mode_def kinds_defs)
  next
    case other
    then show ?thesis using ok by (auto simp: acq_mode_def kinds_defs)
  next
    case follow
    then show ?thesis using ok by (auto simp: acq_mode_def kinds_defs)
  qed (use md ok y c r in \<open>auto simp: acq_mode_def kinds_defs\<close>)
qed

lemma acquire_screen_younger:
  assumes s: "acquire_step c r i w s v ph v' ph'"
    and inv: "work_inv c (work_inited v w) (work_sem_count v w) (work_sem v w) n m"
    and n: "0 < n (phase_kind ph)" and c: "c \<noteq> 1" and r: "r \<noteq> 0"
    and ok: "screen_ok (screen_bool v s) (screen_sem v s) (last_restart_interval v s) r0 r x (claim_of m)"
    and x: "x \<noteq> Taking"
  shows "screen_ok (screen_bool v' s) (screen_sem v' s) (last_restart_interval v' s) r0 r x (claim_of (acq_mode m ph ph'))"
proof -
  note md = acquire_mode [OF s inv n]
  show ?thesis
    using s
  proof cases
    case first
    then show ?thesis using md ok by (cases x) (auto simp: acq_mode_def kinds_defs)
  next
    case other
    then show ?thesis using ok by (auto simp: acq_mode_def kinds_defs)
  next
    case solo
    then show ?thesis using c by simp
  next
    case changed
    then show ?thesis using md ok by (cases x) (auto simp: acq_mode_def kinds_defs)
  next
    case busy
    then show ?thesis using md ok by (cases x) (auto simp: acq_mode_def kinds_defs)
  next
    case pass
    then show ?thesis using md ok r x by (cases x) (auto simp: acq_mode_def kinds_defs)
  next
    case take
    then show ?thesis using md ok x by (cases x) (auto simp: acq_mode_def kinds_defs)
  next
    case store
    then show ?thesis using md ok x by (cases x) (auto simp: acq_mode_def kinds_defs)
  next
    case lead
    then show ?thesis using md ok x by (cases x) (auto simp: acq_mode_def kinds_defs)
  next
    case rel
    then show ?thesis using md ok x by (cases x) (auto simp: acq_mode_def kinds_defs)
  next
    case follow
    then show ?thesis using ok by (auto simp: acq_mode_def kinds_defs)
  qed
qed

lemma release_mode:
  assumes s: "release_step c w s v ph v' ph'"
    and inv: "work_inv c (work_inited v w) (work_sem_count v w) (work_sem v w) n m"
    and n: "0 < n (phase_kind ph)"
  shows "ph = PWork \<Longrightarrow> m = MC" and "ph \<noteq> PWork \<Longrightarrow> phase_kind ph \<in> last_kinds \<and> m = MK (phase_kind ph)"
proof -
  show "ph = PWork \<Longrightarrow> m = MC" using mode_of(2) [OF inv] n by simp
  show "phase_kind ph \<in> last_kinds \<and> m = MK (phase_kind ph)" if "ph \<noteq> PWork"
  proof -
    have "phase_kind ph \<in> last_kinds" using s that by (auto elim!: release_step.cases simp: kinds_defs)
    then show ?thesis using mode_of(1) [OF inv] n by simp
  qed
qed

lemma release_screen:
  assumes s: "release_step c w s v ph v' ph'"
    and inv: "work_inv c (work_inited v w) (work_sem_count v w) (work_sem v w) n m"
    and n: "0 < n (phase_kind ph)" and c: "c \<noteq> 1" and r: "r \<noteq> 0"
    and ok: "screen_ok (screen_bool v s) (screen_sem v s) (last_restart_interval v s) r r1 (claim_of m) y"
  shows "\<not> ends ph ph' \<Longrightarrow>
      screen_ok (screen_bool v' s) (screen_sem v' s) (last_restart_interval v' s) r r1 (claim_of (rel_mode m ph')) y"
    and "ends ph ph' \<Longrightarrow>
      screen_ok (screen_bool v' s) (screen_sem v' s) (last_restart_interval v' s) r1 r2 y Idle"
proof -
  note md = release_mode [OF s inv n]
  show "screen_ok (screen_bool v' s) (screen_sem v' s) (last_restart_interval v' s) r r1 (claim_of (rel_mode m ph')) y"
    if e: "\<not> ends ph ph'"
    using s
  proof cases
    case reset_inited
    then show ?thesis using md ok c by (auto simp: rel_mode_def kinds_defs ends_def)
  next
    case handed
    then show ?thesis using md ok c by (cases y) (auto simp: rel_mode_def kinds_defs ends_def)
  next
    case free
    then show ?thesis using md ok c by (cases y) (auto simp: rel_mode_def kinds_defs ends_def)
  qed (use md ok e in \<open>auto simp: rel_mode_def kinds_defs ends_def\<close>)
  show "screen_ok (screen_bool v' s) (screen_sem v' s) (last_restart_interval v' s) r1 r2 y Idle"
    if e: "ends ph ph'"
    using s
  proof cases
    case clear
    then show ?thesis using md ok c by (cases y) (auto simp: kinds_defs)
  next
    case signal
    then show ?thesis using md ok c by (cases y) (auto simp: kinds_defs)
  qed (use e c in \<open>auto simp: ends_def\<close>)
qed

lemma other_parity: "Suc lo mod 2 \<noteq> lo mod 2" for lo :: nat
  by presburger

lemma led_step_older:
  assumes "led_inv lo m0 m1 l"
    and "l' = l \<and> has_led m' = has_led m0 \<or> l' = lo # l \<and> \<not> has_led m0 \<and> has_led m'"
  shows "led_inv lo m' m1 l'"
proof -
  have "lo \<in> set l \<longleftrightarrow> has_led m0" "distinct l"
    and mem: "j \<in> set l \<longleftrightarrow> j < lo \<or> j = lo \<and> has_led m0 \<or> j = lo + 1 \<and> has_led m1" for j
    using assms(1) unfolding led_inv_def by simp_all
  with assms(2) show ?thesis unfolding led_inv_def by (elim disjE conjE) (simp_all add: mem, blast)
qed

lemma led_step_younger:
  assumes "led_inv lo m0 m1 l"
    and "l' = l \<and> has_led m' = has_led m1 \<or> l' = (lo + 1) # l \<and> \<not> has_led m1 \<and> has_led m'"
  shows "led_inv lo m0 m' l'"
proof -
  have "lo + 1 \<in> set l \<longleftrightarrow> has_led m1" "distinct l"
    and mem: "j \<in> set l \<longleftrightarrow> j < lo \<or> j = lo \<and> has_led m0 \<or> j = lo + 1 \<and> has_led m1" for j
    using assms(1) unfolding led_inv_def by simp_all
  with assms(2) show ?thesis unfolding led_inv_def by (elim disjE conjE) (simp_all add: mem, blast)
qed

lemma advance_older:
  assumes st: "sync_at c scr rint lo m0 m1 (p, v)" and t: "t < c" "p t = (lo, ph)"
    and nr: "near c lo (p(t := next_pc lo ph'))"
    and F: "work_inv c (work_inited v' (lo mod 2)) (work_sem_count v' (lo mod 2)) (work_sem v' (lo mod 2))
        (moved (phase_kind ph) (phase_kind ph') (tally c lo p)) m'"
    and W: "\<And>w. w \<noteq> lo mod 2 \<Longrightarrow> work_inited v' w = work_inited v w \<and> work_sem_count v' w = work_sem_count v w
      \<and> work_sem v' w = work_sem v w"
    and U: "\<And>s. s \<noteq> scr lo \<Longrightarrow> screen_bool v' s = screen_bool v s \<and> screen_sem v' s = screen_sem v s
      \<and> last_restart_interval v' s = last_restart_interval v s"
    and L: "led v' = led v \<and> has_led m' = has_led m0 \<or> led v' = lo # led v \<and> \<not> has_led m0 \<and> has_led m'"
    and S: "c \<noteq> 1 \<Longrightarrow> screen_ok (screen_bool v' (scr lo)) (screen_sem v' (scr lo)) (last_restart_interval v' (scr lo))
        (rint lo) (rint (lo + 1)) (claim_of m') (claim_on scr (scr lo) (lo + 1) m1)"
  shows "sync_at c scr rint lo m' m1 (p(t := next_pc lo ph'), v')"
  unfolding sync_at_def fst_conv snd_conv
proof (intro conjI impI allI)
  show "frame_inv c lo (p(t := next_pc lo ph')) v' m'"
    using F by (simp add: frame_inv_def tally_own [where p = p, OF t])
  show "frame_inv c (lo + 1) (p(t := next_pc lo ph')) v' m1"
    using st W [of "(lo + 1) mod 2"] other_parity [of lo] tally_other [where p = p and j = "lo + 1" and ph' = ph', OF t]
    by (simp add: sync_at_def frame_inv_def)
  show "led_inv lo m' m1 (led v')" 
    by (rule led_step_older [OF _ L]) (use st in \<open>simp add: sync_at_def\<close>)
  fix s
  assume "c \<noteq> 1"
  then have c: "c \<noteq> 1" and old: "screen_inv scr rint lo m0 m1 v s" using st by (simp_all add: sync_at_def)
  show "screen_inv scr rint lo m' m1 v' s"
  proof (cases "s = scr lo")
    case True
    then show ?thesis using S [OF c] by (simp add: screen_inv_def claim_on_def)
  next
    case False
    then show ?thesis using old U [OF False] by (simp add: screen_inv_def claim_on_def)
  qed
qed (rule nr)

lemma advance_younger:
  assumes st: "sync_at c scr rint lo m0 m1 (p, v)" and t: "t < c" "p t = (lo + 1, ph)"
    and nr: "near c lo (p(t := next_pc (lo + 1) ph'))"
    and F: "work_inv c (work_inited v' ((lo + 1) mod 2)) (work_sem_count v' ((lo + 1) mod 2)) (work_sem v' ((lo + 1) mod 2))
        (moved (phase_kind ph) (phase_kind ph') (tally c (lo + 1) p)) m'"
    and W: "\<And>w. w \<noteq> (lo + 1) mod 2 \<Longrightarrow> work_inited v' w = work_inited v w \<and> work_sem_count v' w = work_sem_count v w
      \<and> work_sem v' w = work_sem v w"
    and U: "\<And>s. s \<noteq> scr (lo + 1) \<Longrightarrow> screen_bool v' s = screen_bool v s \<and> screen_sem v' s = screen_sem v s
      \<and> last_restart_interval v' s = last_restart_interval v s"
    and L: "led v' = led v \<and> has_led m' = has_led m1 \<or> led v' = (lo + 1) # led v \<and> \<not> has_led m1 \<and> has_led m'"
    and S: "c \<noteq> 1 \<Longrightarrow> screen_ok (screen_bool v' (scr (lo + 1))) (screen_sem v' (scr (lo + 1)))
        (last_restart_interval v' (scr (lo + 1)))
        (rint lo) (rint (lo + 1)) (claim_on scr (scr (lo + 1)) lo m0) (claim_of m')"
  shows "sync_at c scr rint lo m0 m' (p(t := next_pc (lo + 1) ph'), v')"
  unfolding sync_at_def fst_conv snd_conv
proof (intro conjI impI allI)
  show "frame_inv c (lo + 1) (p(t := next_pc (lo + 1) ph')) v' m'"
    using F unfolding frame_inv_def tally_own [where p = p, OF t] .
  show "frame_inv c lo (p(t := next_pc (lo + 1) ph')) v' m0"
    using st W [of "lo mod 2"] other_parity [of lo] tally_other [where p = p and j = lo and ph' = ph', OF t] by (simp add: sync_at_def frame_inv_def)
  show "led_inv lo m0 m' (led v')" 
    by (rule led_step_younger [OF _ L]) (use st in \<open>simp add: sync_at_def\<close>)
  fix s
  assume "c \<noteq> 1"
  then have c: "c \<noteq> 1" and old: "screen_inv scr rint lo m0 m1 v s" using st by (simp_all add: sync_at_def)
  show "screen_inv scr rint lo m0 m' v' s"
  proof (cases "s = scr (lo + 1)")
    case True
    then show ?thesis using S [OF c] by (simp add: screen_inv_def claim_on_def)
  next
    case False
    then show ?thesis using old U [OF False] by (simp add: screen_inv_def claim_on_def)
  qed
qed (rule nr)

lemma near_same:
  assumes "near c lo p" "t < c" "p t = (i, ph)" "ph' \<noteq> PDone" "i \<le> lo + 1"
  shows "near c lo (p(t := next_pc i ph'))"
proof -
  from assms(1) obtain t' where t': "t' < c" "fst (p t') = lo" by (auto simp: near_def)
  then have "fst ((p(t := next_pc i ph')) t') = lo" using assms(3,4) by (auto simp: next_pc_def)
  then show ?thesis using assms t'(1) unfolding near_def next_pc_def by auto
qed

lemma near_younger_done:
  assumes "near c lo p" "t < c" "p t = (lo + 1, ph)"
  shows "near c lo (p(t := next_pc (lo + 1) PDone))"
proof -
  from assms(1) obtain t' where t': "t' < c" "fst (p t') = lo" by (auto simp: near_def)
  then have "t' \<noteq> t" using assms(3) by (metis fst_conv add.right_neutral add_left_cancel one_neq_zero)
  then show ?thesis using assms t' unfolding near_def next_pc_def by auto
qed

lemma near_older_done:
  assumes nr: "near c lo p" and t: "t < c" "p t = (lo, ph)"
    and more: "0 < tally c lo (p(t := next_pc lo PDone)) k" "k \<noteq> KD"
  shows "near c lo (p(t := next_pc lo PDone))"
proof -
  let ?p = "p(t := next_pc lo PDone)"
  from more(1) obtain t' where t': "t' < c" "kind_at lo (?p t') = k" by (auto simp: tally_pos_iff)
  have "t' \<noteq> t" using t'(2) more(2) by (auto simp: kind_at_own)
  then have "fst (p t') = lo" using t' nr more(2) by (auto simp: near_def kind_at_def split: if_splits)
  then show ?thesis using nr t t' \<open>t' \<noteq> t\<close> unfolding near_def next_pc_def by auto
qed

lemma stepping_frame:
  assumes nr: "near c lo p" and t: "t < c" "p t = (i, ph)"
    and "ph = PStart \<Longrightarrow> frame_ready c p i"
  shows "i = lo \<or> i = lo + 1"
proof -
  from nr t have b: "lo \<le> i" "i \<le> lo + 2" "i = lo + 2 \<Longrightarrow> ph = PStart" by (force simp: near_def)+
  from nr obtain t' where t': "t' < c" "fst (p t') = lo" by (auto simp: near_def)
  show ?thesis
  proof (cases "ph = PStart")
    case True
    then have "i < lo + 2" using assms(4) t' by (force simp: frame_ready_def)
    then show ?thesis using b by auto
  qed (use b in \<open>force\<close>)
qed

lemma own_tally_pos: "t < c \<Longrightarrow> p t = (i, ph) \<Longrightarrow> 0 < tally c i p (phase_kind ph)"
  by (rule tally_pos) (auto simp: kind_at_def)

lemma acquire_led:
  assumes s: "acquire_step c r i w s v ph v' ph'"
    and inv: "work_inv c (work_inited v w) (work_sem_count v w) (work_sem v w) n m"
    and n: "0 < n (phase_kind ph)"
  shows "led v' = led v \<and> has_led (acq_mode m ph ph') = has_led m
    \<or> led v' = i # led v \<and> \<not> has_led m \<and> has_led (acq_mode m ph ph')"
  using s acquire_mode [OF s inv n] by cases (simp_all add: acq_mode_def kinds_defs)

lemma no_leader_ahead:
  assumes st: "sync_at c scr rint lo m0 m1 (p, v)" and t: "t < c" "p t = (lo + 1, ph)"
  shows "m0 \<noteq> MA" and "k \<in> leader_kinds \<Longrightarrow> m0 \<noteq> MK k"
proof -
  have "0 < tally c lo p KD" by (rule tally_pos [OF t(1)]) (simp add: kind_at_def t(2))
  then show "m0 \<noteq> MA" "k \<in> leader_kinds \<Longrightarrow> m0 \<noteq> MK k"
    using st by (auto simp: sync_at_def frame_inv_def only_def kinds_defs)
qed

lemma claim_Taking: "claim_of m = Taking \<longleftrightarrow> m = MK KSto"
  by (cases m) auto

lemma claim_on_own [simp]: "claim_on scr (scr i) i m = claim_of m"
  by (simp add: claim_on_def)

lemma sync_acquire:
  assumes st: "sync_at c scr rint lo m0 m1 (p, v)" and t: "t < c" "p t = (i, ph)"
    and rdy: "ph = PStart \<Longrightarrow> frame_ready c p i" and r: "rint i \<noteq> 0"
    and s: "acquire_step c (rint i) i (i mod 2) (scr i) v ph v' ph'"
  shows "\<exists>m0 m1. sync_at c scr rint lo m0 m1 (p(t := next_pc i ph'), v')"
proof -
  have nr: "near c lo p" using st by (simp add: sync_at_def)
  have pd: "ph' \<noteq> PDone" using acquire_untouched(4) [OF s] .
  from stepping_frame [OF nr t rdy] consider "i = lo" | "i = lo + 1" by auto
  then show ?thesis
  proof cases
    case 1
    note t' = t [unfolded 1] and s' = s [unfolded 1]
    have F: "work_inv c (work_inited v (lo mod 2)) (work_sem_count v (lo mod 2)) (work_sem v (lo mod 2)) (tally c lo p) m0"
      using st by (simp add: sync_at_def frame_inv_def)
    note pos = own_tally_pos [where p = p, OF t']
    have "sync_at c scr rint lo (acq_mode m0 ph ph') m1 (p(t := next_pc lo ph'), v')"
    proof (rule advance_older [OF st t'])
      show "near c lo (p(t := next_pc lo ph'))" using near_same [OF nr t' pd] by simp
      show "work_inv c (work_inited v' (lo mod 2)) (work_sem_count v' (lo mod 2)) (work_sem v' (lo mod 2))
          (moved (phase_kind ph) (phase_kind ph') (tally c lo p)) (acq_mode m0 ph ph')"
        by (rule acquire_work [OF s' F pos tally_sum_eq])
      show "led v' = led v \<and> has_led (acq_mode m0 ph ph') = has_led m0
          \<or> led v' = lo # led v \<and> \<not> has_led m0 \<and> has_led (acq_mode m0 ph ph')"
        by (rule acquire_led [OF s' F pos])
      assume c: "c \<noteq> 1"
      then have "screen_inv scr rint lo m0 m1 v (scr lo)" using st by (simp add: sync_at_def)
      then have ok: "screen_ok (screen_bool v (scr lo)) (screen_sem v (scr lo)) (last_restart_interval v (scr lo))
          (rint lo) (rint (lo + 1)) (claim_of m0) (claim_on scr (scr lo) (lo + 1) m1)"
        by (simp add: screen_inv_def)
      show "screen_ok (screen_bool v' (scr lo)) (screen_sem v' (scr lo)) (last_restart_interval v' (scr lo))
          (rint lo) (rint (lo + 1)) (claim_of (acq_mode m0 ph ph')) (claim_on scr (scr lo) (lo + 1) m1)"
        by (rule acquire_screen_older [OF s' F pos c r [unfolded 1] ok])
           (use younger_fresh [OF st] in \<open>simp add: claim_on_def\<close>)
    qed (use acquire_untouched(1,2) [OF s'] in auto)
    then show ?thesis unfolding 1 by blast
  next
    case 2
    note t' = t [unfolded 2] and s' = s [unfolded 2]
    have F: "work_inv c (work_inited v ((lo + 1) mod 2)) (work_sem_count v ((lo + 1) mod 2)) (work_sem v ((lo + 1) mod 2))
        (tally c (lo + 1) p) m1"
      using st by (simp add: sync_at_def frame_inv_def)
    note pos = own_tally_pos [where p = p, OF t']
    have "sync_at c scr rint lo m0 (acq_mode m1 ph ph') (p(t := next_pc (lo + 1) ph'), v')"
    proof (rule advance_younger [OF st t'])
      show "near c lo (p(t := next_pc (lo + 1) ph'))" using near_same [OF nr t' pd] by simp
      show "work_inv c (work_inited v' ((lo + 1) mod 2)) (work_sem_count v' ((lo + 1) mod 2)) (work_sem v' ((lo + 1) mod 2))
          (moved (phase_kind ph) (phase_kind ph') (tally c (lo + 1) p)) (acq_mode m1 ph ph')"
        by (rule acquire_work [OF s' F pos tally_sum_eq])
      show "led v' = led v \<and> has_led (acq_mode m1 ph ph') = has_led m1
          \<or> led v' = (lo + 1) # led v \<and> \<not> has_led m1 \<and> has_led (acq_mode m1 ph ph')"
        by (rule acquire_led [OF s' F pos])
      assume c: "c \<noteq> 1"
      then have "screen_inv scr rint lo m0 m1 v (scr (lo + 1))" using st by (simp add: sync_at_def)
      then have ok: "screen_ok (screen_bool v (scr (lo + 1))) (screen_sem v (scr (lo + 1)))
          (last_restart_interval v (scr (lo + 1)))
          (rint lo) (rint (lo + 1)) (claim_on scr (scr (lo + 1)) lo m0) (claim_of m1)"
        unfolding screen_inv_def claim_on_own .
      show "screen_ok (screen_bool v' (scr (lo + 1))) (screen_sem v' (scr (lo + 1)))
          (last_restart_interval v' (scr (lo + 1)))
          (rint lo) (rint (lo + 1)) (claim_on scr (scr (lo + 1)) lo m0) (claim_of (acq_mode m1 ph ph'))"
      proof (rule acquire_screen_younger [OF s' F pos c r [unfolded 2] ok])
        show "claim_on scr (scr (lo + 1)) lo m0 \<noteq> Taking"
          using no_leader_ahead(2) [OF st t', of KSto] by (auto simp: claim_on_def claim_Taking kinds_defs)
      qed
    qed (use acquire_untouched(1,2) [OF s'] in auto)
    then show ?thesis unfolding 2 by blast
  qed
qed

lemma sync_empty:
  assumes st: "sync_at c scr rint lo m0 m1 (p, v)" and t: "t < c" "p t = (i, PStart)" and rdy: "frame_ready c p i"
  shows "\<exists>m0 m1. sync_at c scr rint lo m0 m1 (p(t := next_pc i PFollow), v)"
proof -
  have nr: "near c lo p" using st by (simp add: sync_at_def)
  from stepping_frame [OF nr t rdy] consider "i = lo" | "i = lo + 1" by auto
  then show ?thesis
  proof cases
    case 1
    note t' = t [unfolded 1]
    have "sync_at c scr rint lo m0 m1 (p(t := next_pc lo PFollow), v)"
    proof (rule advance_older [OF st t'])
      show "near c lo (p(t := next_pc lo PFollow))" using near_same [OF nr t', of PFollow] by simp
      show "work_inv c (work_inited v (lo mod 2)) (work_sem_count v (lo mod 2)) (work_sem v (lo mod 2))
          (moved (phase_kind PStart) (phase_kind PFollow) (tally c lo p)) m0"
        using st own_tally_pos [where p = p, OF t'] empty_work by (simp add: sync_at_def frame_inv_def)
      assume "c \<noteq> 1"
      then have "screen_inv scr rint lo m0 m1 v (scr lo)" using st by (simp add: sync_at_def)
      then show "screen_ok (screen_bool v (scr lo)) (screen_sem v (scr lo)) (last_restart_interval v (scr lo))
          (rint lo) (rint (lo + 1)) (claim_of m0) (claim_on scr (scr lo) (lo + 1) m1)"
        unfolding screen_inv_def claim_on_own .
    qed auto
    then show ?thesis unfolding 1 by blast
  next
    case 2
    note t' = t [unfolded 2]
    have "sync_at c scr rint lo m0 m1 (p(t := next_pc (lo + 1) PFollow), v)"
    proof (rule advance_younger [OF st t'])
      show "near c lo (p(t := next_pc (lo + 1) PFollow))" using near_same [OF nr t', of PFollow] by simp
      show "work_inv c (work_inited v ((lo + 1) mod 2)) (work_sem_count v ((lo + 1) mod 2)) (work_sem v ((lo + 1) mod 2))
          (moved (phase_kind PStart) (phase_kind PFollow) (tally c (lo + 1) p)) m1"
        using st own_tally_pos [where p = p, OF t'] empty_work by (simp add: sync_at_def frame_inv_def)
      assume "c \<noteq> 1"
      then have "screen_inv scr rint lo m0 m1 v (scr (lo + 1))" using st by (simp add: sync_at_def)
      then show "screen_ok (screen_bool v (scr (lo + 1))) (screen_sem v (scr (lo + 1)))
          (last_restart_interval v (scr (lo + 1)))
          (rint lo) (rint (lo + 1)) (claim_on scr (scr (lo + 1)) lo m0) (claim_of m1)"
        unfolding screen_inv_def claim_on_own .
    qed auto
    then show ?thesis unfolding 2 by blast
  qed
qed

lemma release_led:
  assumes s: "release_step c w s v ph v' ph'"
    and inv: "work_inv c (work_inited v w) (work_sem_count v w) (work_sem v w) n m"
    and n: "0 < n (phase_kind ph)"
  shows "has_led m" "has_led (rel_mode m ph')"
proof -
  show "has_led m" using release_mode [OF s inv n] by (cases "ph = PWork") auto
  then show "has_led (rel_mode m ph')" by (simp add: rel_mode_def)
qed

lemma sync_release:
  assumes st: "sync_at c scr rint lo m0 m1 (p, v)" and t: "t < c" "p t = (i, ph)" and r: "rint i \<noteq> 0"
    and s: "release_step c (i mod 2) (scr i) v ph v' ph'" and e: "\<not> ends ph ph'"
  shows "\<exists>m0 m1. sync_at c scr rint lo m0 m1 (p(t := next_pc i ph'), v')"
proof -
  have nr: "near c lo p" using st by (simp add: sync_at_def)
  have "ph \<noteq> PStart" using release_untouched(4) [OF s] .
  then consider "i = lo" | "i = lo + 1" using stepping_frame [OF nr t] by auto
  then show ?thesis
  proof cases
    case 1
    note t' = t [unfolded 1] and s' = s [unfolded 1]
    have F: "work_inv c (work_inited v (lo mod 2)) (work_sem_count v (lo mod 2)) (work_sem v (lo mod 2)) (tally c lo p) m0"
      using st by (simp add: sync_at_def frame_inv_def)
    note pos = own_tally_pos [where p = p, OF t']
    note F' = release_work(1) [OF s' F pos tally_sum_eq e]
    have "sync_at c scr rint lo (rel_mode m0 ph') m1 (p(t := next_pc lo ph'), v')"
    proof (rule advance_older [OF st t' _ F'])
      show "near c lo (p(t := next_pc lo ph'))"
      proof (cases "ph' = PDone")
        case False
        then show ?thesis using near_same [OF nr t'] by simp
      next
        case True
        then have w: "ph = PWork" using e by (simp add: ends_def)
        then have "m0 = MC" using release_mode(1) [OF s' F pos] by simp
        then have wi: "1 \<le> work_sem_count v' (lo mod 2)"
          "work_sem_count v' (lo mod 2) = tally c lo (p(t := next_pc lo ph')) KS
            + tally c lo (p(t := next_pc lo ph')) KF + tally c lo (p(t := next_pc lo ph')) KW"
          using F' by (auto simp: rel_mode_def kinds_defs True tally_own [where p = p, OF t'])
        then have "\<exists>k \<in> {KS, KF, KW}. 0 < tally c lo (p(t := next_pc lo PDone)) k" using True by auto
        then show ?thesis unfolding True using near_older_done [OF nr t'] by auto
      qed
      show "led v' = led v \<and> has_led (rel_mode m0 ph') = has_led m0
          \<or> led v' = lo # led v \<and> \<not> has_led m0 \<and> has_led (rel_mode m0 ph')"
        using release_led [OF s' F pos] release_untouched(3) [OF s'] by simp
      assume c: "c \<noteq> 1"
      then have "screen_inv scr rint lo m0 m1 v (scr lo)" using st by (simp add: sync_at_def)
      then have ok: "screen_ok (screen_bool v (scr lo)) (screen_sem v (scr lo)) (last_restart_interval v (scr lo))
          (rint lo) (rint (lo + 1)) (claim_of m0) (claim_on scr (scr lo) (lo + 1) m1)"
        by (simp add: screen_inv_def)
      show "screen_ok (screen_bool v' (scr lo)) (screen_sem v' (scr lo)) (last_restart_interval v' (scr lo))
          (rint lo) (rint (lo + 1)) (claim_of (rel_mode m0 ph')) (claim_on scr (scr lo) (lo + 1) m1)"
        by (rule release_screen(1) [OF s' F pos c r [unfolded 1] ok e])
    qed (use release_untouched(1,2) [OF s'] in auto)
    then show ?thesis unfolding 1 by blast
  next
    case 2
    note t' = t [unfolded 2] and s' = s [unfolded 2]
    have F: "work_inv c (work_inited v ((lo + 1) mod 2)) (work_sem_count v ((lo + 1) mod 2)) (work_sem v ((lo + 1) mod 2))
        (tally c (lo + 1) p) m1"
      using st by (simp add: sync_at_def frame_inv_def)
    note pos = own_tally_pos [where p = p, OF t']
    have w: "ph = PWork"
    proof (rule ccontr)
      assume "ph \<noteq> PWork"
      with release_mode(2) [OF s' F pos] younger_open(2) [OF st] show False by blast
    qed
    have m1: "m1 = MC" using release_mode(1) [OF s' F pos w] .
    note F' = release_work(1) [OF s' F pos tally_sum_eq e]
    have d: "ph' = PDone"
    proof (rule ccontr)
      assume d: "ph' \<noteq> PDone"
      then have "work_sem_count v ((lo + 1) mod 2) = 1" using s' w by (auto elim: release_step.cases)
      moreover have "0 < tally c (lo + 1) p KW" using pos w by simp
      moreover note younger_open(1) [OF st]
      ultimately show False using F m1 by simp
    qed
    have "sync_at c scr rint lo m0 (rel_mode m1 ph') (p(t := next_pc (lo + 1) ph'), v')"
    proof (rule advance_younger [OF st t' _ F'])
      show "near c lo (p(t := next_pc (lo + 1) ph'))" unfolding d by (rule near_younger_done [OF nr t'])
      show "led v' = led v \<and> has_led (rel_mode m1 ph') = has_led m1
          \<or> led v' = (lo + 1) # led v \<and> \<not> has_led m1 \<and> has_led (rel_mode m1 ph')"
        using release_led [OF s' F pos] release_untouched(3) [OF s'] by simp
      assume c: "c \<noteq> 1"
      then have "screen_inv scr rint lo m0 m1 v (scr (lo + 1))" using st by (simp add: sync_at_def)
      then have ok: "screen_ok (screen_bool v (scr (lo + 1))) (screen_sem v (scr (lo + 1)))
          (last_restart_interval v (scr (lo + 1)))
          (rint lo) (rint (lo + 1)) (claim_on scr (scr (lo + 1)) lo m0) (claim_of m1)"
        unfolding screen_inv_def claim_on_own .
      have "screen_bool v' = screen_bool v \<and> screen_sem v' = screen_sem v
          \<and> last_restart_interval v' = last_restart_interval v"
        using s' w by (auto elim: release_step.cases)
      moreover have "rel_mode m1 ph' = m1" by (simp add: rel_mode_def d kinds_defs)
      ultimately show "screen_ok (screen_bool v' (scr (lo + 1))) (screen_sem v' (scr (lo + 1)))
          (last_restart_interval v' (scr (lo + 1)))
          (rint lo) (rint (lo + 1)) (claim_on scr (scr (lo + 1)) lo m0) (claim_of (rel_mode m1 ph'))"
        using ok by simp
    qed (use release_untouched(1,2) [OF s'] in auto)
    then show ?thesis unfolding 2 by blast
  qed
qed

lemma screen_ok_shift: "screen_ok b sem l r0 r1 Idle y \<Longrightarrow> screen_ok b sem l r1 r2 y Idle"
  by (cases y) auto

lemma sync_end:
  assumes st: "sync_at c scr rint lo m0 m1 (p, v)" and t: "t < c" "p t = (i, ph)" and r: "rint i \<noteq> 0"
    and s: "release_step c (i mod 2) (scr i) v ph v' ph'" and e: "ends ph ph'"
  shows "\<exists>lo m0 m1. sync_at c scr rint lo m0 m1 (p(t := next_pc i ph'), v')"
proof -
  have nr: "near c lo p" using st by (simp add: sync_at_def)
  have ph: "ph \<noteq> PStart" "ph \<noteq> PWork" "ph' = PDone" using release_untouched(4) [OF s] e by (auto simp: ends_def)
  then have i: "i = lo \<or> i = lo + 1" using stepping_frame [OF nr t] by auto
  have i: "i = lo"
  proof (rule ccontr)
    assume "i \<noteq> lo"
    with i have i: "i = lo + 1" by simp
    have F: "work_inv c (work_inited v ((lo + 1) mod 2)) (work_sem_count v ((lo + 1) mod 2)) (work_sem v ((lo + 1) mod 2))
        (tally c (lo + 1) p) m1"
      using st by (simp add: sync_at_def frame_inv_def)
    from release_mode(2) [OF s [unfolded i] F own_tally_pos [where p = p, OF t [unfolded i]] ph(2)]
      younger_open(2) [OF st] show False by blast
  qed
  note t' = t [unfolded i] and s' = s [unfolded i]
  let ?p = "p(t := next_pc lo PDone)"
  have F: "work_inv c (work_inited v (lo mod 2)) (work_sem_count v (lo mod 2)) (work_sem v (lo mod 2)) (tally c lo p) m0"
    using st by (simp add: sync_at_def frame_inv_def)
  note pos = own_tally_pos [where p = p, OF t']
  note fin = release_work(2) [OF s' F pos tally_sum_eq e]
  have past: "lo < fst (?p u)" if "u < c" for u
  proof -
    have "kind_at lo (?p u) = KD"
      using fin tally_pos [OF that refl, of lo ?p] tally_own [where p = p, OF t', of PDone]
      by (auto simp: only_def)
    moreover have "snd (?p u) \<noteq> PDone" using nr that t'(1) by (auto simp: near_def next_pc_def)
    ultimately show ?thesis by (cases "snd (?p u)") (auto simp: kind_at_def split: if_splits)
  qed
  have nr': "near c (lo + 1) ?p"
    unfolding near_def
  proof (intro conjI allI impI exI [of _ t])
    show "fst (?p t) = lo + 1" by (simp add: next_pc_def)
    fix u
    assume u: "u < c"
    show "lo + 1 \<le> fst (?p u)" using past [OF u] by simp
    show "fst (?p u) \<le> lo + 1 + 2" "snd (?p u) \<noteq> PDone"
      using nr u by (auto simp: near_def next_pc_def le_SucI)
    show "fst (?p u) = lo + 1 + 2 \<Longrightarrow> snd (?p u) = PStart"
      using nr u by (force simp: near_def next_pc_def)
  qed (rule t)
  have start: "\<forall>u < c. fst (?p u) < lo + 2 \<or> ?p u = (lo + 2, PStart)"
    using nr by (auto simp: near_def next_pc_def prod_eq_iff le_less)
  have "sync_at c scr rint (lo + 1) m1 MA (?p, v')"
    unfolding sync_at_def fst_conv snd_conv
  proof (intro conjI impI allI)
    show "frame_inv c (lo + 1) ?p v' m1"
      using st release_untouched(1) [OF s', of "(lo + 1) mod 2"] other_parity [of lo]
        tally_other [where p = p and j = "lo + 1" and ph' = PDone, OF t'] by (simp add: sync_at_def frame_inv_def)
    show "frame_inv c (lo + 1 + 1) ?p v' MA"
      using fin tally_start [where p = ?p, OF start] by (simp add: frame_inv_def only_def)
    show "led_inv (lo + 1) m1 MA (led v')"
      using st release_led(1) [OF s' F pos] release_untouched(3) [OF s']
      unfolding sync_at_def led_inv_def fst_conv snd_conv by (simp add: less_Suc_eq)
    fix s
    assume c: "c \<noteq> 1"
    then have old: "screen_inv scr rint lo m0 m1 v s" using st by (simp add: sync_at_def)
    show "screen_inv scr rint (lo + 1) m1 MA v' s"
    proof (cases "s = scr lo")
      case True
      from old have "screen_ok (screen_bool v (scr lo)) (screen_sem v (scr lo)) (last_restart_interval v (scr lo))
          (rint lo) (rint (lo + 1)) (claim_of m0) (claim_on scr (scr lo) (lo + 1) m1)"
        by (simp add: screen_inv_def True)
      from release_screen(2) [OF s' F pos c r [unfolded i] this e] show ?thesis
        by (simp add: screen_inv_def True claim_on_def)
    next
      case False
      then have "screen_ok (screen_bool v s) (screen_sem v s) (last_restart_interval v s)
          (rint lo) (rint (lo + 1)) Idle (claim_on scr s (lo + 1) m1)"
        using old by (simp add: screen_inv_def claim_on_def)
      from screen_ok_shift [OF this] show ?thesis
        using release_untouched(2) [OF s' False] by (simp add: screen_inv_def claim_on_def)
    qed
  qed (rule nr')
  then show ?thesis unfolding i ph(3) by blast
qed

lemma sync_at_init:
  assumes "1 \<le> c"
  shows "sync_at c scr rint 0 MA MA (sync_init c)"
proof -
  have t: "tally c 0 (\<lambda>t. (0, PStart)) k = (if k = KS then c else 0)"
    "tally c 1 (\<lambda>t. (0, PStart)) k = (if k = KS then c else 0)" for k
    by (rule tally_start; simp)+
  have "\<exists>t. t < c" using assms by (intro exI [of _ 0]) simp
  then show ?thesis using assms t
    by (auto simp: sync_at_def sync_init_def near_def frame_inv_def only_def led_inv_def screen_inv_def claim_on_def)
qed

lemma reach_sync_at:
  assumes "sync_reach c scr rint emp st" "1 \<le> c" "\<forall>i. rint i \<noteq> 0"
  shows "\<exists>lo m0 m1. sync_at c scr rint lo m0 m1 st"
  using assms(1)
proof induction
  case init
  then show ?case using sync_at_init [OF assms(2)] by blast
next
  case (step st st')
  then obtain lo m0 m1 where at: "sync_at c scr rint lo m0 m1 st" by blast
  from step.hyps(2) show ?case
  proof cases
    case (acquire t p i ph v v' ph')
    then show ?thesis using sync_acquire [OF at [unfolded acquire(1)] acquire(3,4) _ _ acquire(6)] assms(3) by blast
  next
    case (empty t p i ph v v' ph')
    from empty(7) have "ph = PStart" "v' = v" "ph' = PFollow" by (auto elim: empty_acquire_step.cases)
    then show ?thesis using sync_empty [OF at [unfolded empty(1)] empty(3)] empty(2,4,5) by blast
  next
    case (release t p i ph v v' ph')
    then show ?thesis
      using sync_release [OF at [unfolded release(1)] release(3,4) _ release(5)]
        sync_end [OF at [unfolded release(1)] release(3,4) _ release(5)] assms(3) by blast
  qed
qed

section \<open>What the synchronisation guarantees\<close>

text \<open>The phases after the leader's release, in which a thread encodes or closes the frame.\<close>

definition past_lead :: "phase \<Rightarrow> bool" where
  "past_lead ph \<longleftrightarrow> phase_kind ph = KW \<or> phase_kind ph \<in> last_kinds"

lemma frame_mode:
  assumes st: "sync_at c scr rint lo m0 m1 (p, v)" and t: "t < c" "p t = (i, ph)" and ph: "ph \<noteq> PStart"
  obtains "i = lo" "frame_inv c i p v m0" | "i = lo + 1" "frame_inv c i p v m1"
proof -
  have "i = lo \<or> i = lo + 1" using stepping_frame [where p = p, OF _ t] st ph by (auto simp: sync_at_def)
  then show thesis using st that by (auto simp: sync_at_def)
qed

lemma past_lead_mode:
  assumes f: "frame_inv c i p v m" and t: "t < c" "p t = (i, ph)" and ph: "past_lead ph"
  shows "has_led m" and "ph = PWork \<Longrightarrow> m = MC"
proof -
  note F = f [unfolded frame_inv_def] and pos = own_tally_pos [where p = p, OF t]
  show "ph = PWork \<Longrightarrow> m = MC" using mode_of(2) [OF F] pos by simp
  show "has_led m"
    using ph mode_of(1) [OF F, of "phase_kind ph"] mode_of(2) [OF F] pos by (auto simp: past_lead_def)
qed

text \<open>C22: in every interleaving of the threads, the leader's work for a frame is done at most once, and no
  thread encodes a frame (or closes it) before it has been done.\<close>

theorem leader_once:
  assumes "sync_reach c scr rint emp (p, v)" and "1 \<le> c" and "\<forall>i. rint i \<noteq> 0"
  shows "distinct (led v) \<and> (\<forall>t < c. past_lead (snd (p t)) \<longrightarrow> fst (p t) \<in> set (led v))"
proof -
  from reach_sync_at [OF assms] obtain lo m0 m1 where st: "sync_at c scr rint lo m0 m1 (p, v)" by blast
  then have l: "led_inv lo m0 m1 (led v)" by (simp add: sync_at_def)
  have "fst (p t) \<in> set (led v)" if t: "t < c" and ph: "past_lead (snd (p t))" for t
  proof -
    have p: "p t = (fst (p t), snd (p t))" by simp
    have "snd (p t) \<noteq> PStart" using ph by (auto simp: past_lead_def kinds_defs)
    then show ?thesis
    proof (rule frame_mode [OF st t p])
      assume i: "fst (p t) = lo" "frame_inv c (fst (p t)) p v m0"
      from past_lead_mode(1) [OF i(2) t p ph] show ?thesis using l i(1) by (simp add: led_inv_def)
    next
      assume i: "fst (p t) = lo + 1" "frame_inv c (fst (p t)) p v m1"
      from past_lead_mode(1) [OF i(2) t p ph] show ?thesis using l i(1) by (simp add: led_inv_def)
    qed
  qed
  then show ?thesis using l by (auto simp: led_inv_def)
qed

text \<open>C16: two frames of one screen are encoded at the same time only when their rows are divided among the
  threads in the same way. The threads keep the previous coefficients of their own rows, so a thread never
  meets coefficients another thread is still writing.\<close>

theorem overlap_same_rows:
  assumes "sync_reach c scr rint emp (p, v)" and "1 \<le> c" and "\<forall>i. rint i \<noteq> 0"
    and t: "t < c" "p t = (i, PWork)" and u: "u < c" "p u = (j, PWork)" and s: "scr i = scr j"
  shows "rint i = rint j"
proof -
  from reach_sync_at [OF assms(1-3)] obtain lo m0 m1 where st: "sync_at c scr rint lo m0 m1 (p, v)" by blast
  have pl: "past_lead PWork" by (simp add: past_lead_def)
  have i: "(i = lo \<and> m0 = MC) \<or> (i = lo + 1 \<and> m1 = MC)"
    by (rule frame_mode [OF st t]) (use past_lead_mode(2) [where p = p, OF _ t pl] in auto)
  have j: "(j = lo \<and> m0 = MC) \<or> (j = lo + 1 \<and> m1 = MC)"
    by (rule frame_mode [OF st u]) (use past_lead_mode(2) [where p = p, OF _ u pl] in auto)
  show ?thesis
  proof (cases "i = j")
    case False
    have "c \<noteq> 1"
    proof
      assume "c = 1"
      then have "t = u" using t(1) u(1) by simp
      with t u False show False by simp
    qed
    then have "screen_inv scr rint lo m0 m1 v (scr i)" using st by (simp add: sync_at_def)
    moreover have "m0 = MC" "m1 = MC" "{i, j} = {lo, lo + 1}" using i j False by auto
    ultimately show ?thesis using s by (auto simp: screen_inv_def claim_on_def doubleton_eq_iff)
  qed simp
qed

text \<open>Two further facts for progress: only several threads wait for the screen, and a thread with rows
  follows only a leader.\<close>

definition follow_inv :: "nat \<Rightarrow> (nat \<Rightarrow> nat \<Rightarrow> bool) \<Rightarrow> sync_state \<Rightarrow> bool" where
  "follow_inv c emp st \<longleftrightarrow> (\<forall>t < c. (snd (fst st t) = PWait \<longrightarrow> c \<noteq> 1)
     \<and> (snd (fst st t) = PFollow \<and> \<not> emp (fst (fst st t)) t \<longrightarrow> work_inited (snd st) (fst (fst st t) mod 2)))"

lemma follow_inv_upd:
  assumes "follow_inv c emp (p, v)" and "p t = (i, ph)"
    and "ph' = PWait \<Longrightarrow> c \<noteq> 1" and "ph' = PFollow \<Longrightarrow> \<not> emp i t \<Longrightarrow> work_inited v' (i mod 2)"
    and "\<And>u. u < c \<Longrightarrow> snd (p u) = PFollow \<Longrightarrow> work_inited v (fst (p u) mod 2) \<Longrightarrow> work_inited v' (fst (p u) mod 2)"
  shows "follow_inv c emp (p(t := next_pc i ph'), v')"
  using assms by (auto simp: follow_inv_def next_pc_def)

lemma acquire_follow:
  assumes s: "acquire_step c r i w s v ph v' ph'"
  shows "ph' = PWait \<Longrightarrow> c \<noteq> 1" and "ph' = PFollow \<Longrightarrow> work_inited v' w"
    and "work_inited v x \<Longrightarrow> work_inited v' x"
  using s by (auto elim!: acquire_step.cases)

lemma release_follow:
  assumes st: "sync_at c scr rint lo m0 m1 (p, v)" and t: "t < c" "p t = (i, ph)"
    and s: "release_step c (i mod 2) (scr i) v ph v' ph'"
    and u: "u < c" "snd (p u) = PFollow" "work_inited v (fst (p u) mod 2)"
  shows "work_inited v' (fst (p u) mod 2)"
proof (cases "ph = PReset")
  case False
  then have "work_inited v' = work_inited v" using s by (auto elim!: release_step.cases)
  then show ?thesis using u(3) by simp
next
  case True
  have nr: "near c lo p" using st by (simp add: sync_at_def)
  have "fst (p u) mod 2 \<noteq> i mod 2"
  proof
    assume par: "fst (p u) mod 2 = i mod 2"
    have pu: "p u = (fst (p u), PFollow)" using u(2) by (simp add: prod_eq_iff)
    have "fst (p u) = lo \<or> fst (p u) = lo + 1" using stepping_frame [OF nr u(1) pu] by simp
    moreover have "i = lo \<or> i = lo + 1" using stepping_frame [OF nr t] True by simp
    ultimately have eq: "fst (p u) = i" using par other_parity [of lo] by auto
    have "ph \<noteq> PStart" using True by simp
    then obtain m where f: "frame_inv c i p v m" by (rule frame_mode [OF st t]) auto
    have "m = MK KReset"
      using mode_of(1) [OF f [unfolded frame_inv_def], of KReset] own_tally_pos [where p = p, OF t] True
      by (simp add: kinds_defs)
    then have "tally c i p KF = 0" using f by (simp add: frame_inv_def only_def kinds_defs)
    then show False using own_tally_pos [where p = p, OF u(1) pu] eq by simp
  qed
  then show ?thesis using release_untouched(1) [OF s, of "fst (p u) mod 2"] u(3) by simp
qed

lemma reach_follow:
  assumes "sync_reach c scr rint emp st" "1 \<le> c" "\<forall>i. rint i \<noteq> 0"
  shows "follow_inv c emp st"
  using assms(1)
proof induction
  case init
  then show ?case by (simp add: follow_inv_def sync_init_def)
next
  case (step st st')
  from reach_sync_at [OF step.hyps(1) assms(2,3)] obtain lo m0 m1 where
    at: "sync_at c scr rint lo m0 m1 st" by blast
  from step.hyps(2) show ?case
  proof cases
    case (acquire t p i ph v v' ph')
    then show ?thesis using follow_inv_upd [OF step.IH [unfolded acquire(1)] acquire(4)] acquire_follow [OF acquire(6)]
      by blast
  next
    case (empty t p i ph v v' ph')
    from empty(7) have "ph = PStart" "v' = v" "ph' = PFollow" by (auto elim: empty_acquire_step.cases)
    then show ?thesis using follow_inv_upd [OF step.IH [unfolded empty(1)] empty(4), of PFollow v] empty(2,6) by blast
  next
    case (release t p i ph v v' ph')
    have "ph' \<noteq> PWait" "ph' \<noteq> PFollow" using release(5) by (auto elim!: release_step.cases split: if_splits)
    then show ?thesis using follow_inv_upd [OF step.IH [unfolded release(1)] release(4)]
        release_follow [OF at [unfolded release(1)] release(3,4,5)] release(2) by blast
  qed
qed

text \<open>Which phases can always go on.\<close>

lemma can_release:
  assumes "ph \<in> {PWork, PLast, PReset, PScr, PScrStore, PScrSem}"
  shows "\<exists>v' ph'. release_step c w s v ph v' ph'"
  using assms by (cases "work_sem_count v w = 1"; cases "screen_bool v s") (blast intro: release_step.intros)+

lemma can_acquire:
  assumes "ph \<in> {PStart, PDecide, PStore, PLead, PRel}
    \<or> ph = PWait \<and> 0 < screen_sem v s \<or> ph = PFollow \<and> 0 < work_sem v w"
  shows "\<exists>v' ph'. acquire_step c r i w s v ph v' ph'"
proof -
  consider "ph = PDecide" | "ph \<noteq> PDecide" by blast
  then show ?thesis
  proof cases
    case 1
    show ?thesis unfolding 1
      by (cases "c = 1"; cases "r = last_restart_interval v s"; cases "screen_bool v s")
         (blast intro: acquire_step.intros)+
  next
    case 2
    then show ?thesis using assms by (cases "work_inited v w") (blast intro: acquire_step.intros)+
  qed
qed

text \<open>A thread in one of these situations is not stuck.\<close>

lemma thread_steps:
  assumes t: "t < c" "p t = (i, ph)"
    and go: "ph \<in> {PWork, PLast, PReset, PScr, PScrStore, PScrSem, PDecide, PStore, PLead, PRel}
      \<or> ph = PStart \<and> frame_ready c p i \<or> ph = PWait \<and> 0 < screen_sem v (scr i)
      \<or> ph = PFollow \<and> 0 < work_sem v (i mod 2)"
  shows "\<exists>st'. sync_step c scr rint emp (p, v) st'"
proof -
  consider "ph \<in> {PWork, PLast, PReset, PScr, PScrStore, PScrSem}"
    | "ph = PStart" "frame_ready c p i" "emp i t"
    | "ph = PStart" "frame_ready c p i" "\<not> emp i t"
    | "ph \<noteq> PStart" "ph \<in> {PStart, PDecide, PStore, PLead, PRel}
      \<or> ph = PWait \<and> 0 < screen_sem v (scr i) \<or> ph = PFollow \<and> 0 < work_sem v (i mod 2)"
    using go by blast
  then show ?thesis
  proof cases
    case 1
    from can_release [OF this] sync_step.release [where p = p, OF t] show ?thesis by blast
  next
    case 2
    from sync_step.empty [where p = p and emp = emp, OF t 2(2,3)] empty_acquire_step.enter show ?thesis unfolding 2(1) by blast
  next
    case 3
    from can_acquire [of ph v "scr i" "i mod 2" c "rint i" i] 3(1)
    obtain v' ph' where "acquire_step c (rint i) i (i mod 2) (scr i) v ph v' ph'" by blast
    from sync_step.acquire [where p = p and emp = emp and scr = scr and rint = rint, OF t _ this] 3 show ?thesis by blast
  next
    case 4
    from can_acquire [OF 4(2)] obtain v' ph' where "acquire_step c (rint i) i (i mod 2) (scr i) v ph v' ph'" by blast
    from sync_step.acquire [where p = p and emp = emp and scr = scr and rint = rint, OF t _ this] 4(1) show ?thesis by blast
  qed
qed

lemma older_ready: "near c lo p \<Longrightarrow> frame_ready c p lo"
  by (force simp: near_def frame_ready_def)

lemma at_older:
  assumes nr: "near c lo p" and k: "0 < tally c lo p k" "k \<noteq> KD"
  obtains t ph where "t < c" "p t = (lo, ph)" "phase_kind ph = k"
proof -
  from k(1) obtain t where t: "t < c" "kind_at lo (p t) = k" by (auto simp: tally_pos_iff)
  then have "fst (p t) = lo" using nr k(2) by (auto simp: near_def kind_at_def split: if_splits)
  then show thesis using that [of t "snd (p t)"] t by (auto simp: kind_at_def prod_eq_iff)
qed

lemma waiting_screen_free:
  assumes st: "sync_at c scr rint lo (MK KDec) m1 (p, v)" and c: "c \<noteq> 1"
  shows "0 < screen_sem v (scr lo)"
proof -
  have "m1 = MA" using younger_fresh [OF st] by (simp add: kinds_defs)
  moreover have "screen_inv scr rint lo (MK KDec) m1 v (scr lo)" using st c by (simp add: sync_at_def)
  ultimately show ?thesis by (simp add: screen_inv_def claim_on_def split: if_splits)
qed

text \<open>C21: the protocol has no deadlock. As long as some thread has rows of every frame, in every reachable
  state some thread can take a step, so encoding always goes on.\<close>

theorem sync_progress:
  assumes "sync_reach c scr rint emp (p, v)" and "1 \<le> c" and "\<forall>i. rint i \<noteq> 0"
    and ne: "\<forall>i. \<exists>t < c. \<not> emp i t"
  shows "\<exists>st'. sync_step c scr rint emp (p, v) st'"
proof -
  from reach_sync_at [OF assms(1-3)] obtain lo m0 m1 where st: "sync_at c scr rint lo m0 m1 (p, v)" by blast
  have fi: "follow_inv c emp (p, v)" by (rule reach_follow [OF assms(1-3)])
  have nr: "near c lo p" and F: "frame_inv c lo p v m0" using st by (simp_all add: sync_at_def)
  note F' = F [unfolded frame_inv_def] and rdy = older_ready [OF nr]
  show ?thesis
  proof (cases m0)
    case MA
    from ne obtain t where t: "t < c" "\<not> emp lo t" by blast
    have o: "only {KS, KF} (tally c lo p)" and ini: "\<not> work_inited v (lo mod 2)" using F' MA by auto
    have k: "kind_at lo (p t) \<in> {KS, KF}" using onlyD [OF o tally_pos [OF t(1) refl]] .
    then have lo: "fst (p t) = lo" using nr t(1) by (auto simp: near_def kind_at_def split: if_splits)
    have "snd (p t) \<noteq> PFollow" using fi t ini lo by (auto simp: follow_inv_def)
    then have "p t = (lo, PStart)"
      using k lo nr t(1) by (cases "snd (p t)") (auto simp: kind_at_def prod_eq_iff)
    then show ?thesis using thread_steps [where p = p, OF t(1)] rdy by blast
  next
    case MC
    then have w: "work_sem v (lo mod 2) = tally c lo p KS + tally c lo p KF"
      "1 \<le> tally c lo p KS + tally c lo p KF + tally c lo p KW" using F' by auto
    then consider "0 < tally c lo p KW" | "0 < tally c lo p KF" | "0 < tally c lo p KS" by linarith
    then show ?thesis
    proof cases
      case 1
      then obtain t ph where t: "t < c" "p t = (lo, ph)" "phase_kind ph = KW" by (rule at_older [OF nr]) simp_all
      then have "ph = PWork" by (cases ph) auto
      then show ?thesis using thread_steps [where p = p, OF t(1,2)] by blast
    next
      case 2
      then obtain t ph where t: "t < c" "p t = (lo, ph)" "phase_kind ph = KF" by (rule at_older [OF nr]) simp_all
      then have "ph = PFollow" by (cases ph) auto
      then show ?thesis using thread_steps [where p = p, OF t(1,2)] w(1) 2 by simp
    next
      case 3
      then obtain t ph where t: "t < c" "p t = (lo, ph)" "phase_kind ph = KS" by (rule at_older [OF nr]) simp_all
      then have "ph = PStart" by (cases ph) auto
      then show ?thesis using thread_steps [where p = p, OF t(1,2)] rdy by blast
    qed
  next
    case (MK k)
    then have k: "0 < tally c lo p k" "k \<in> leader_kinds \<union> last_kinds" using F' by auto
    have "k \<noteq> KD" using k(2) by (auto simp: kinds_defs)
    from at_older [OF nr k(1) this] obtain t ph where t: "t < c" "p t = (lo, ph)" "phase_kind ph = k" by blast
    show ?thesis
    proof (cases "ph = PWait")
      case True
      then have "c \<noteq> 1" using fi t by (auto simp: follow_inv_def)
      then have "0 < screen_sem v (scr lo)" using waiting_screen_free st MK t(3) True by auto
      then show ?thesis using thread_steps [where p = p, OF t(1,2)] True by simp
    next
      case False
      then have "ph \<in> {PWork, PLast, PReset, PScr, PScrStore, PScrSem, PDecide, PStore, PLead, PRel}"
        using t(3) k(2) by (cases ph) (auto simp: kinds_defs)
      then show ?thesis using thread_steps [where p = p, OF t(1,2)] by blast
    qed
  qed
qed

section \<open>Execution\<close>

text \<open>The next step of a thread is determined by the state, so a schedule (the list of the threads that
  move) determines a run. This evaluates concrete interleavings.\<close>

fun acquire_next :: "nat \<Rightarrow> u16 \<Rightarrow> nat \<Rightarrow> nat \<Rightarrow> nat \<Rightarrow> sync_vars \<Rightarrow> phase \<Rightarrow> (sync_vars \<times> phase) option" where
  "acquire_next c r i w s v PStart =
     (if work_inited v w then Some (v, PFollow)
      else Some (v\<lparr>work_inited := (work_inited v)(w := True)\<rparr>, PDecide))"
| "acquire_next c r i w s v PDecide =
     (if c = 1 then Some (v, PLead)
      else if r \<noteq> last_restart_interval v s \<or> screen_bool v s then Some (v, PWait)
      else Some (v\<lparr>screen_bool := (screen_bool v)(s := True)\<rparr>, PLead))"
| "acquire_next c r i w s v PWait =
     (if 0 < screen_sem v s then Some (v\<lparr>screen_sem := (screen_sem v)(s := screen_sem v s - 1)\<rparr>, PStore) else None)"
| "acquire_next c r i w s v PStore =
     Some (v\<lparr>screen_bool := (screen_bool v)(s := False), last_restart_interval := (last_restart_interval v)(s := r)\<rparr>, PLead)"
| "acquire_next c r i w s v PLead = Some (v\<lparr>led := i # led v\<rparr>, PRel)"
| "acquire_next c r i w s v PRel = Some (v\<lparr>work_sem := (work_sem v)(w := work_sem v w + (c - 1))\<rparr>, PWork)"
| "acquire_next c r i w s v PFollow =
     (if 0 < work_sem v w then Some (v\<lparr>work_sem := (work_sem v)(w := work_sem v w - 1)\<rparr>, PWork) else None)"
| "acquire_next c r i w s v _ = None"

fun release_next :: "nat \<Rightarrow> nat \<Rightarrow> nat \<Rightarrow> sync_vars \<Rightarrow> phase \<Rightarrow> (sync_vars \<times> phase) option" where
  "release_next c w s v PWork =
     (if work_sem_count v w = 1 then Some (v\<lparr>work_sem_count := (work_sem_count v)(w := 0)\<rparr>, PLast)
      else Some (v\<lparr>work_sem_count := (work_sem_count v)(w := work_sem_count v w - 1)\<rparr>, PDone))"
| "release_next c w s v PLast = Some (v\<lparr>work_sem_count := (work_sem_count v)(w := c)\<rparr>, PReset)"
| "release_next c w s v PReset =
     Some (v\<lparr>work_inited := (work_inited v)(w := False)\<rparr>, if c = 1 then PDone else PScr)"
| "release_next c w s v PScr =
     (if screen_bool v s then Some (v, PScrStore)
      else Some (v\<lparr>screen_bool := (screen_bool v)(s := True)\<rparr>, PScrSem))"
| "release_next c w s v PScrStore = Some (v\<lparr>screen_bool := (screen_bool v)(s := False)\<rparr>, PDone)"
| "release_next c w s v PScrSem = Some (v\<lparr>screen_sem := (screen_sem v)(s := screen_sem v s + 1)\<rparr>, PDone)"
| "release_next c w s v _ = None"

lemma wait_step:
  "c \<noteq> 1 \<Longrightarrow> r \<noteq> last_restart_interval v s \<or> screen_bool v s \<Longrightarrow> acquire_step c r i w s v PDecide v PWait"
  using acquire_step.changed acquire_step.busy by blast

lemma reset_inited_step:
  "release_step 1 w s v PReset (v\<lparr>work_inited := (work_inited v)(w := False)\<rparr>) PDone"
  "c \<noteq> 1 \<Longrightarrow> release_step c w s v PReset (v\<lparr>work_inited := (work_inited v)(w := False)\<rparr>) PScr"
  using release_step.reset_inited [of 1 w s v] release_step.reset_inited [of c w s v] by simp_all

lemmas step_intros = acquire_step.first acquire_step.other acquire_step.solo acquire_step.pass acquire_step.take
  acquire_step.store acquire_step.lead acquire_step.rel acquire_step.follow wait_step reset_inited_step
  release_step.finish release_step.finish_last release_step.reset_count release_step.handed release_step.free
  release_step.clear release_step.signal

lemma acquire_next_sound: "acquire_next c r i w s v ph = Some (v', ph') \<Longrightarrow> acquire_step c r i w s v ph v' ph'"
  by (cases ph) (auto intro!: step_intros [unfolded One_nat_def] split: if_splits)

lemma release_next_sound: "release_next c w s v ph = Some (v', ph') \<Longrightarrow> release_step c w s v ph v' ph'"
  by (cases ph)
     (auto intro!: step_intros [unfolded One_nat_def] release_step.signal [unfolded Suc_eq_plus1 [symmetric]] split: if_splits)

text \<open>One move of thread \<open>t\<close>, for threads that all have rows.\<close>

definition sync_move :: "nat \<Rightarrow> (nat \<Rightarrow> nat) \<Rightarrow> (nat \<Rightarrow> u16) \<Rightarrow> nat \<Rightarrow> sync_state \<Rightarrow> sync_state option" where
  "sync_move c scr rint t st =
     (case st of (p, v) \<Rightarrow> case p t of (i, ph) \<Rightarrow>
        if \<not> t < c \<or> ph = PStart \<and> \<not> (\<forall>u \<in> set [0 ..< c]. i < fst (p u) + 2) then None
        else case (case acquire_next c (rint i) i (i mod 2) (scr i) v ph of
                     None \<Rightarrow> release_next c (i mod 2) (scr i) v ph | x \<Rightarrow> x) of
               None \<Rightarrow> None | Some (v', ph') \<Rightarrow> Some (p(t := next_pc i ph'), v'))"

fun sync_run :: "nat \<Rightarrow> (nat \<Rightarrow> nat) \<Rightarrow> (nat \<Rightarrow> u16) \<Rightarrow> nat list \<Rightarrow> sync_state \<Rightarrow> sync_state option" where
  "sync_run c scr rint [] st = Some st"
| "sync_run c scr rint (t # ts) st =
     (case sync_move c scr rint t st of None \<Rightarrow> None | Some st \<Rightarrow> sync_run c scr rint ts st)"

lemma sync_move_sound:
  assumes "sync_move c scr rint t st = Some st'"
  shows "sync_step c scr rint (\<lambda>_ _. False) st st'"
proof -
  obtain p v where st: "st = (p, v)" by fastforce
  obtain i ph where t: "p t = (i, ph)" by fastforce
  from assms obtain v' ph' where
    ok: "t < c" "ph = PStart \<Longrightarrow> frame_ready c p i" "st' = (p(t := next_pc i ph'), v')"
    and s: "acquire_next c (rint i) i (i mod 2) (scr i) v ph = Some (v', ph')
      \<or> release_next c (i mod 2) (scr i) v ph = Some (v', ph')"
    by (auto simp: sync_move_def st t frame_ready_def split: if_splits option.splits)
  from s show ?thesis
  proof
    assume "acquire_next c (rint i) i (i mod 2) (scr i) v ph = Some (v', ph')"
    from sync_step.acquire [where p = p and emp = "\<lambda>_ _. False" and scr = scr and rint = rint,
        OF ok(1) t _ acquire_next_sound [OF this]] ok
    show ?thesis by (simp add: st)
  next
    assume "release_next c (i mod 2) (scr i) v ph = Some (v', ph')"
    from sync_step.release [where p = p and scr = scr, OF ok(1) t release_next_sound [OF this]] ok show ?thesis by (simp add: st)
  qed
qed

lemma sync_run_sound:
  assumes "sync_run c scr rint ts st = Some st'" "sync_reach c scr rint (\<lambda>_ _. False) st"
  shows "sync_reach c scr rint (\<lambda>_ _. False) st'"
  using assms
proof (induction ts arbitrary: st)
  case (Cons t ts)
  then obtain s1 where "sync_move c scr rint t st = Some s1" "sync_run c scr rint ts s1 = Some st'"
    by (auto split: option.splits)
  then show ?case using Cons.IH Cons.prems(2) sync_move_sound sync_reach.step by blast
qed simp

text \<open>Two threads and two frames of one screen with the same rows: the first thread leads both frames and
  encodes the second one while the second thread is still in the first.\<close>

definition sync_ex_schedule :: "nat list" where
  "sync_ex_schedule = [0, 0, 0, 0, 0, 0, 1, 1, 0, 0, 0, 0, 0]"

definition sync_ex :: "sync_state option" where
  "sync_ex = sync_run 2 (\<lambda>_. 0) (\<lambda>_. 25) sync_ex_schedule (sync_init 2)"

lemma sync_ex_state: "map_option (\<lambda>st. map (fst st) [0 ..< 2]) sync_ex = Some [(1, PWork), (0, PWork)]"
  by code_simp

lemma sync_ex_reach: "sync_reach 2 (\<lambda>_. 0) (\<lambda>_. 25) (\<lambda>_ _. False) (the sync_ex)"
    and sync_ex_pcs: "fst (the sync_ex) 0 = (1, PWork)" "fst (the sync_ex) 1 = (0, PWork)"
proof -
  obtain st where st: "sync_ex = Some st" "map (fst st) [0 ..< 2] = [(1, PWork), (0, PWork)]"
    using sync_ex_state by auto
  have "sync_run 2 (\<lambda>_. 0) (\<lambda>_. 25) sync_ex_schedule (sync_init 2) = Some st" using st(1) by (simp add: sync_ex_def)
  from sync_run_sound [OF this sync_reach.init] show "sync_reach 2 (\<lambda>_. 0) (\<lambda>_. 25) (\<lambda>_ _. False) (the sync_ex)"
    by (simp add: st(1))
  show "fst (the sync_ex) 0 = (1, PWork)" "fst (the sync_ex) 1 = (0, PWork)"
    unfolding st(1) option.sel using st(2) by (auto simp: upt_rec)
qed

theorem leader_once_witness:
  "distinct (led (snd (the sync_ex))) \<and> 1 \<in> set (led (snd (the sync_ex))) \<and> 0 \<in> set (led (snd (the sync_ex)))"
proof -
  let ?p = "fst (the sync_ex)" and ?v = "snd (the sync_ex)"
  have "sync_reach 2 (\<lambda>_. 0) (\<lambda>_. 25) (\<lambda>_ _. False) (?p, ?v)" using sync_ex_reach by simp
  from leader_once [OF this] have l: "distinct (led ?v) \<and> (\<forall>t < 2. past_lead (snd (?p t)) \<longrightarrow> fst (?p t) \<in> set (led ?v))"
    by simp
  from l [THEN conjunct2, rule_format, of 0] l [THEN conjunct2, rule_format, of 1] l show ?thesis
    by (simp add: sync_ex_pcs sync_ex_pcs [unfolded One_nat_def] past_lead_def)
qed

theorem overlap_same_rows_witness:
  "sync_reach 2 (\<lambda>_. 0) (\<lambda>_. 25) (\<lambda>_ _. False) (the sync_ex)
   \<and> fst (the sync_ex) 0 = (1, PWork) \<and> fst (the sync_ex) 1 = (0, PWork) \<and> (\<lambda>_. 25 :: u16) (1 :: nat) = (\<lambda>_. 25) (0 :: nat)"
  using overlap_same_rows [of 2 "\<lambda>_. 0" "\<lambda>_. 25" "\<lambda>_ _. False" "fst (the sync_ex)" "snd (the sync_ex)" 0 1 1 0] sync_ex_reach sync_ex_pcs
  by simp

theorem sync_progress_witness: "\<exists>st'. sync_step 2 (\<lambda>_. 0) (\<lambda>_. 25) (\<lambda>_ _. False) (the sync_ex) st'"
proof -
  have "sync_reach 2 (\<lambda>_. 0) (\<lambda>_. 25) (\<lambda>_ _. False) (fst (the sync_ex), snd (the sync_ex))" using sync_ex_reach by simp
  moreover have "\<exists>t. t < (2 :: nat)" by (rule exI [of _ 0]) simp
  ultimately show ?thesis using sync_progress [of 2 "\<lambda>_. 0" "\<lambda>_. 25" "\<lambda>_ _. False" "fst (the sync_ex)" "snd (the sync_ex)"]
    by simp
qed

end
