(* ===== verification/Term_Packets.thy ===== *)
theory Term_Packets
  imports Row_Split Worker_Dst Audio Nwm_Output
begin

text \<open>
  The end of a frame on the reliable stream (\<open>send_term_dsts\<close> and the release of a finished work,
  \<^verbatim>\<open>entries/work_thread/vars.rs\<close>): the last encoding thread collects the unsent remainders of all threads
  behind a frame header and hands them over in at most four packets. The model works on the raw memory
  and the buffer pool; the lemmas relate it to packets as lists of bytes. The properties are in \<open>Term_Frame\<close>.
\<close>

section \<open>State and parameters\<close>

datatype encode_ret =
    LosslessRet (lr_color_bias: u8)
  | JpegRet (jr_quality: u8) (jr_mcus: u16)
  | JpegDqRet (jq_delta_q: u8)

text \<open>The configuration that \<open>send_term_dsts\<close> reads; \<open>te_v2\<close> is \<open>AUDIO_KCP\<close>, \<open>te_full\<close> tells that both eyes
  of the top screen are sent.\<close>

record term_env =
  te_v2 :: bool
  te_delta_prog :: bool
  te_full :: bool
  te_core_count :: iranged
  te_downsample :: "u32 list"
  te_chroma_ss :: "u32 list"
  te_infos :: "term_info list"

text \<open>The locals: the buffers taken so far (\<open>terms[0..=term_cur]\<close>), the fill of the last one, the sizes.\<close>

record term_bufs =
  tb_terms :: "nat list"
  tb_size :: nat
  tb_sizes :: "u32 list"

definition EX_HDR_BIT :: nat where "EX_HDR_BIT = 15"
definition EXHDR_V2_BIT :: nat where "EXHDR_V2_BIT = 14"
definition RP_KCP_HDR_T_NBITS :: nat where "RP_KCP_HDR_T_NBITS = 2"
definition RP_KCP_HDR_SIZE_NBITS :: nat where "RP_KCP_HDR_SIZE_NBITS = 11"
definition RP_KCP_HDR_RC_NBITS :: nat where "RP_KCP_HDR_RC_NBITS = 5"
definition RP_KCP_HDR_QUALITY_NBITS :: nat where "RP_KCP_HDR_QUALITY_NBITS = 7"
definition RP_KCP_HDR_CHROMASS_NBITS :: nat where "RP_KCP_HDR_CHROMASS_NBITS = 2"
definition RP_KCP_HDR_DOWNSAMPLE_NBITS :: nat where "RP_KCP_HDR_DOWNSAMPLE_NBITS = 2"

lemmas term_consts = EX_HDR_BIT_def EXHDR_V2_BIT_def RP_KCP_HDR_T_NBITS_def RP_KCP_HDR_SIZE_NBITS_def
  RP_KCP_HDR_RC_NBITS_def RP_KCP_HDR_QUALITY_NBITS_def RP_KCP_HDR_CHROMASS_NBITS_def
  RP_KCP_HDR_DOWNSAMPLE_NBITS_def

section \<open>Copying into the buffers\<close>

text \<open>The two markers at the start of a continuation packet.\<close>

definition cont_hdr :: "bool \<Rightarrow> u8 list" where
  "cont_hdr v2 = (if v2 then le16 (push_bit EX_HDR_BIT 1) @ le16 (push_bit EXHDR_V2_BIT 1) else [])"

text \<open>\<open>None\<close> is the panic of an index out of bounds, a first component \<open>False\<close> an early return.\<close>

type_synonym 'l term_res = "(bool \<times> 'l \<times> nwm_world) option"

definition term_write :: "u8 list \<Rightarrow> term_bufs \<Rightarrow> nwm_world \<Rightarrow> nwm_world" where
  "term_write bs tb W = W\<lparr>w_mem := wr (last (tb_terms tb) + tb_size tb) bs (w_mem W)\<rparr>"

function copy_to_terms :: "bool \<Rightarrow> u8 list \<Rightarrow> term_bufs \<Rightarrow> nwm_world \<Rightarrow> term_bufs term_res" where
  "copy_to_terms v2 dat tb W =
     (if dat = [] then Some (True, tb, W)
      else let len_0 = w_pds W - tb_size tb
           in if length dat \<le> len_0
              then Some (True, tb\<lparr>tb_size := tb_size tb + length dat\<rparr>, term_write dat tb W)
              else let W = term_write (take len_0 dat) tb W; dat = drop len_0 dat
                   in case rp_term_data_buf_malloc W of
                        (None, W) \<Rightarrow> Some (False, tb\<lparr>tb_size := 0\<rparr>, W)
                      | (Some b, W) \<Rightarrow>
                          let d = rp_data_buf_data b;
                              W = W\<lparr>w_mem := wr d (cont_hdr v2) (w_mem W)\<rparr>
                          in if unat RP_CORE_COUNT_MAX + 1 \<le> length (tb_terms tb) then None
                             else copy_to_terms v2 dat
                                    (tb\<lparr>tb_terms := tb_terms tb @ [d], tb_size := length (cont_hdr v2)\<rparr>) W)"
  by pat_completeness auto
termination
  by (relation "measure (\<lambda>(v2, dat, tb, W). 5 - length (tb_terms tb))") (auto simp: RP_CORE_COUNT_MAX_def)

declare copy_to_terms.simps [simp del]

definition tbind ::
  "'l term_res \<Rightarrow> ('l \<Rightarrow> nwm_world \<Rightarrow> 'l term_res) \<Rightarrow> 'l term_res" where
  "tbind r f = (case r of None \<Rightarrow> None | Some (False, s, W) \<Rightarrow> Some (False, s, W) | Some (True, s, W) \<Rightarrow> f s W)"

section \<open>Headers\<close>

definition quality_field :: "term_env \<Rightarrow> encode_ret \<Rightarrow> bool \<times> u16" where
  "quality_field E ret =
     (case ret of
        LosslessRet cb \<Rightarrow>
          (te_delta_prog E,
           ucast cb OR (if te_delta_prog E then push_bit (RP_KCP_HDR_QUALITY_NBITS - 1) 1 else 0))
      | JpegRet q _ \<Rightarrow> (False, ucast q)
      | JpegDqRet dq \<Rightarrow> (True, ucast dq))"

definition term_downsample :: "term_env \<Rightarrow> term_info \<Rightarrow> u8" where
  "term_downsample E info = ucast (te_downsample E ! is_top_index (ti_is_top info))"

definition need_even_odd :: "term_env \<Rightarrow> term_info \<Rightarrow> bool" where
  "need_even_odd E info \<longleftrightarrow>
     term_downsample E info = RP_DOWNSAMPLE_CHECKER \<or> term_downsample E info = RP_DOWNSAMPLE_EVEN_ODD"

definition full_width :: "term_env \<Rightarrow> term_info \<Rightarrow> bool" where
  "full_width E info \<longleftrightarrow> ti_is_top info \<and> te_full E"

definition use_ex_hdr :: "term_env \<Rightarrow> term_info \<Rightarrow> bool" where
  "use_ex_hdr E info \<longleftrightarrow> need_even_odd E info \<or> te_v2 E \<or> full_width E info"

definition frame_hdr :: "term_env \<Rightarrow> term_info \<Rightarrow> encode_ret \<Rightarrow> u16" where
  "frame_hdr E info ret =
     (let (delta_prog, quality) = quality_field E ret;
          s = is_top_index (ti_is_top info);
          hdr = push_bit (RP_KCP_HDR_QUALITY_NBITS + RP_KCP_HDR_T_NBITS + 1 + RP_KCP_HDR_CHROMASS_NBITS + 1)
                  (ucast (term_downsample E info))
             OR push_bit (RP_KCP_HDR_QUALITY_NBITS + RP_KCP_HDR_T_NBITS + 1 + RP_KCP_HDR_CHROMASS_NBITS)
                  (u16_of_bool delta_prog)
             OR push_bit (RP_KCP_HDR_QUALITY_NBITS + RP_KCP_HDR_T_NBITS + 1) (ucast (te_chroma_ss E ! s))
             OR push_bit (RP_KCP_HDR_QUALITY_NBITS + RP_KCP_HDR_T_NBITS) (of_nat s)
             OR push_bit RP_KCP_HDR_QUALITY_NBITS (ucast (ri (ti_core_count info)))
             OR quality
      in if use_ex_hdr E info then hdr OR push_bit EX_HDR_BIT 1 else hdr)"

definition ex_hdr_word :: "term_env \<Rightarrow> term_info \<Rightarrow> bool \<Rightarrow> u16" where
  "ex_hdr_word E info both_eyes =
     (if need_even_odd E info then u16_of_bool (ti_even_odd info) else 0)
     OR (if full_width E info then push_bit 1 1 else 0)
     OR (if full_width E info \<and> both_eyes then push_bit 2 1 else 0)
     OR (if te_v2 E then push_bit EXHDR_V2_BIT 1 else 0)"

definition part_word :: "u32 \<Rightarrow> u32 \<Rightarrow> u16" where
  "part_word sz v = ucast sz
     OR push_bit RP_KCP_HDR_SIZE_NBITS (ucast v AND (push_bit RP_KCP_HDR_RC_NBITS 1 - 1))"

section \<open>Collecting the parts\<close>

definition part_hdr ::
  "term_env \<Rightarrow> term_info \<Rightarrow> nat \<Rightarrow> nat \<Rightarrow> nat \<Rightarrow> term_bufs \<Rightarrow> nwm_world \<Rightarrow> term_bufs term_res" where
  "part_hdr E info w lst i tb W =
     (let dst = w_terms W w i
      in if dst = 0 then Some (False, tb, W)
         else let sz = rd32_le (w_mem W) (dst - 4);
                  tb = tb\<lparr>tb_sizes := (tb_sizes tb)[i := sz]\<rparr>
              in copy_to_terms (te_v2 E)
                   (le16 (part_word sz (if i = lst then ti_v_last_adjusted info else ti_v_adjusted info))) tb W)"

definition part_data :: "term_env \<Rightarrow> nat \<Rightarrow> nat \<Rightarrow> term_bufs \<Rightarrow> nwm_world \<Rightarrow> term_bufs term_res" where
  "part_data E w i tb W =
     (let dst = w_terms W w i
      in tbind (copy_to_terms (te_v2 E) (rd (w_mem W) dst (unat (tb_sizes tb ! i))) tb W)
           (\<lambda>tb W. let (_, W) = rp_seg_data_buf_free (dst - ARQ_DATA_HDR_SIZE) W
                   in Some (True, tb, W\<lparr>w_terms := (w_terms W)(w := (w_terms W w)(i := 0))\<rparr>)))"

fun each_thread ::
  "(nat \<Rightarrow> 'l \<Rightarrow> nwm_world \<Rightarrow> 'l term_res) \<Rightarrow> nat list \<Rightarrow> 'l \<Rightarrow> nwm_world \<Rightarrow> 'l term_res" where
  "each_thread f [] s W = Some (True, s, W)"
| "each_thread f (i # is) s W = tbind (f i s W) (each_thread f is)"

section \<open>Handing the packets over\<close>

definition term_packet_hdr :: "nat \<Rightarrow> u16" where
  "term_packet_hdr w = push_bit (PID_NBITS + CID_NBITS) (of_nat w)
     OR push_bit (PID_NBITS + CID_NBITS + RP_KCP_HDR_W_NBITS) RP_CORE_COUNT_MAX"

definition term_size_word :: "nat \<Rightarrow> bool \<Rightarrow> u32" where
  "term_size_word pds lst =
     (let sz = (of_nat pds + of_nat ARQ_DATA_HDR_SIZE) OR push_bit 31 1
      in if lst then sz OR push_bit 30 1 else sz)"

definition send_term ::
  "nat \<Rightarrow> nat \<Rightarrow> term_bufs \<Rightarrow> nat \<Rightarrow> nwm_world \<Rightarrow> bool \<times> nwm_world" where
  "send_term w i tb d W =
     (let lst = (i = length (tb_terms tb) - 1);
          W = (if lst then W\<lparr>w_mem := wr (d + tb_size tb) (replicate (w_pds W - tb_size tb) 0) (w_mem W)\<rparr> else W);
          dst = d - ARQ_DATA_HDR_SIZE;
          W = W\<lparr>w_mem := wr dst (le16 (term_packet_hdr w)) (w_mem W)\<rparr>;
          W = W\<lparr>w_mem := wr (dst - 4) (le32 (term_size_word (w_pds W) lst)) (w_mem W)\<rparr>
      in syn_rel dst W)"

fun send_terms :: "nat \<Rightarrow> nat \<Rightarrow> term_bufs \<Rightarrow> nat list \<Rightarrow> nwm_world \<Rightarrow> bool \<times> nwm_world" where
  "send_terms w i tb [] W = (True, W)"
| "send_terms w i tb (d # ds) W =
     (case send_term w i tb d W of (False, W) \<Rightarrow> (False, W) | (True, W) \<Rightarrow> send_terms w (Suc i) tb ds W)"

definition send_term_dsts ::
  "term_env \<Rightarrow> nat \<Rightarrow> bool \<Rightarrow> encode_ret \<Rightarrow> nwm_world \<Rightarrow> (bool \<times> nwm_world) option" where
  "send_term_dsts E w both_eyes ret W =
     (if w_terms W w 0 = 0 then Some (True, W)
      else case wait_syn W of (False, W) \<Rightarrow> Some (False, W) | (True, W) \<Rightarrow>
        (case rp_term_data_buf_malloc W of (None, W) \<Rightarrow> Some (False, W) | (Some b, W) \<Rightarrow>
          let info = te_infos E ! w;
              tb = \<lparr>tb_terms = [rp_data_buf_data b], tb_size = 0, tb_sizes = replicate (unat RP_CORE_COUNT_MAX) 0\<rparr>;
              n = unat (ri (te_core_count E));
              r = tbind (copy_to_terms (te_v2 E) (le16 (frame_hdr E info ret)) tb W)
                   (\<lambda>tb W. tbind
                     (if use_ex_hdr E info then copy_to_terms (te_v2 E) (le16 (ex_hdr_word E info both_eyes)) tb W
                      else Some (True, tb, W))
                   (\<lambda>tb W. tbind (each_thread (part_hdr E info w (n - 1)) [0 ..< n] tb W)
                   (\<lambda>tb W. each_thread (part_data E w) [0 ..< n] tb W)))
          in case r of None \<Rightarrow> None
             | Some (False, _, W) \<Rightarrow> Some (False, W)
             | Some (True, tb, W) \<Rightarrow> Some (send_terms w 0 tb (tb_terms tb) W)))"

section \<open>Releasing a finished work\<close>

text \<open>The counters of a work: threads that are done, the ready flag, and the permits of \<open>work_done\<close> and
  \<open>quality_can_update\<close>.\<close>

record work_syn =
  wy_done_count :: u32
  wy_ready_flag :: bool
  wy_work_done :: nat
  wy_quality :: nat

definition work_ret_drop ::
  "term_env \<Rightarrow> nat \<Rightarrow> bool \<Rightarrow> encode_ret \<Rightarrow> work_syn \<times> nwm_world \<Rightarrow> (work_syn \<times> nwm_world) option" where
  "work_ret_drop E w both_eyes ret s =
     (let (y, W) = s; f = wy_done_count y; y = y\<lparr>wy_done_count := f + 1\<rparr>
      in if f = ri (te_core_count E) - 1
         then case send_term_dsts E w both_eyes ret W of None \<Rightarrow> None
              | Some (ok, W) \<Rightarrow>
                  Some (y\<lparr>wy_done_count := 0, wy_ready_flag := False, wy_quality := wy_quality y + 1,
                          wy_work_done := wy_work_done y + 1\<rparr>,
                        if ok then W else W\<lparr>w_reset := True\<rparr>)
         else Some (y, W))"


section \<open>Owned blocks\<close>

text \<open>A block of the pool has 54 bytes in front of the packet data. The lemmas below need no more of the
  pool than its contract: blocks that are held do not overlap and stay held.\<close>

definition blk_size :: "nwm_world \<Rightarrow> nat" where
  "blk_size W = 54 + w_pds W"

definition own :: "nwm_world \<Rightarrow> nat set \<Rightarrow> bool" where
  "own W held \<longleftrightarrow> blk_size W \<le> mp_bs (w_pool W) \<and> (\<exists>H. held \<subseteq> H \<and> pool_ok (w_mem W, w_pool W) H)"

definition blk :: "nwm_world \<Rightarrow> nat \<Rightarrow> u8 list" where
  "blk W b = rd (w_mem W) b (blk_size W)"

lemma rp_data_buf_data_eq: "rp_data_buf_data b = b + 54"
  by (simp add: rp_data_buf_data_def nwm_consts)

lemma own_mono: "own W held \<Longrightarrow> S \<subseteq> held \<Longrightarrow> own W S"
  unfolding own_def by blast

lemma pool_blocks_disjoint:
  assumes "pool_ok (m, p) H" "x \<in> H" "y \<in> H" "x \<noteq> y"
  shows "x + mp_bs p \<le> y \<or> y + mp_bs p \<le> x"
proof -
  obtain fl where inv: "pool_inv m p fl H" using assms(1) by (auto simp: pool_ok_def)
  then have "H \<subseteq> block p ` {..< mp_bc p - mp_ul_bc p}" by (auto simp: pool_inv_def)
  with assms obtain i j where ij: "x = block p i" "y = block p j" by blast
  with assms(4) have "i \<noteq> j" by blast
  then have "i < j \<or> j < i" by linarith
  then have "Suc i * mp_bs p \<le> j * mp_bs p \<or> Suc j * mp_bs p \<le> i * mp_bs p"
    by (metis mult_le_mono1 Suc_leI)
  then show ?thesis by (auto simp: ij block_def)
qed

lemma own_disjoint:
  assumes "own W held" "x \<in> held" "y \<in> held" "x \<noteq> y"
  shows "x + blk_size W \<le> y \<or> y + blk_size W \<le> x"
proof -
  obtain H where H: "held \<subseteq> H" "pool_ok (w_mem W, w_pool W) H" "blk_size W \<le> mp_bs (w_pool W)"
    using assms(1) by (auto simp: own_def)
  have "x + mp_bs (w_pool W) \<le> y \<or> y + mp_bs (w_pool W) \<le> x"
    using pool_blocks_disjoint [OF H(2)] H(1) assms by blast
  with H(3) show ?thesis by linarith
qed

lemma pool_ok_wr:
  assumes "pool_ok (m, p) H" "x \<in> H" "x \<le> a" "a + length bs \<le> x + mp_bs p"
  shows "pool_ok (wr a bs m, p) H"
proof -
  obtain fl where inv: "pool_inv m p fl H" using assms(1) by (auto simp: pool_ok_def)
  have "m (y + i) = wr a bs m (y + i)" if y: "y \<in> set fl" and i: "i < 4" for y i
  proof -
    from inv assms(2) have "x \<in> block p ` {..< mp_bc p - mp_ul_bc p}" by (auto simp: pool_inv_def)
    moreover from inv y have "y \<in> block p ` {..< mp_bc p - mp_ul_bc p}" by (auto simp: pool_inv_def)
    ultimately obtain j k where jk: "x = block p k" "y = block p j" by auto
    from inv y assms(2) have "y \<noteq> x" by (auto simp: pool_inv_def)
    with jk have "j \<noteq> k" by auto
    moreover have "4 \<le> mp_bs p" using inv by (simp add: pool_inv_def)
    ultimately have "y + i < x \<or> x + mp_bs p \<le> y + i" using block_disjoint i jk by blast
    with assms(3,4) show ?thesis by (auto simp: mem_simps)
  qed
  from pool_inv_other_writes [OF inv this] show ?thesis by (auto simp: pool_ok_def)
qed

lemma own_wr:
  assumes "own W held" "x \<in> held" "x \<le> a" "a + length bs \<le> x + blk_size W"
  shows "own (W\<lparr>w_mem := wr a bs (w_mem W)\<rparr>) held"
proof -
  obtain H where H: "held \<subseteq> H" "pool_ok (w_mem W, w_pool W) H" "blk_size W \<le> mp_bs (w_pool W)"
    using assms(1) by (auto simp: own_def)
  have "pool_ok (wr a bs (w_mem W), w_pool W) H"
    using assms H by (intro pool_ok_wr) auto
  with H show ?thesis by (auto simp: own_def blk_size_def)
qed

lemma blk_wr:
  assumes "own W held" "x \<in> held" "y \<in> held" "x \<noteq> y" "x \<le> a" "a + length bs \<le> x + blk_size W"
  shows "blk (W\<lparr>w_mem := wr a bs (w_mem W)\<rparr>) y = blk W y"
proof -
  have "y + blk_size W \<le> a \<or> a + length bs \<le> y"
    using own_disjoint [OF assms(1-4)] assms(5,6) by linarith
  then show ?thesis by (simp add: blk_def blk_size_def mem_simps)
qed

text \<open>What lies inside a block is read the same when the block is the same.\<close>

lemma rd_in_blk:
  assumes "b \<le> a" "a + k \<le> b + blk_size W"
  shows "rd (w_mem W) a k = take k (drop (a - b) (blk W b))"
proof -
  have "blk W b = rd (w_mem W) b (a - b) @ rd (w_mem W) a (blk_size W - (a - b))"
    using rd_add [of "w_mem W" b "a - b" "blk_size W - (a - b)"] assms by (simp add: blk_def)
  moreover have "rd (w_mem W) a (blk_size W - (a - b))
      = rd (w_mem W) a k @ rd (w_mem W) (a + k) (blk_size W - (a - b) - k)"
    using rd_add [of "w_mem W" a k "blk_size W - (a - b) - k"] assms by simp
  ultimately show ?thesis by simp
qed

lemma rd_same_blk:
  assumes "blk W' b = blk W b" "w_pds W' = w_pds W" "b \<le> a" "a + k \<le> b + blk_size W"
  shows "rd (w_mem W') a k = rd (w_mem W) a k"
  using rd_in_blk [of b a k W] rd_in_blk [of b a k W'] assms by (simp add: blk_size_def)

lemma rd32_same_blk:
  assumes "blk W' b = blk W b" "w_pds W' = w_pds W" "b \<le> a" "a + 4 \<le> b + blk_size W"
  shows "rd32_le (w_mem W') a = rd32_le (w_mem W) a"
proof (rule rd32_le_cong)
  fix i :: nat
  assume "i < 4"
  with rd_same_blk [OF assms] nth_rd [of i 4 "w_mem W'" a] nth_rd [of i 4 "w_mem W" a]
  show "w_mem W' (a + i) = w_mem W (a + i)" by simp
qed

lemma own_env:
  assumes "same_but_env W W'" "own W held"
  shows "own W' held" "blk W' b = blk W b"
  using same_but_envD [OF assms(1)] assms(2) by (simp_all add: own_def blk_def blk_size_def)

lemma own_malloc:
  assumes "rp_term_data_buf_malloc W = (Some b, W')" "own W held"
  shows "own W' (insert b held)" "b \<notin> held" "blk W' x = blk W x"
proof -
  obtain W1 p where w: "wait_syn W = (True, W1)" and mm: "mp_malloc (w_mem W1) (w_pool W1) = (b, p)"
    and nz: "b \<noteq> 0" and W': "W' = W1\<lparr>w_pool := p\<rparr>"
    using assms(1)
    by (auto simp: rp_term_data_buf_malloc_def Let_def split: prod.splits bool.splits if_splits)
  have e: "same_but_env W W1" using wait_syn_env [of W] w by simp
  obtain H where H: "held \<subseteq> H" "pool_ok (w_mem W1, w_pool W1) H" "blk_size W1 \<le> mp_bs (w_pool W1)"
    using own_env(1) [OF e assms(2)] by (auto simp: own_def)
  from send_pool.alloc_ok [OF H(2)] nz mm have ok: "pool_ok (w_mem W1, p) (insert b H)" "b \<notin> H"
    by (auto simp: mp_alloc_st_def)
  have bs: "mp_bs p = mp_bs (w_pool W1)"
    using mm by (auto simp: mp_malloc_def split: if_splits)
  show "own W' (insert b held)" using H ok bs by (auto simp: own_def W' blk_size_def)
  show "b \<notin> held" using H(1) ok(2) by blast
  show "blk W' x = blk W x" using own_env(2) [OF e assms(2)] by (simp add: W' blk_def blk_size_def)
qed

lemma own_seg_free:
  assumes "rp_seg_data_buf_free (rp_data_buf_data b - ARQ_DATA_HDR_SIZE) W = (r, W')" "own W held" "b \<in> held"
  shows "own W' (held - {b})" "x \<in> held \<Longrightarrow> x \<noteq> b \<Longrightarrow> blk W' x = blk W x"
    "w_relq W' = w_relq W" "w_pds W' = w_pds W" "w_terms W' = w_terms W" "reset_rule W True W'"
proof -
  obtain r1 W1 where w: "wait_syn W = (r1, W1)" by (cases "wait_syn W")
  have e: "same_but_env W W1" using wait_syn_env [of W] w by simp
  note o1 = own_env [OF e assms(2)]
  have eq: "rp_seg_data_buf_free (rp_data_buf_data b - ARQ_DATA_HDR_SIZE) W =
      (if r1 then let (m, p) = mp_free (w_mem W1) (w_pool W1) b in (True, W1\<lparr>w_mem := m, w_pool := p\<rparr>)
       else (False, W1))"
    using w by (simp add: rp_seg_data_buf_free_def rp_data_buf_free_def rp_term_data_buf_free_base_def
        rp_data_buf_data_def nwm_consts split: bool.splits)
  have frame: "w_relq W1 = w_relq W" "w_pds W1 = w_pds W" "w_terms W1 = w_terms W"
    using same_but_envD [OF e] by auto
  have rr: "w_reset W \<longrightarrow> w_reset W1" using wait_syn_resetD [OF w] by (simp add: reset_rule_def)
  obtain H where H: "held \<subseteq> H" "pool_ok (w_mem W1, w_pool W1) H" "blk_size W1 \<le> mp_bs (w_pool W1)"
    using o1(1) by (auto simp: own_def)
  have all: "own W' (held - {b}) \<and> (x \<in> held \<longrightarrow> x \<noteq> b \<longrightarrow> blk W' x = blk W x)
      \<and> w_relq W' = w_relq W \<and> w_pds W' = w_pds W \<and> w_terms W' = w_terms W \<and> reset_rule W True W'"
  proof (cases r1)
    case False
    with assms(1) eq have "W' = W1" by simp
    with o1 frame rr own_mono [OF o1(1), of "held - {b}"] show ?thesis by (auto simp: reset_rule_def)
  next
    case True
    let ?m = "wr b (le32 (of_nat (mp_b (w_pool W1)))) (w_mem W1)"
    have W': "W' = W1\<lparr>w_mem := ?m, w_pool := (w_pool W1)\<lparr>mp_b := b\<rparr>\<rparr>"
      using assms(1) True by (simp add: eq mp_free_def)
    have "pool_ok (?m, (w_pool W1)\<lparr>mp_b := b\<rparr>) (H - {b})"
      using send_pool.free_ok [OF H(2), of b] H(1) assms(3) by (auto simp: mp_free_st_def mp_free_def)
    moreover have "held - {b} \<subseteq> H - {b}" using H(1) by blast
    ultimately have "own W' (held - {b})"
      using H(3) by (simp add: own_def W' blk_size_def) blast
    moreover have "blk W' x = blk W x" if x: "x \<in> held" "x \<noteq> b"
    proof -
      have "blk (W1\<lparr>w_mem := ?m\<rparr>) x = blk W1 x"
        using x assms(3) by (intro blk_wr [OF o1(1), of b]) (auto simp: blk_size_def)
      then show ?thesis using o1(2) by (simp add: W' blk_def blk_size_def)
    qed
    ultimately show ?thesis using frame rr by (simp add: W' reset_rule_def)
  qed
  then show "own W' (held - {b})" "x \<in> held \<Longrightarrow> x \<noteq> b \<Longrightarrow> blk W' x = blk W x"
    "w_relq W' = w_relq W" "w_pds W' = w_pds W" "w_terms W' = w_terms W" "reset_rule W True W'" by blast+
qed


section \<open>The buffers as packets\<close>

definition tb_packets :: "term_bufs \<Rightarrow> nwm_world \<Rightarrow> u8 list list" where
  "tb_packets tb W = map (\<lambda>d. rd (w_mem W) d (w_pds W)) (butlast (tb_terms tb))
                     @ [rd (w_mem W) (last (tb_terms tb)) (tb_size tb)]"

text \<open>The stream a reader gets from the packets: the marker of every packet but the first is dropped.\<close>

definition unpack :: "bool \<Rightarrow> u8 list list \<Rightarrow> u8 list" where
  "unpack v2 pks = hd pks @ concat (map (drop (length (cont_hdr v2))) (tl pks))"

definition marked :: "bool \<Rightarrow> u8 list list \<Rightarrow> bool" where
  "marked v2 pks \<longleftrightarrow> (\<forall>pk \<in> set (tl pks). take (length (cont_hdr v2)) pk = cont_hdr v2)"

text \<open>The stream \<open>s\<close> is in the buffers on the blocks \<open>bs\<close>; the blocks in \<open>S\<close> are owned besides.\<close>

definition tinv :: "bool \<Rightarrow> u8 list \<Rightarrow> nat list \<Rightarrow> nat set \<Rightarrow> term_bufs \<Rightarrow> nwm_world \<Rightarrow> bool" where
  "tinv v2 s bs S tb W \<longleftrightarrow>
     own W (set bs \<union> S) \<and> distinct bs \<and> set bs \<inter> S = {} \<and> bs \<noteq> [] \<and> length bs \<le> 4
   \<and> 4 < w_pds W \<and> tb_terms tb = map rp_data_buf_data bs \<and> tb_size tb \<le> w_pds W
   \<and> (1 < length bs \<longrightarrow> length (cont_hdr v2) \<le> tb_size tb)
   \<and> length s = (length bs - 1) * (w_pds W - length (cont_hdr v2)) + tb_size tb
   \<and> unpack v2 (tb_packets tb W) = s \<and> marked v2 (tb_packets tb W)"

lemma cont_hdr_le: "length (cont_hdr v2) \<le> 4"
  by (simp add: cont_hdr_def)

lemma unpack_extend:
  "(pks \<noteq> [] \<Longrightarrow> length (cont_hdr v2) \<le> length p) \<Longrightarrow> unpack v2 (pks @ [p @ q]) = unpack v2 (pks @ [p]) @ q"
  by (cases pks) (auto simp: unpack_def)

lemma unpack_new: "pks \<noteq> [] \<Longrightarrow> unpack v2 (pks @ [cont_hdr v2]) = unpack v2 pks"
  by (cases pks) (auto simp: unpack_def)

lemma marked_extend:
  "(pks \<noteq> [] \<Longrightarrow> length (cont_hdr v2) \<le> length p) \<Longrightarrow> marked v2 (pks @ [p @ q]) \<longleftrightarrow> marked v2 (pks @ [p])"
  by (cases pks) (auto simp: marked_def)

lemma marked_new: "pks \<noteq> [] \<Longrightarrow> marked v2 (pks @ [cont_hdr v2]) \<longleftrightarrow> marked v2 pks"
  by (cases pks) (auto simp: marked_def)

lemma tinv_last:
  assumes "tinv v2 s bs S tb W"
  shows "last (tb_terms tb) = last bs + 54" "last bs \<in> set bs" "butlast (tb_terms tb) = map rp_data_buf_data (butlast bs)"
    "own W (set bs \<union> S)"
  using assms by (auto simp: tinv_def last_map map_butlast rp_data_buf_data_eq)

lemma tinv_other:
  assumes "tinv v2 s bs S tb W" "x \<in> S"
  shows "x \<noteq> last bs"
proof -
  have "set bs \<inter> S = {}" using assms(1) by (simp add: tinv_def)
  with tinv_last(2) [OF assms(1)] assms(2) show ?thesis by blast
qed

text \<open>A write at the fill of the last buffer.\<close>

lemma packets_write:
  assumes i: "tinv v2 s bs S tb W" and room: "length dat \<le> w_pds W - tb_size tb"
  shows "tb_packets (tb\<lparr>tb_size := tb_size tb + length dat\<rparr>) (term_write dat tb W)
       = butlast (tb_packets tb W) @ [last (tb_packets tb W) @ dat]"
    "b \<in> set bs \<union> S \<Longrightarrow> b \<noteq> last bs \<Longrightarrow> blk (term_write dat tb W) b = blk W b"
    "own (term_write dat tb W) (set bs \<union> S)"
proof -
  note l = tinv_last [OF i]
  have in_blk: "last bs \<le> last (tb_terms tb) + tb_size tb"
    "last (tb_terms tb) + tb_size tb + length dat \<le> last bs + blk_size W"
    using room i l by (auto simp: blk_size_def tinv_def)
  show keep: "blk (term_write dat tb W) b = blk W b" if "b \<in> set bs \<union> S" "b \<noteq> last bs" for b
    unfolding term_write_def using that l in_blk by (intro blk_wr [of W "set bs \<union> S" "last bs"]) auto
  show "own (term_write dat tb W) (set bs \<union> S)"
    unfolding term_write_def using l in_blk by (intro own_wr [of W "set bs \<union> S" "last bs"]) auto
  have db: "distinct bs" "bs \<noteq> []" using i by (auto simp: tinv_def)
  then have nl: "b \<noteq> last bs" if "b \<in> set (butlast bs)" for b
    using that by (metis append_butlast_last_id distinct.simps(2) distinct1_rotate list.set_intros(1) rotate1.simps(2) set_ConsD not_distinct_conv_prefix)
  have full: "rd (w_mem (term_write dat tb W)) (b + 54) (w_pds W) = rd (w_mem W) (b + 54) (w_pds W)"
    if "b \<in> set (butlast bs)" for b
    using keep [of b] nl [OF that] that
    by (intro rd_same_blk [of _ b]) (auto simp: blk_size_def term_write_def dest: in_set_butlastD)
  show "tb_packets (tb\<lparr>tb_size := tb_size tb + length dat\<rparr>) (term_write dat tb W)
       = butlast (tb_packets tb W) @ [last (tb_packets tb W) @ dat]"
    using full by (simp add: tb_packets_def l rp_data_buf_data_eq)
       (simp add: term_write_def l mem_simps)
qed

lemma tinv_write:
  assumes i: "tinv v2 s bs S tb W" and room: "length dat \<le> w_pds W - tb_size tb"
  shows "tinv v2 (s @ dat) bs S (tb\<lparr>tb_size := tb_size tb + length dat\<rparr>) (term_write dat tb W)"
proof -
  let ?ps = "butlast (tb_packets tb W)" and ?p = "last (tb_packets tb W)"
  have pk: "tb_packets tb W = ?ps @ [?p]" by (simp add: tb_packets_def)
  have c: "?ps \<noteq> [] \<Longrightarrow> length (cont_hdr v2) \<le> length ?p"
    using i by (cases bs) (auto simp: tb_packets_def tinv_def)
  have "unpack v2 (?ps @ [?p @ dat]) = s @ dat"
    using unpack_extend [OF c, of "?ps"] i pk by (simp add: tinv_def)
  moreover have "marked v2 (?ps @ [?p @ dat])"
    using marked_extend [OF c, of "?ps"] i pk by (simp add: tinv_def)
  ultimately show ?thesis
    using packets_write [OF i room] i room by (auto simp: tinv_def term_write_def)
qed


text \<open>Taking a new buffer when the last one is full.\<close>

definition term_extend :: "bool \<Rightarrow> nat \<Rightarrow> term_bufs \<Rightarrow> term_bufs" where
  "term_extend v2 b tb =
     tb\<lparr>tb_terms := tb_terms tb @ [rp_data_buf_data b], tb_size := length (cont_hdr v2)\<rparr>"

definition term_mark :: "bool \<Rightarrow> nat \<Rightarrow> nwm_world \<Rightarrow> nwm_world" where
  "term_mark v2 b W = W\<lparr>w_mem := wr (rp_data_buf_data b) (cont_hdr v2) (w_mem W)\<rparr>"

lemma tinv_new:
  assumes i: "tinv v2 s bs S tb W" and full: "tb_size tb = w_pds W" and n: "length bs < 4"
    and m: "rp_term_data_buf_malloc W = (Some b, W1)"
  shows "tinv v2 s (bs @ [b]) S (term_extend v2 b tb) (term_mark v2 b W1)"
    "x \<in> set bs \<union> S \<Longrightarrow> blk (term_mark v2 b W1) x = blk W x"
proof -
  note l = tinv_last [OF i]
  note om = own_malloc [OF m l(4)]
  have P: "w_pds W1 = w_pds W" using rp_term_data_buf_malloc_ok(1) [OF m] same_but_poolD by blast
  have c: "length (cont_hdr v2) \<le> 4" "length (cont_hdr v2) \<le> w_pds W"
    using cont_hdr_le [of v2] i by (auto simp: tinv_def)
  show keep: "blk (term_mark v2 b W1) x = blk W x" if "x \<in> set bs \<union> S" for x
  proof -
    have "blk (term_mark v2 b W1) x = blk W1 x" unfolding term_mark_def
      using om that c P by (intro blk_wr [OF om(1), of b]) (auto simp: rp_data_buf_data_eq blk_size_def)
    with om(3) show ?thesis by simp
  qed
  have o: "own (term_mark v2 b W1) (insert b (set bs \<union> S))" unfolding term_mark_def
    using c P by (intro own_wr [OF om(1), of b]) (auto simp: rp_data_buf_data_eq blk_size_def)
  have bs: "bs \<noteq> []" "tb_terms tb = map rp_data_buf_data bs" using i by (auto simp: tinv_def)
  have PM: "w_pds (term_mark v2 b W1) = w_pds W" by (simp add: term_mark_def P)
  have "rd (w_mem (term_mark v2 b W1)) (x + 54) (w_pds W) = rd (w_mem W) (x + 54) (w_pds W)"
    if "x \<in> set bs" for x
    using keep [of x] that PM by (intro rd_same_blk [of _ x]) (auto simp: blk_size_def)
  then have "map (\<lambda>d. rd (w_mem (term_mark v2 b W1)) d (w_pds W)) (tb_terms tb)
      = map (\<lambda>d. rd (w_mem W) d (w_pds W)) (tb_terms tb)"
    by (simp add: bs(2) rp_data_buf_data_eq)
  also have "\<dots> = tb_packets tb W"
  proof -
    have "tb_terms tb \<noteq> []" using bs by simp
    then obtain xs x where x: "tb_terms tb = xs @ [x]" by (metis rev_exhaust)
    show ?thesis by (simp add: tb_packets_def x full)
  qed
  finally have pk: "tb_packets (term_extend v2 b tb) (term_mark v2 b W1) = tb_packets tb W @ [cont_hdr v2]"
    using rd_wr_same [of "rp_data_buf_data b" "cont_hdr v2" "w_mem W1"]
    by (simp add: tb_packets_def term_extend_def term_mark_def P)
  have ne: "tb_packets tb W \<noteq> []" by (simp add: tb_packets_def)
  have len: "(length bs - 1) * (w_pds W - length (cont_hdr v2)) + w_pds W
      = length bs * (w_pds W - length (cont_hdr v2)) + length (cont_hdr v2)"
    using bs(1) c(2) by (cases bs) simp_all
  show "tinv v2 s (bs @ [b]) S (term_extend v2 b tb) (term_mark v2 b W1)"
    using i o om(2) n full c len unpack_new [OF ne] marked_new [OF ne] pk
    by (simp add: tinv_def PM) (auto simp: term_extend_def)
qed

text \<open>The contract of a step of the collection: it fails only in a reset, and otherwise the stream has grown.\<close>

definition tframe :: "bool \<Rightarrow> term_bufs \<Rightarrow> nwm_world \<Rightarrow> term_bufs \<Rightarrow> nwm_world \<Rightarrow> bool" where
  "tframe r tb W tb' W' \<longleftrightarrow> reset_rule W r W' \<and> w_relq W' = w_relq W \<and> w_pds W' = w_pds W"

definition tcopied :: "bool \<Rightarrow> u8 list \<Rightarrow> nat set \<Rightarrow> term_bufs \<Rightarrow> nwm_world \<Rightarrow> term_bufs \<Rightarrow> nwm_world \<Rightarrow> bool" where
  "tcopied v2 s S tb W tb' W' \<longleftrightarrow>
     (\<exists>bs. tinv v2 s bs S tb' W') \<and> (\<forall>x \<in> S. blk W' x = blk W x)
   \<and> w_terms W' = w_terms W \<and> tb_sizes tb' = tb_sizes tb"

definition tcap :: "bool \<Rightarrow> nwm_world \<Rightarrow> nat" where
  "tcap v2 W = 3 * (w_pds W - length (cont_hdr v2)) + w_pds W"

lemma reset_rule_trans: "reset_rule W True W1 \<Longrightarrow> reset_rule W1 r W' \<Longrightarrow> reset_rule W r W'"
  by (auto simp: reset_rule_def)

lemma copy_ok:
  assumes "tinv v2 s bs S tb W" "length s + length dat \<le> tcap v2 W"
  shows "\<exists>r tb' W'. copy_to_terms v2 dat tb W = Some (r, tb', W') \<and> tframe r tb W tb' W'
       \<and> (r \<longrightarrow> tcopied v2 (s @ dat) S tb W tb' W')"
  using assms
proof (induction v2 dat tb W arbitrary: s bs rule: copy_to_terms.induct)
  case (1 v2 dat tb W)
  note i = 1(2)
  let ?len_0 = "w_pds W - tb_size tb"
  consider "dat = []" | "dat \<noteq> []" "length dat \<le> ?len_0" | "dat \<noteq> []" "?len_0 < length dat" by linarith
  then show ?case
  proof cases
    case 1
    then show ?thesis using i
      by (subst copy_to_terms.simps) (auto simp: tframe_def tcopied_def reset_rule_def)
  next
    case 2
    let ?tb = "tb\<lparr>tb_size := tb_size tb + length dat\<rparr>" and ?W = "term_write dat tb W"
    have eq: "copy_to_terms v2 dat tb W = Some (True, ?tb, ?W)"
      using 2 by (subst copy_to_terms.simps) simp
    have f: "tframe True tb W ?tb ?W" "w_terms ?W = w_terms W" "tb_sizes ?tb = tb_sizes tb"
      by (simp_all add: tframe_def reset_rule_def term_write_def)
    have "blk ?W x = blk W x" if "x \<in> S" for x
      using packets_write(2) [OF i 2(2), of x] that tinv_other [OF i] by blast
    with tinv_write [OF i 2(2)] f(2,3) have "tcopied v2 (s @ dat) S tb W ?tb ?W"
      unfolding tcopied_def by blast
    with eq f(1) show ?thesis by blast
  next
    case 3
    let ?a = "take ?len_0 dat" and ?d = "drop ?len_0 dat"
    let ?W0 = "term_write ?a tb W" and ?tb = "tb\<lparr>tb_size := w_pds W\<rparr>"
    have la: "length ?a = ?len_0" using 3 by simp
    have sz: "tb_size tb + ?len_0 = w_pds W" using i by (simp add: tinv_def)
    have iw: "tinv v2 (s @ ?a) bs S ?tb ?W0"
      using tinv_write [OF i, of ?a] la sz by simp
    have f0: "w_pds ?W0 = w_pds W" "w_relq ?W0 = w_relq W" "w_terms ?W0 = w_terms W" "w_reset ?W0 = w_reset W"
      by (simp_all add: term_write_def)
    have keep0: "blk ?W0 x = blk W x" if "x \<in> S" for x
      using packets_write(2) [OF i, of ?a x] that la tinv_other [OF i] by simp
    obtain q W1 where m: "rp_term_data_buf_malloc ?W0 = (q, W1)" by (cases "rp_term_data_buf_malloc ?W0")
    have fr: "same_but_pool ?W0 W1" using rp_term_data_buf_malloc_frame [of ?W0] m by simp
    note f1 = same_but_poolD [OF fr]
    have rr: "reset_rule ?W0 (q \<noteq> None) W1" by (rule rp_term_data_buf_malloc_reset [OF m])
    show ?thesis
    proof (cases q)
      case None
      with 3 m f0 f1 rr show ?thesis
        by (subst copy_to_terms.simps) (auto simp: Let_def tframe_def reset_rule_def)
    next
      case (Some b)
      have n: "length bs < 4"
      proof (rule ccontr)
        assume "\<not> length bs < 4"
        with i have "length bs = 4" by (simp add: tinv_def)
        with iw f0 have "length s + length ?a = tcap v2 W"
          by (simp add: tinv_def tcap_def)
        moreover have "0 < length ?d" using 3 by simp
        moreover have "length dat = length ?a + length ?d" using 3 by simp
        ultimately show False using "1.prems"(2) by linarith
      qed
      note new = tinv_new [OF iw _ n m [unfolded Some]]
      let ?tb' = "term_extend v2 b tb" and ?W1 = "term_mark v2 b W1"
      have te: "term_extend v2 b ?tb = ?tb'" by (simp add: term_extend_def)
      have in': "tinv v2 (s @ ?a) (bs @ [b]) S ?tb' ?W1" using new(1) f0 te by simp
      have f2: "w_pds ?W1 = w_pds W" "w_relq ?W1 = w_relq W" "w_terms ?W1 = w_terms W" "w_reset ?W1 = w_reset W1"
        using f0 f1 by (simp_all add: term_mark_def)
      have lt: "length (tb_terms tb) < 4" using i n by (simp add: tinv_def)
      have eq: "copy_to_terms v2 dat tb W = copy_to_terms v2 ?d ?tb' ?W1"
        using 3 m Some lt by (subst copy_to_terms.simps)
          (simp add: Let_def RP_CORE_COUNT_MAX_def term_extend_def term_mark_def)
      have cap: "length (s @ ?a) + length ?d \<le> tcap v2 ?W1"
        using "1.prems"(2) 3 f2 by (simp add: tcap_def)
      have lenle: "\<not> unat RP_CORE_COUNT_MAX + 1 \<le> length (tb_terms tb)" using lt by (simp add: RP_CORE_COUNT_MAX_def)
      have "\<exists>r tb' W'. copy_to_terms v2 ?d ?tb' ?W1 = Some (r, tb', W') \<and> tframe r ?tb' ?W1 tb' W'
          \<and> (r \<longrightarrow> tcopied v2 ((s @ ?a) @ ?d) S ?tb' ?W1 tb' W')"
        using "1.IH" [OF 3(1) refl _ refl refl m [symmetric] Some refl refl lenle, of "s @ ?a" "bs @ [b]"]
          3(2) in' cap by (simp add: term_extend_def term_mark_def)
      then obtain r tb' W' where c: "copy_to_terms v2 ?d ?tb' ?W1 = Some (r, tb', W')" "tframe r ?tb' ?W1 tb' W'"
          "r \<longrightarrow> tcopied v2 (s @ dat) S ?tb' ?W1 tb' W'" by auto
      have "tframe r tb W tb' W'" using c(2) f0 f2 rr Some
        by (auto simp: tframe_def reset_rule_def)
      moreover have keep1: "blk ?W1 x = blk W x" if "x \<in> S" for x
        using new(2) [of x] keep0 [OF that] that f0(1) by simp
      then have "tcopied v2 (s @ dat) S tb W tb' W'" if r
        using c(3) that f2(3) by (auto simp: tcopied_def term_extend_def)
      ultimately show ?thesis using eq c(1) by auto
    qed
  qed
qed

end
