(* ===== verification/Term_Frame.thy ===== *)
theory Term_Frame
  imports Term_Packets
begin

text \<open>
  The correctness of \<open>send_term_dsts\<close>: its loops over the threads collect the whole stream of a frame, the
  packets reach the queue unchanged, and a reference parser of the format reads them back.
\<close>

section \<open>Collecting all parts\<close>

text \<open>The remainders that the encoding threads left: the part of thread \<open>i\<close> lies in the block \<open>pb i\<close>, its
  size in front of it.\<close>

definition part_size :: "nwm_world \<Rightarrow> nat \<Rightarrow> u32" where
  "part_size W b = rd32_le (w_mem W) (rp_data_buf_data b - 4)"

definition part_bytes :: "nwm_world \<Rightarrow> nat \<Rightarrow> u8 list" where
  "part_bytes W b = rd (w_mem W) (rp_data_buf_data b) (unat (part_size W b))"

definition parts_ok :: "nat \<Rightarrow> nat list \<Rightarrow> nwm_world \<Rightarrow> bool" where
  "parts_ok w pbs W \<longleftrightarrow> distinct pbs
     \<and> (\<forall>i < length pbs. w_terms W w i = rp_data_buf_data (pbs ! i) \<and> unat (part_size W (pbs ! i)) \<le> w_pds W)"

definition part_rows :: "term_info \<Rightarrow> nat \<Rightarrow> nat \<Rightarrow> u32" where
  "part_rows info lst i = (if i = lst then ti_v_last_adjusted info else ti_v_adjusted info)"

lemma part_same_blk:
  assumes "blk W' b = blk W b" "w_pds W' = w_pds W"
  shows "part_size W' b = part_size W b"
    "unat (part_size W b) \<le> w_pds W \<Longrightarrow> part_bytes W' b = part_bytes W b"
proof -
  show s: "part_size W' b = part_size W b" unfolding part_size_def
    using assms by (intro rd32_same_blk [of _ b]) (auto simp: rp_data_buf_data_eq blk_size_def)
  show "unat (part_size W b) \<le> w_pds W \<Longrightarrow> part_bytes W' b = part_bytes W b" unfolding part_bytes_def s
    using assms by (intro rd_same_blk [of _ b]) (auto simp: rp_data_buf_data_eq blk_size_def)
qed

text \<open>The first loop: the words of the parts \<open>k, \<dots>, n - 1\<close>.\<close>

lemma part_hdrs_ok:
  assumes "tinv (te_v2 E) s bs (set pbs) tb W" "parts_ok w pbs W" "length pbs \<le> length (tb_sizes tb)"
    "k \<le> length pbs" "length s + 2 * (length pbs - k) \<le> tcap (te_v2 E) W"
  shows "\<exists>r tb' W'. each_thread (part_hdr E info w lst) [k ..< length pbs] tb W = Some (r, tb', W')
     \<and> tframe r tb W tb' W'
     \<and> (r \<longrightarrow> (\<exists>bs. tinv (te_v2 E) (s @ concat (map (\<lambda>i. le16 (part_word (part_size W (pbs ! i)) (part_rows info lst i)))
                       [k ..< length pbs])) bs (set pbs) tb' W')
           \<and> (\<forall>x \<in> set pbs. blk W' x = blk W x) \<and> w_terms W' = w_terms W \<and> length (tb_sizes tb') = length (tb_sizes tb)
           \<and> (\<forall>i < length pbs. tb_sizes tb' ! i = (if k \<le> i then part_size W (pbs ! i) else tb_sizes tb ! i)))"
  using assms
proof (induction "length pbs - k" arbitrary: k s bs tb W)
  case 0
  then show ?case by (auto simp: tframe_def reset_rule_def)
next
  case (Suc m)
  let ?P = "pbs ! k" and ?word = "\<lambda>V. part_word (part_size V (pbs ! k)) (part_rows info lst k)"
  have k: "k < length pbs" using Suc.hyps(2) by linarith
  then have up: "[k ..< length pbs] = k # [Suc k ..< length pbs]" by (rule upt_conv_Cons)
  let ?tb = "tb\<lparr>tb_sizes := (tb_sizes tb)[k := part_size W ?P]\<rparr>"
  have dst: "w_terms W w k = rp_data_buf_data ?P" using Suc.prems(2) k by (simp add: parts_ok_def)
  have nz: "rp_data_buf_data ?P \<noteq> 0" by (simp add: rp_data_buf_data_eq)
  have step: "part_hdr E info w lst k tb W = copy_to_terms (te_v2 E) (le16 (?word W)) ?tb W"
    using dst nz by (simp add: part_hdr_def Let_def part_size_def part_rows_def)
  have it: "tinv (te_v2 E) s bs (set pbs) ?tb W"
    using Suc.prems(1) by (auto simp: tinv_def tb_packets_def)
  have cap: "length s + length (le16 (?word W)) \<le> tcap (te_v2 E) W" using Suc.prems(5) k by simp
  obtain r tb1 W1 where c: "copy_to_terms (te_v2 E) (le16 (?word W)) ?tb W = Some (r, tb1, W1)"
      "tframe r ?tb W tb1 W1" "r \<longrightarrow> tcopied (te_v2 E) (s @ le16 (?word W)) (set pbs) ?tb W tb1 W1"
    using copy_ok [OF it cap] by blast
  show ?case
  proof (cases r)
    case False
    with c up step show ?thesis by (auto simp: tbind_def tframe_def)
  next
    case True
    with c(3) obtain bs1 where t: "tinv (te_v2 E) (s @ le16 (?word W)) bs1 (set pbs) tb1 W1"
        "\<forall>x \<in> set pbs. blk W1 x = blk W x" "w_terms W1 = w_terms W" "tb_sizes tb1 = tb_sizes ?tb"
      by (auto simp: tcopied_def)
    have f: "w_pds W1 = w_pds W" "w_relq W1 = w_relq W" "reset_rule W True W1"
      using c(2) True by (auto simp: tframe_def)
    have same: "part_size W1 (pbs ! i) = part_size W (pbs ! i)" if "i < length pbs" for i
      using part_same_blk(1) [of W1 "pbs ! i" W] t(2) f(1) that by simp
    have po: "parts_ok w pbs W1" using Suc.prems(2) same t(3) f(1) by (simp add: parts_ok_def)
    have "m = length pbs - Suc k" using Suc.hyps(2) by linarith
    moreover have "length pbs \<le> length (tb_sizes tb1)" using Suc.prems(3) t(4) by simp
    moreover have "Suc k \<le> length pbs" using k by simp
    moreover have "length (s @ le16 (?word W)) + 2 * (length pbs - Suc k) \<le> tcap (te_v2 E) W1"
      using Suc.prems(5) k f(1) by (simp add: tcap_def)
    ultimately obtain r' tb' W' where g:
        "each_thread (part_hdr E info w lst) [Suc k ..< length pbs] tb1 W1 = Some (r', tb', W')" "tframe r' tb1 W1 tb' W'"
        "r' \<longrightarrow> (\<exists>bs. tinv (te_v2 E) ((s @ le16 (?word W)) @ concat (map (\<lambda>i. le16 (part_word (part_size W1 (pbs ! i))
               (part_rows info lst i))) [Suc k ..< length pbs])) bs (set pbs) tb' W')
           \<and> (\<forall>x \<in> set pbs. blk W' x = blk W1 x) \<and> w_terms W' = w_terms W1 \<and> length (tb_sizes tb') = length (tb_sizes tb1)
           \<and> (\<forall>i < length pbs. tb_sizes tb' ! i = (if Suc k \<le> i then part_size W1 (pbs ! i) else tb_sizes tb1 ! i))"
      using Suc.hyps(1) [OF _ t(1) po] by blast
    have ws: "map (\<lambda>i. le16 (part_word (part_size W1 (pbs ! i)) (part_rows info lst i))) [Suc k ..< length pbs]
        = map (\<lambda>i. le16 (part_word (part_size W (pbs ! i)) (part_rows info lst i))) [Suc k ..< length pbs]"
      using same by simp
    have eq: "each_thread (part_hdr E info w lst) [k ..< length pbs] tb W = Some (r', tb', W')"
      using step c(1) True g(1) up by (simp add: tbind_def)
    have tf: "tframe r' tb W tb' W'" using g(2) f by (auto simp: tframe_def intro: reset_rule_trans)
    show ?thesis
    proof (cases r')
      case False
      with eq tf show ?thesis by blast
    next
      case True
      with g(3) ws obtain bs' where h: "tinv (te_v2 E) (s @ concat (map (\<lambda>i. le16 (part_word (part_size W (pbs ! i))
               (part_rows info lst i))) [k ..< length pbs])) bs' (set pbs) tb' W'"
         "\<forall>x \<in> set pbs. blk W' x = blk W1 x" "w_terms W' = w_terms W1" "length (tb_sizes tb') = length (tb_sizes tb1)"
         "\<forall>i < length pbs. tb_sizes tb' ! i = (if Suc k \<le> i then part_size W1 (pbs ! i) else tb_sizes tb1 ! i)"
        using up by auto
      have "tb_sizes tb' ! i = (if k \<le> i then part_size W (pbs ! i) else tb_sizes tb ! i)" if "i < length pbs" for i
        using h(5) same t(4) Suc.prems(3) that k by (auto simp: not_less_eq_eq)
      with eq tf h t(2-4) show ?thesis by auto
    qed
  qed
qed


lemma tb_packets_same:
  assumes "\<forall>b \<in> set bs. blk W' b = blk W b" "w_pds W' = w_pds W" "tb_terms tb = map rp_data_buf_data bs"
    "bs \<noteq> []" "tb_size tb \<le> w_pds W"
  shows "tb_packets tb W' = tb_packets tb W"
proof -
  have rd: "rd (w_mem W') (b + 54) n = rd (w_mem W) (b + 54) n" if "b \<in> set bs" "n \<le> w_pds W" for b n
    using that assms(1,2) by (intro rd_same_blk [of _ b]) (auto simp: blk_size_def)
  have "butlast (tb_terms tb) = map rp_data_buf_data (butlast bs)" "last (tb_terms tb) = last bs + 54"
    using assms(3,4) by (simp_all add: map_butlast last_map rp_data_buf_data_eq)
  then show ?thesis using rd assms(2,4,5)
    by (simp add: tb_packets_def rp_data_buf_data_eq) (meson in_set_butlastD le_refl)
qed

lemma tinv_terms: "tinv v2 s bs S tb (W\<lparr>w_terms := x\<rparr>) \<longleftrightarrow> tinv v2 s bs S tb W"
proof -
  have "own (W\<lparr>w_terms := x\<rparr>) A = own W A" "tb_packets tb (W\<lparr>w_terms := x\<rparr>) = tb_packets tb W" for A
    by (simp_all add: own_def blk_size_def tb_packets_def)
  then show ?thesis by (simp add: tinv_def)
qed

lemma tinv_free:
  assumes i: "tinv v2 s bs S tb W" and b: "b \<in> S"
    and f: "rp_seg_data_buf_free (rp_data_buf_data b - ARQ_DATA_HDR_SIZE) W = (r, W')"
  shows "tinv v2 s bs (S - {b}) tb W'" "x \<in> S - {b} \<Longrightarrow> blk W' x = blk W x"
    "w_relq W' = w_relq W" "w_pds W' = w_pds W" "w_terms W' = w_terms W" "reset_rule W True W'"
proof -
  have bU: "b \<in> set bs \<union> S" using b by blast
  note g = own_seg_free [OF f tinv_last(4) [OF i] bU]
  have d: "set bs \<inter> S = {}" using i by (simp add: tinv_def)
  then have "(set bs \<union> S) - {b} = set bs \<union> (S - {b})" using b by blast
  with g(1) have o: "own W' (set bs \<union> (S - {b}))" by simp
  have "\<forall>x \<in> set bs. blk W' x = blk W x" using g(2) d b by blast
  then have "tb_packets tb W' = tb_packets tb W"
    using i g(4) by (intro tb_packets_same [of bs]) (auto simp: tinv_def)
  then show "tinv v2 s bs (S - {b}) tb W'" using i o g(4) by (auto simp: tinv_def)
  show "x \<in> S - {b} \<Longrightarrow> blk W' x = blk W x" using g(2) by blast
qed (use own_seg_free [OF f tinv_last(4) [OF i]] b in auto)

text \<open>The second loop: the bytes of the parts \<open>k, \<dots>, n - 1\<close>, whose blocks are given back.\<close>

definition rest_ok :: "nat \<Rightarrow> nat list \<Rightarrow> nat \<Rightarrow> term_bufs \<Rightarrow> nwm_world \<Rightarrow> bool" where
  "rest_ok w pbs k tb W \<longleftrightarrow> distinct pbs
     \<and> (\<forall>i < length pbs. k \<le> i \<longrightarrow> w_terms W w i = rp_data_buf_data (pbs ! i)
          \<and> tb_sizes tb ! i = part_size W (pbs ! i) \<and> unat (part_size W (pbs ! i)) \<le> w_pds W)"

lemma parts_data_ok:
  assumes "tinv (te_v2 E) s bs (set (drop k pbs)) tb W" "rest_ok w pbs k tb W" "k \<le> length pbs"
    "length s + length (concat (map (\<lambda>i. part_bytes W (pbs ! i)) [k ..< length pbs])) \<le> tcap (te_v2 E) W"
  shows "\<exists>r tb' W'. each_thread (part_data E w) [k ..< length pbs] tb W = Some (r, tb', W')
     \<and> tframe r tb W tb' W'
     \<and> (r \<longrightarrow> (\<exists>bs. tinv (te_v2 E) (s @ concat (map (\<lambda>i. part_bytes W (pbs ! i)) [k ..< length pbs])) bs {} tb' W'))"
  using assms
proof (induction "length pbs - k" arbitrary: k s bs tb W)
  case 0
  then show ?case by (auto simp: tframe_def reset_rule_def)
next
  case (Suc m)
  let ?P = "pbs ! k" and ?S = "set (drop k pbs)"
  have k: "k < length pbs" using Suc.hyps(2) by linarith
  then have up: "[k ..< length pbs] = k # [Suc k ..< length pbs]" by (rule upt_conv_Cons)
  have dr: "drop k pbs = ?P # drop (Suc k) pbs" using k by (simp add: Cons_nth_drop_Suc)
  have pS: "?P \<in> ?S" by (simp add: dr)
  have ro: "w_terms W w k = rp_data_buf_data ?P" "tb_sizes tb ! k = part_size W ?P" "unat (part_size W ?P) \<le> w_pds W"
    using Suc.prems(2) k by (auto simp: rest_ok_def)
  have dist: "distinct (drop k pbs)" using Suc.prems(2) by (simp add: rest_ok_def)
  then have S': "?S - {?P} = set (drop (Suc k) pbs)" by (auto simp: dr)
  have in_S: "pbs ! i \<in> ?S - {?P}" if "i < length pbs" "Suc k \<le> i" for i
  proof -
    have "pbs ! i = drop (Suc k) pbs ! (i - Suc k)" "i - Suc k < length (drop (Suc k) pbs)"
      using that by auto
    then show ?thesis unfolding S' by (metis nth_mem)
  qed
  have len: "length (part_bytes W ?P) + length (concat (map (\<lambda>i. part_bytes W (pbs ! i)) [Suc k ..< length pbs]))
      = length (concat (map (\<lambda>i. part_bytes W (pbs ! i)) [k ..< length pbs]))"
    using up by simp
  have cap: "length s + length (part_bytes W ?P) \<le> tcap (te_v2 E) W"
    using Suc.prems(4) len by linarith
  obtain r tb1 W1 where c: "copy_to_terms (te_v2 E) (part_bytes W ?P) tb W = Some (r, tb1, W1)"
      "tframe r tb W tb1 W1" "r \<longrightarrow> tcopied (te_v2 E) (s @ part_bytes W ?P) ?S tb W tb1 W1"
    using copy_ok [OF Suc.prems(1) cap] by blast
  obtain rf W2 where fr: "rp_seg_data_buf_free (rp_data_buf_data ?P - ARQ_DATA_HDR_SIZE) W1 = (rf, W2)"
    by (cases "rp_seg_data_buf_free (rp_data_buf_data ?P - ARQ_DATA_HDR_SIZE) W1")
  let ?W = "W2\<lparr>w_terms := (w_terms W2)(w := (w_terms W2 w)(k := 0))\<rparr>"
  have step: "part_data E w k tb W = (if r then Some (True, tb1, ?W) else Some (False, tb1, W1))"
    using c(1) ro fr by (simp add: part_data_def part_bytes_def tbind_def Let_def)
  show ?case
  proof (cases r)
    case False
    with c up step show ?thesis by (auto simp: tbind_def)
  next
    case True
    with c(3) obtain bs1 where t: "tinv (te_v2 E) (s @ part_bytes W ?P) bs1 ?S tb1 W1"
        "\<forall>x \<in> ?S. blk W1 x = blk W x" "w_terms W1 = w_terms W" "tb_sizes tb1 = tb_sizes tb"
      by (auto simp: tcopied_def)
    note f = tinv_free [OF t(1) pS fr]
    have ti: "tinv (te_v2 E) (s @ part_bytes W ?P) bs1 (set (drop (Suc k) pbs)) tb1 ?W"
      using f(1) S' by (simp only: tinv_terms)
    have P: "w_pds ?W = w_pds W" "w_relq ?W = w_relq W" "reset_rule W True ?W"
      using c(2) True f(3,4,6) by (auto simp: tframe_def reset_rule_def)
    have bl: "blk ?W (pbs ! i) = blk W (pbs ! i)" if "i < length pbs" "Suc k \<le> i" for i
    proof -
      have "blk ?W (pbs ! i) = blk W2 (pbs ! i)" by (simp add: blk_def blk_size_def)
      also have "\<dots> = blk W1 (pbs ! i)" using f(2) in_S that by blast
      also have "\<dots> = blk W (pbs ! i)" using t(2) in_S that by blast
      finally show ?thesis .
    qed
    have same: "part_size ?W (pbs ! i) = part_size W (pbs ! i)" "part_bytes ?W (pbs ! i) = part_bytes W (pbs ! i)"
      if "i < length pbs" "Suc k \<le> i" for i
      using part_same_blk [OF bl [OF that] P(1)] Suc.prems(2) that by (auto simp: rest_ok_def)
    have bytes: "map (\<lambda>i. part_bytes ?W (pbs ! i)) [Suc k ..< length pbs]
        = map (\<lambda>i. part_bytes W (pbs ! i)) [Suc k ..< length pbs]"
      using same(2) by simp
    have ro': "rest_ok w pbs (Suc k) tb1 ?W"
      using Suc.prems(2) same(1) t(3,4) f(5) P(1) by (auto simp: rest_ok_def)
    have "m = length pbs - Suc k" using Suc.hyps(2) by linarith
    moreover have "Suc k \<le> length pbs" using k by simp
    moreover have "length (s @ part_bytes W ?P) + length (concat (map (\<lambda>i. part_bytes ?W (pbs ! i)) [Suc k ..< length pbs]))
        \<le> tcap (te_v2 E) ?W"
    proof -
      have "tcap (te_v2 E) ?W = tcap (te_v2 E) W" using P(1) by (simp only: tcap_def)
      with Suc.prems(4) len show ?thesis unfolding bytes length_append by linarith
    qed
    ultimately obtain r' tb' W' where g:
        "each_thread (part_data E w) [Suc k ..< length pbs] tb1 ?W = Some (r', tb', W')" "tframe r' tb1 ?W tb' W'"
        "r' \<longrightarrow> (\<exists>bs. tinv (te_v2 E) ((s @ part_bytes W ?P) @ concat (map (\<lambda>i. part_bytes ?W (pbs ! i)) [Suc k ..< length pbs]))
           bs {} tb' W')"
      using Suc.hyps(1) [OF _ ti ro'] by blast
    have eq: "each_thread (part_data E w) [k ..< length pbs] tb W = Some (r', tb', W')"
      using step True g(1) up by (simp add: tbind_def)
    have tf: "tframe r' tb W tb' W'" using g(2) P by (auto simp: tframe_def intro: reset_rule_trans)
    have "\<exists>bs. tinv (te_v2 E) (s @ concat (map (\<lambda>i. part_bytes W (pbs ! i)) [k ..< length pbs])) bs {} tb' W'" if r'
      using g(3) that bytes up by simp
    with eq tf show ?thesis by blast
  qed
qed


section \<open>Handing over all packets\<close>

definition term_rel :: "nat \<Rightarrow> nat \<Rightarrow> bool \<Rightarrow> nat \<Rightarrow> u8 list \<Rightarrow> released" where
  "term_rel w n lst b bs =
     \<lparr>rel_ptr = b + 52, rel_size = term_size_word n lst, rel_bytes = le16 (term_packet_hdr w) @ bs\<rparr>"

lemma high_bit_mask: "m \<le> k \<Longrightarrow> (a OR push_bit k 1) AND mask m = a AND (mask m :: u32)"
  by (rule bit_word_eqI) (auto simp: bit_simps)

lemma term_size_word_len:
  assumes "n < 2 ^ 15"
  shows "unat (term_size_word n lst AND 0x1FFFFFFF) = 2 + n"
proof -
  let ?s = "of_nat n + of_nat ARQ_DATA_HDR_SIZE :: u32"
  have s: "?s = of_nat (n + 2)" by (simp add: ARQ_DATA_HDR_SIZE_def)
  have "unat ?s = n + 2" using assms by (simp only: s, intro unat_of_nat_small) simp
  then have "unat (?s AND mask 29) = 2 + n" using assms by (simp only: unat_and_mask) simp
  moreover have "(0x1FFFFFFF :: u32) = mask 29" by (simp add: mask_eq_exp_minus_1)
  moreover have "term_size_word n lst AND mask 29 = ?s AND mask 29"
    by (cases lst) (simp_all only: term_size_word_def Let_def if_True if_False high_bit_mask)
  ultimately show ?thesis by simp
qed

lemma packet_at_term:
  assumes "n < 2 ^ 15"
  shows "packet_at (wr (b + 48) (le32 (term_size_word n lst)) (wr (b + 52) (le16 (term_packet_hdr w)) m)) (b + 52)
       = term_rel w n lst b (rd m (b + 54) n)"
proof -
  let ?M1 = "wr (b + 52) (le16 (term_packet_hdr w)) m"
  let ?M = "wr (b + 48) (le32 (term_size_word n lst)) ?M1"
  have "rd ?M (b + 52) (2 + n) = rd ?M1 (b + 52) (2 + n)" by (rule rd_wr_disjoint) simp
  also have "\<dots> = rd ?M1 (b + 52) 2 @ rd ?M1 (b + 52 + 2) n" by (rule rd_add)
  also have "b + 52 + 2 = b + 54" by simp
  also have "rd ?M1 (b + 52) 2 = le16 (term_packet_hdr w)"
    using rd_wr_same [of "b + 52" "le16 (term_packet_hdr w)" m] by simp
  also have "rd ?M1 (b + 54) n = rd m (b + 54) n" by (rule rd_wr_disjoint) simp
  finally have r: "rd ?M (b + 52) (2 + n) = le16 (term_packet_hdr w) @ rd m (b + 54) n" .
  have "rd32_le ?M (b + 52 - 4) = term_size_word n lst"
  proof -
    have "b + 52 - 4 = b + 48" by simp
    then show ?thesis by (simp only: rd32_le_wr)
  qed
  then show ?thesis
    by (simp only: packet_at_def Let_def term_size_word_len [OF assms] r) (simp add: term_rel_def)
qed

lemma send_term_mono: "send_term w i tb d W = (r, W') \<Longrightarrow> reset_rule W r W' \<and> w_pds W' = w_pds W"
  by (auto simp: send_term_def Let_def reset_rule_def dest: syn_rel_reset syn_rel_frame split: if_splits)

lemma send_terms_mono: "send_terms w i tb ds W = (r, W') \<Longrightarrow> reset_rule W r W' \<and> w_pds W' = w_pds W"
proof (induction ds arbitrary: i W)
  case Nil
  then show ?case by (auto simp: reset_rule_def)
next
  case (Cons d ds)
  obtain r1 W1 where s: "send_term w i tb d W = (r1, W1)" by (cases "send_term w i tb d W")
  from send_term_mono [OF s] Cons s show ?case
    by (cases r1) (auto simp: reset_rule_def)
qed

lemma send_terms_append:
  "send_terms w i tb (xs @ ys) W =
     (case send_terms w i tb xs W of (False, V) \<Rightarrow> (False, V) | (True, V) \<Rightarrow> send_terms w (i + length xs) tb ys V)"
  by (induction xs arbitrary: i W) (auto split: prod.splits bool.splits)

lemma send_term_ok:
  assumes o: "own W held" and b: "b \<in> held" and P: "n = w_pds W" "n < 2 ^ 15" and sz: "tb_size tb \<le> n"
    and s: "send_term w i tb (rp_data_buf_data b) W = (True, W')" and nr: "\<not> w_reset W'"
    and l: "l \<longleftrightarrow> i = length (tb_terms tb) - 1"
  shows "own W' held" "x \<in> held \<Longrightarrow> x \<noteq> b \<Longrightarrow> blk W' x = blk W x" "w_pds W' = w_pds W"
    "w_relq W' = w_relq W @ [term_rel w n l b
       (if l then rd (w_mem W) (b + 54) (tb_size tb) @ replicate (n - tb_size tb) 0 else rd (w_mem W) (b + 54) n)]"
proof -
  let ?W0 = "if l then W\<lparr>w_mem := wr (b + 54 + tb_size tb) (replicate (n - tb_size tb) 0) (w_mem W)\<rparr> else W"
  let ?W1 = "?W0\<lparr>w_mem := wr (b + 52) (le16 (term_packet_hdr w)) (w_mem ?W0)\<rparr>"
  let ?W2 = "?W1\<lparr>w_mem := wr (b + 48) (le32 (term_size_word n l)) (w_mem ?W1)\<rparr>"
  have eq: "syn_rel (b + 52) ?W2 = (True, W')"
  proof -
    have a: "rp_data_buf_data b - ARQ_DATA_HDR_SIZE = b + 52" "b + 52 - 4 = b + 48"
      by (simp_all add: rp_data_buf_data_eq ARQ_DATA_HDR_SIZE_def)
    show ?thesis using s unfolding send_term_def Let_def a l [symmetric] P(1)
      by (cases l) (simp_all add: rp_data_buf_data_eq)
  qed
  note q = syn_rel_ok [OF eq nr]
  have r0: "w_relq ?W2 = w_relq W" "w_pds ?W2 = w_pds W" "w_pds ?W0 = w_pds W" by simp_all
  have o0: "own ?W0 held" using o b sz P by (auto intro!: own_wr [OF o b] simp: blk_size_def)
  have b0: "x \<in> held \<Longrightarrow> x \<noteq> b \<Longrightarrow> blk ?W0 x = blk W x" for x
    using o b sz P by (auto intro!: blk_wr [OF o b] simp: blk_size_def)
  have o1: "own ?W1 held" using r0 P by (intro own_wr [OF o0 b]) (auto simp: blk_size_def)
  have b1: "x \<in> held \<Longrightarrow> x \<noteq> b \<Longrightarrow> blk ?W1 x = blk ?W0 x" for x
    using r0 P by (intro blk_wr [OF o0 b]) (auto simp: blk_size_def)
  have o2: "own ?W2 held" using r0 P by (intro own_wr [OF o1 b]) (auto simp: blk_size_def)
  have b2: "x \<in> held \<Longrightarrow> x \<noteq> b \<Longrightarrow> blk ?W2 x = blk ?W1 x" for x
    using r0 P by (intro blk_wr [OF o1 b]) (auto simp: blk_size_def)
  have e: "same_but_env (?W2\<lparr>w_relq := w_relq ?W2 @ [packet_at (w_mem ?W2) (b + 52)]\<rparr>) W'"
    using q by (simp only: with_released_def)
  have "own (?W2\<lparr>w_relq := y\<rparr>) held" "blk (?W2\<lparr>w_relq := y\<rparr>) x = blk ?W2 x" for y x
    using o2 by (simp_all add: own_def blk_def blk_size_def)
  note ee = own_env [OF e this(1)] this(2)
  show "own W' held" by (rule ee(1))
  show "x \<in> held \<Longrightarrow> x \<noteq> b \<Longrightarrow> blk W' x = blk W x"
    using ee(2) [of x] ee(3) [of _ x] b0 [of x] b1 [of x] b2 [of x] by simp
  show "w_pds W' = w_pds W" using same_but_envD(4) [OF e] by simp
  have "packet_at (w_mem ?W2) (b + 52) = term_rel w n l b (rd (w_mem ?W0) (b + 54) n)"
    using packet_at_term [OF P(2), of b l w "w_mem ?W0"] by simp
  moreover have "rd (w_mem ?W0) (b + 54) n =
      (if l then rd (w_mem W) (b + 54) (tb_size tb) @ replicate (n - tb_size tb) 0 else rd (w_mem W) (b + 54) n)"
    using sz rd_wr_after [of "b + 54" "tb_size tb" "replicate (n - tb_size tb) 0" "w_mem W"] by simp
  ultimately show "w_relq W' = w_relq W @ [term_rel w n l b
       (if l then rd (w_mem W) (b + 54) (tb_size tb) @ replicate (n - tb_size tb) 0 else rd (w_mem W) (b + 54) n)]"
    using same_but_envD(2) [OF e] by simp
qed

lemma send_terms_full:
  assumes "own W held" "set xs \<subseteq> held" "distinct xs" "n = w_pds W" "n < 2 ^ 15" "tb_size tb \<le> n"
    "i + length xs < length (tb_terms tb)"
    "send_terms w i tb (map rp_data_buf_data xs) W = (True, W')" "\<not> w_reset W'"
  shows "own W' held \<and> w_pds W' = w_pds W \<and> (\<forall>x \<in> held - set xs. blk W' x = blk W x)
     \<and> w_relq W' = w_relq W @ map (\<lambda>b. term_rel w n False b (rd (w_mem W) (b + 54) n)) xs"
  using assms
proof (induction xs arbitrary: i W)
  case Nil
  then show ?case by simp
next
  case (Cons b xs)
  obtain W1 where s: "send_term w i tb (rp_data_buf_data b) W = (True, W1)"
      and t: "send_terms w (Suc i) tb (map rp_data_buf_data xs) W1 = (True, W')"
    using Cons.prems(8) by (auto split: prod.splits bool.splits)
  have nr: "\<not> w_reset W1" using send_terms_mono [OF t] Cons.prems(9) by (auto simp: reset_rule_def)
  have bh: "b \<in> held" using Cons.prems(2) by simp
  have "False \<longleftrightarrow> i = length (tb_terms tb) - 1" using Cons.prems(7) by simp
  note f = send_term_ok [OF Cons.prems(1) bh Cons.prems(4-6) s nr this]
  have ih: "own W' held \<and> w_pds W' = w_pds W1 \<and> (\<forall>x \<in> held - set xs. blk W' x = blk W1 x)
     \<and> w_relq W' = w_relq W1 @ map (\<lambda>b. term_rel w n False b (rd (w_mem W1) (b + 54) n)) xs"
    using Cons.prems f(3) by (intro Cons.IH [OF f(1) _ _ _ _ _ _ t]) auto
  have "rd (w_mem W1) (x + 54) n = rd (w_mem W) (x + 54) n" if "x \<in> set xs" for x
    using f(2,3) that Cons.prems(2-4) by (intro rd_same_blk [of _ x]) (auto simp: blk_size_def)
  then have "map (\<lambda>b. term_rel w n False b (rd (w_mem W1) (b + 54) n)) xs
      = map (\<lambda>b. term_rel w n False b (rd (w_mem W) (b + 54) n)) xs" by simp
  with ih f show ?case by auto
qed


definition padded :: "nat \<Rightarrow> u8 list list \<Rightarrow> u8 list list" where
  "padded n pks = butlast pks @ [last pks @ replicate (n - length (last pks)) 0]"

lemma send_terms_all:
  assumes i: "tinv v2 s bs {} tb W" and n: "n = w_pds W" "n < 2 ^ 15"
    and t: "send_terms w 0 tb (tb_terms tb) W = (True, W')" and nr: "\<not> w_reset W'"
  shows "\<exists>qs. w_relq W' = w_relq W @ qs
     \<and> map rel_bytes qs = map ((@) (le16 (term_packet_hdr w))) (padded n (tb_packets tb W))
     \<and> map rel_size qs = replicate (length bs - 1) (term_size_word n False) @ [term_size_word n True]"
proof -
  define xs where "xs = butlast bs"
  define b where "b = last bs"
  have bs: "bs = xs @ [b]" using i by (simp add: xs_def b_def tinv_def)
  have tm: "tb_terms tb = map rp_data_buf_data xs @ [rp_data_buf_data b]" using i by (simp add: tinv_def bs)
  have d: "distinct xs" "b \<notin> set xs" "own W (set bs)" "tb_size tb \<le> n"
    using i n by (auto simp: tinv_def bs)
  obtain W1 where a: "send_terms w 0 tb (map rp_data_buf_data xs) W = (True, W1)"
      "send_terms w (length xs) tb [rp_data_buf_data b] W1 = (True, W')"
    using t by (auto simp: tm send_terms_append split: prod.splits bool.splits)
  then have z: "send_term w (length xs) tb (rp_data_buf_data b) W1 = (True, W')"
    by (auto split: prod.splits bool.splits)
  have nr1: "\<not> w_reset W1" using send_term_mono [OF z] nr by (auto simp: reset_rule_def)
  have f: "own W1 (set bs) \<and> w_pds W1 = w_pds W \<and> (\<forall>x \<in> set bs - set xs. blk W1 x = blk W x)
     \<and> w_relq W1 = w_relq W @ map (\<lambda>b. term_rel w n False b (rd (w_mem W) (b + 54) n)) xs"
    using d n nr1 tm by (intro send_terms_full [OF d(3) _ _ _ _ _ _ a(1)]) (auto simp: bs)
  have lastp: "True \<longleftrightarrow> length xs = length (tb_terms tb) - 1" by (simp add: tm)
  have n1: "n = w_pds W1" using n f by simp
  have o1: "own W1 (set bs)" "b \<in> set bs" using f by (simp_all add: bs)
  have q: "w_relq W' = w_relq W1 @ [term_rel w n True b (rd (w_mem W1) (b + 54) (tb_size tb) @ replicate (n - tb_size tb) 0)]"
    using send_term_ok(4) [OF o1 n1 n(2) d(4) z nr lastp] by simp
  have "rd (w_mem W1) (b + 54) (tb_size tb) = rd (w_mem W) (b + 54) (tb_size tb)"
    using f d n by (intro rd_same_blk [of _ b]) (auto simp: blk_size_def bs)
  with q f have rq: "w_relq W' = w_relq W @ map (\<lambda>b. term_rel w n False b (rd (w_mem W) (b + 54) n)) xs
      @ [term_rel w n True b (rd (w_mem W) (b + 54) (tb_size tb) @ replicate (n - tb_size tb) 0)]"
    by simp
  have pk: "tb_packets tb W = map (\<lambda>b. rd (w_mem W) (b + 54) n) xs @ [rd (w_mem W) (b + 54) (tb_size tb)]"
    by (simp add: tb_packets_def tm rp_data_buf_data_eq n(1))
  show ?thesis
    by (rule exI, rule conjI, rule rq)
       (simp add: pk padded_def term_rel_def bs comp_def map_replicate_const)
qed

section \<open>A reference parser\<close>

text \<open>What a receiver of the packets of a frame reads: the markers of the continuation packets are
  dropped when the second word of the first packet says so.\<close>

fun get16 :: "u8 list \<Rightarrow> (u16 \<times> u8 list) option" where
  "get16 (a # b # s) = Some (ucast a OR push_bit 8 (ucast b), s)"
| "get16 _ = None"

fun get_words :: "nat \<Rightarrow> u8 list \<Rightarrow> (u16 list \<times> u8 list) option" where
  "get_words 0 s = Some ([], s)"
| "get_words (Suc n) s =
     (case get16 s of None \<Rightarrow> None | Some (x, s) \<Rightarrow>
        (case get_words n s of None \<Rightarrow> None | Some (xs, s) \<Rightarrow> Some (x # xs, s)))"

fun get_parts :: "u16 list \<Rightarrow> u8 list \<Rightarrow> (u16 \<times> u8 list) list option" where
  "get_parts [] s = Some []"
| "get_parts (x # xs) s =
     (let n = unat (take_bit 11 x) in if length s < n then None
      else map_option ((#) (drop_bit 11 x, take n s)) (get_parts xs (drop n s)))"

record parsed_frame =
  pf_quality :: u16
  pf_cores :: nat
  pf_screen :: nat
  pf_chroma :: u16
  pf_delta :: bool
  pf_downsample :: u16
  pf_even_odd :: bool
  pf_full :: bool
  pf_both :: bool
  pf_v2 :: bool
  pf_parts :: "(u16 \<times> u8 list) list"

definition frame_v2 :: "u8 list \<Rightarrow> bool" where
  "frame_v2 pk =
     (case get16 pk of None \<Rightarrow> False
      | Some (h, s) \<Rightarrow> bit h 15 \<and> (case get16 s of None \<Rightarrow> False | Some (e, _) \<Rightarrow> bit e 14))"

definition parse_stream :: "u8 list \<Rightarrow> parsed_frame option" where
  "parse_stream s =
     (case get16 s of None \<Rightarrow> None | Some (h, s) \<Rightarrow>
      (case if bit h 15 then get16 s else Some (0, s) of None \<Rightarrow> None | Some (e, s) \<Rightarrow>
        let cores = unat (take_bit 2 (drop_bit 7 h)) in
        (case get_words cores s of None \<Rightarrow> None | Some (ws, s) \<Rightarrow>
          (case get_parts ws s of None \<Rightarrow> None | Some ps \<Rightarrow>
            Some \<lparr>pf_quality = take_bit 7 h, pf_cores = cores, pf_screen = of_bool (bit h 9),
                  pf_chroma = take_bit 2 (drop_bit 10 h), pf_delta = bit h 12,
                  pf_downsample = take_bit 2 (drop_bit 13 h), pf_even_odd = bit e 0, pf_full = bit e 1,
                  pf_both = bit e 2, pf_v2 = bit e 14, pf_parts = ps\<rparr>))))"

definition parse_frame :: "u8 list list \<Rightarrow> parsed_frame option" where
  "parse_frame pks = parse_stream (unpack (frame_v2 (hd pks)) pks)"

lemma get16_le16 [simp]: "get16 (le16 v @ s) = Some (v, s)"
proof -
  have "ucast (ucast v :: u8) OR push_bit 8 (ucast (ucast (drop_bit 8 v) :: u8)) = v"
  proof (rule bit_word_eqI)
    fix n
    assume "n < LENGTH(16)"
    then show "bit (ucast (ucast v :: u8) OR push_bit 8 (ucast (ucast (drop_bit 8 v) :: u8)) :: u16) n = bit v n"
      by (cases "n < 8") (auto simp: bit_simps)
  qed
  then show ?thesis by (simp add: le16_def)
qed

lemma get_words_le16: "get_words (length ws) (concat (map le16 ws) @ s) = Some (ws, s)"
  by (induction ws) simp_all

lemma get_parts_ok:
  assumes "list_all2 (\<lambda>x p. unat (take_bit 11 x) = length p) ws ps"
  shows "get_parts ws (concat ps @ s) = Some (zip (map (drop_bit 11) ws) ps)"
  using assms by (induction ws ps rule: list_all2_induct) simp_all

text \<open>The fields of the header word.\<close>

definition pack_hdr :: "u16 \<Rightarrow> bool \<Rightarrow> u16 \<Rightarrow> nat \<Rightarrow> u16 \<Rightarrow> u16 \<Rightarrow> bool \<Rightarrow> u16" where
  "pack_hdr d b c k t q x =
     (let hdr = push_bit 13 d OR push_bit 12 (u16_of_bool b) OR push_bit 10 c OR push_bit 9 (of_nat k)
                OR push_bit 7 t OR q
      in if x then hdr OR push_bit 15 1 else hdr)"

lemma narrow_bit: "take_bit m (a :: 'a::len word) = a \<Longrightarrow> bit a n \<Longrightarrow> n < m"
  by (metis bit_take_bit_iff)

lemma narrow_unat:
  assumes "unat (a :: 'a::len word) < 2 ^ n"
  shows "take_bit n a = a"
proof -
  have "unat (take_bit n a) = unat a" using assms by (simp add: unsigned_take_bit_eq take_bit_nat_eq_self)
  then show ?thesis by (simp add: word_unat_eq_iff)
qed

lemma bit_bool_k: "k < 2 \<Longrightarrow> bit (of_nat k :: u16) n \<longleftrightarrow> k = 1 \<and> n = 0"
  by (cases "k = 0") (auto simp: bit_1_iff dest!: less_2_cases)

lemma pack_hdr_bits:
  assumes "take_bit 2 d = d" "take_bit 2 c = c" "k < 2" "take_bit 2 t = t" "take_bit 7 q = q"
  shows "bit (pack_hdr d b c k t q x) n \<longleftrightarrow> n < 16 \<and>
     (13 \<le> n \<and> bit d (n - 13) \<or> n = 12 \<and> b \<or> 10 \<le> n \<and> bit c (n - 10) \<or> n = 9 \<and> k = 1
      \<or> 7 \<le> n \<and> bit t (n - 7) \<or> bit q n \<or> n = 15 \<and> x)"
proof -
  have q: "bit q n \<Longrightarrow> n < 16" using narrow_bit [OF assms(5)] by fastforce
  have b: "bit (u16_of_bool b) j \<longleftrightarrow> b \<and> j = 0" for j by (simp add: u16_of_bool_def bit_1_iff)
  have one: "bit (push_bit 15 (1 :: u16)) n \<longleftrightarrow> n = 15"
    using bit_push_bit_iff [of 15 "1 :: u16" n] by (auto simp: bit_push_bit_iff bit_1_iff simp del: push_bit_of_1)
  show ?thesis
    by (cases x) (auto simp: pack_hdr_def Let_def bit_or_iff one bit_push_bit_iff b bit_bool_k [OF assms(3)]
        simp del: push_bit_of_1 dest: q)
qed


lemma pack_hdr_fields:
  fixes b x :: bool
  assumes "take_bit 2 d = d" "take_bit 2 c = c" "k < 2" "take_bit 2 t = t" "take_bit 7 q = q"
  defines "h \<equiv> pack_hdr d b c k t q x"
  shows "bit h 15 = x" "take_bit 7 h = q" "take_bit 2 (drop_bit 7 h) = t" "of_bool (bit h 9) = k"
    "take_bit 2 (drop_bit 10 h) = c" "bit h 12 = b" "take_bit 2 (drop_bit 13 h) = d"
proof -
  note bits = pack_hdr_bits [OF assms(1-5), of b x, folded h_def]
  note nb = narrow_bit [OF assms(1)] narrow_bit [OF assms(2)] narrow_bit [OF assms(4)] narrow_bit [OF assms(5)]
  show "bit h 15 = x" "bit h 12 = b" using nb by (force simp: bits)+
  have "bit h 9 \<longleftrightarrow> k = 1" using nb by (force simp: bits)
  then show "of_bool (bit h 9) = k" using assms(3) by (auto dest!: less_2_cases)
  show "take_bit 7 h = q"
    by (rule bit_word_eqI) (use nb in \<open>auto simp: bits bit_take_bit_iff\<close>)
  have f: "take_bit 2 (drop_bit j h) = v"
    if "\<And>i. i < 2 \<Longrightarrow> bit h (j + i) = bit v i" "take_bit 2 v = v" for j and v :: u16
  proof (rule bit_word_eqI)
    fix n
    show "bit (take_bit 2 (drop_bit j h)) n = bit v n"
      using that(1) [of n] narrow_bit [OF that(2), of n] by (auto simp: bit_take_bit_iff bit_drop_bit_eq)
  qed
  show "take_bit 2 (drop_bit 7 h) = t"
    by (rule f [OF _ assms(4)]) (use nb in \<open>force simp: bits\<close>)
  show "take_bit 2 (drop_bit 10 h) = c"
    by (rule f [OF _ assms(2)]) (use nb in \<open>force simp: bits\<close>)
  show "take_bit 2 (drop_bit 13 h) = d"
    by (rule f [OF _ assms(1)]) (use nb in \<open>force simp: bits\<close>)
qed

lemma ex_hdr_word_bits:
  "bit (ex_hdr_word E info both) 0 \<longleftrightarrow> need_even_odd E info \<and> ti_even_odd info"
  "bit (ex_hdr_word E info both) 1 \<longleftrightarrow> full_width E info"
  "bit (ex_hdr_word E info both) 2 \<longleftrightarrow> full_width E info \<and> both"
  "bit (ex_hdr_word E info both) 14 \<longleftrightarrow> te_v2 E"
proof -
  have n: "bit (2 :: u16) n \<longleftrightarrow> n = 1" "bit (4 :: u16) n \<longleftrightarrow> n = 2" "bit (16384 :: u16) n \<longleftrightarrow> n = 14"
    if "n \<in> {0, 1, 2, 14}" for n :: nat
    using that by auto
  show "bit (ex_hdr_word E info both) 0 \<longleftrightarrow> need_even_odd E info \<and> ti_even_odd info"
    "bit (ex_hdr_word E info both) 1 \<longleftrightarrow> full_width E info"
    "bit (ex_hdr_word E info both) 2 \<longleftrightarrow> full_width E info \<and> both"
    "bit (ex_hdr_word E info both) 14 \<longleftrightarrow> te_v2 E"
    by (auto simp: ex_hdr_word_def bit_or_iff EXHDR_V2_BIT_def u16_of_bool_def bit_1_iff n split: if_splits)
qed

lemma part_word_fields:
  assumes "unat sz < 2 ^ 11"
  shows "unat (take_bit 11 (part_word sz v)) = unat sz" "drop_bit 11 (part_word sz v) = take_bit 5 (ucast v)"
proof -
  have sm: "take_bit 11 sz = sz" using assms by (rule narrow_unat)
  note nb = narrow_bit [OF sm]
  have m: "(push_bit RP_KCP_HDR_RC_NBITS 1 - 1 :: u16) = mask 5"
    by (simp add: RP_KCP_HDR_RC_NBITS_def mask_eq_exp_minus_1)
  have bits: "bit (part_word sz v) n \<longleftrightarrow> n < 16 \<and> (bit sz n \<or> 11 \<le> n \<and> n < 16 \<and> bit v (n - 11))" for n
    unfolding part_word_def m RP_KCP_HDR_SIZE_NBITS_def
    by (auto simp: bit_simps)
  have "take_bit 11 (part_word sz v) = (ucast sz :: u16)"
    by (rule bit_word_eqI) (use nb in \<open>auto simp: bit_take_bit_iff bits bit_ucast_iff\<close>)
  moreover have "unat (ucast sz :: u16) = unat sz" using assms by (simp add: unat_ucast_16)
  ultimately show "unat (take_bit 11 (part_word sz v)) = unat sz" by simp
  show "drop_bit 11 (part_word sz v) = take_bit 5 (ucast v)"
    by (rule bit_word_eqI) (use nb in \<open>auto simp: bit_take_bit_iff bit_drop_bit_eq bits bit_ucast_iff\<close>)
qed


section \<open>A whole frame\<close>

text \<open>The situation at the end of a frame: \<open>n\<close> threads left their remainders in the blocks \<open>pbs\<close> of the pool,
  and the fields of the header fit their widths.\<close>

definition frame_ok :: "term_env \<Rightarrow> nat \<Rightarrow> encode_ret \<Rightarrow> nat list \<Rightarrow> nwm_world \<Rightarrow> bool" where
  "frame_ok E w ret pbs W \<longleftrightarrow>
     (let info = te_infos E ! w in
        length pbs = unat (ri (te_core_count E)) \<and> 0 < length pbs \<and> length pbs \<le> 3
      \<and> ti_core_count info = te_core_count E \<and> own W (set pbs) \<and> parts_ok w pbs W
      \<and> 22 \<le> w_pds W \<and> w_pds W < 2 ^ 11 \<and> unat (snd (quality_field E ret)) < 2 ^ 7
      \<and> unat (te_chroma_ss E ! is_top_index (ti_is_top info)) < 4 \<and> unat (term_downsample E info) < 4)"

definition frame_of :: "term_env \<Rightarrow> nat \<Rightarrow> bool \<Rightarrow> encode_ret \<Rightarrow> nat list \<Rightarrow> nwm_world \<Rightarrow> parsed_frame" where
  "frame_of E w both ret pbs W =
     (let info = te_infos E ! w; s = is_top_index (ti_is_top info); n = length pbs
      in \<lparr>pf_quality = snd (quality_field E ret), pf_cores = n, pf_screen = s,
          pf_chroma = ucast (te_chroma_ss E ! s), pf_delta = fst (quality_field E ret),
          pf_downsample = ucast (term_downsample E info),
          pf_even_odd = (need_even_odd E info \<and> ti_even_odd info), pf_full = full_width E info,
          pf_both = (full_width E info \<and> both), pf_v2 = te_v2 E,
          pf_parts = map (\<lambda>i. (take_bit 5 (ucast (part_rows info (n - 1) i)), part_bytes W (pbs ! i))) [0 ..< n]\<rparr>)"

definition frame_words :: "term_env \<Rightarrow> nat \<Rightarrow> nat list \<Rightarrow> nwm_world \<Rightarrow> u16 list" where
  "frame_words E w pbs W =
     map (\<lambda>i. part_word (part_size W (pbs ! i)) (part_rows (te_infos E ! w) (length pbs - 1) i)) [0 ..< length pbs]"

definition frame_stream :: "term_env \<Rightarrow> nat \<Rightarrow> bool \<Rightarrow> encode_ret \<Rightarrow> nat list \<Rightarrow> nwm_world \<Rightarrow> u8 list" where
  "frame_stream E w both ret pbs W =
     le16 (frame_hdr E (te_infos E ! w) ret)
     @ (if use_ex_hdr E (te_infos E ! w) then le16 (ex_hdr_word E (te_infos E ! w) both) else [])
     @ concat (map le16 (frame_words E w pbs W))
     @ concat (map (\<lambda>i. part_bytes W (pbs ! i)) [0 ..< length pbs])"

lemma frame_hdr_pack:
  "frame_hdr E info ret = pack_hdr (ucast (term_downsample E info)) (fst (quality_field E ret))
     (ucast (te_chroma_ss E ! is_top_index (ti_is_top info))) (is_top_index (ti_is_top info))
     (ucast (ri (ti_core_count info))) (snd (quality_field E ret)) (use_ex_hdr E info)"
  by (simp add: frame_hdr_def pack_hdr_def term_consts split_def Let_def)

lemma frame_hdr_fields:
  assumes "frame_ok E w ret pbs W"
  defines "info \<equiv> te_infos E ! w"
  defines "h \<equiv> frame_hdr E info ret"
  shows "bit h 15 = use_ex_hdr E info" "take_bit 7 h = snd (quality_field E ret)"
    "unat (take_bit 2 (drop_bit 7 h)) = length pbs" "of_bool (bit h 9) = is_top_index (ti_is_top info)"
    "take_bit 2 (drop_bit 10 h) = ucast (te_chroma_ss E ! is_top_index (ti_is_top info))"
    "bit h 12 = fst (quality_field E ret)" "take_bit 2 (drop_bit 13 h) = ucast (term_downsample E info)"
proof -
  have f: "unat (snd (quality_field E ret)) < 2 ^ 7" "unat (te_chroma_ss E ! is_top_index (ti_is_top info)) < 4"
    "unat (term_downsample E info) < 4" "unat (ri (ti_core_count info)) = length pbs" "length pbs \<le> 3"
    using assms(1) by (auto simp: frame_ok_def Let_def info_def)
  have u: "unat (ucast (te_chroma_ss E ! is_top_index (ti_is_top info)) :: u16) < 2 ^ 2"
    "unat (ucast (term_downsample E info) :: u16) < 2 ^ 2"
    "unat (ucast (ri (ti_core_count info)) :: u16) = length pbs"
    using f by (simp_all add: unat_ucast_16 unat_ucast_up)
  have "unat (ucast (ri (ti_core_count info)) :: u16) < 2 ^ 2" using u(3) f(5) by simp
  note p = pack_hdr_fields [OF narrow_unat [OF u(2)] narrow_unat [OF u(1)] _ narrow_unat [OF this] narrow_unat [OF f(1)],
      of "is_top_index (ti_is_top info)" "fst (quality_field E ret)" "use_ex_hdr E info"]
  have k: "is_top_index (ti_is_top info) < 2" by (simp add: is_top_index_def)
  show "bit h 15 = use_ex_hdr E info" "take_bit 7 h = snd (quality_field E ret)"
    "unat (take_bit 2 (drop_bit 7 h)) = length pbs" "of_bool (bit h 9) = is_top_index (ti_is_top info)"
    "take_bit 2 (drop_bit 10 h) = ucast (te_chroma_ss E ! is_top_index (ti_is_top info))"
    "bit h 12 = fst (quality_field E ret)" "take_bit 2 (drop_bit 13 h) = ucast (term_downsample E info)"
    unfolding h_def frame_hdr_pack using p [OF k] u(3) by simp_all
qed

text \<open>The parser reads the stream back.\<close>

lemma parse_frame_stream:
  assumes ok: "frame_ok E w ret pbs W"
  shows "parse_stream (frame_stream E w both ret pbs W @ z) = Some (frame_of E w both ret pbs W)"
proof -
  let ?info = "te_infos E ! w" and ?n = "length pbs"
  let ?ps = "map (\<lambda>i. part_bytes W (pbs ! i)) [0 ..< ?n]"
  note h = frame_hdr_fields [OF ok]
  have sz: "unat (part_size W (pbs ! i)) < 2 ^ 11" if "i < ?n" for i
    using ok that by (fastforce simp: frame_ok_def parts_ok_def Let_def)
  have ws: "get_words ?n (concat (map le16 (frame_words E w pbs W)) @ s) = Some (frame_words E w pbs W, s)" for s
    using get_words_le16 [of "frame_words E w pbs W" s] by (simp add: frame_words_def)
  have "list_all2 (\<lambda>x p. unat (take_bit 11 x) = length p) (frame_words E w pbs W) ?ps"
    by (auto simp: list_all2_conv_all_nth frame_words_def part_bytes_def part_word_fields(1) [OF sz])
  note ps = get_parts_ok [OF this, of z]
  have zp: "zip (map (drop_bit 11) (frame_words E w pbs W)) ?ps
      = map (\<lambda>i. (take_bit 5 (ucast (part_rows ?info (?n - 1) i)), part_bytes W (pbs ! i))) [0 ..< ?n]"
    by (rule nth_equalityI) (auto simp: frame_words_def part_word_fields(2) [OF sz])
  have e0: "use_ex_hdr E ?info = False \<Longrightarrow> \<not> need_even_odd E ?info \<and> \<not> full_width E ?info \<and> \<not> te_v2 E"
    by (simp add: use_ex_hdr_def)
  show ?thesis
    by (cases "use_ex_hdr E ?info")
       (simp_all add: parse_stream_def frame_stream_def h ws ps zp ex_hdr_word_bits ex_hdr_word_bits(2) [unfolded One_nat_def] frame_of_def Let_def e0)
qed


lemma frame_v2_prefix: "4 \<le> k \<Longrightarrow> frame_v2 (take k s) = frame_v2 s"
proof -
  assume k: "4 \<le> k"
  consider "length s < 4" | a b c d r where "s = a # b # c # d # r"
    by (cases s; cases "tl s"; cases "tl (tl s)"; cases "tl (tl (tl s))") auto
  then show ?thesis
  proof cases
    case 1
    with k show ?thesis by simp
  next
    case 2
    from k have "k = Suc (Suc (Suc (Suc (k - 4))))" by simp
    then obtain j where "k = Suc (Suc (Suc (Suc j)))" by blast
    with 2 show ?thesis by (simp add: frame_v2_def)
  qed
qed

lemma frame_v2_stream:
  assumes "frame_ok E w ret pbs W"
  shows "frame_v2 (frame_stream E w both ret pbs W @ z) = te_v2 E"
  using frame_hdr_fields(1) [OF assms] ex_hdr_word_bits(4)
  by (cases "use_ex_hdr E (te_infos E ! w)") (auto simp: frame_v2_def frame_stream_def use_ex_hdr_def)

lemma tinv_start:
  assumes m: "rp_term_data_buf_malloc W = (Some b, W')" and o: "own W S" and n: "4 < w_pds W"
  shows "tinv v2 [] [b] S \<lparr>tb_terms = [rp_data_buf_data b], tb_size = 0, tb_sizes = szs\<rparr> W'"
    "x \<in> S \<Longrightarrow> blk W' x = blk W x"
proof -
  note om = own_malloc [OF m o]
  have "w_pds W' = w_pds W" using rp_term_data_buf_malloc_ok(1) [OF m] same_but_poolD by blast
  with om n show "tinv v2 [] [b] S \<lparr>tb_terms = [rp_data_buf_data b], tb_size = 0, tb_sizes = szs\<rparr> W'"
    by (simp add: tinv_def tb_packets_def unpack_def marked_def)
  show "x \<in> S \<Longrightarrow> blk W' x = blk W x" using om by simp
qed

definition collect ::
  "term_env \<Rightarrow> nat \<Rightarrow> bool \<Rightarrow> encode_ret \<Rightarrow> term_bufs \<Rightarrow> nwm_world \<Rightarrow> term_bufs term_res" where
  "collect E w both_eyes ret tb W =
     (let info = te_infos E ! w; n = unat (ri (te_core_count E)) in
      tbind (copy_to_terms (te_v2 E) (le16 (frame_hdr E info ret)) tb W)
       (\<lambda>tb W. tbind
         (if use_ex_hdr E info then copy_to_terms (te_v2 E) (le16 (ex_hdr_word E info both_eyes)) tb W
          else Some (True, tb, W))
       (\<lambda>tb W. tbind (each_thread (part_hdr E info w (n - 1)) [0 ..< n] tb W)
       (\<lambda>tb W. each_thread (part_data E w) [0 ..< n] tb W))))"

text \<open>A step of the collection after which the next one goes on.\<close>

lemma tbind_ok:
  assumes a: "\<exists>r tb' W'. res = Some (r, tb', W') \<and> tframe r tb W tb' W' \<and> (r \<longrightarrow> P tb' W')"
    and b: "\<And>tb' W'. tframe True tb W tb' W' \<Longrightarrow> P tb' W' \<Longrightarrow>
      \<exists>r tb'' W''. f tb' W' = Some (r, tb'', W'') \<and> tframe r tb' W' tb'' W'' \<and> (r \<longrightarrow> Q tb'' W'')"
  shows "\<exists>r tb' W'. tbind res f = Some (r, tb', W') \<and> tframe r tb W tb' W' \<and> (r \<longrightarrow> Q tb' W')"
proof -
  obtain r tb1 W1 where r: "res = Some (r, tb1, W1)" "tframe r tb W tb1 W1" "r \<longrightarrow> P tb1 W1" using a by blast
  show ?thesis
  proof (cases r)
    case False
    with r have "tbind res f = Some (False, tb1, W1)" "tframe False tb W tb1 W1" by (simp_all add: tbind_def)
    then show ?thesis by blast
  next
    case True
    with r have fr: "tframe True tb W tb1 W1" "P tb1 W1" by auto
    from b [OF fr] obtain r' tb2 W2 where g: "f tb1 W1 = Some (r', tb2, W2)" "tframe r' tb1 W1 tb2 W2" "r' \<longrightarrow> Q tb2 W2"
      by blast
    have "tframe r' tb W tb2 W2" using r(2) g(2) True by (auto simp: tframe_def intro: reset_rule_trans)
    with r g True show ?thesis by (simp add: tbind_def)
  qed
qed

lemma concat_len:
  assumes "\<And>i. i < n \<Longrightarrow> length (f i) \<le> (m :: nat)"
  shows "length (concat (map f [0 ..< n])) \<le> n * m"
proof -
  have "sum_list (map (\<lambda>i. length (f i)) [0 ..< n]) \<le> sum_list (map (\<lambda>i. m) [0 ..< n])"
    using assms by (intro sum_list_mono) auto
  then show ?thesis by (simp add: length_concat comp_def sum_list_triv)
qed

lemma collect_ok:
  assumes ok: "frame_ok E w ret pbs W"
    and t: "tinv (te_v2 E) [] bs (set pbs) tb W" and ls: "length (tb_sizes tb) = 3"
  shows "\<exists>r tb' W'. collect E w both ret tb W = Some (r, tb', W') \<and> tframe r tb W tb' W'
     \<and> (r \<longrightarrow> (\<exists>bs. tinv (te_v2 E) (frame_stream E w both ret pbs W) bs {} tb' W'))"
proof -
  let ?info = "te_infos E ! w" and ?n = "length pbs" and ?v = "te_v2 E"
  let ?h = "le16 (frame_hdr E ?info ret)"
  let ?e = "if use_ex_hdr E ?info then le16 (ex_hdr_word E ?info both) else []"
  let ?ws = "concat (map le16 (frame_words E w pbs W))"
  have f: "unat (ri (te_core_count E)) = ?n" "?n \<le> 3" "22 \<le> w_pds W" "parts_ok w pbs W"
    using ok by (auto simp: frame_ok_def Let_def)
  have cap: "10 + 3 * w_pds W \<le> tcap ?v V" if "w_pds V = w_pds W" for V
    using f(3) cont_hdr_le [of ?v] that by (simp add: tcap_def)
  have le: "length ?e \<le> 2" by simp
  have keep: "parts_ok w pbs V \<and> (\<forall>i < ?n. part_size V (pbs ! i) = part_size W (pbs ! i) \<and> part_bytes V (pbs ! i) = part_bytes W (pbs ! i))"
    if "\<forall>x \<in> set pbs. blk V x = blk W x" "w_terms V = w_terms W" "w_pds V = w_pds W" for V
  proof -
    have "part_size V (pbs ! i) = part_size W (pbs ! i) \<and> part_bytes V (pbs ! i) = part_bytes W (pbs ! i)"
      if "i < ?n" for i
      using part_same_blk [of V "pbs ! i" W] f(4) that \<open>\<forall>x \<in> set pbs. blk V x = blk W x\<close> \<open>w_pds V = w_pds W\<close>
      by (auto simp: parts_ok_def)
    with f(4) that show ?thesis by (auto simp: parts_ok_def)
  qed
  let ?same = "\<lambda>V. (\<forall>x \<in> set pbs. blk V x = blk W x) \<and> w_terms V = w_terms W \<and> w_pds V = w_pds W"
  have s1: "\<exists>r tb' W'. copy_to_terms ?v ?h tb W = Some (r, tb', W') \<and> tframe r tb W tb' W'
     \<and> (r \<longrightarrow> (\<exists>bs. tinv ?v ?h bs (set pbs) tb' W') \<and> ?same W' \<and> length (tb_sizes tb') = 3)"
    using copy_ok [OF t, of ?h] cap [of W] ls by (fastforce simp: tcopied_def tframe_def)
  show ?thesis unfolding collect_def Let_def f(1)
  proof (rule tbind_ok [OF s1], goal_cases)
    case (1 tb1 W1)
    then obtain bs1 where t1: "tinv ?v ?h bs1 (set pbs) tb1 W1" "?same W1" "length (tb_sizes tb1) = 3" by blast
    have s2: "\<exists>r tb' W'. (if use_ex_hdr E ?info then copy_to_terms ?v (le16 (ex_hdr_word E ?info both)) tb1 W1
          else Some (True, tb1, W1)) = Some (r, tb', W') \<and> tframe r tb1 W1 tb' W'
     \<and> (r \<longrightarrow> (\<exists>bs. tinv ?v (?h @ ?e) bs (set pbs) tb' W') \<and> ?same W' \<and> length (tb_sizes tb') = 3)"
    proof (cases "use_ex_hdr E ?info")
      case True
      with copy_ok [OF t1(1), of ?e] cap [of W1] t1 show ?thesis by (fastforce simp: tcopied_def tframe_def)
    next
      case False
      with t1 show ?thesis by (auto simp: tframe_def reset_rule_def)
    qed
    show ?case
    proof (rule tbind_ok [OF s2], goal_cases)
      case (1 tb2 W2)
      then obtain bs2 where t2: "tinv ?v (?h @ ?e) bs2 (set pbs) tb2 W2" "?same W2" "length (tb_sizes tb2) = 3" by blast
      note k2 = keep [of W2]
      have cap2: "length (?h @ ?e) + 2 * (?n - 0) \<le> tcap ?v W2" using cap [of W2] t2(2) f le by simp
      have lw: "?n \<le> length (tb_sizes tb2)" using f(2) t2(3) by simp
      have po2: "parts_ok w pbs W2" using k2 t2(2) by blast
      have wmap: "map (\<lambda>i. le16 (part_word (part_size W2 (pbs ! i)) (part_rows ?info (?n - 1) i))) [0 ..< ?n]
          = map le16 (frame_words E w pbs W)"
        using k2 t2(2) by (simp add: frame_words_def)
      have s3: "\<exists>r tb' W'. each_thread (part_hdr E ?info w (?n - 1)) [0 ..< ?n] tb2 W2 = Some (r, tb', W') \<and> tframe r tb2 W2 tb' W'
        \<and> (r \<longrightarrow> (\<exists>bs. tinv ?v ((?h @ ?e) @ ?ws) bs (set pbs) tb' W') \<and> ?same W'
             \<and> (\<forall>i < ?n. tb_sizes tb' ! i = part_size W (pbs ! i)))"
        using part_hdrs_ok [OF t2(1) po2 lw le0 cap2, of ?info "?n - 1", unfolded wmap] t2(2) k2
        by (fastforce simp: tframe_def)
      show ?case
      proof (rule tbind_ok [OF s3], goal_cases)
        case (1 tb3 W3)
        then obtain bs3 where t3: "tinv ?v ((?h @ ?e) @ ?ws) bs3 (set (drop 0 pbs)) tb3 W3" "?same W3"
            "\<forall>i < ?n. tb_sizes tb3 ! i = part_size W (pbs ! i)" by auto
        note k3 = keep [of W3]
        have ro: "rest_ok w pbs 0 tb3 W3"
          using k3 t3(2,3) f(4) by (auto simp: rest_ok_def parts_ok_def)
        have dm: "map (\<lambda>i. part_bytes W3 (pbs ! i)) [0 ..< ?n] = map (\<lambda>i. part_bytes W (pbs ! i)) [0 ..< ?n]"
          using k3 t3(2) by simp
        have "length (part_bytes W (pbs ! i)) \<le> w_pds W" if "i < ?n" for i
          using f(4) that by (simp add: part_bytes_def parts_ok_def)
        then have "length (concat (map (\<lambda>i. part_bytes W (pbs ! i)) [0 ..< ?n])) \<le> ?n * w_pds W"
          by (rule concat_len)
        moreover have "?n * w_pds W \<le> 3 * w_pds W" using f(2) by (rule mult_le_mono1)
        moreover have "length ?ws = 2 * ?n"
          by (simp add: frame_words_def length_concat comp_def sum_list_triv)
        ultimately have cap3: "length ((?h @ ?e) @ ?ws) + length (concat (map (\<lambda>i. part_bytes W3 (pbs ! i)) [0 ..< ?n])) \<le> tcap ?v W3"
          using cap [of W3] t3(2) f(2) le unfolding dm length_append length_codecs by linarith
        show ?case
          using parts_data_ok [OF t3(1) ro le0 cap3, unfolded dm] by (simp add: frame_stream_def)
      qed
    qed
  qed
qed


text \<open>The result of a finished frame: the packets that have joined the queue.\<close>

definition frame_queued :: "nat \<Rightarrow> nwm_world \<Rightarrow> released list \<Rightarrow> bool" where
  "frame_queued w W qs \<longleftrightarrow>
     qs \<noteq> [] \<and> length qs \<le> 4
   \<and> map rel_size qs = replicate (length qs - 1) (term_size_word (w_pds W) False) @ [term_size_word (w_pds W) True]
   \<and> (\<forall>q \<in> set qs. take 2 (rel_bytes q) = le16 (term_packet_hdr w))"

lemma send_term_dsts_ok:
  assumes ok: "frame_ok E w ret pbs W"
  shows "\<exists>r W'. send_term_dsts E w both ret W = Some (r, W') \<and> reset_rule W r W'
     \<and> (w_reset W \<longrightarrow> w_relq W' = w_relq W)
     \<and> (\<not> w_reset W' \<longrightarrow> (\<exists>qs. w_relq W' = w_relq W @ qs \<and> frame_queued w W qs
           \<and> parse_frame (map (drop 2 \<circ> rel_bytes) qs) = Some (frame_of E w both ret pbs W)))"
proof -
  let ?n = "w_pds W"
  have f: "0 < length pbs" "unat (ri (te_core_count E)) = length pbs" "own W (set pbs)" "parts_ok w pbs W"
    "22 \<le> ?n" "?n < 2 ^ 15"
  proof -
    from ok show "0 < length pbs" unfolding frame_ok_def Let_def by blast
  qed (use ok in \<open>auto simp: frame_ok_def Let_def\<close>)
  have nz: "w_terms W w 0 \<noteq> 0" using f(1,4) by (auto simp: parts_ok_def rp_data_buf_data_eq)
  obtain r1 W1 where w: "wait_syn W = (r1, W1)" by (cases "wait_syn W")
  have e1: "same_but_env W W1" using wait_syn_env [of W] w by simp
  have rr1: "reset_rule W r1 W1" by (rule wait_syn_resetD [OF w])
  note g1 = same_but_envD [OF e1] own_env [OF e1 f(3)]
  show ?thesis
  proof (cases r1)
    case False
    with w nz rr1 g1 show ?thesis by (auto simp: send_term_dsts_def reset_rule_def)
  next
    case True
    then have nr: "\<not> w_reset W" using wait_syn_ok [of W W1] w by simp
    obtain m W2 where m: "rp_term_data_buf_malloc W1 = (m, W2)" by (cases "rp_term_data_buf_malloc W1")
    have rr2: "reset_rule W1 (m \<noteq> None) W2" by (rule rp_term_data_buf_malloc_reset [OF m])
    show ?thesis
    proof (cases m)
      case None
      with True w nz m rr1 rr2 nr show ?thesis by (auto simp: send_term_dsts_def reset_rule_def)
    next
      case (Some b)
      have gt4: "4 < w_pds W1" using f(5) g1(4) by simp
      let ?tb = "\<lparr>tb_terms = [rp_data_buf_data b], tb_size = 0, tb_sizes = replicate (unat RP_CORE_COUNT_MAX) 0\<rparr>"
      note st = tinv_start(1) [OF m [unfolded Some] g1(7) gt4, of "te_v2 E" "replicate (unat RP_CORE_COUNT_MAX) 0"]
        tinv_start(2) [OF m [unfolded Some] g1(7) gt4]
      have P2: "w_pds W2 = ?n" "w_relq W2 = w_relq W" "w_terms W2 = w_terms W"
        using same_but_poolD [OF rp_term_data_buf_malloc_ok(1) [OF m [unfolded Some]]] g1 by auto
      have bl: "\<forall>x \<in> set pbs. blk W2 x = blk W x" using st(2) g1(8) by simp
      have same: "part_size W2 (pbs ! i) = part_size W (pbs ! i) \<and> part_bytes W2 (pbs ! i) = part_bytes W (pbs ! i)"
        if "i < length pbs" for i
        using part_same_blk [of W2 "pbs ! i" W] bl P2 f(4) that by (auto simp: parts_ok_def)
      have ok2: "frame_ok E w ret pbs W2"
      proof -
        have "own W2 (set pbs)" using st(1) by (auto simp: tinv_def intro: own_mono)
        moreover have "parts_ok w pbs W2" using f(4) same P2 by (auto simp: parts_ok_def)
        ultimately show ?thesis using ok unfolding frame_ok_def Let_def P2(1) by blast
      qed
      have strm: "frame_of E w both ret pbs W2 = frame_of E w both ret pbs W"
        using same by (simp add: frame_of_def Let_def)
      have l3: "length (tb_sizes ?tb) = 3" by (simp add: RP_CORE_COUNT_MAX_def)
      obtain r tb W3 where c: "collect E w both ret ?tb W2 = Some (r, tb, W3)" "tframe r ?tb W2 tb W3"
          "r \<longrightarrow> (\<exists>bs. tinv (te_v2 E) (frame_stream E w both ret pbs W2) bs {} tb W3)"
        using collect_ok [OF ok2 st(1) l3] by blast
      have eq: "send_term_dsts E w both ret W =
          (if r then Some (send_terms w 0 tb (tb_terms tb) W3) else Some (False, W3))"
        using nz w True m Some c(1)
        by (simp add: send_term_dsts_def collect_def Let_def)
      have rr3: "reset_rule W r W3" using rr1 rr2 True Some c(2) by (auto simp: reset_rule_def tframe_def)
      show ?thesis
      proof (cases r)
        case False
        with eq rr3 nr show ?thesis by (auto simp: reset_rule_def)
      next
        case True
        then obtain bs where t: "tinv (te_v2 E) (frame_stream E w both ret pbs W2) bs {} tb W3" using c(3) by blast
        obtain q W' where s: "send_terms w 0 tb (tb_terms tb) W3 = (q, W')"
          by (cases "send_terms w 0 tb (tb_terms tb) W3")
        have rr: "reset_rule W q W'" using send_terms_mono [OF s] rr3 True by (auto simp: reset_rule_def)
        have P3: "w_pds W3 = ?n" "w_relq W3 = w_relq W" using c(2) P2 by (auto simp: tframe_def)
        have fin: "\<exists>qs. w_relq W' = w_relq W @ qs \<and> frame_queued w W qs
           \<and> parse_frame (map (drop 2 \<circ> rel_bytes) qs) = Some (frame_of E w both ret pbs W)"
          if nr': "\<not> w_reset W'"
        proof -
          have q: q using rr nr' by (auto simp: reset_rule_def)
          obtain qs where qs: "w_relq W' = w_relq W @ qs"
              "map rel_bytes qs = map ((@) (le16 (term_packet_hdr w))) (padded ?n (tb_packets tb W3))"
              "map rel_size qs = replicate (length bs - 1) (term_size_word ?n False) @ [term_size_word ?n True]"
            using send_terms_all [OF t P3(1) [symmetric] f(6) s [unfolded eqTrueI [OF q]] nr'] P3(2) by auto
          have lq: "length qs = length bs"
            using arg_cong [OF qs(3), of length] t by (cases bs) (auto simp: tinv_def)
          have fq: "frame_queued w W qs"
          proof -
            have "take 2 (rel_bytes x) = le16 (term_packet_hdr w)" if "x \<in> set qs" for x
            proof -
              have "rel_bytes x \<in> set (map rel_bytes qs)" using that by simp
              then show ?thesis unfolding qs(2) by auto
            qed
            with t qs(3) lq show ?thesis by (auto simp: frame_queued_def tinv_def)
          qed
          have pl: "map (drop 2 \<circ> rel_bytes) qs = padded ?n (tb_packets tb W3)"
          proof -
            have "map (drop 2 \<circ> rel_bytes) qs = map (drop 2) (map rel_bytes qs)" by simp
            also have "\<dots> = padded ?n (tb_packets tb W3)" unfolding qs(2) by (simp add: comp_def)
            finally show ?thesis .
          qed
          let ?pk = "tb_packets tb W3" and ?z = "replicate (?n - length (last (tb_packets tb W3))) (0 :: u8)"
          have pk: "?pk = butlast ?pk @ [last ?pk]" by (simp add: tb_packets_def)
          have cnt: "butlast ?pk \<noteq> [] \<Longrightarrow> length (cont_hdr (te_v2 E)) \<le> length (last ?pk)"
            using t by (cases bs) (auto simp: tb_packets_def tinv_def)
          have un: "unpack (te_v2 E) (padded ?n ?pk) = frame_stream E w both ret pbs W2 @ ?z"
            using unpack_extend [OF cnt, of "butlast ?pk" ?z] pk t by (simp add: padded_def tinv_def)
          have hd: "hd (padded ?n ?pk) = take ?n (unpack (te_v2 E) (padded ?n ?pk))"
          proof -
            have "length (hd (padded ?n ?pk)) = ?n"
            proof (cases "butlast ?pk")
              case Nil
              then show ?thesis using t P3(1) by (auto simp: padded_def tb_packets_def tinv_def)
            next
              case (Cons a as)
              then have "a \<in> set (butlast ?pk)" by simp
              then show ?thesis using P3(1) Cons by (auto simp: padded_def tb_packets_def)
            qed
            then show ?thesis by (simp add: unpack_def)
          qed
          have "frame_v2 (hd (padded ?n ?pk)) = te_v2 E"
          proof -
            have four: "4 \<le> ?n" using f(5) by simp
            show ?thesis by (simp only: hd un frame_v2_prefix [OF four] frame_v2_stream [OF ok2])
          qed
          then have "parse_frame (map (drop 2 \<circ> rel_bytes) qs) = Some (frame_of E w both ret pbs W)"
            using parse_frame_stream [OF ok2] by (simp add: parse_frame_def pl un strm)
          with qs(1) fq show ?thesis by blast
        qed
        show ?thesis using eq s True rr nr fin by auto
      qed
    qed
  qed
qed


section \<open>Properties\<close>

lemma term_packets_total: "frame_ok E w ret pbs W \<Longrightarrow> \<exists>x. send_term_dsts E w both ret W = Some x"
  using send_term_dsts_ok by blast

text \<open>C18: the collection of the remainders never runs out of its four buffers: whatever the kernel answers, the
  end of a frame does not panic.\<close>
theorem term_packets_no_panic:
  assumes "frame_ok E w ret pbs W"
  shows "send_term_dsts E w both ret W \<noteq> None"
  using send_term_dsts_ok [OF assms] by fastforce

text \<open>C4: when the frame has been handed over without a reset, a receiver that reads the queued packets in order
  gets back the quality, the geometry and flags of the frame and, for every thread, its share of rows and exactly
  the bytes that the thread had left in its last buffer; only the last packet carries the end mark.\<close>
theorem term_packets_roundtrip:
  assumes "frame_ok E w ret pbs W" "send_term_dsts E w both ret W = Some (r, W')" "\<not> w_reset W'"
  shows "\<exists>qs. w_relq W' = w_relq W @ qs \<and> frame_queued w W qs
     \<and> parse_frame (map (drop 2 \<circ> rel_bytes) qs) = Some (frame_of E w both ret pbs W)"
  using send_term_dsts_ok [OF assms(1), of both] assms(2,3) by auto


section \<open>An example frame\<close>

text \<open>Two threads with remainders of fifteen and two bytes in a pool of four blocks of 80 bytes.\<close>

definition term_ex_mem :: mem where
  "term_ex_mem = wr (80 + 50) (le32 15 @ [1, 2, 3, 4, 5, 6, 7, 8, 9, 10, 11, 12, 13, 14, 15]) (wr (160 + 50) (le32 2 @ [16, 17]) (\<lambda>_. 0))"

definition term_ex_world :: "i32 list \<Rightarrow> nwm_world" where
  "term_ex_world waits =
     \<lparr>w_mem = term_ex_mem, w_waits = waits, w_rels = [0, 0], w_reset = False,
      w_pool = \<lparr>mp_bs = 80, mp_ul_bc = 2, mp_b = 0, mp_ul_b = 240, mp_bc = 4, mp_m = 80\<rparr>,
      w_ninfo = (\<lambda>_ _. \<lparr>ni_buf = 0, buf_packet_last = 0, ni_info = \<lparr>send_pos = 0, pos = 0, flag = 0\<rparr>\<rparr>),
      w_relq = [], w_terms = (\<lambda>_ t. if t = 0 then 134 else if t = 1 then 214 else 0), w_fsize = (\<lambda>_. 0),
      w_dqsize = (\<lambda>_ _. 0), w_pds = 22\<rparr>"

definition term_ex_env :: term_env where
  "term_ex_env =
     \<lparr>te_v2 = True, te_delta_prog = False, te_full = True, te_core_count = \<lparr>ri = 2\<rparr>,
      te_downsample = [0, 0], te_chroma_ss = [2, 1],
      te_infos = [\<lparr>ti_is_top = True, ti_core_count = \<lparr>ri = 2\<rparr>, ti_v_adjusted = 13,
                   ti_v_last_adjusted = 12, ti_even_odd = False\<rparr>]\<rparr>"


abbreviation term_ex :: nwm_world where "term_ex \<equiv> term_ex_world [0, 0, 0, 0, 0]"

lemma term_ex_ok: "frame_ok term_ex_env 0 (JpegRet 90 100) [80, 160] (term_ex_world ws)"
proof -
  let ?W = "term_ex_world ws"
  have p: "pool_inv (w_mem ?W) (w_pool ?W) [] {80, 160}"
    by (auto simp: pool_inv_def term_ex_world_def block_def lessThan_nat_numeral lessThan_Suc)
  then have "pool_ok (w_mem ?W, w_pool ?W) {80, 160}" by (auto simp: pool_ok_def)
  then have "own ?W {80, 160}" by (auto simp: own_def blk_size_def term_ex_world_def)
  moreover have "part_size ?W 80 = 15" "part_size ?W 160 = 2"
    by (simp_all add: part_size_def rp_data_buf_data_eq term_ex_world_def term_ex_mem_def rd32_le_def le32_def mem_simps)
  ultimately show ?thesis
    by (simp add: frame_ok_def term_ex_env_def parts_ok_def term_ex_world_def rp_data_buf_data_eq less_Suc_eq
        quality_field_def is_top_index_def term_downsample_def numeral_2_eq_2 [symmetric])
qed

lemma wait_syn_go: "\<not> w_reset W \<Longrightarrow> w_waits W = 0 # rs \<Longrightarrow> wait_syn W = (True, W\<lparr>w_waits := rs\<rparr>)"
  by (subst wait_syn.simps) (simp add: wait_syn_ns_def)

lemma malloc_go:
  assumes "\<not> w_reset W" "w_waits W = 0 # rs" "0 < mp_ul_bc (w_pool W)" "mp_ul_b (w_pool W) \<noteq> 0"
  shows "rp_term_data_buf_malloc W = (Some (mp_ul_b (w_pool W)), W\<lparr>w_waits := rs, w_pool := (w_pool W)
     \<lparr>mp_ul_bc := mp_ul_bc (w_pool W) - 1, mp_ul_b := mp_ul_b (w_pool W) + mp_bs (w_pool W)\<rparr>\<rparr>)"
  using assms by (simp add: rp_term_data_buf_malloc_def wait_syn_go mp_malloc_def)

lemma copy_go:
  assumes "length dat \<le> w_pds W - tb_size tb"
  shows "copy_to_terms v2 dat tb W = Some (True, tb\<lparr>tb_size := tb_size tb + length dat\<rparr>, term_write dat tb W)"
  using assms by (subst copy_to_terms.simps) (auto simp: term_write_def)

lemma copy_more:
  assumes "w_pds W - tb_size tb < length dat" "\<not> w_reset W" "w_waits W = 0 # rs" "0 < mp_ul_bc (w_pool W)"
    "mp_ul_b (w_pool W) \<noteq> 0" "length (tb_terms tb) < 4"
  shows "copy_to_terms v2 dat tb W = copy_to_terms v2 (drop (w_pds W - tb_size tb) dat)
     (term_extend v2 (mp_ul_b (w_pool W)) tb)
     (term_mark v2 (mp_ul_b (w_pool W)) ((term_write (take (w_pds W - tb_size tb) dat) tb W)
        \<lparr>w_waits := rs, w_pool := (w_pool W)\<lparr>mp_ul_bc := mp_ul_bc (w_pool W) - 1,
           mp_ul_b := mp_ul_b (w_pool W) + mp_bs (w_pool W)\<rparr>\<rparr>))"
  using assms by (subst copy_to_terms.simps)
    (auto simp: term_write_def malloc_go Let_def RP_CORE_COUNT_MAX_def term_extend_def term_mark_def)

lemma seg_free_go:
  "\<not> w_reset W \<Longrightarrow> w_waits W = 0 # rs \<Longrightarrow> rp_seg_data_buf_free d W =
     (True, W\<lparr>w_waits := rs, w_mem := wr (d - 52) (le32 (of_nat (mp_b (w_pool W)))) (w_mem W),
        w_pool := (w_pool W)\<lparr>mp_b := d - 52\<rparr>\<rparr>)"
  by (simp add: rp_seg_data_buf_free_def rp_data_buf_free_def rp_term_data_buf_free_base_def wait_syn_go mp_free_def nwm_consts)

lemma syn_rel_go:
  "\<not> w_reset W \<Longrightarrow> w_rels W = 0 # rs \<Longrightarrow> syn_rel p W =
     (True, W\<lparr>w_rels := rs, w_relq := w_relq W @ [packet_at (w_mem W) p]\<rparr>)"
  by (simp add: syn_rel_def)

lemma term_ex_sent:
  "\<exists>W'. send_term_dsts term_ex_env 0 True (JpegRet 90 100) term_ex = Some (True, W') \<and> \<not> w_reset W'"
  unfolding send_term_dsts_def Let_def
  by (simp add: term_ex_world_def wait_syn_go malloc_go rp_data_buf_data_eq copy_go RP_CORE_COUNT_MAX_def,
      simp add: tbind_def term_ex_env_def use_ex_hdr_def copy_go part_hdr_def Let_def upt_rec term_write_def,
      simp add: term_ex_mem_def mem_simps rd32_le_def le32_def part_data_def upt_rec copy_go Let_def
        term_write_def tbind_def copy_more seg_free_go term_extend_def term_mark_def cont_hdr_def,
      simp add: send_term_def syn_rel_go Let_def)

theorem term_packets_no_panic_witness:
  "send_term_dsts term_ex_env 0 True (JpegRet 90 100) (term_ex_world [0, RES_TIMEOUT, 0]) \<noteq> None"
  by (rule term_packets_no_panic [OF term_ex_ok])

theorem term_packets_roundtrip_witness:
  "\<exists>W' qs. send_term_dsts term_ex_env 0 True (JpegRet 90 100) term_ex = Some (True, W') \<and> w_relq W' = qs
     \<and> (\<exists>f. parse_frame (map (drop 2 \<circ> rel_bytes) qs) = Some f \<and> pf_quality f = 90 \<and> pf_cores f = 2 \<and> pf_both f)"
proof -
  obtain W' where s: "send_term_dsts term_ex_env 0 True (JpegRet 90 100) term_ex = Some (True, W')" "\<not> w_reset W'"
    using term_ex_sent by blast
  from term_packets_roundtrip [OF term_ex_ok s] have
    "parse_frame (map (drop 2 \<circ> rel_bytes) (w_relq W')) = Some (frame_of term_ex_env 0 True (JpegRet 90 100) [80, 160] term_ex)"
    by (auto simp: term_ex_world_def)
  with s(1) show ?thesis
    by (simp add: frame_of_def quality_field_def full_width_def term_ex_env_def Let_def)
qed


end
