(* ===== verification/Screen_Sched.thy ===== *)
theory Screen_Sched
  imports Row_Split
begin

text \<open>
  The choice of the next screen to send (\<open>init\<close> of \<^verbatim>\<open>entries/thread_screen/vars.rs\<close>, \<open>do_screen\<close> of
  \<^verbatim>\<open>entries/thread_screen/safe_impl.rs\<close>). Without a game the screens are counted out, with one they are
  queued in fixed point and taken when the game has signalled a new frame. What the loop of \<open>do_screen\<close> reads
  in one round (the reset flag, the clock, the answers of the kernel) is a \<open>poll\<close>; a call that runs out of
  polls ends in a reset.
\<close>

section \<open>State\<close>

record sched_conf =
  priority_is_top :: bool
  priority_factor :: u32
  priority_factor_scaled :: u32
  frame_counts :: "u32 list"
  frame_queues :: "u32 list"
  frame_timing_allowance :: u32

record screen_state =
  ss_conf :: sched_conf
  ss_full_width :: u32
  ss_no_skip :: "bool list"
  ss_skip_frames :: "bool list"
  ss_work_index :: iranged
  ss_thread_index :: iranged
  ss_work_done_flag :: "bool list"
  ss_signals :: "nat list"

datatype eyes = TLeft | TRight | TBoth

definition top_screen_width :: "screen_state \<Rightarrow> eyes" where
  "top_screen_width S = (if 2 \<le> ss_full_width S then TBoth else if 1 \<le> ss_full_width S then TRight else TLeft)"

definition SCALE_BITS :: nat where "SCALE_BITS = 16"

text \<open>\<open>fix\<close> is applied to integers below 256 only, for which the arithmetic on doubles is exact.\<close>

definition fix_int :: "u32 \<Rightarrow> u32" where
  "fix_int x = push_bit SCALE_BITS x"

definition FRAME_TIMING_FACTOR_DQ :: u32 where "FRAME_TIMING_FACTOR_DQ = 4"

section \<open>Initialisation\<close>

definition set_no_skip_frame :: "bool \<Rightarrow> screen_state \<Rightarrow> screen_state" where
  "set_no_skip_frame is_top S = S\<lparr>ss_no_skip := (ss_no_skip S)[is_top_index is_top := True]\<rparr>"

definition reset_no_skip_frame :: "bool \<Rightarrow> screen_state \<Rightarrow> screen_state" where
  "reset_no_skip_frame is_top S = S\<lparr>ss_no_skip := (ss_no_skip S)[is_top_index is_top := False]\<rparr>"

definition signal_port :: "bool \<Rightarrow> screen_state \<Rightarrow> screen_state" where
  "signal_port is_top S =
     S\<lparr>ss_signals := (ss_signals S)[is_top_index is_top := ss_signals S ! is_top_index is_top + 1]\<rparr>"

definition set_no_skip_frames :: "screen_state \<Rightarrow> screen_state" where
  "set_no_skip_frames S =
     signal_port False (signal_port True (set_no_skip_frame False (set_no_skip_frame True S)))"

text \<open>\<open>sysclock\<close> is the tick rate of the processor.\<close>

definition screen_init :: "u32 \<Rightarrow> bool \<Rightarrow> u32 \<Rightarrow> u32 \<Rightarrow> screen_state \<Rightarrow> screen_state" where
  "screen_init sysclock delta_prog mode full_width S =
     (let S = S\<lparr>ss_full_width := full_width\<rparr>;
          factor = mode AND 0xff;
          conf = (ss_conf S)\<lparr>priority_is_top := (0 < mode AND 0xff00), priority_factor := factor,
                             priority_factor_scaled := fix_int factor\<rparr>;
          S = set_no_skip_frames S;
          conf = conf\<lparr>frame_counts := [1, 1],
                      frame_queues := [priority_factor_scaled conf, priority_factor_scaled conf]\<rparr>;
          S = S\<lparr>ss_skip_frames := [False, False], ss_work_index := \<lparr>ri = 0\<rparr>, ss_thread_index := \<lparr>ri = 0\<rparr>,
                ss_work_done_flag := [False, False]\<rparr>
      in S\<lparr>ss_conf := conf\<lparr>frame_timing_allowance :=
              if delta_prog then sysclock div FRAME_TIMING_FACTOR_DQ else sysclock\<rparr>\<rparr>)"

section \<open>One round of the loop\<close>

record poll =
  po_reset :: bool
  po_game_pid :: u32
  po_elapsed :: u32
  po_sync :: "bool \<Rightarrow> i32"
  po_any :: "i32 \<times> i32"

definition count_step :: "bool \<Rightarrow> sched_conf \<Rightarrow> bool \<times> sched_conf" where
  "count_step is_top conf =
     (if priority_factor conf \<noteq> 0 then
        let s = is_top_index is_top; frame_count = frame_counts conf ! s
        in if priority_factor conf \<le> frame_count
           then (\<not> is_top, conf\<lparr>frame_counts := (frame_counts conf)[s := frame_count - priority_factor conf]\<rparr>)
           else (is_top, conf\<lparr>frame_counts := (frame_counts conf)[s := frame_count + 1]\<rparr>)
      else (is_top, conf))"

definition prio :: "sched_conf \<Rightarrow> bool \<Rightarrow> u32" where
  "prio conf s = (if s = priority_is_top conf then push_bit SCALE_BITS 1 else priority_factor_scaled conf)"

definition queue_of :: "sched_conf \<Rightarrow> bool \<Rightarrow> u32" where
  "queue_of conf b = frame_queues conf ! is_top_index b"

definition set_queue :: "bool \<Rightarrow> u32 \<Rightarrow> sched_conf \<Rightarrow> sched_conf" where
  "set_queue b v conf = conf\<lparr>frame_queues := (frame_queues conf)[is_top_index b := v]\<rparr>"

definition queue_factor :: "sched_conf \<Rightarrow> bool \<Rightarrow> u32" where
  "queue_factor conf b = ucast ((push_bit SCALE_BITS 1 * ucast (queue_of conf b) :: u64) div ucast (prio conf b))"

definition refill :: "sched_conf \<Rightarrow> sched_conf" where
  "refill conf =
     (if queue_factor conf False < push_bit SCALE_BITS 1 \<and> queue_factor conf True < push_bit SCALE_BITS 1
      then let conf = set_queue True (queue_of conf True + priority_factor_scaled conf) conf
           in set_queue False (queue_of conf False + priority_factor_scaled conf) conf
      else conf)"

definition try_dequeue :: "poll \<Rightarrow> bool \<Rightarrow> sched_conf \<Rightarrow> sched_conf option" where
  "try_dequeue p b conf =
     (if prio conf b \<le> queue_of conf b \<and> po_sync p b = 0
      then Some (set_queue b (queue_of conf b - prio conf b) conf) else None)"

text \<open>The screen that was taken, if any, the screen to start the next round with, and the queues.\<close>

definition queue_step :: "poll \<Rightarrow> bool \<Rightarrow> sched_conf \<Rightarrow> bool option \<times> bool \<times> sched_conf" where
  "queue_step p is_top conf =
     (let ft = queue_factor conf is_top; fo = queue_factor conf (\<not> is_top);
          conf = refill conf;
          is_top = (if fo \<le> ft then is_top else \<not> is_top)
      in case try_dequeue p is_top conf of Some conf \<Rightarrow> (Some is_top, is_top, conf)
         | None \<Rightarrow>
           (case try_dequeue p (\<not> is_top) conf of Some conf \<Rightarrow> (Some (\<not> is_top), \<not> is_top, conf)
            | None \<Rightarrow>
              if fst (po_any p) = 0
              then let s = (snd (po_any p) = of_nat RP_SCREEN_TOP)
                   in (Some s, s, set_queue s (if prio conf s \<le> queue_of conf s then queue_of conf s - prio conf s else 0) conf)
              else (None, is_top, conf)))"

section \<open>The loop\<close>

text \<open>The screen that is chosen and whether its vertical blank is waited for.\<close>

fun choose_screen :: "poll list \<Rightarrow> bool \<Rightarrow> screen_state \<Rightarrow> (bool \<times> bool) option \<times> screen_state" where
  "choose_screen [] is_top S = (None, S)"
| "choose_screen (p # ps) is_top S =
     (if po_reset p then (None, S)
      else if po_game_pid p = 0 then
        let (is_top, conf) = count_step is_top (ss_conf S) in (Some (is_top, True), S\<lparr>ss_conf := conf\<rparr>)
      else if frame_timing_allowance (ss_conf S) \<le> po_elapsed p then (Some (is_top, True), set_no_skip_frame is_top S)
      else if priority_factor (ss_conf S) = 0 then
        if po_sync p is_top = 0 then (Some (is_top, False), S) else choose_screen ps is_top S
      else
        let (r, is_top, conf) = queue_step p is_top (ss_conf S); S = S\<lparr>ss_conf := conf\<rparr>
        in (case r of Some s \<Rightarrow> (Some (s, False), S) | None \<Rightarrow> choose_screen ps is_top S))"

text \<open>The choices of successive calls of \<open>do_screen\<close>, each with the polls it sees.\<close>

fun picks :: "poll list list \<Rightarrow> screen_state \<Rightarrow> bool list" where
  "picks [] S = []"
| "picks (ps # pss) S =
     (case choose_screen ps (priority_is_top (ss_conf S)) S of
        (None, S) \<Rightarrow> []
      | (Some (s, _), S) \<Rightarrow> s # picks pss S)"


section \<open>The invariant of the schedule\<close>

lemma unat_ucast_mod_32: "unat (ucast (x :: u64) :: u32) = unat x mod 2 ^ 32"
  by (simp add: unsigned_ucast_eq take_bit_eq_mod)

definition queues_ok :: "sched_conf \<Rightarrow> bool" where
  "queues_ok conf \<longleftrightarrow> (\<forall>b. unat (queue_of conf b) < unat (prio conf b) + unat (priority_factor_scaled conf))"

definition sched_ok :: "sched_conf \<Rightarrow> bool" where
  "sched_ok conf \<longleftrightarrow>
     unat (priority_factor conf) \<le> 255 \<and> priority_factor_scaled conf = fix_int (priority_factor conf)
   \<and> length (frame_counts conf) = 2 \<and> length (frame_queues conf) = 2
   \<and> (priority_factor conf \<noteq> 0 \<longrightarrow>
        unat (frame_counts conf ! is_top_index (priority_is_top conf)) \<le> unat (priority_factor conf)
      \<and> queues_ok conf)"

lemma sched_ok_queue:
  "sched_ok conf \<Longrightarrow> priority_factor conf \<noteq> 0 \<Longrightarrow>
     unat (queue_of conf b) < unat (prio conf b) + unat (priority_factor_scaled conf)"
  unfolding sched_ok_def queues_ok_def by blast

text \<open>No frame can be paid.\<close>

definition broke :: "sched_conf \<Rightarrow> bool" where
  "broke conf \<longleftrightarrow> (\<forall>c. unat (queue_of conf c) < unat (prio conf c))"

definition same_prio :: "sched_conf \<Rightarrow> sched_conf \<Rightarrow> bool" where
  "same_prio conf conf' \<longleftrightarrow>
     priority_is_top conf' = priority_is_top conf \<and> priority_factor conf' = priority_factor conf
   \<and> priority_factor_scaled conf' = priority_factor_scaled conf
   \<and> frame_timing_allowance conf' = frame_timing_allowance conf"

lemma is_top_index_less [simp]: "is_top_index b < 2" "is_top_index b < Suc (Suc 0)"
  by (simp_all add: is_top_index_def)

lemma is_top_index_inj [simp]: "is_top_index a = is_top_index b \<longleftrightarrow> a = b"
  by (simp add: is_top_index_def)

lemma queue_set [simp]:
  assumes "length (frame_queues conf) = 2"
  shows "queue_of (set_queue b v conf) c = (if c = b then v else queue_of conf c)"
  using assms by (simp add: queue_of_def set_queue_def nth_list_update)

lemma set_queue_simps [simp]:
  "length (frame_queues (set_queue b v conf)) = length (frame_queues conf)"
  "frame_counts (set_queue b v conf) = frame_counts conf"
  "priority_is_top (set_queue b v conf) = priority_is_top conf"
  "priority_factor (set_queue b v conf) = priority_factor conf"
  "priority_factor_scaled (set_queue b v conf) = priority_factor_scaled conf"
  "frame_timing_allowance (set_queue b v conf) = frame_timing_allowance conf"
  "prio (set_queue b v conf) = prio conf"
  by (simp_all add: set_queue_def prio_def fun_eq_iff)

lemma one_scaled: "unat (push_bit SCALE_BITS 1 :: u32) = 65536" "unat (push_bit SCALE_BITS 1 :: u64) = 65536"
    "unat (2 ^ SCALE_BITS :: u32) = 65536"
  by (simp_all add: SCALE_BITS_def)

lemma scaled_unat:
  assumes "sched_ok conf"
  shows "unat (priority_factor_scaled conf) = unat (priority_factor conf) * 65536"
  using assms unfolding sched_ok_def fix_int_def SCALE_BITS_def
  by (simp add: push_bit_eq_mult unat_word_ariths)

lemma prio_unat:
  assumes "sched_ok conf" "priority_factor conf \<noteq> 0"
  shows "unat (prio conf (priority_is_top conf)) = 65536"
    "unat (prio conf (\<not> priority_is_top conf)) = unat (priority_factor conf) * 65536"
    "0 < unat (prio conf b)" "unat (prio conf b) \<le> 255 * 65536"
proof -
  have f: "0 < unat (priority_factor conf)" "unat (priority_factor conf) \<le> 255"
    using assms by (auto simp: sched_ok_def unat_gt_0)
  show "unat (prio conf (priority_is_top conf)) = 65536" by (simp add: prio_def one_scaled)
  show "unat (prio conf (\<not> priority_is_top conf)) = unat (priority_factor conf) * 65536"
    using scaled_unat [OF assms(1)] by (simp add: prio_def)
  show "0 < unat (prio conf b)" "unat (prio conf b) \<le> 255 * 65536"
    using scaled_unat [OF assms(1)] f unfolding prio_def by (simp_all add: one_scaled)
qed

text \<open>The ratio of a queue to its price is computed without loss, so it tells whether a frame can be paid.\<close>

lemma queue_factor_less:
  assumes "sched_ok conf" "priority_factor conf \<noteq> 0"
  shows "queue_factor conf b < push_bit SCALE_BITS 1 \<longleftrightarrow> unat (queue_of conf b) < unat (prio conf b)"
proof -
  let ?q = "unat (queue_of conf b)" and ?p = "unat (prio conf b)"
  have q: "?q < ?p + unat (priority_factor conf) * 65536"
    using sched_ok_queue [OF assms, of b] scaled_unat [OF assms(1)] by simp
  have p: "0 < ?p" "?p \<le> 255 * 65536" by (rule prio_unat [OF assms])+
  have f: "unat (priority_factor conf) \<le> 255" using assms by (simp add: sched_ok_def)
  have small: "?q < 2 ^ 26" using q p f by simp
  have m: "unat (push_bit SCALE_BITS 1 * ucast (queue_of conf b) :: u64) = 65536 * ?q"
    using small one_scaled(2) by (subst unat_mult_no_wrap) (simp_all add: unat_ucast_up)
  have d: "unat ((push_bit SCALE_BITS 1 * ucast (queue_of conf b) :: u64) div ucast (prio conf b)) = 65536 * ?q div ?p"
    by (simp only: unat_div m) (simp add: unat_ucast_up)
  have "65536 * ?q div ?p < 2 ^ 32"
  proof (cases "b = priority_is_top conf")
    case True
    then show ?thesis using prio_unat(1) [OF assms] small by simp
  next
    case False
    then have pb: "?p = unat (priority_factor conf) * 65536" using prio_unat(2) [OF assms] by simp
    with q have "65536 * ?q < 131072 * ?p" by simp
    then have "65536 * ?q div ?p < 131072" using p(1) by (simp add: less_mult_imp_div_less)
    then show ?thesis by simp
  qed
  then have "unat (queue_factor conf b) = 65536 * ?q div ?p"
    unfolding queue_factor_def using d by (simp add: unat_ucast_mod_32)
  then have "queue_factor conf b < push_bit SCALE_BITS 1 \<longleftrightarrow> 65536 * ?q div ?p < 65536"
    by (simp add: word_less_nat_alt one_scaled del: push_bit_of_1)
  also have "\<dots> \<longleftrightarrow> 65536 * ?q < 65536 * ?p" using p(1) by (simp add: div_less_iff_less_mult)
  finally show ?thesis by simp
qed


lemma queue_ge:
  "sched_ok conf \<Longrightarrow> priority_factor conf \<noteq> 0 \<Longrightarrow> prio conf b \<le> queue_of conf b \<longleftrightarrow> unat (prio conf b) \<le> unat (queue_of conf b)"
  by (simp add: word_le_nat_alt)

lemma refill_simps [simp]:
  "length (frame_queues (refill conf)) = length (frame_queues conf)" "frame_counts (refill conf) = frame_counts conf"
  "priority_is_top (refill conf) = priority_is_top conf" "priority_factor (refill conf) = priority_factor conf"
  "priority_factor_scaled (refill conf) = priority_factor_scaled conf"
  "frame_timing_allowance (refill conf) = frame_timing_allowance conf" "prio (refill conf) = prio conf"
  by (simp_all add: refill_def Let_def)

lemma refill_queues:
  assumes ok: "sched_ok conf" and f: "priority_factor conf \<noteq> 0"
  shows "unat (queue_of (refill conf) b) =
      (if broke conf
       then unat (queue_of conf b) + unat (priority_factor_scaled conf) else unat (queue_of conf b))"
proof -
  have l: "length (frame_queues conf) = 2" using ok by (simp add: sched_ok_def)
  have all: "queue_factor conf False < push_bit SCALE_BITS 1 \<and> queue_factor conf True < push_bit SCALE_BITS 1
      \<longleftrightarrow> broke conf"
    using queue_factor_less [OF ok f] unfolding broke_def by (metis (full_types))
  have F: "unat (priority_factor_scaled conf) \<le> 255 * 65536"
    using scaled_unat [OF ok] ok by (simp add: sched_ok_def)
  show ?thesis
  proof (cases "broke conf")
    case True
    then have "unat (queue_of conf b) < unat (prio conf b)" by (simp add: broke_def)
    then have "unat (queue_of conf b) < 255 * 65536" using prio_unat(4) [OF ok f, of b] by (meson less_le_trans)
    with F have "unat (queue_of conf b) + unat (priority_factor_scaled conf) < 2 ^ LENGTH(32)" by simp
    from unat_add_no_wrap [OF this] True all l show ?thesis
      by (cases b) (simp_all add: refill_def Let_def)
  next
    case False
    with all have "refill conf = conf" by (auto simp: refill_def)
    with False show ?thesis by (simp only: if_False)
  qed
qed

lemma refill_ok:
  assumes ok: "sched_ok conf" and f: "priority_factor conf \<noteq> 0"
  shows "sched_ok (refill conf)"
proof -
  have "unat (queue_of (refill conf) b) < unat (prio conf b) + unat (priority_factor_scaled conf)" for b
  proof (cases "broke conf")
    case True
    then have "unat (queue_of conf b) < unat (prio conf b)" by (simp add: broke_def)
    moreover have "unat (queue_of (refill conf) b) = unat (queue_of conf b) + unat (priority_factor_scaled conf)"
      using refill_queues [OF ok f, of b] True by (simp only: if_True)
    ultimately show ?thesis by simp
  next
    case False
    with refill_queues [OF ok f, of b] have "unat (queue_of (refill conf) b) = unat (queue_of conf b)"
      by (simp only: if_False)
    with sched_ok_queue [OF ok f, of b] show ?thesis by simp
  qed
  then have "queues_ok (refill conf)" by (simp add: queues_ok_def)
  with ok show ?thesis by (simp add: sched_ok_def)
qed

text \<open>After the refill some frame can be paid.\<close>

lemma refill_pays:
  assumes ok: "sched_ok conf" and f: "priority_factor conf \<noteq> 0"
  shows "prio conf b \<le> queue_of (refill conf) b \<or> prio conf (\<not> b) \<le> queue_of (refill conf) (\<not> b)"
proof -
  let ?o = "\<not> priority_is_top conf"
  have "\<exists>c. unat (prio conf c) \<le> unat (queue_of (refill conf) c)"
  proof (cases "broke conf")
    case True
    then have "unat (prio conf ?o) \<le> unat (queue_of (refill conf) ?o)"
      using refill_queues [OF ok f, of ?o] prio_unat(2) [OF ok f] scaled_unat [OF ok] by simp
    then show ?thesis ..
  next
    case False
    then obtain c where "unat (prio conf c) \<le> unat (queue_of conf c)" by (auto simp: not_less broke_def)
    moreover have "unat (queue_of (refill conf) c) = unat (queue_of conf c)"
      using refill_queues [OF ok f, of c] False by (simp only: if_False)
    ultimately show ?thesis by (intro exI [of _ c]) simp
  qed
  then show ?thesis by (cases b) (auto simp: word_le_nat_alt, (metis (full_types))+)
qed

lemma dequeue_ok:
  assumes ok: "sched_ok conf" and f: "priority_factor conf \<noteq> 0" and v: "unat v \<le> unat (queue_of conf b)"
  shows "sched_ok (set_queue b v conf)"
proof -
  have l: "length (frame_queues conf) = 2" using ok by (simp add: sched_ok_def)
  have "unat (queue_of (set_queue b v conf) c) < unat (prio conf c) + unat (priority_factor_scaled conf)" for c
  proof -
    have "unat (queue_of conf c) < unat (prio conf c) + unat (priority_factor_scaled conf)"
      by (rule sched_ok_queue [OF ok f])
    then show ?thesis using v l by (cases "c = b") auto
  qed
  then have "queues_ok (set_queue b v conf)" by (simp add: queues_ok_def)
  with ok show ?thesis by (simp add: sched_ok_def)
qed

lemma queue_step_ok:
  assumes ok: "sched_ok conf" and f: "priority_factor conf \<noteq> 0" and s: "queue_step p is_top conf = (r, t, conf')"
  shows "sched_ok conf' \<and> same_prio conf conf'"
proof -
  note rk = refill_ok [OF ok f]
  have fr: "priority_factor (refill conf) \<noteq> 0" using f by simp
  have sub: "unat (queue_of (refill conf) b - prio conf b) \<le> unat (queue_of (refill conf) b)"
    if "prio conf b \<le> queue_of (refill conf) b" for b
    using that by (simp add: unat_sub)
  show ?thesis using s
    by (auto simp: queue_step_def try_dequeue_def Let_def same_prio_def intro!: dequeue_ok [OF rk fr] sub rk
        split: option.splits if_splits)
qed


lemma sched_ok_counts:
  assumes "sched_ok conf" "length cs = 2"
    "unat (cs ! is_top_index (priority_is_top conf)) \<le> unat (priority_factor conf)"
  shows "sched_ok (conf\<lparr>frame_counts := cs\<rparr>)"
proof -
  have "queue_of (conf\<lparr>frame_counts := cs\<rparr>) = queue_of conf" "prio (conf\<lparr>frame_counts := cs\<rparr>) = prio conf"
    by (simp_all add: fun_eq_iff queue_of_def prio_def)
  then have "queues_ok (conf\<lparr>frame_counts := cs\<rparr>) = queues_ok conf" by (simp add: queues_ok_def)
  with assms show ?thesis by (simp add: sched_ok_def)
qed

lemma count_step_ok:
  assumes ok: "sched_ok conf" and s: "count_step (priority_is_top conf) conf = (t, conf')"
  shows "sched_ok conf' \<and> same_prio conf conf'"
proof (cases "priority_factor conf = 0")
  case True
  with ok s show ?thesis by (auto simp: count_step_def same_prio_def)
next
  case False
  let ?c = "frame_counts conf ! is_top_index (priority_is_top conf)"
  have c: "unat ?c \<le> unat (priority_factor conf)" "unat (priority_factor conf) \<le> 255" "length (frame_counts conf) = 2"
    using ok False by (auto simp: sched_ok_def)
  have "unat (?c + 1) \<le> unat (priority_factor conf)" if "\<not> priority_factor conf \<le> ?c"
    using that c by (subst unat_add_no_wrap) (auto simp: word_le_nat_alt)
  moreover have "unat (?c - priority_factor conf) \<le> unat (priority_factor conf)" if "priority_factor conf \<le> ?c"
    using that c by (simp add: unat_sub)
  ultimately have new: "sched_ok (conf\<lparr>frame_counts := (frame_counts conf)[is_top_index (priority_is_top conf) :=
      if priority_factor conf \<le> ?c then ?c - priority_factor conf else ?c + 1]\<rparr>)"
    using c(3) by (intro sched_ok_counts [OF ok]) simp_all
  show ?thesis
  proof (cases "priority_factor conf \<le> ?c")
    case True
    with s False have "conf' = conf\<lparr>frame_counts := (frame_counts conf)[is_top_index (priority_is_top conf) :=
        ?c - priority_factor conf]\<rparr>" by (auto simp: count_step_def Let_def)
    with new True show ?thesis by (simp add: same_prio_def)
  next
    case ge: False
    with s False have "conf' = conf\<lparr>frame_counts := (frame_counts conf)[is_top_index (priority_is_top conf) :=
        ?c + 1]\<rparr>" by (auto simp: count_step_def Let_def)
    with new ge show ?thesis by (simp add: same_prio_def)
  qed
qed

lemma same_prio_trans: "same_prio a b \<Longrightarrow> same_prio b c \<Longrightarrow> same_prio a c"
  by (simp add: same_prio_def)

section \<open>Without a game\<close>

definition no_game :: "poll list \<Rightarrow> bool" where
  "no_game ps \<longleftrightarrow> (\<exists>p qs. ps = p # qs \<and> \<not> po_reset p \<and> po_game_pid p = 0)"

lemma count_picks:
  assumes "\<forall>ps \<in> set pss. no_game ps" "sched_ok (ss_conf S)" "priority_factor (ss_conf S) \<noteq> 0" "i < length pss"
  shows "i < length (picks pss S)
     \<and> (picks pss S ! i \<noteq> priority_is_top (ss_conf S) \<longleftrightarrow>
          unat (priority_factor (ss_conf S)) + 1
            dvd unat (frame_counts (ss_conf S) ! is_top_index (priority_is_top (ss_conf S))) + i + 1)"
  using assms
proof (induction pss arbitrary: S i)
  case Nil
  then show ?case by simp
next
  case (Cons ps pss)
  let ?C = "ss_conf S" and ?P = "priority_is_top (ss_conf S)"
  let ?c = "frame_counts ?C ! is_top_index ?P" and ?f = "priority_factor ?C"
  obtain p qs where p: "ps = p # qs" "\<not> po_reset p" "po_game_pid p = 0"
    using Cons.prems(1) by (auto simp: no_game_def)
  obtain t C' where s: "count_step ?P ?C = (t, C')" by (cases "count_step ?P ?C")
  note ok = count_step_ok [OF Cons.prems(2) s]
  have pk: "picks (ps # pss) S = t # picks pss (S\<lparr>ss_conf := C'\<rparr>)" using p s by simp
  have c: "unat ?c \<le> unat ?f" "unat ?f \<le> 255" "length (frame_counts ?C) = 2"
    using Cons.prems(2,3) by (auto simp: sched_ok_def)
  have nxt: "t \<noteq> ?P \<longleftrightarrow> unat ?c = unat ?f"
    "unat (frame_counts C' ! is_top_index ?P) = (if unat ?c = unat ?f then 0 else unat ?c + 1)"
    using s c Cons.prems(3)
    by (auto simp: count_step_def Let_def word_le_nat_alt unat_sub unat_add_no_wrap split: if_splits)
  show ?case
  proof (cases i)
    case 0
    have "unat ?f + 1 dvd unat ?c + 1 \<longleftrightarrow> unat ?c = unat ?f"
      using c(1) by (auto dest: dvd_imp_le)
    with 0 nxt(1) pk show ?thesis by simp
  next
    case (Suc j)
    have "\<forall>ps \<in> set pss. no_game ps" "sched_ok (ss_conf (S\<lparr>ss_conf := C'\<rparr>))"
      "priority_factor (ss_conf (S\<lparr>ss_conf := C'\<rparr>)) \<noteq> 0" "j < length pss"
      using Cons.prems ok Suc by (auto simp: same_prio_def)
    note ih = Cons.IH [OF this]
    have "unat ?f + 1 dvd unat (frame_counts C' ! is_top_index ?P) + j + 1 \<longleftrightarrow> unat ?f + 1 dvd unat ?c + Suc j + 1"
    proof (cases "unat ?c = unat ?f")
      case True
      then have "unat ?c + Suc j + 1 = (unat ?f + 1) + (j + 1)" by simp
      then show ?thesis using True nxt(2) by (simp only: dvd_add_triv_left_iff if_True) simp
    next
      case False
      then show ?thesis using nxt(2) by simp
    qed
    with ih Suc pk ok show ?thesis by (simp add: same_prio_def)
  qed
qed

section \<open>With a game\<close>

text \<open>Both screens always have a new frame.\<close>

definition game_ready :: "u32 \<Rightarrow> poll list \<Rightarrow> bool" where
  "game_ready allowance ps \<longleftrightarrow>
     (\<exists>p qs. ps = p # qs \<and> \<not> po_reset p \<and> po_game_pid p \<noteq> 0 \<and> po_elapsed p < allowance \<and> (\<forall>b. po_sync p b = 0))"

lemma if_add: "x = (if A then a + F else a) \<Longrightarrow> x = a + (if A then F else (0 :: nat))"
  by auto

lemma queue_step_ready:
  assumes ok: "sched_ok conf" and f: "priority_factor conf \<noteq> 0" and p: "\<forall>b. po_sync p b = 0"
  shows "\<exists>s t conf'. queue_step p is_top conf = (Some s, t, conf') \<and> sched_ok conf' \<and> same_prio conf conf'
     \<and> (\<exists>d. unat (queue_of conf' s) + unat (prio conf s) = unat (queue_of conf s) + d
          \<and> unat (queue_of conf' (\<not> s)) = unat (queue_of conf (\<not> s)) + d)"
proof -
  note rk = refill_ok [OF ok f]
  let ?d = "if broke conf then unat (priority_factor_scaled conf) else 0"
  have q: "unat (queue_of (refill conf) b) = unat (queue_of conf b) + ?d" for b
    by (rule if_add, rule refill_queues [OF ok f])
  have l: "length (frame_queues (refill conf)) = 2" using rk by (simp add: sched_ok_def)
  define t where "t = (if queue_factor conf (\<not> is_top) \<le> queue_factor conf is_top then is_top else \<not> is_top)"
  have "\<exists>s conf'. queue_step p is_top conf = (Some s, s, conf') \<and> prio conf s \<le> queue_of (refill conf) s
      \<and> conf' = set_queue s (queue_of (refill conf) s - prio conf s) (refill conf)"
    using refill_pays [OF ok f, of t] p
    by (auto simp: queue_step_def Let_def try_dequeue_def simp flip: t_def)
  then obtain s conf' where s: "queue_step p is_top conf = (Some s, s, conf')" "prio conf s \<le> queue_of (refill conf) s"
      "conf' = set_queue s (queue_of (refill conf) s - prio conf s) (refill conf)" by blast
  have "unat (queue_of conf' s) + unat (prio conf s) = unat (queue_of conf s) + ?d"
    using s(2) q [of s] l unfolding s(3) by (simp add: unat_sub word_le_nat_alt)
  moreover have "unat (queue_of conf' (\<not> s)) = unat (queue_of conf (\<not> s)) + ?d"
    using q [of "\<not> s"] l unfolding s(3) by simp
  ultimately show ?thesis using s(1) queue_step_ok [OF ok f s(1)] by blast
qed

lemma ready_picks:
  assumes "\<forall>ps \<in> set pss. game_ready (frame_timing_allowance (ss_conf S)) ps" "sched_ok (ss_conf S)"
    "priority_factor (ss_conf S) \<noteq> 0"
  shows "\<exists>conf. sched_ok conf \<and> same_prio (ss_conf S) conf \<and> length (picks pss S) = length pss
     \<and> (let P = priority_is_top (ss_conf S); q = (\<lambda>c b. unat (queue_of c b)) in
         q conf P + 65536 * count_list (picks pss S) P + q (ss_conf S) (\<not> P)
           = q conf (\<not> P) + unat (priority_factor (ss_conf S)) * 65536 * count_list (picks pss S) (\<not> P) + q (ss_conf S) P)"
  using assms
proof (induction pss arbitrary: S)
  case Nil
  then show ?case by (auto simp: same_prio_def Let_def)
next
  case (Cons ps pss)
  let ?C = "ss_conf S" and ?P = "priority_is_top (ss_conf S)"
  obtain p qs where p: "ps = p # qs" "\<not> po_reset p" "po_game_pid p \<noteq> 0"
      "po_elapsed p < frame_timing_allowance ?C" "\<forall>b. po_sync p b = 0"
    using Cons.prems(1) by (auto simp: game_ready_def)
  obtain s t C1 d where q: "queue_step p ?P ?C = (Some s, t, C1)" "sched_ok C1" "same_prio ?C C1"
      "unat (queue_of C1 s) + unat (prio ?C s) = unat (queue_of ?C s) + d"
      "unat (queue_of C1 (\<not> s)) = unat (queue_of ?C (\<not> s)) + d"
    using queue_step_ready [OF Cons.prems(2,3) p(5), of ?P] by blast
  let ?S = "S\<lparr>ss_conf := C1\<rparr>"
  have pk: "picks (ps # pss) S = s # picks pss ?S"
    using p q(1) Cons.prems(3) by (auto simp: Let_def)
  have pr: "priority_is_top C1 = ?P" "priority_factor C1 = priority_factor ?C"
    using q(3) by (auto simp: same_prio_def)
  obtain conf where c: "sched_ok conf" "same_prio C1 conf" "length (picks pss ?S) = length pss"
      "unat (queue_of conf ?P) + 65536 * count_list (picks pss ?S) ?P + unat (queue_of C1 (\<not> ?P))
         = unat (queue_of conf (\<not> ?P)) + unat (priority_factor ?C) * 65536 * count_list (picks pss ?S) (\<not> ?P)
           + unat (queue_of C1 ?P)"
    using Cons.IH [of ?S] Cons.prems q(2,3) pr by (auto simp: Let_def same_prio_def)
  have two: "s = ?P \<or> s = (\<not> ?P)" by blast
  have "unat (queue_of conf ?P) + 65536 * count_list (s # picks pss ?S) ?P + unat (queue_of ?C (\<not> ?P))
      = unat (queue_of conf (\<not> ?P)) + unat (priority_factor ?C) * 65536 * count_list (s # picks pss ?S) (\<not> ?P)
        + unat (queue_of ?C ?P)"
  proof (cases "s = ?P")
    case True
    then show ?thesis using c(4) q(4,5) prio_unat(1) [OF Cons.prems(2,3)] by simp
  next
    case False
    then have s: "s = (\<not> ?P)" by blast
    show ?thesis using c(4) q(4,5) prio_unat(2) [OF Cons.prems(2,3)] unfolding s by (simp add: distrib_left)
  qed
  then show ?case using c(1-3) q(3) pk by (intro exI [of _ conf]) (auto simp: Let_def intro: same_prio_trans)
qed

lemma init_ok:
  assumes "priority_factor (ss_conf (screen_init sysclock dp mode fw S)) \<noteq> 0"
  shows "sched_ok (ss_conf (screen_init sysclock dp mode fw S))"
    "frame_counts (ss_conf (screen_init sysclock dp mode fw S)) = [1, 1]"
    "queue_of (ss_conf (screen_init sysclock dp mode fw S)) b = fix_int (mode AND 0xff)"
    "priority_factor (ss_conf (screen_init sysclock dp mode fw S)) = mode AND 0xff"
proof -
  let ?C = "ss_conf (screen_init sysclock dp mode fw S)"
  have m: "(0xff :: u32) = mask 8" by (simp add: mask_eq_exp_minus_1)
  show c: "frame_counts ?C = [1, 1]" and f: "priority_factor ?C = mode AND 0xff"
    by (simp_all add: screen_init_def Let_def)
  show q: "queue_of ?C b = fix_int (mode AND 0xff)" for b
    by (simp add: screen_init_def Let_def queue_of_def is_top_index_def)
  have le: "unat (mode AND 0xff) \<le> 255" unfolding m by (simp add: unat_and_mask)
  have p: "0 < unat (mode AND 0xff)" using assms f by (simp add: unat_gt_0)
  have F: "unat (fix_int (mode AND 0xff)) = unat (mode AND 0xff) * 65536"
    using le unfolding fix_int_def SCALE_BITS_def by (simp add: push_bit_eq_mult unat_word_ariths)
  have sc: "priority_factor_scaled ?C = fix_int (mode AND 0xff)" by (simp add: screen_init_def Let_def)
  have "unat (frame_counts ?C ! is_top_index t) \<le> unat (mode AND 0xff)" for t
    using p by (simp add: c is_top_index_def)
  moreover have "unat (queue_of ?C b) < unat (prio ?C b) + unat (priority_factor_scaled ?C)" for b
    using p F unfolding q sc prio_def by (simp add: one_scaled)
  moreover have "length (frame_queues ?C) = 2" by (simp add: screen_init_def Let_def)
  ultimately show "sched_ok ?C" using le by (simp add: sched_ok_def queues_ok_def f sc c)
qed


section \<open>Properties\<close>

text \<open>C0: while no game runs, the screen without priority is sent exactly at the frames \<open>f - 1, 2 f, 3 f + 1, \<dots>\<close>,
  that is once in every \<open>f + 1\<close> consecutive frames, where \<open>f\<close> is the priority factor of the mode.\<close>
theorem screens_alternate:
  assumes "\<forall>ps \<in> set pss. no_game ps" "mode AND 0xff \<noteq> 0" "i < length pss"
  shows "i < length (picks pss (screen_init sysclock dp mode fw S))
     \<and> (picks pss (screen_init sysclock dp mode fw S) ! i \<noteq> (0 < mode AND 0xff00)
          \<longleftrightarrow> unat (mode AND 0xff) + 1 dvd i + 2)"
proof -
  let ?S = "screen_init sysclock dp mode fw S"
  have f: "priority_factor (ss_conf ?S) = mode AND 0xff" "priority_is_top (ss_conf ?S) = (0 < mode AND 0xff00)"
    by (simp_all add: screen_init_def Let_def)
  have nz: "priority_factor (ss_conf ?S) \<noteq> 0" using assms(2) f by simp
  note ok = init_ok [OF nz]
  have c: "unat (frame_counts (ss_conf ?S) ! is_top_index t) + i + 1 = i + 2" for t
    unfolding ok(2) by (simp add: is_top_index_def)
  show ?thesis using count_picks [OF assms(1) ok(1) nz assms(3)] unfolding f c by simp
qed

text \<open>C0: while a game signals new frames of both screens in time, no call fails to find a screen and the shares
  follow the priority factor \<open>f\<close>: after any number of frames, \<open>f\<close> times the frames of the other screen differ from
  the frames of the screen with priority by less than \<open>2 f\<close> on one side and at most \<open>f\<close> on the other.\<close>
theorem screens_share:
  assumes "\<forall>ps \<in> set pss. game_ready (if dp then sysclock div FRAME_TIMING_FACTOR_DQ else sysclock) ps"
    "mode AND 0xff \<noteq> 0"
  shows "length (picks pss (screen_init sysclock dp mode fw S)) = length pss
     \<and> (let L = picks pss (screen_init sysclock dp mode fw S); P = (0 < mode AND 0xff00); f = unat (mode AND 0xff)
        in f * count_list L (\<not> P) \<le> count_list L P + f
         \<and> count_list L P < f * count_list L (\<not> P) + 2 * f)"
proof -
  let ?S = "screen_init sysclock dp mode fw S"
  let ?C = "ss_conf ?S"
  have c: "priority_factor ?C = mode AND 0xff" "priority_is_top ?C = (0 < mode AND 0xff00)"
    "frame_timing_allowance ?C = (if dp then sysclock div FRAME_TIMING_FACTOR_DQ else sysclock)"
    by (simp_all add: screen_init_def Let_def)
  have nz: "priority_factor ?C \<noteq> 0" using assms(2) c by simp
  note ok = init_ok [OF nz]
  have rd: "\<forall>ps \<in> set pss. game_ready (frame_timing_allowance ?C) ps" using assms(1) c(3) by simp
  define P f nP nO where "P = priority_is_top ?C" and "f = unat (mode AND 0xff)"
    and "nP = count_list (picks pss ?S) P" and "nO = count_list (picks pss ?S) (\<not> P)"
  obtain conf where k: "sched_ok conf" "same_prio ?C conf" "length (picks pss ?S) = length pss"
      "unat (queue_of conf P) + 65536 * nP = unat (queue_of conf (\<not> P)) + f * 65536 * nO"
    using ready_picks [OF rd ok(1) nz] by (auto simp: Let_def ok(3) c P_def f_def nP_def nO_def)
  have nz': "priority_factor conf \<noteq> 0" using k(2) nz by (simp add: same_prio_def)
  have P': "priority_is_top conf = P" "unat (priority_factor conf) = f"
    using k(2) c by (auto simp: same_prio_def P_def f_def)
  have q: "unat (queue_of conf P) < 65536 + f * 65536" "unat (queue_of conf (\<not> P)) < f * 65536 + f * 65536"
    using sched_ok_queue [OF k(1) nz', of P] sched_ok_queue [OF k(1) nz', of "\<not> P"]
      prio_unat(1,2) [OF k(1) nz'] scaled_unat [OF k(1)] P' by simp_all
  have "65536 * (f * nO) < 65536 * (nP + 1 + f)" using k(4) q(1) by (simp add: algebra_simps)
  then have 1: "f * nO \<le> nP + f" by simp
  have "65536 * nP < 65536 * (f * nO + 2 * f)" using k(4) q(2) by (simp add: algebra_simps)
  then have 2: "nP < f * nO + 2 * f" by simp
  show ?thesis using 1 2 k(3) unfolding Let_def nP_def nO_def P_def f_def c(2) by blast
qed

definition idle_poll :: "u32 \<Rightarrow> poll" where
  "idle_poll pid = \<lparr>po_reset = False, po_game_pid = pid, po_elapsed = 5, po_sync = (\<lambda>_. 0), po_any = (0, 0)\<rparr>"

definition screen_zero :: screen_state where
  "screen_zero =
     \<lparr>ss_conf = \<lparr>priority_is_top = False, priority_factor = 0, priority_factor_scaled = 0, frame_counts = [0, 0],
                 frame_queues = [0, 0], frame_timing_allowance = 0\<rparr>,
      ss_full_width = 0, ss_no_skip = [False, False], ss_skip_frames = [False, False], ss_work_index = \<lparr>ri = 0\<rparr>,
      ss_thread_index = \<lparr>ri = 0\<rparr>, ss_work_done_flag = [False, False], ss_signals = [0, 0]\<rparr>"

theorem screens_alternate_witness:
  "picks (replicate 6 [idle_poll 0]) (screen_init 1000 False 0x102 0 screen_zero) ! 1 = False
   \<and> picks (replicate 6 [idle_poll 0]) (screen_init 1000 False 0x102 0 screen_zero) ! 2 = True"
proof -
  let ?L = "picks (replicate 6 [idle_poll 0]) (screen_init 1000 False 0x102 0 screen_zero)"
  have n: "\<forall>ps \<in> set (replicate 6 [idle_poll 0]). no_game ps" by (simp add: no_game_def idle_poll_def)
  have m: "(0x102 :: u32) AND 0xff = 2" "(0x102 :: u32) AND 0xff00 = 0x100" by simp_all
  have p: "(?L ! i \<noteq> True) = (unat (2 :: u32) + 1 dvd i + 2)" if "i < 6" for i
    using screens_alternate [where pss = "replicate 6 [idle_poll 0]" and mode = "0x102" and i = i, OF n] that
    by (simp add: m)
  have d: "(unat (2 :: u32) + 1 dvd 1 + 2) = True" "(unat (2 :: u32) + 1 dvd 2 + 2) = False"
    by (simp add: numeral_3_eq_3, simp)
  have "?L ! 1 \<noteq> True" "\<not> ?L ! 2 \<noteq> True" using p [of 1, unfolded d(1)] p [of 2, unfolded d(2)] by simp_all
  then show ?thesis by blast
qed

theorem screens_share_witness:
  "length (picks (replicate 7 [idle_poll 9]) (screen_init 1000 False 0x102 0 screen_zero)) = 7"
proof -
  have g: "\<forall>ps \<in> set (replicate 7 [idle_poll 9]).
      game_ready (if False then 1000 div FRAME_TIMING_FACTOR_DQ else 1000) ps"
    by (simp add: game_ready_def idle_poll_def)
  have m: "(0x102 :: u32) AND 0xff \<noteq> 0" by simp
  show ?thesis using screens_share [OF g m] by simp
qed

end
