(* ===== verification/Screen_Capture.thy ===== *)
theory Screen_Capture
  imports Screen_Sched "HOL-Library.Multiset"
begin

text \<open>
  The capture of a screen (\<^verbatim>\<open>entries/thread_screen/vars.rs\<close> from \<open>update_gpu_regs\<close> on): the registers of the
  display, the DMA transfers into the image buffer, the handles of the game, of the overlay and of the
  transfers, and the hand-over to the encoding threads. The kernel answers from scripts, one answer per call,
  and fails once a script is used up; it keeps the multiset of the open handles and the log of the transfers.
\<close>

section \<open>Registers\<close>

record screen_info =
  si_fill :: u32
  si_src_0 :: u32
  si_src_1 :: u32
  si_full_width :: bool
  si_pitch :: u32
  si_format :: u32

definition IoBasePdc :: u32 where "IoBasePdc = 0x10400000 + 0x80000000"
definition IoBaseLcd :: u32 where "IoBaseLcd = 0x10202000 + 0x80000000"

definition update_gpu_regs :: "(u32 \<Rightarrow> u32) \<Rightarrow> bool \<Rightarrow> screen_info" where
  "update_gpu_regs reg is_top =
     (let si = (if is_top then
          let format = reg (IoBasePdc + 0x470); fb = reg (IoBasePdc + 0x478)
          in \<lparr>si_fill = reg (IoBaseLcd + 0x204),
              si_src_0 = (if fb AND 1 = 0 then reg (IoBasePdc + 0x468) else reg (IoBasePdc + 0x46C)),
              si_src_1 = (if fb AND 1 = 0 then reg (IoBasePdc + 0x494) else reg (IoBasePdc + 0x498)),
              si_full_width = (format AND push_bit 4 7 = 0),
              si_pitch = reg (IoBasePdc + 0x490), si_format = format\<rparr>
        else
          let fb = reg (IoBasePdc + 0x578)
          in \<lparr>si_fill = reg (IoBaseLcd + 0xA04),
              si_src_0 = (if fb AND 1 = 0 then reg (IoBasePdc + 0x568) else reg (IoBasePdc + 0x56C)),
              si_src_1 = 0, si_full_width = False,
              si_pitch = reg (IoBasePdc + 0x590), si_format = reg (IoBasePdc + 0x570)\<rparr>)
      in si\<lparr>si_format := si_format si AND 0xf\<rparr>)"

section \<open>The kernel\<close>

text \<open>A transfer: destination, process and address of the source, size, burst, unit and source stride.\<close>

record dma_op =
  dm_dst :: u32
  dm_process :: u32
  dm_addr :: u32
  dm_size :: u32
  dm_burst :: i16
  dm_transfer :: i16
  dm_stride :: i16

record cap_kernel =
  k_open :: "u32 multiset"
  k_procs :: "(i32 \<times> u32) list"
  k_lists :: "(i32 \<times> u32 list) list"
  k_tids :: "(i32 \<times> u32) list"
  k_flush :: "i32 list"
  k_dmas :: "(i32 \<times> u32) list"
  k_log :: "dma_op list"

definition svcCloseHandle :: "u32 \<Rightarrow> cap_kernel \<Rightarrow> cap_kernel" where
  "svcCloseHandle h K = K\<lparr>k_open := k_open K - {#h#}\<rparr>"

text \<open>The result and the handle written; a successful call opens the handle.\<close>

definition opened :: "i32 \<Rightarrow> u32 \<Rightarrow> cap_kernel \<Rightarrow> cap_kernel" where
  "opened res h K = (if res = 0 then K\<lparr>k_open := add_mset h (k_open K)\<rparr> else K)"

definition svcOpenProcess :: "cap_kernel \<Rightarrow> (i32 \<times> u32) \<times> cap_kernel" where
  "svcOpenProcess K =
     (case k_procs K of [] \<Rightarrow> ((-1, 0), K)
      | (res, h) # rs \<Rightarrow> ((res, h), opened res h (K\<lparr>k_procs := rs\<rparr>)))"

definition svcGetProcessList :: "cap_kernel \<Rightarrow> (i32 \<times> u32 list) \<times> cap_kernel" where
  "svcGetProcessList K = (case k_lists K of [] \<Rightarrow> ((-1, []), K) | r # rs \<Rightarrow> (r, K\<lparr>k_lists := rs\<rparr>))"

definition getProcessTIDByHandle :: "cap_kernel \<Rightarrow> (i32 \<times> u32) \<times> cap_kernel" where
  "getProcessTIDByHandle K = (case k_tids K of [] \<Rightarrow> ((-1, 0), K) | r # rs \<Rightarrow> (r, K\<lparr>k_tids := rs\<rparr>))"

definition svcFlushProcessDataCache :: "cap_kernel \<Rightarrow> i32 \<times> cap_kernel" where
  "svcFlushProcessDataCache K = (case k_flush K of [] \<Rightarrow> (-1, K) | r # rs \<Rightarrow> (r, K\<lparr>k_flush := rs\<rparr>))"

definition svcStartInterProcessDma :: "dma_op \<Rightarrow> cap_kernel \<Rightarrow> (i32 \<times> u32) \<times> cap_kernel" where
  "svcStartInterProcessDma d K =
     (case k_dmas K of [] \<Rightarrow> ((-1, 0), K)
      | (res, h) # rs \<Rightarrow>
          ((res, h), (opened res h (K\<lparr>k_dmas := rs\<rparr>))\<lparr>k_log := (if res = 0 then k_log K @ [d] else k_log K)\<rparr>))"

section \<open>State\<close>

record overlay_params =
  ov_game_pid :: u32
  ov_game_handle :: u32

record screen_params =
  sp_dmas :: "u32 list list"
  sp_game_handle :: u32
  sp_game_pid :: u32
  sp_game_fcram_base :: u32
  sp_pid :: u32
  sp_overlay :: overlay_params

record work_ready_params =
  wp_is_top :: bool
  wp_format :: u32
  wp_dma :: "u32 list"
  wp_both_eyes :: bool

record cap_state =
  cs_params :: screen_params
  cs_kernel :: cap_kernel
  cs_screen :: screen_state
  cs_work_ready :: "work_ready_params list"
  cs_thread_ready :: "nat list"

text \<open>What the functions read from elsewhere: the screen sizes of the graphics library, the configuration,
  the handle of the home menu.\<close>

record cap_env =
  ce_width :: u32
  ce_height_top :: u32
  ce_height_top_2x :: u32
  ce_height_bottom :: u32
  ce_game_pid :: u32
  ce_port_game_pid :: u32
  ce_home_handle :: u32
  ce_home_pid :: u32
  ce_overlay_stats :: u32
  ce_core_count :: iranged

definition kern :: "(cap_kernel \<Rightarrow> 'a \<times> cap_kernel) \<Rightarrow> cap_state \<Rightarrow> 'a \<times> cap_state" where
  "kern f s = (let (r, K) = f (cs_kernel s) in (r, s\<lparr>cs_kernel := K\<rparr>))"

definition close_handle :: "u32 \<Rightarrow> cap_state \<Rightarrow> cap_state" where
  "close_handle h s = s\<lparr>cs_kernel := svcCloseHandle h (cs_kernel s)\<rparr>"

definition set_game_handle :: "u32 \<Rightarrow> cap_state \<Rightarrow> cap_state" where
  "set_game_handle h s = s\<lparr>cs_params := (cs_params s)\<lparr>sp_game_handle := h\<rparr>\<rparr>"

definition set_overlay :: "u32 \<Rightarrow> u32 \<Rightarrow> cap_state \<Rightarrow> cap_state" where
  "set_overlay pid h s = s\<lparr>cs_params := (cs_params s)\<lparr>sp_overlay := \<lparr>ov_game_pid = pid, ov_game_handle = h\<rparr>\<rparr>\<rparr>"

section \<open>The handle of the game\<close>

definition close_overlay_handle :: "cap_state \<Rightarrow> cap_state" where
  "close_overlay_handle s =
     (let h = ov_game_handle (sp_overlay (cs_params s));
          s = (if h \<noteq> 0 then close_handle h s else s)
      in set_overlay 0 0 s)"

definition close_game_handle :: "cap_state \<Rightarrow> cap_state" where
  "close_game_handle s =
     (let h = sp_game_handle (cs_params s);
          s = (if h \<noteq> 0 then
                 let s = close_handle h s;
                     s = s\<lparr>cs_params := (cs_params s)\<lparr>sp_game_handle := 0, sp_game_fcram_base := 0, sp_game_pid := 0\<rparr>\<rparr>
                 in s\<lparr>cs_screen := set_no_skip_frames (cs_screen s)\<rparr>
               else s)
      in close_overlay_handle s)"

text \<open>The loop over the process list.\<close>

fun scan_pids :: "u32 list \<Rightarrow> cap_state \<Rightarrow> cap_state" where
  "scan_pids [] s = s"
| "scan_pids (pid # pids) s =
     (if pid < 0x28 then scan_pids pids s
      else case kern svcOpenProcess s of
        ((res, process), s) \<Rightarrow>
          if res \<noteq> 0 then scan_pids pids s
          else case kern getProcessTIDByHandle s of
            ((res, tid), s) \<Rightarrow>
              if res = 0 \<and> tid AND 0xffff = 0 then
                if sp_pid (cs_params s) = pid
                then scan_pids pids (close_handle process (s\<lparr>cs_params := (cs_params s)\<lparr>sp_pid := 0\<rparr>\<rparr>))
                else s\<lparr>cs_params := (cs_params s)\<lparr>sp_game_handle := process, sp_pid := pid\<rparr>\<rparr>
              else scan_pids pids (close_handle process s))"

definition find_game :: "u32 \<Rightarrow> cap_state \<Rightarrow> cap_state" where
  "find_game game_pid s =
     (let s = (if game_pid \<noteq> 0
               then case kern svcOpenProcess s of ((res, process), s) \<Rightarrow> if res = 0 then set_game_handle process s else s
               else s)
      in if sp_game_handle (cs_params s) = 0
         then case kern svcGetProcessList s of ((res, pids), s) \<Rightarrow> if res = 0 then scan_pids pids s else s
         else s)"

definition find_fcram :: "cap_state \<Rightarrow> u32 \<times> cap_state" where
  "find_fcram s =
     (if sp_game_fcram_base (cs_params s) = 0 then
        case kern svcFlushProcessDataCache s of
          (r, s) \<Rightarrow>
            if r = 0 then (sp_game_handle (cs_params s), s\<lparr>cs_params := (cs_params s)\<lparr>sp_game_fcram_base := 0x14000000\<rparr>\<rparr>)
            else case kern svcFlushProcessDataCache s of
              (r, s) \<Rightarrow>
                if r = 0 then (sp_game_handle (cs_params s), s\<lparr>cs_params := (cs_params s)\<lparr>sp_game_fcram_base := 0x30000000\<rparr>\<rparr>)
                else (0, close_game_handle s)
      else (sp_game_handle (cs_params s), s))"

definition get_game_handle :: "cap_env \<Rightarrow> cap_state \<Rightarrow> u32 \<times> cap_state" where
  "get_game_handle E s =
     (let game_pid = ce_game_pid E;
          s = (if game_pid \<noteq> sp_game_pid (cs_params s)
               then let s = close_game_handle s in s\<lparr>cs_params := (cs_params s)\<lparr>sp_game_pid := game_pid\<rparr>\<rparr>
               else s);
          s = (if sp_game_handle (cs_params s) = 0 then find_game game_pid s else s)
      in if sp_game_handle (cs_params s) = 0 then (0, s) else find_fcram s)"

section \<open>Transfers\<close>

definition is_in_vram :: "u32 \<Rightarrow> bool" where
  "is_in_vram phys \<longleftrightarrow> 0x18000000 \<le> phys \<and> phys < 0x18000000 + 0x00600000"

definition is_in_fcram :: "u32 \<Rightarrow> bool" where
  "is_in_fcram phys \<longleftrightarrow> 0x20000000 \<le> phys \<and> phys < 0x20000000 + 0x10000000"

definition get_dma :: "nat \<Rightarrow> nat \<Rightarrow> cap_state \<Rightarrow> u32" where
  "get_dma eye w s = sp_dmas (cs_params s) ! eye ! w"

definition set_dma :: "nat \<Rightarrow> nat \<Rightarrow> u32 \<Rightarrow> cap_state \<Rightarrow> cap_state" where
  "set_dma eye w h s = s\<lparr>cs_params := (cs_params s)\<lparr>sp_dmas :=
     (sp_dmas (cs_params s))[eye := (sp_dmas (cs_params s) ! eye)[w := h]]\<rparr>\<rparr>"

text \<open>The process and address of the source, or a null process.\<close>

definition dma_source :: "cap_env \<Rightarrow> u32 \<Rightarrow> cap_state \<Rightarrow> (u32 \<times> u32) option \<times> cap_state" where
  "dma_source E phys s =
     (if is_in_vram phys
      then (Some (ce_home_handle E, 0x1f000000 + (phys - 0x18000000)), close_game_handle s)
      else if is_in_fcram phys
      then case get_game_handle E s of
             (process, s) \<Rightarrow>
               if process = 0 then (None, s)
               else (Some (process, sp_game_fcram_base (cs_params s) + (phys - 0x20000000)), s)
      else (None, s))"

definition do_dma ::
  "cap_env \<Rightarrow> nat \<Rightarrow> u32 \<Rightarrow> u32 \<Rightarrow> u32 \<Rightarrow> u32 \<Rightarrow> u32 \<Rightarrow> u32 \<Rightarrow> nat \<Rightarrow> cap_state \<Rightarrow> u32 \<times> cap_state" where
  "do_dma E w burst_size transfer_size pitch buf_size phys dst eye s =
     (let s = (if get_dma eye w s \<noteq> 0 then set_dma eye w 0 (close_handle (get_dma eye w s) s) else s)
      in if phys = 0 then (0, s)
         else case dma_source E phys s of
           (None, s) \<Rightarrow> (0, s)
         | (Some (process, addr), s) \<Rightarrow>
             let d = \<lparr>dm_dst = dst, dm_process = process, dm_addr = addr, dm_size = buf_size,
                      dm_burst = ucast burst_size, dm_transfer = ucast transfer_size, dm_stride = ucast pitch\<rparr>
             in case kern (svcStartInterProcessDma d) s of
                  ((res, dma), s) \<Rightarrow>
                    if res \<noteq> 0 then (0, close_game_handle s) else (dma, set_dma eye w dma s))"

function shrink_transfer :: "u32 \<Rightarrow> u32 \<Rightarrow> u32 \<times> u32" where
  "shrink_transfer t mul = (if push_bit 15 1 \<le> t then shrink_transfer (t div 2) (mul div 2) else (t, mul))"
  by pat_completeness auto
termination
  by (relation "measure (\<lambda>(t, mul). unat t)") (auto simp: word_le_nat_alt unat_div intro!: div_less_dividend)

declare shrink_transfer.simps [simp del]

section \<open>Handing the frame to the threads\<close>

definition thread_ready_release ::
  "cap_env \<Rightarrow> bool \<Rightarrow> u32 \<Rightarrow> nat \<Rightarrow> u32 list \<Rightarrow> bool \<Rightarrow> cap_state \<Rightarrow> cap_state" where
  "thread_ready_release E is_top format w dma both_eyes s =
     (let s = s\<lparr>cs_work_ready := (cs_work_ready s)[w :=
                  \<lparr>wp_is_top = is_top, wp_format = format, wp_dma = dma, wp_both_eyes = both_eyes\<rparr>]\<rparr>
      in if ss_skip_frames (cs_screen s) ! w
         then let t = unat (ri (ss_thread_index (cs_screen s)))
              in s\<lparr>cs_thread_ready := (cs_thread_ready s)[t := cs_thread_ready s ! t + 1]\<rparr>
         else s\<lparr>cs_thread_ready :=
                  map (\<lambda>(j, n). if j < unat (ri (ce_core_count E)) then n + 1 else n)
                    (enumerate 0 (cs_thread_ready s))\<rparr>)"

definition send_overlay_stats :: "cap_env \<Rightarrow> cap_state \<Rightarrow> cap_state" where
  "send_overlay_stats E s =
     (if ce_overlay_stats E = 0 then close_overlay_handle s
      else let game_pid = (if ce_port_game_pid E = 0 then ce_game_pid E
                           else if ce_port_game_pid E = ce_home_pid E then 0 else ce_port_game_pid E)
           in if ov_game_pid (sp_overlay (cs_params s)) \<noteq> game_pid then
                let s = close_overlay_handle s
                in if 0 < game_pid then
                     case kern svcOpenProcess s of
                       ((res, h), s) \<Rightarrow> set_overlay (if 0 \<le>s res then game_pid else 0) h s
                   else s
              else s)"

section \<open>Capturing\<close>

text \<open>Unit, burst and source stride of the transfers of a screen, and the bytes of one eye.\<close>

definition dma_geometry :: "cap_env \<Rightarrow> bool \<Rightarrow> screen_info \<Rightarrow> bool \<Rightarrow> u32 \<Rightarrow> u32 \<times> u32 \<times> u32 \<times> u32" where
  "dma_geometry E is_top info both format =
     (let bpp = (if format = 0 then 4 else if format = 1 then 3 else 2 :: u32);
          burst_size = (if format = 0 then 16 * 4 else if format = 1 then 16 else 16 * 2);
          transfer_size = ce_width E * bpp;
          pitch = (if \<not> both \<and> si_full_width info then si_pitch info * 2 else si_pitch info);
          height = (if is_top then if both \<and> si_full_width info then ce_height_top_2x E else ce_height_top E
                    else ce_height_bottom E);
          buf_size = transfer_size * height
      in if transfer_size = pitch
         then let mul = (if is_top then 16 else 64); (t, mul) = shrink_transfer (transfer_size * mul) mul
              in (t, burst_size * mul, t, buf_size)
         else (transfer_size, burst_size, pitch, buf_size))"

definition capture_screen ::
  "cap_env \<Rightarrow> bool \<Rightarrow> screen_info \<Rightarrow> u32 \<Rightarrow> nat \<Rightarrow> cap_state \<Rightarrow> bool \<times> cap_state" where
  "capture_screen E is_top info dst w s =
     (let tsw = top_screen_width (cs_screen s);
          right = (tsw = TRight); both = (tsw = TBoth);
          both_eyes = (both \<and> \<not> si_full_width info);
          phys_0 = (if right \<and> \<not> si_full_width info then si_src_1 info else si_src_0 info);
          phys_1 = (if both_eyes then si_src_1 info else 0);
          format = si_format info AND 0xf
      in if 4 < format then (False, s)
         else
           let (transfer_size, burst_size, pitch, buf_size) = dma_geometry E is_top info both format;
               (dma_0, s) = do_dma E w burst_size transfer_size pitch buf_size phys_0 dst 0 s;
               (dma_1, s) = do_dma E w burst_size transfer_size pitch buf_size phys_1 (dst + buf_size) 1 s
           in if dma_0 = 0 then (False, s)
              else (True, thread_ready_release E is_top (si_format info) w [dma_0, dma_1] both_eyes
                            (send_overlay_stats E s)))"

text \<open>The rest of \<open>do_screen\<close>; \<open>None\<close> as the lock is a failed \<open>screen_params_lock\<close>.\<close>

definition finish_screen ::
  "cap_env \<Rightarrow> (u32 \<Rightarrow> u32) \<Rightarrow> bool \<Rightarrow> bool \<Rightarrow> u32 \<Rightarrow> cap_state \<Rightarrow> bool \<times> cap_state" where
  "finish_screen E reg lock is_top img s =
     (let info = update_gpu_regs reg is_top
      in if 0 < si_fill info AND push_bit 24 1
         then (False, if lock then close_game_handle s else s)
         else if lock then capture_screen E is_top info img (unat (ri (ss_work_index (cs_screen s)))) s
         else (False, s))"

definition img_buffer_size :: "cap_env \<Rightarrow> bool \<Rightarrow> u32" where
  "img_buffer_size E is_top = ce_width E * 4 * (if is_top then ce_height_top_2x E else ce_height_bottom E)"


section \<open>No handle is lost\<close>

definition one :: "u32 \<Rightarrow> u32 multiset" where
  "one h = (if h = 0 then {#} else {#h#})"

definition dma_handles :: "u32 list list \<Rightarrow> u32 multiset" where
  "dma_handles dmas = filter_mset (\<lambda>h. h \<noteq> 0) (mset (concat dmas))"

definition held_handles :: "screen_params \<Rightarrow> u32 multiset" where
  "held_handles p = one (sp_game_handle p) + one (ov_game_handle (sp_overlay p)) + dma_handles (sp_dmas p)"

definition answers_ok :: "cap_kernel \<Rightarrow> bool" where
  "answers_ok K \<longleftrightarrow>
     (\<forall>a \<in> set (k_procs K) \<union> set (k_dmas K). fst a = 0 \<and> snd a \<noteq> 0 \<or> fst a <s 0 \<and> snd a = 0)"

definition handles_ok :: "cap_state \<Rightarrow> bool" where
  "handles_ok s \<longleftrightarrow> k_open (cs_kernel s) = held_handles (cs_params s) \<and> answers_ok (cs_kernel s)
     \<and> length (sp_dmas (cs_params s)) = 2 \<and> (\<forall>d \<in> set (sp_dmas (cs_params s)). length d = 2)"

lemma one_simps [simp]: "one 0 = {#}" "h \<noteq> 0 \<Longrightarrow> one h = {#h#}"
  by (simp_all add: one_def)

lemma dma_handles_set:
  assumes "eye < length dmas" "w < length (dmas ! eye)"
  shows "dma_handles (dmas[eye := (dmas ! eye)[w := h]]) + one (dmas ! eye ! w) = dma_handles dmas + one h"
proof -
  let ?x = "dmas ! eye"
  have d: "dmas = take eye dmas @ ?x # drop (Suc eye) dmas" using assms(1) by (rule id_take_nth_drop)
  have u: "dmas[eye := ?x[w := h]] = take eye dmas @ ?x[w := h] # drop (Suc eye) dmas"
    using assms(1) by (rule upd_conv_take_nth_drop)
  have x: "?x = take w ?x @ ?x ! w # drop (Suc w) ?x" using assms(2) by (rule id_take_nth_drop)
  have xu: "?x[w := h] = take w ?x @ h # drop (Suc w) ?x" using assms(2) by (rule upd_conv_take_nth_drop)
  let ?rest = "dma_handles [concat (take eye dmas), take w ?x, drop (Suc w) ?x, concat (drop (Suc eye) dmas)]"
  have "dma_handles (dmas[eye := ?x[w := h]]) = ?rest + one h"
  proof -
    have "concat (dmas[eye := ?x[w := h]])
        = concat (take eye dmas) @ (take w ?x @ h # drop (Suc w) ?x) @ concat (drop (Suc eye) dmas)"
      unfolding u using xu by simp
    then show ?thesis unfolding dma_handles_def one_def by (simp add: ac_simps)
  qed
  moreover have "dma_handles dmas = ?rest + one (?x ! w)"
  proof -
    have "concat dmas = concat (take eye dmas) @ (take w ?x @ ?x ! w # drop (Suc w) ?x) @ concat (drop (Suc eye) dmas)"
      using d x by (metis concat.simps(2) concat_append)
    then show ?thesis unfolding dma_handles_def one_def by (simp add: ac_simps)
  qed
  ultimately show ?thesis by (simp add: ac_simps)
qed

lemma close_overlay_ok:
  assumes "handles_ok s"
  shows "handles_ok (close_overlay_handle s)"
  using assms by (auto simp: handles_ok_def close_overlay_handle_def close_handle_def set_overlay_def svcCloseHandle_def
      held_handles_def answers_ok_def Let_def one_def)

lemma close_game_ok:
  assumes "handles_ok s"
  shows "handles_ok (close_game_handle s)"
  unfolding close_game_handle_def Let_def
  using assms by (intro close_overlay_ok)
    (auto simp: handles_ok_def close_handle_def svcCloseHandle_def held_handles_def answers_ok_def one_def)

lemma close_game_zero:
  "sp_game_handle (cs_params (close_game_handle s)) = 0" "sp_dmas (cs_params (close_game_handle s)) = sp_dmas (cs_params s)"
  "k_log (cs_kernel (close_game_handle s)) = k_log (cs_kernel s)"
  by (auto simp: close_game_handle_def close_overlay_handle_def set_overlay_def close_handle_def svcCloseHandle_def Let_def)

text \<open>Opening a process: a new handle that somebody has to take.\<close>

lemma open_process_ok:
  assumes "handles_ok s" "kern svcOpenProcess s = ((res, h), s')"
  shows "cs_params s' = cs_params s" "answers_ok (cs_kernel s')"
    "res = 0 \<Longrightarrow> h \<noteq> 0 \<and> k_open (cs_kernel s') = add_mset h (held_handles (cs_params s))"
    "res \<noteq> 0 \<Longrightarrow> h = 0 \<and> res <s 0 \<and> handles_ok s'"
  using assms by (auto simp: kern_def svcOpenProcess_def opened_def handles_ok_def answers_ok_def Let_def
      split: list.splits prod.splits if_splits)


lemma kern_params_ok:
  assumes "handles_ok s" "kern f s = (r, s')" "\<And>K. k_open (snd (f K)) = k_open K \<and> k_procs (snd (f K)) = k_procs K
      \<and> k_dmas (snd (f K)) = k_dmas K"
  shows "handles_ok s'" "cs_params s' = cs_params s"
  using assms(1,2) assms(3) [of "cs_kernel s"]
  by (auto simp: kern_def handles_ok_def answers_ok_def split: prod.splits)

lemma quiet_calls:
  "k_open (snd (getProcessTIDByHandle K)) = k_open K \<and> k_procs (snd (getProcessTIDByHandle K)) = k_procs K
     \<and> k_dmas (snd (getProcessTIDByHandle K)) = k_dmas K"
  "k_open (snd (svcGetProcessList K)) = k_open K \<and> k_procs (snd (svcGetProcessList K)) = k_procs K
     \<and> k_dmas (snd (svcGetProcessList K)) = k_dmas K"
  "k_open (snd (svcFlushProcessDataCache K)) = k_open K \<and> k_procs (snd (svcFlushProcessDataCache K)) = k_procs K
     \<and> k_dmas (snd (svcFlushProcessDataCache K)) = k_dmas K"
  by (auto simp: getProcessTIDByHandle_def svcGetProcessList_def svcFlushProcessDataCache_def split: list.splits)

text \<open>An open handle that is not stored yet.\<close>

definition loose :: "u32 \<Rightarrow> cap_state \<Rightarrow> bool" where
  "loose h s \<longleftrightarrow> handles_ok (s\<lparr>cs_kernel := svcCloseHandle h (cs_kernel s)\<rparr>) \<and> h \<in># k_open (cs_kernel s)"

lemma loose_open:
  assumes "handles_ok s" "kern svcOpenProcess s = ((res, h), s')" "res = 0"
  shows "loose h s'" "h \<noteq> 0" "cs_params s' = cs_params s"
  using open_process_ok [OF assms(1,2)] assms(1,3)
  by (auto simp: loose_def handles_ok_def svcCloseHandle_def answers_ok_def)

lemma loose_close: "loose h s \<Longrightarrow> handles_ok (close_handle h s)"
  by (simp add: loose_def close_handle_def)

lemma loose_kern:
  assumes "loose h s" "kern getProcessTIDByHandle s = (r, s')"
  shows "loose h s'" "cs_params s' = cs_params s"
  using assms quiet_calls(1) [of "cs_kernel s"]
  by (auto simp: loose_def kern_def handles_ok_def svcCloseHandle_def answers_ok_def split: prod.splits)

lemma loose_store:
  assumes "loose h s" "h \<noteq> 0" "sp_game_handle (cs_params s) = 0"
  shows "handles_ok (s\<lparr>cs_params := (cs_params s)\<lparr>sp_game_handle := h, sp_pid := p\<rparr>\<rparr>)"
    "handles_ok (set_game_handle h s)"
  using assms by (auto simp: loose_def handles_ok_def svcCloseHandle_def held_handles_def answers_ok_def
      set_game_handle_def dest!: multi_member_split)

lemma handles_pid: "handles_ok (s\<lparr>cs_params := (cs_params s)\<lparr>sp_pid := p\<rparr>\<rparr>) = handles_ok s"
  "loose h (s\<lparr>cs_params := (cs_params s)\<lparr>sp_pid := p\<rparr>\<rparr>) = loose h s"
  "handles_ok (s\<lparr>cs_params := (cs_params s)\<lparr>sp_game_pid := p\<rparr>\<rparr>) = handles_ok s"
  "handles_ok (s\<lparr>cs_params := (cs_params s)\<lparr>sp_game_fcram_base := p\<rparr>\<rparr>) = handles_ok s"
  by (auto simp: handles_ok_def held_handles_def loose_def)

lemma scan_pids_ok:
  "handles_ok s \<Longrightarrow> sp_game_handle (cs_params s) = 0 \<Longrightarrow> handles_ok (scan_pids pids s)"
proof (induction pids arbitrary: s)
  case Nil
  then show ?case by simp
next
  case (Cons pid pids)
  obtain res process s1 where o: "kern svcOpenProcess s = ((res, process), s1)"
    by (cases "kern svcOpenProcess s") auto
  note op = open_process_ok [OF Cons.prems(1) o]
  obtain res2 tid s2 where t: "kern getProcessTIDByHandle s1 = ((res2, tid), s2)"
    by (cases "kern getProcessTIDByHandle s1") auto
  show ?case
  proof (cases "pid < 0x28 \<or> res \<noteq> 0")
    case True
    with Cons o op show ?thesis by auto
  next
    case False
    then have r: "res = 0" "\<not> pid < 0x28" by auto
    note l1 = loose_open [OF Cons.prems(1) o r(1)]
    note l2 = loose_kern [OF l1(1) t]
    have z: "sp_game_handle (cs_params s2) = 0" using Cons.prems(2) l1(3) l2(2) by simp
    have "handles_ok (close_handle process s2)" by (rule loose_close [OF l2(1)])
    moreover have "handles_ok (close_handle process (s2\<lparr>cs_params := (cs_params s2)\<lparr>sp_pid := 0\<rparr>\<rparr>))"
      by (rule loose_close) (simp add: handles_pid l2(1))
    moreover note loose_store(1) [OF l2(1) l1(2) z, of pid]
    ultimately show ?thesis using Cons.IH z r o t by (simp add: close_handle_def)
  qed
qed

lemma find_game_ok:
  assumes "handles_ok s" "sp_game_handle (cs_params s) = 0"
  shows "handles_ok (find_game game_pid s)"
proof -
  obtain res process s1 where o: "kern svcOpenProcess s = ((res, process), s1)"
    by (cases "kern svcOpenProcess s") auto
  note op = open_process_ok [OF assms(1) o] loose_open [OF assms(1) o]
  let ?s = "if game_pid \<noteq> 0 then if res = 0 then set_game_handle process s1 else s1 else s"
  have k: "handles_ok ?s" using assms op loose_store(2) [of process s1] by auto
  obtain res2 pids s2 where t: "kern svcGetProcessList ?s = ((res2, pids), s2)"
    by (cases "kern svcGetProcessList ?s") auto
  note p = kern_params_ok [OF k t quiet_calls(2)]
  have "find_game game_pid s = (if sp_game_handle (cs_params ?s) = 0 then if res2 = 0 then scan_pids pids s2 else s2 else ?s)"
    using t by (simp add: find_game_def o Let_def split: if_splits)
  with k p scan_pids_ok [OF p(1), of pids] show ?thesis by (simp split: if_splits)
qed

lemma find_fcram_ok:
  assumes "handles_ok s"
  shows "handles_ok (snd (find_fcram s))"
proof -
  obtain r1 s1 where a: "kern svcFlushProcessDataCache s = (r1, s1)" by (cases "kern svcFlushProcessDataCache s")
  note p = kern_params_ok [OF assms a quiet_calls(3)]
  obtain r2 s2 where b: "kern svcFlushProcessDataCache s1 = (r2, s2)" by (cases "kern svcFlushProcessDataCache s1")
  note q = kern_params_ok [OF p(1) b quiet_calls(3)]
  show ?thesis
    using assms p q close_game_ok [OF q(1)] handles_pid(4) [where s = s1 and p = "0x14000000"] handles_pid(4) [where s = s2 and p = "0x30000000"]
    by (simp add: find_fcram_def a b)
qed

lemma get_game_handle_ok:
  assumes "handles_ok s"
  shows "handles_ok (snd (get_game_handle E s))"
proof -
  let ?s = "if ce_game_pid E \<noteq> sp_game_pid (cs_params s)
     then (close_game_handle s)\<lparr>cs_params := (cs_params (close_game_handle s))\<lparr>sp_game_pid := ce_game_pid E\<rparr>\<rparr> else s"
  have 1: "handles_ok ?s" using assms close_game_ok by (simp add: handles_pid)
  let ?t = "if sp_game_handle (cs_params ?s) = 0 then find_game (ce_game_pid E) ?s else ?s"
  have 2: "handles_ok ?t" using 1 find_game_ok by presburger
  have "get_game_handle E s = (if sp_game_handle (cs_params ?t) = 0 then (0, ?t) else find_fcram ?t)"
    by (simp only: get_game_handle_def Let_def)
  with 2 find_fcram_ok [OF 2] show ?thesis by (simp only: split: if_splits) auto
qed


lemma dma_source_ok: "handles_ok s \<Longrightarrow> handles_ok (snd (dma_source E phys s))"
  using close_game_ok [of s] get_game_handle_ok [of s E]
  by (auto simp: dma_source_def split: prod.splits)

lemma set_dma_ok:
  assumes "length (sp_dmas (cs_params s)) = 2" "\<forall>d \<in> set (sp_dmas (cs_params s)). length d = 2" "eye < 2" "w < 2"
    and h: "k_open (cs_kernel s) + one (get_dma eye w s) = held_handles (cs_params s) + one h" "answers_ok (cs_kernel s)"
  shows "handles_ok (set_dma eye w h s)"
proof -
  let ?d = "sp_dmas (cs_params s)"
  have l: "eye < length ?d" "length (?d ! eye) = 2" using assms by auto
  then have "dma_handles (?d[eye := (?d ! eye)[w := h]]) + one (?d ! eye ! w) = dma_handles ?d + one h"
    using assms(4) by (intro dma_handles_set) auto
  then have "held_handles (cs_params (set_dma eye w h s)) + one (?d ! eye ! w) = held_handles (cs_params s) + one h"
    by (simp add: held_handles_def set_dma_def ac_simps)
  then have "k_open (cs_kernel s) = held_handles (cs_params (set_dma eye w h s))"
    using h(1) unfolding get_dma_def by (metis add_right_cancel)
  moreover have "\<forall>x \<in> set (?d[eye := (?d ! eye)[w := h]]). length x = 2"
    using assms(2) l by (auto dest!: set_update_subset_insert [THEN subsetD])
  ultimately show ?thesis using assms(1) h(2) by (simp add: handles_ok_def set_dma_def)
qed

lemma dma_shape:
  assumes "handles_ok s" "eye < 2" "w < 2"
  shows "get_dma eye w (set_dma eye w h s) = h" "one (get_dma eye w s) \<subseteq># held_handles (cs_params s)"
proof -
  let ?d = "sp_dmas (cs_params s)"
  have l: "eye < length ?d" "length (?d ! eye) = 2" using assms by (auto simp: handles_ok_def)
  then show "get_dma eye w (set_dma eye w h s) = h" using assms(3) by (simp add: get_dma_def set_dma_def)
  have "dma_handles (?d[eye := (?d ! eye)[w := 0]]) + one (?d ! eye ! w) = dma_handles ?d + one 0"
    using assms(3) l by (intro dma_handles_set) auto
  then have "one (?d ! eye ! w) \<subseteq># dma_handles ?d" by (metis add.right_neutral mset_subset_eq_add_right one_simps(1))
  then show "one (get_dma eye w s) \<subseteq># held_handles (cs_params s)"
    unfolding get_dma_def held_handles_def by (metis mset_subset_eq_add_right subset_mset.order_trans)
qed

lemma clear_dma_ok:
  assumes "handles_ok s" "eye < 2" "w < 2"
  shows "handles_ok (set_dma eye w 0 (close_handle (get_dma eye w s) s)) \<or> get_dma eye w s = 0"
proof (cases "get_dma eye w s = 0")
  case False
  let ?s = "close_handle (get_dma eye w s) s"
  have g: "get_dma eye w ?s = get_dma eye w s" "cs_params ?s = cs_params s"
    by (simp_all add: close_handle_def get_dma_def)
  have "get_dma eye w s \<in># k_open (cs_kernel s)"
    using dma_shape(2) [OF assms] assms(1) False by (simp add: handles_ok_def)
  then have "k_open (cs_kernel ?s) + one (get_dma eye w s) = k_open (cs_kernel s)"
    using False by (simp add: close_handle_def svcCloseHandle_def)
  then have "handles_ok (set_dma eye w 0 ?s)" using assms g
    by (intro set_dma_ok) (auto simp: handles_ok_def answers_ok_def close_handle_def svcCloseHandle_def)
  then show ?thesis ..
qed simp

lemma get_dma_close_game:
  "get_dma eye w (close_game_handle s) = get_dma eye w s"
  by (simp add: get_dma_def close_game_zero)

text \<open>The handles of the transfers are left alone while the source is looked up.\<close>

lemma kern_params: "kern f s = (r, s') \<Longrightarrow> cs_params s' = cs_params s"
  by (auto simp: kern_def split: prod.splits)

lemma scan_pids_dmas: "sp_dmas (cs_params (scan_pids pids s)) = sp_dmas (cs_params s)"
  by (induction pids s rule: scan_pids.induct) (auto simp: close_handle_def dest!: kern_params split: prod.splits)

lemma find_game_dmas: "sp_dmas (cs_params (find_game p s)) = sp_dmas (cs_params s)"
  by (auto simp: find_game_def scan_pids_dmas set_game_handle_def Let_def dest!: kern_params split: prod.splits)

lemma find_fcram_dmas: "sp_dmas (cs_params (snd (find_fcram s))) = sp_dmas (cs_params s)"
  by (auto simp: find_fcram_def close_game_zero dest!: kern_params split: prod.splits)

lemma dma_source_dmas: "sp_dmas (cs_params (snd (dma_source E p s))) = sp_dmas (cs_params s)"
proof -
  have "sp_dmas (cs_params (snd (get_game_handle E s))) = sp_dmas (cs_params s)"
    by (simp add: get_game_handle_def Let_def find_fcram_dmas find_game_dmas close_game_zero)
  then show ?thesis by (auto simp: dma_source_def close_game_zero split: prod.splits)
qed

lemma do_dma_ok:
  assumes ok: "handles_ok s" and e: "eye < 2" "w < 2"
  shows "handles_ok (snd (do_dma E w bs ts pt sz phys dst eye s))"
proof -
  let ?s = "if get_dma eye w s \<noteq> 0 then set_dma eye w 0 (close_handle (get_dma eye w s) s) else s"
  have k: "handles_ok ?s" using clear_dma_ok [OF ok e] ok by auto
  have z: "get_dma eye w ?s = 0"
  proof (cases "get_dma eye w s = 0")
    case False
    then show ?thesis using clear_dma_ok [OF ok e] ok e
      by (auto simp: get_dma_def set_dma_def close_handle_def handles_ok_def)
  qed simp
  obtain src s1 where a: "dma_source E phys ?s = (src, s1)" by (cases "dma_source E phys ?s")
  have k1: "handles_ok s1" using dma_source_ok [OF k, of E phys] a by simp
  have z1: "get_dma eye w s1 = 0" using z dma_source_dmas [of E phys ?s] a by (simp add: get_dma_def)
  have step: "handles_ok (snd (case kern (svcStartInterProcessDma d) s1 of
      ((res, dma), s) \<Rightarrow> if res \<noteq> 0 then (0, close_game_handle s) else (dma, set_dma eye w dma s)))" for d
  proof -
    obtain res h s2 where b: "kern (svcStartInterProcessDma d) s1 = ((res, h), s2)"
      by (cases "kern (svcStartInterProcessDma d) s1") auto
    have p: "cs_params s2 = cs_params s1" "answers_ok (cs_kernel s2)"
      "res = 0 \<longrightarrow> h \<noteq> 0 \<and> k_open (cs_kernel s2) = add_mset h (held_handles (cs_params s1))"
      "res \<noteq> 0 \<longrightarrow> handles_ok s2"
      using k1 b by (auto simp: kern_def svcStartInterProcessDma_def opened_def handles_ok_def answers_ok_def Let_def
          split: list.splits prod.splits if_splits)
    show ?thesis
    proof (cases "res = 0")
      case True
      have "handles_ok (set_dma eye w h s2)" using p True k1 z1 e
        by (intro set_dma_ok) (auto simp: handles_ok_def get_dma_def)
      with b True show ?thesis by simp
    next
      case False
      with p close_game_ok [of s2] b show ?thesis by simp
    qed
  qed
  show ?thesis unfolding do_dma_def Let_def a
    using k k1 step by (auto split: option.splits)
qed

lemma send_overlay_ok:
  assumes "handles_ok s"
  shows "handles_ok (send_overlay_stats E s)"
proof -
  note c = close_overlay_ok [OF assms]
  have z: "sp_overlay (cs_params (close_overlay_handle s)) = \<lparr>ov_game_pid = 0, ov_game_handle = 0\<rparr>"
    by (simp add: close_overlay_handle_def set_overlay_def Let_def)
  obtain res h s1 where o: "kern svcOpenProcess (close_overlay_handle s) = ((res, h), s1)"
    by (cases "kern svcOpenProcess (close_overlay_handle s)") auto
  note p = open_process_ok [OF c o]
  have "handles_ok (set_overlay pid h s1)" for pid
  proof (cases "res = 0")
    case True
    with p c z show ?thesis by (auto simp: set_overlay_def handles_ok_def held_handles_def)
  next
    case False
    with p z show ?thesis by (auto simp: set_overlay_def handles_ok_def held_handles_def)
  qed
  with assms c o show ?thesis by (simp add: send_overlay_stats_def Let_def)
qed

lemma thread_ready_ok: "handles_ok (thread_ready_release E t f w d b s) = handles_ok s"
  by (simp add: thread_ready_release_def handles_ok_def Let_def)

lemma capture_ok:
  assumes "handles_ok s" "w < 2"
  shows "handles_ok (snd (capture_screen E is_top info dst w s))"
proof -
  have d: "handles_ok (snd (do_dma E w b t p z phys a 0 s))"
    "handles_ok (snd (do_dma E w b t p z phys' a' 1 (snd (do_dma E w b t p z phys a 0 s))))" for b t p z phys a phys' a'
    using do_dma_ok assms by simp_all
  show ?thesis
    using assms(1) d by (auto simp: capture_screen_def Let_def thread_ready_ok split: prod.splits intro!: send_overlay_ok)
      (metis snd_conv)+
qed


section \<open>Transfers stay inside their buffers\<close>

definition base_ok :: "cap_state \<Rightarrow> bool" where
  "base_ok s \<longleftrightarrow> sp_game_fcram_base (cs_params s) \<in> {0, 0x14000000, 0x30000000}"

text \<open>The addresses that the memory of the display and of a process is mapped to.\<close>

definition source_ok :: "u32 \<Rightarrow> bool" where
  "source_ok a \<longleftrightarrow> 0x1f000000 \<le> a \<and> a < 0x1f600000 \<or> 0x14000000 \<le> a \<and> a < 0x24000000
     \<or> 0x30000000 \<le> a \<and> a < 0x40000000"

abbreviation klog :: "cap_state \<Rightarrow> dma_op list" where "klog s \<equiv> k_log (cs_kernel s)"

lemma quiet_log:
  "kern svcOpenProcess s = (r, s') \<Longrightarrow> klog s' = klog s"
  "kern getProcessTIDByHandle s = (r2, s') \<Longrightarrow> klog s' = klog s"
  "kern svcGetProcessList s = (r3, s') \<Longrightarrow> klog s' = klog s"
  "kern svcFlushProcessDataCache s = (r4, s') \<Longrightarrow> klog s' = klog s"
  by (auto simp: kern_def svcOpenProcess_def getProcessTIDByHandle_def svcGetProcessList_def opened_def
      svcFlushProcessDataCache_def Let_def split: list.splits prod.splits)

lemma close_log [simp]: "klog (close_handle h s) = klog s" "cs_params (close_handle h s) = cs_params s"
  by (simp_all add: close_handle_def svcCloseHandle_def)

lemma close_overlay_log [simp]:
  "klog (close_overlay_handle s) = klog s"
  "sp_game_fcram_base (cs_params (close_overlay_handle s)) = sp_game_fcram_base (cs_params s)"
  by (simp_all add: close_overlay_handle_def set_overlay_def Let_def)

lemma close_game_base: "base_ok s \<Longrightarrow> base_ok (close_game_handle s)"
  by (simp add: base_ok_def close_game_handle_def Let_def)

lemma scan_pids_log: "klog (scan_pids pids s) = klog s \<and> (base_ok s \<longrightarrow> base_ok (scan_pids pids s))"
proof (induction pids arbitrary: s)
  case Nil
  then show ?case by simp
next
  case (Cons pid pids)
  obtain res process s1 where o: "kern svcOpenProcess s = ((res, process), s1)"
    by (cases "kern svcOpenProcess s") auto
  obtain res2 tid s2 where t: "kern getProcessTIDByHandle s1 = ((res2, tid), s2)"
    by (cases "kern getProcessTIDByHandle s1") auto
  have p: "cs_params s1 = cs_params s" "cs_params s2 = cs_params s" "klog s1 = klog s" "klog s2 = klog s"
    using kern_params [OF o] kern_params [OF t] quiet_log(1) [OF o] quiet_log(2) [OF t] by simp_all
  show ?case
    using Cons.IH [of s] Cons.IH [of s1] Cons.IH [of "close_handle process s2"]
      Cons.IH [of "close_handle process (s2\<lparr>cs_params := (cs_params s2)\<lparr>sp_pid := 0\<rparr>\<rparr>)"] p
    by (simp add: o t base_ok_def)
qed

lemma find_game_log: "klog (find_game p s) = klog s \<and> (base_ok s \<longrightarrow> base_ok (find_game p s))"
proof -
  obtain res process s1 where o: "kern svcOpenProcess s = ((res, process), s1)"
    by (cases "kern svcOpenProcess s") auto
  let ?s = "if p \<noteq> 0 then if res = 0 then set_game_handle process s1 else s1 else s"
  have k: "klog ?s = klog s \<and> (base_ok s \<longrightarrow> base_ok ?s)"
    using kern_params [OF o] quiet_log(1) [OF o] by (simp add: set_game_handle_def base_ok_def)
  obtain res2 pids s2 where t: "kern svcGetProcessList ?s = ((res2, pids), s2)"
    by (cases "kern svcGetProcessList ?s") auto
  have k2: "klog s2 = klog s \<and> (base_ok s \<longrightarrow> base_ok s2)"
    using kern_params [OF t] quiet_log(3) [OF t] k by (simp add: base_ok_def)
  have "find_game p s = (if sp_game_handle (cs_params ?s) = 0 then if res2 = 0 then scan_pids pids s2 else s2 else ?s)"
    using t by (simp add: find_game_def o Let_def split: if_splits)
  with k k2 scan_pids_log [of pids s2] show ?thesis by presburger
qed

lemma find_fcram_log:
  assumes "base_ok s" "find_fcram s = (h, s')"
  shows "klog s' = klog s" "base_ok s'" "h \<noteq> 0 \<longrightarrow> sp_game_fcram_base (cs_params s') \<noteq> 0"
proof -
  obtain r1 s1 where a: "kern svcFlushProcessDataCache s = (r1, s1)" by (cases "kern svcFlushProcessDataCache s")
  obtain r2 s2 where b: "kern svcFlushProcessDataCache s1 = (r2, s2)" by (cases "kern svcFlushProcessDataCache s1")
  have p: "cs_params s1 = cs_params s" "cs_params s2 = cs_params s" "klog s1 = klog s" "klog s2 = klog s"
    using kern_params [OF a] kern_params [OF b] quiet_log(4) [OF a] quiet_log(4) [OF b] by simp_all
  then have "base_ok (close_game_handle s2)" using assms(1) by (intro close_game_base) (simp add: base_ok_def)
  then have all: "klog s' = klog s \<and> base_ok s' \<and> (h \<noteq> 0 \<longrightarrow> sp_game_fcram_base (cs_params s') \<noteq> 0)"
    using assms p by (auto simp: find_fcram_def a b base_ok_def close_game_zero split: if_splits)
  then show "klog s' = klog s" "base_ok s'" "h \<noteq> 0 \<longrightarrow> sp_game_fcram_base (cs_params s') \<noteq> 0" by blast+
qed

lemma get_game_handle_log:
  assumes "base_ok s" "get_game_handle E s = (h, s')"
  shows "klog s' = klog s \<and> base_ok s' \<and> (h \<noteq> 0 \<longrightarrow> sp_game_fcram_base (cs_params s') \<noteq> 0)"
proof -
  define u where "u = (if ce_game_pid E \<noteq> sp_game_pid (cs_params s)
     then (close_game_handle s)\<lparr>cs_params := (cs_params (close_game_handle s))\<lparr>sp_game_pid := ce_game_pid E\<rparr>\<rparr> else s)"
  define t where "t = (if sp_game_handle (cs_params u) = 0 then find_game (ce_game_pid E) u else u)"
  have 1: "klog u = klog s" "base_ok u"
    using assms(1) close_game_base [OF assms(1)] by (simp_all add: u_def base_ok_def close_game_zero)
  have 2: "klog t = klog s" "base_ok t"
    using 1 find_game_log [of "ce_game_pid E" u] by (simp_all add: t_def)
  have g: "get_game_handle E s = (if sp_game_handle (cs_params t) = 0 then (0, t) else find_fcram t)"
    unfolding t_def u_def get_game_handle_def Let_def by (rule refl)
  show ?thesis
  proof (cases "sp_game_handle (cs_params t) = 0")
    case True
    with g assms(2) 2 show ?thesis by auto
  next
    case False
    with g assms(2) have f: "find_fcram t = (h, s')" by simp
    show ?thesis using find_fcram_log [OF 2(2) f] 2(1) by simp
  qed
qed

lemma window:
  fixes phys :: u32
  assumes "lo' \<le> phys" "phys < lo' + n" "unat base + unat n < 2 ^ 32" "unat lo' + unat n < 2 ^ 32"
  shows "base \<le> base + (phys - lo')" "base + (phys - lo') < base + n"
proof -
  have d: "unat (phys - lo') = unat phys - unat lo'" using assms(1) by (simp add: unat_sub)
  have l: "unat (lo' + n) = unat lo' + unat n" using assms(4) by (simp add: unat_add_no_wrap)
  then have lt: "unat phys - unat lo' < unat n" using assms(1,2) by (simp add: word_less_nat_alt word_le_nat_alt)
  have s: "unat (base + (phys - lo')) = unat base + (unat phys - unat lo')"
    using d lt assms(3) by (subst unat_add_no_wrap) simp_all
  have b: "unat (base + n) = unat base + unat n" using assms(3) by (simp add: unat_add_no_wrap)
  show "base \<le> base + (phys - lo')" "base + (phys - lo') < base + n"
    using s b lt by (simp_all add: word_le_nat_alt word_less_nat_alt)
qed

lemma dma_source_log:
  assumes b: "base_ok s" and d: "dma_source E phys s = (r, s')"
  shows "klog s' = klog s \<and> base_ok s' \<and> (\<forall>process addr. r = Some (process, addr) \<longrightarrow> source_ok addr)"
proof (cases "is_in_vram phys")
  case True
  have "source_ok (0x1f000000 + (phys - 0x18000000))"
    using window [of "0x18000000" phys "0x00600000" "0x1f000000"] True by (simp add: is_in_vram_def source_ok_def)
  with True d close_game_base [OF b] show ?thesis by (auto simp: dma_source_def close_game_zero)
next
  case nv: False
  show ?thesis
  proof (cases "is_in_fcram phys")
    case True
    obtain h s1 where g: "get_game_handle E s = (h, s1)" by (cases "get_game_handle E s")
    note l = get_game_handle_log [OF b g]
    have "source_ok (sp_game_fcram_base (cs_params s1) + (phys - 0x20000000))" if "h \<noteq> 0"
    proof -
      have "sp_game_fcram_base (cs_params s1) = 0x14000000 \<or> sp_game_fcram_base (cs_params s1) = 0x30000000"
        using l that by (auto simp: base_ok_def)
      then show ?thesis
        using window [of "0x20000000" phys "0x10000000" "0x14000000"]
          window [of "0x20000000" phys "0x10000000" "0x30000000"] True
        by (auto simp: is_in_fcram_def source_ok_def)
    qed
    with True nv d g l show ?thesis by (auto simp: dma_source_def split: if_splits)
  next
    case False
    with nv d b show ?thesis by (auto simp: dma_source_def)
  qed
qed

text \<open>At most one transfer per eye, with the given destination and size.\<close>

lemma do_dma_log:
  assumes b: "base_ok s" and d: "do_dma E w bs ts pt sz phys dst eye s = (r, s')"
  shows "base_ok s' \<and> (klog s' = klog s \<or> (\<exists>x. klog s' = klog s @ [x] \<and> phys \<noteq> 0 \<and> dm_dst x = dst \<and> dm_size x = sz
     \<and> dm_burst x = ucast bs \<and> dm_transfer x = ucast ts \<and> source_ok (dm_addr x)))"
proof -
  let ?s = "if get_dma eye w s \<noteq> 0 then set_dma eye w 0 (close_handle (get_dma eye w s) s) else s"
  have k: "klog ?s = klog s" "base_ok ?s" using b by (simp_all add: set_dma_def base_ok_def)
  obtain src s1 where a: "dma_source E phys ?s = (src, s1)" by (cases "dma_source E phys ?s")
  note l = dma_source_log [OF k(2) a]
  show ?thesis
  proof (cases "phys = 0 \<or> src = None")
    case True
    then have "s' = ?s \<or> s' = s1" using d a unfolding do_dma_def Let_def by (auto simp only: split: if_splits option.splits)
    then have "klog s' = klog s \<and> base_ok s'" using k l by (elim disjE) (simp_all only: simp_thms)
    then show ?thesis by blast
  next
    case False
    then obtain process addr where src: "src = Some (process, addr)" "phys \<noteq> 0" by auto
    let ?d = "\<lparr>dm_dst = dst, dm_process = process, dm_addr = addr, dm_size = sz,
        dm_burst = ucast bs, dm_transfer = ucast ts, dm_stride = ucast pt\<rparr>"
    obtain res h s2 where q: "kern (svcStartInterProcessDma ?d) s1 = ((res, h), s2)"
      by (cases "kern (svcStartInterProcessDma ?d) s1") auto
    have p: "cs_params s2 = cs_params s1" "klog s2 = klog s1 \<or> klog s2 = klog s1 @ [?d]"
      using kern_params [OF q] q by (auto simp: kern_def svcStartInterProcessDma_def Let_def split: list.splits prod.splits if_splits)
    have s': "s' = (if res \<noteq> 0 then close_game_handle s2 else set_dma eye w h s2)"
      using d a src q unfolding do_dma_def Let_def by (auto split: if_splits)
    have "base_ok s2" using l p(1) by (simp add: base_ok_def)
    then have "base_ok s'" using close_game_base s' by (auto simp: set_dma_def base_ok_def)
    moreover have "klog s' = klog s2" using s' by (simp add: close_game_zero set_dma_def)
    ultimately show ?thesis using p(2) l k src by auto
  qed
qed


text \<open>The screen sizes of the graphics library.\<close>

definition ctru_dims :: "cap_env \<Rightarrow> bool" where
  "ctru_dims E \<longleftrightarrow> ce_width E = 240 \<and> ce_height_top E = 400 \<and> ce_height_top_2x E = 800 \<and> ce_height_bottom E = 320"

lemma shrink_small:
  assumes "t < 0x8000"
  shows "shrink_transfer t mul = (t, mul)"
proof -
  have "\<not> push_bit 15 1 \<le> t" using assms by (simp add: linorder_not_le)
  then show ?thesis by (subst shrink_transfer.simps) (simp only: if_False)
qed

lemma shrink_once: "0x8000 \<le> t \<Longrightarrow> t div 2 < 0x8000 \<Longrightarrow> shrink_transfer t mul = (t div 2, mul div 2)"
  by (subst shrink_transfer.simps) (simp add: shrink_small)

definition geometry_ok :: "cap_env \<Rightarrow> bool \<Rightarrow> bool \<Rightarrow> u32 \<times> u32 \<times> u32 \<times> u32 \<Rightarrow> bool" where
  "geometry_ok E is_top wide g \<longleftrightarrow>
     (case g of (t, b, p, z) \<Rightarrow>
        0 < unat t \<and> unat t < 2 ^ 15 \<and> 0 < unat b \<and> unat b < 2 ^ 15 \<and> unat t dvd unat z
      \<and> unat z * (if wide \<or> \<not> is_top then 1 else 2) \<le> unat (img_buffer_size E is_top))"

lemma dma_geometry_ok:
  assumes d: "ctru_dims E"
  shows "geometry_ok E is_top (both \<and> si_full_width info) (dma_geometry E is_top info both format)"
proof -
  define pitch where "pitch = (if \<not> both \<and> si_full_width info then si_pitch info * 2 else si_pitch info)"
  define wide where "wide = (both \<and> si_full_width info)"
  have s: "shrink_transfer 15360 16 = (15360, 16)" "shrink_transfer 11520 16 = (11520, 16)"
    "shrink_transfer 7680 16 = (7680, 16)" "shrink_transfer 61440 64 = (30720, 32)"
    "shrink_transfer 46080 64 = (23040, 32)" "shrink_transfer 30720 64 = (30720, 64)"
    by (simp_all add: shrink_small shrink_once)
  consider "format = 0" | "format = 1" | "format \<noteq> 0" "format \<noteq> 1" by blast
  then show ?thesis unfolding dma_geometry_def pitch_def [symmetric] wide_def [symmetric]
    using d [unfolded ctru_dims_def] s
    by cases (simp_all add: geometry_ok_def Let_def img_buffer_size_def split: if_splits)
qed

definition dma_safe :: "cap_env \<Rightarrow> bool \<Rightarrow> u32 \<Rightarrow> dma_op \<Rightarrow> bool" where
  "dma_safe E is_top img d \<longleftrightarrow>
     unat img \<le> unat (dm_dst d) \<and> unat (dm_dst d) + unat (dm_size d) \<le> unat img + unat (img_buffer_size E is_top)
   \<and> 0 <s dm_transfer d \<and> 0 <s dm_burst d \<and> unat (dm_transfer d) dvd unat (dm_size d) \<and> source_ok (dm_addr d)"

lemma signed_pos:
  assumes "0 < unat (x :: u32)" "unat x < 2 ^ 15"
  shows "0 <s (ucast x :: i16)" "unat (ucast x :: i16) = unat x"
proof -
  show u: "unat (ucast x :: i16) = unat x" using assms(2)
    by (simp add: unsigned_ucast_eq take_bit_nat_eq_self)
  have "sint (ucast x :: i16) = int (unat x)"
  proof -
    have "uint (ucast x :: i16) = int (unat x)" using u by (simp only: uint_nat)
    moreover have "signed_take_bit 15 (int n) = int n" if "n < 2 ^ 15" for n
      using that by (intro signed_take_bit_int_eq_self) simp_all
    from this [OF assms(2)] have "signed_take_bit 15 (int (unat x)) = int (unat x)" .
    ultimately show ?thesis unfolding sint_uint by simp
  qed
  then have "0 < sint (ucast x :: i16)" using assms(1) by (simp only: of_nat_0_less_iff)
  then show "0 <s (ucast x :: i16)" by (simp add: word_sless_alt)
qed

lemma overlay_log: "klog (send_overlay_stats E s) = klog s"
  by (auto simp: send_overlay_stats_def set_overlay_def Let_def dest!: quiet_log(1) split: prod.splits)

lemma thread_ready_log [simp]: "cs_kernel (thread_ready_release E t f w d b s) = cs_kernel s"
  by (simp add: thread_ready_release_def Let_def)


text \<open>The two transfers of a frame.\<close>

lemma capture_log:
  assumes d: "ctru_dims E" and b: "base_ok s" and img: "unat img + unat (img_buffer_size E is_top) < 2 ^ 32"
    and bot: "\<not> is_top \<longrightarrow> si_src_1 info = 0 \<and> \<not> si_full_width info"
  shows "\<exists>ds. klog (snd (capture_screen E is_top info img w s)) = klog s @ ds \<and> length ds \<le> 2
     \<and> (\<forall>x \<in> set ds. dma_safe E is_top img x)"
proof -
  define both where "both = (top_screen_width (cs_screen s) = TBoth)"
  define wide where "wide = (both \<and> si_full_width info)"
  define format where "format = si_format info AND 0xf"
  obtain t bs p z where g: "dma_geometry E is_top info both format = (t, bs, p, z)"
    by (cases "dma_geometry E is_top info both format") auto
  have ok: "geometry_ok E is_top wide (t, bs, p, z)"
    using dma_geometry_ok [OF d, of is_top both info format] g by (simp add: wide_def)
  then have pos: "0 < unat t" "unat t < 2 ^ 15" "0 < unat bs" "unat bs < 2 ^ 15" "unat t dvd unat z"
    and fit: "unat z * (if wide \<or> \<not> is_top then 1 else 2) \<le> unat (img_buffer_size E is_top)"
    by (auto simp: geometry_ok_def)
  have zle: "unat z \<le> unat (img_buffer_size E is_top)" using fit by (auto split: if_splits)
  define phys_0 phys_1 where "phys_0 = (if top_screen_width (cs_screen s) = TRight \<and> \<not> si_full_width info
      then si_src_1 info else si_src_0 info)"
    and "phys_1 = (if both \<and> \<not> si_full_width info then si_src_1 info else 0)"
  obtain r0 s0 where d0: "do_dma E w bs t p z phys_0 img 0 s = (r0, s0)"
    by (cases "do_dma E w bs t p z phys_0 img 0 s")
  obtain r1 s1 where d1: "do_dma E w bs t p z phys_1 (img + z) 1 s0 = (r1, s1)"
    by (cases "do_dma E w bs t p z phys_1 (img + z) 1 s0")
  note l0 = do_dma_log [OF b d0]
  have b0: "base_ok s0" using l0 by blast
  note l1 = do_dma_log [OF b0 d1]
  have safe: "dma_safe E is_top img x" if "dm_size x = z" "dm_burst x = ucast bs" "dm_transfer x = ucast t"
      "source_ok (dm_addr x)" "unat img \<le> unat (dm_dst x)"
      "unat (dm_dst x) + unat z \<le> unat img + unat (img_buffer_size E is_top)" for x
    using that signed_pos [OF pos(1,2)] signed_pos [OF pos(3,4)] pos(5) by (simp add: dma_safe_def)
  have two: "phys_1 \<noteq> 0 \<Longrightarrow> 2 * unat z \<le> unat (img_buffer_size E is_top)"
    using fit bot by (auto simp: phys_1_def wide_def split: if_splits)
  have sum: "unat (img + z) = unat img + unat z"
    using zle img by (intro unat_add_no_wrap) simp
  have a0: "\<exists>ds. klog s0 = klog s @ ds \<and> length ds \<le> 1 \<and> (\<forall>x \<in> set ds. dma_safe E is_top img x)"
  proof (cases "klog s0 = klog s")
    case True
    then show ?thesis by simp
  next
    case False
    with l0 obtain x where "klog s0 = klog s @ [x]" "dm_dst x = img" "dm_size x = z" "dm_burst x = ucast bs"
        "dm_transfer x = ucast t" "source_ok (dm_addr x)" by blast
    with safe [of x] zle show ?thesis by (intro exI [of _ "[x]"]) simp
  qed
  have a1: "\<exists>ds. klog s1 = klog s0 @ ds \<and> length ds \<le> 1 \<and> (\<forall>x \<in> set ds. dma_safe E is_top img x)"
  proof (cases "klog s1 = klog s0")
    case True
    then show ?thesis by simp
  next
    case False
    with l1 obtain x where "klog s1 = klog s0 @ [x]" "phys_1 \<noteq> 0" "dm_dst x = img + z" "dm_size x = z"
        "dm_burst x = ucast bs" "dm_transfer x = ucast t" "source_ok (dm_addr x)" by blast
    with safe [of x] two sum show ?thesis by (intro exI [of _ "[x]"]) simp
  qed
  obtain ds es where ds: "klog s0 = klog s @ ds" "length ds \<le> 1" "\<forall>x \<in> set ds. dma_safe E is_top img x"
      "klog s1 = klog s0 @ es" "length es \<le> 1" "\<forall>x \<in> set es. dma_safe E is_top img x"
    using a0 a1 by blast
  have c: "snd (capture_screen E is_top info img w s) =
      (if 4 < format then s else if r0 = 0 then s1
       else thread_ready_release E is_top (si_format info) w [r0, r1] (both \<and> \<not> si_full_width info)
              (send_overlay_stats E s1))"
    using d0 d1 g
    by (simp add: capture_screen_def both_def [symmetric] format_def [symmetric] phys_0_def [symmetric]
        phys_1_def [symmetric] Let_def)
  show ?thesis
  proof (cases "4 < format")
    case True
    then show ?thesis unfolding c by simp
  next
    case False
    then have "klog (snd (capture_screen E is_top info img w s)) = klog s1"
      unfolding c by (simp add: overlay_log)
    then show ?thesis using ds by (intro exI [of _ "ds @ es"]) auto
  qed
qed

section \<open>Properties\<close>



definition cap_ex :: cap_state where
  "cap_ex = \<lparr>cs_params = \<lparr>sp_dmas = [[7, 0], [0, 0]], sp_game_handle = 0, sp_game_pid = 0, sp_game_fcram_base = 0,
               sp_pid = 0, sp_overlay = \<lparr>ov_game_pid = 0, ov_game_handle = 0\<rparr>\<rparr>,
             cs_kernel = \<lparr>k_open = {#7#}, k_procs = [(0, 11)], k_lists = [], k_tids = [], k_flush = [-1, 0],
               k_dmas = [(0, 12), (-1, 0)], k_log = []\<rparr>,
             cs_screen = screen_zero, cs_work_ready = [], cs_thread_ready = [0, 0, 0]\<rparr>"

definition cap_ex_env :: cap_env where
  "cap_ex_env = \<lparr>ce_width = 240, ce_height_top = 400, ce_height_top_2x = 800, ce_height_bottom = 320,
     ce_game_pid = 40, ce_port_game_pid = 0, ce_home_handle = 3, ce_home_pid = 15, ce_overlay_stats = 0,
     ce_core_count = \<lparr>ri = 2\<rparr>\<rparr>"

definition cap_ex_reg :: "u32 \<Rightarrow> u32" where
  "cap_ex_reg a = (if a = IoBasePdc + 0x568 then 0x20001000 else if a = IoBasePdc + 0x590 then 720
     else if a = IoBasePdc + 0x570 then 1 else 0)"



end
