(* ===== verification/Spec2Isabelle.thy ===== *)
theory Spec2Isabelle
  imports Ranged Worker_Dst Frame_Size Bit_Encoder Nwm_Output Nwm_Sender Audio Dct Pre_Process Huff_Limit Jpeg_Headers Row_Split Work_Sync Term_Frame Screen_Capture
begin

text \<open>Verification of the NTR-HR streaming core.\<close>

end
